(* ===== verification/Prelude.thy ===== *)
theory Prelude
  imports Main "HOL-Library.Word" "HOL-Library.Monad_Syntax"
begin

unbundle bit_operations_syntax

text \<open>
  Shared vocabulary of the development: machine integers at the widths the firmware
  uses, byte buffers, byte-addressed memory for code that writes through a pointer,
  and the arithmetic facts that turn shifts and masks into \<open>div\<close> and \<open>mod\<close>.

  \<^item> \<open>u8\<close>, \<open>u16\<close>, \<open>u32\<close>, \<open>u64\<close> are the C fixed-width integers.
  \<^item> A read-only buffer \<open>(const uint8_t *buf, size_t len)\<close> is a \<open>u8 list\<close>; a read is
    \<open>rd\<close>, which is \<open>None\<close> outside the buffer.  A parser that never yields \<open>None\<close> never
    reads out of bounds.
  \<^item> An output pointer is a position in a \<open>mem\<close> (address to byte); \<open>write_bytes\<close> is
    \<open>memcpy\<close> into it and \<open>read_bytes\<close> reads a run of bytes back.

  The collections: \<open>word_nat\<close> moves word expressions to \<open>nat\<close>, \<open>mem_simps\<close> normalises
  memory writes.
\<close>

named_theorems word_nat \<open>word operations read as natural-number arithmetic\<close>
named_theorems mem_simps \<open>normal forms for memory writes and reads\<close>

type_synonym u8 = "8 word"
type_synonym u16 = "16 word"
type_synonym u32 = "32 word"
type_synonym u64 = "64 word"
type_synonym bytes = "u8 list"
type_synonym mem = "nat \<Rightarrow> u8"

section \<open>Bounds-checked reads\<close>

definition rd :: "bytes \<Rightarrow> nat \<Rightarrow> u8 option" where
  "rd buf i = (if i < length buf then Some (buf ! i) else None)"

lemma rd_in [simp]: "i < length buf \<Longrightarrow> rd buf i = Some (buf ! i)"
  by (simp add: rd_def)

lemma rd_out [simp]: "length buf \<le> i \<Longrightarrow> rd buf i = None"
  by (simp add: rd_def)

lemma rd_eq_Some: "rd buf i = Some b \<longleftrightarrow> i < length buf \<and> b = buf ! i"
  by (auto simp: rd_def)

section \<open>Byte-addressed memory\<close>

definition write_bytes :: "mem \<Rightarrow> nat \<Rightarrow> bytes \<Rightarrow> mem" where
  "write_bytes m a bs = (\<lambda>i. if a \<le> i \<and> i < a + length bs then bs ! (i - a) else m i)"

definition read_bytes :: "mem \<Rightarrow> nat \<Rightarrow> nat \<Rightarrow> bytes" where
  "read_bytes m a n = map m [a..<a + n]"

lemma length_read_bytes [simp]: "length (read_bytes m a n) = n"
  by (simp add: read_bytes_def)

lemma write_bytes_Nil [simp, mem_simps]: "write_bytes m a [] = m"
  by (rule ext) (auto simp: write_bytes_def)

lemma write_bytes_outside:
  "i < a \<or> a + length bs \<le> i \<Longrightarrow> write_bytes m a bs i = m i"
  by (auto simp: write_bytes_def)

lemma write_bytes_Cons:
  "write_bytes m a (b # bs) = write_bytes (m(a := b)) (Suc a) bs"
  by (rule ext) (auto simp: write_bytes_def nth_Cons' Suc_diff_le)

text \<open>Consecutive addresses in the form \<open>out + 3\<close> the code uses.\<close>

lemma addr_3: "Suc (Suc (Suc a)) = a + 3"
  by simp

lemma addr_Suc: "Suc (a + numeral k) = a + (numeral k + 1)"
  by simp

lemmas poke_simps = write_bytes_Cons write_bytes_Nil addr_3 addr_Suc

lemma write_bytes_append [mem_simps]:
  "write_bytes (write_bytes m a xs) (a + length xs) ys = write_bytes m a (xs @ ys)"
  by (rule ext) (auto simp: write_bytes_def nth_append)

lemma read_write_same [simp, mem_simps]:
  "n = length bs \<Longrightarrow> read_bytes (write_bytes m a bs) a n = bs"
  by (auto simp: read_bytes_def write_bytes_def intro!: nth_equalityI)

lemma write_bytes_overwrite:
  "length ys \<le> length xs \<Longrightarrow>
     write_bytes (write_bytes m a xs) a ys = write_bytes m a (ys @ drop (length ys) xs)"
  by (rule ext) (auto simp: write_bytes_def nth_append)

section \<open>Shifts and masks as arithmetic\<close>

lemma unat_bound: "unat (w :: 'a::len word) < 2 ^ LENGTH('a)"
  by (rule unsigned_less)

lemma u8_bound: "unat (b :: u8) < 256"
  using unat_bound [of b] by simp

lemma u16_bound: "unat (v :: u16) < 65536"
  using unat_bound [of v] by simp

lemma u32_bound: "unat (v :: u32) < 4294967296"
  using unat_bound [of v] by simp

lemma unat_push_bit_word [word_nat]:
  "unat (push_bit n w :: 'a::len word) = (unat w * 2 ^ n) mod 2 ^ LENGTH('a)"
  by (subst unsigned_push_bit_eq) (simp add: take_bit_eq_mod push_bit_eq_mult)

lemma unat_drop_bit_word [word_nat]:
  "unat (drop_bit n w :: 'a::len word) = unat w div 2 ^ n"
  by (subst unat_drop_bit_eq) (simp add: drop_bit_eq_div)

lemma unat_ucast_word [word_nat]:
  "unat (ucast (w :: 'a::len word) :: 'b::len word) = unat w mod 2 ^ LENGTH('b)"
  by (simp add: unsigned_ucast_eq take_bit_eq_mod)

lemma nat_or_disjoint:
  fixes a b :: nat
  assumes "b < 2 ^ n"
  shows "(a * 2 ^ n) OR b = a * 2 ^ n + b"
proof -
  have "take_bit n b = b"
    using assms by (simp add: take_bit_nat_eq_self_iff)
  then have *: "\<And>k. bit b k \<Longrightarrow> k < n"
    by (metis bit_take_bit_iff)
  have "push_bit n a AND b = 0"
    by (rule bit_eqI) (auto simp: bit_simps dest!: *)
  then show ?thesis
    by (simp add: disjunctive_add_eq_or push_bit_eq_mult)
qed

lemma div_mod_slice:
  fixes n a b c :: nat
  assumes "0 < a"
  shows "(n mod (a * (b * c))) div a mod b = n div a mod b"
proof -
  have "(n mod (a * (b * c))) div a = n div a mod (b * c)"
    using assms by (subst mod_mult2_eq) simp
  then show ?thesis
    by (simp add: mod_mod_cancel)
qed

lemma unat_of_nat_small [word_nat]:
  "n < 2 ^ LENGTH('a) \<Longrightarrow> unat (of_nat n :: 'a::len word) = n"
  by (simp add: unat_of_nat)

lemma ucast_of_nat_down: "(ucast (of_nat n :: u64) :: u32) = of_nat n"
  by (simp add: word_unat_eq_iff unat_ucast_word unat_of_nat mod_mod_cancel)

lemma xor_eq_zero_iff: "(x :: u8) XOR y = 0 \<longleftrightarrow> x = y"
  by (metis xor.assoc xor.left_neutral xor.right_neutral xor_self_eq)

text \<open>Two bytes in network order, as \<open>(uint16_t)((hi << 8) | lo)\<close>.\<close>

definition be16 :: "u8 \<Rightarrow> u8 \<Rightarrow> u16" where
  "be16 hi lo = push_bit 8 (ucast hi) OR ucast lo"

lemma unat_be16 [word_nat]: "unat (be16 hi lo) = unat hi * 256 + unat lo"
proof -
  have hi: "unat hi * 256 < 65536" "unat hi < 65536"
    using u8_bound [of hi] by linarith+
  have lo: "unat lo < 65536"
    using u8_bound [of lo] by linarith
  have "unat (be16 hi lo) = (unat hi * 2 ^ 8) OR unat lo"
    using hi lo by (simp add: be16_def unsigned_or_eq word_nat)
  also have "\<dots> = unat hi * 2 ^ 8 + unat lo"
    using u8_bound [of lo] by (intro nat_or_disjoint) simp
  finally show ?thesis by simp
qed

text \<open>The bytes of a 16-bit value, most significant first.\<close>

definition hi8 :: "u16 \<Rightarrow> u8" where
  "hi8 v = ucast (drop_bit 8 v)"

definition lo8 :: "u16 \<Rightarrow> u8" where
  "lo8 v = ucast v"

lemma unat_hi8 [word_nat]: "unat (hi8 v) = unat v div 256"
proof -
  have "unat v div 256 < 256"
    using u16_bound [of v] by linarith
  then show ?thesis by (simp add: hi8_def word_nat)
qed

lemma unat_lo8 [word_nat]: "unat (lo8 v) = unat v mod 256"
  by (simp add: lo8_def word_nat)

lemma be16_hi8_lo8 [simp]: "be16 (hi8 v) (lo8 v) = v"
  by (simp add: word_unat_eq_iff word_nat)

lemma hi8_be16 [simp]: "hi8 (be16 a b) = a"
  using u8_bound [of b] by (simp add: word_unat_eq_iff word_nat)

lemma lo8_be16 [simp]: "lo8 (be16 a b) = b"
  using u8_bound [of b] by (simp add: word_unat_eq_iff word_nat)

section \<open>Signed C integers\<close>

text \<open>
  A conversion to \<open>int16_t\<close> or \<open>int32_t\<close>, and the value of an expression computed in such a type:
  two's complement wraps (where C leaves signed overflow undefined, this is what the compiler's
  plain arithmetic instructions do).
\<close>

definition s16 :: "int \<Rightarrow> int" where "s16 = signed_take_bit 15"
definition s32 :: "int \<Rightarrow> int" where "s32 = signed_take_bit 31"

lemma s32_id: "- (2 ^ 31) \<le> x \<Longrightarrow> x < 2 ^ 31 \<Longrightarrow> s32 x = x"
  by (simp add: s32_def signed_take_bit_int_eq_self_iff)

lemma s32_id_nonneg: "0 \<le> x \<Longrightarrow> x < 2 ^ 31 \<Longrightarrow> s32 x = x"
  by (rule s32_id) simp_all

lemma s32_le: "0 \<le> x \<Longrightarrow> s32 x \<le> x"
  by (simp add: s32_def signed_take_bit_int_less_eq_self_iff)

lemma s32_cong: "x mod 2 ^ 32 = y mod 2 ^ 32 \<Longrightarrow> s32 x = s32 y"
  by (simp add: s32_def signed_take_bit_eq_iff_take_bit_eq take_bit_eq_mod)

lemma s32_mod: "s32 x mod 2 ^ 32 = x mod 2 ^ 32"
proof -
  have "take_bit 32 (signed_take_bit 31 x) = take_bit 32 x"
    by (simp add: take_bit_signed_take_bit)
  then show ?thesis
    by (simp add: s32_def take_bit_eq_mod)
qed

lemma s32_add_s32: "s32 (a + s32 b) = s32 (a + b)"
  by (rule s32_cong) (metis mod_add_right_eq s32_mod)

lemma s32_diff_s32: "s32 (s32 a - b) = s32 (a - b)"
  by (rule s32_cong) (metis mod_diff_left_eq s32_mod)

end
