(* ===== verification/Modbus_Frame.thy ===== *)
theory Modbus_Frame
  imports Prelude
begin

unbundle bit_operations_syntax

text \<open>
  Modbus TCP framing of the external temperature sensors
  (\<open>main/mbtcp_frame.h\<close>, \<open>main/mbtcp_frame.cpp\<close>): building a read request, finding the length
  of a response while it streams in, and parsing the response into registers.  The parser
  works on bytes from the network, so every access goes through \<open>rd\<close> and a write past the
  caller's register array is \<open>None\<close>.  The lemmas show that it never leaves its buffers and
  accepts exactly the responses of the protocol.
\<close>

section \<open>The model\<close>

definition kFcReadHolding :: u8 where "kFcReadHolding = 3"
definition kFcReadInput :: u8 where "kFcReadInput = 4"
definition kMaxReadCount :: nat where "kMaxReadCount = 125"
definition kRequestLen :: nat where "kRequestLen = 12"
definition kHeaderLen :: nat where "kHeaderLen = 7"
definition kMaxResponseLen :: nat where
  "kMaxResponseLen = kHeaderLen + 2 + 2 * kMaxReadCount"

lemmas mbtcp_consts = kFcReadHolding_def kFcReadInput_def kMaxReadCount_def kRequestLen_def
  kHeaderLen_def kMaxResponseLen_def

datatype mbtcp_Parse = MB_Ok | MB_Incomplete | MB_BadProtocol | MB_WrongTransaction
  | MB_WrongUnit | MB_WrongFunction | MB_BadLength | MB_Exception

text \<open>\<open>build_read\<close>: the 12 bytes written to \<open>out\<close>, or \<open>None\<close> where the code returns false.\<close>

definition mbtcp_build_read :: "u16 \<Rightarrow> u8 \<Rightarrow> u8 \<Rightarrow> u16 \<Rightarrow> u16 \<Rightarrow> bytes option" where
  "mbtcp_build_read transaction unit fc start count =
     (if fc \<noteq> kFcReadHolding \<and> fc \<noteq> kFcReadInput then None
      else if count = 0 \<or> unat count > kMaxReadCount then None
      else if unat start + unat count - 1 > 0xFFFF then None
      else Some [hi8 transaction, lo8 transaction, 0, 0, 0, 6, unit, fc,
                 hi8 start, lo8 start, hi8 count, lo8 count])"

text \<open>\<open>frame_length\<close>: 0 stands for a header that is incomplete or invalid.\<close>

definition mbtcp_frame_length :: "bytes \<Rightarrow> nat option" where
  "mbtcp_frame_length buf =
     (if length buf < 6 then Some 0
      else do {
        b4 \<leftarrow> rd buf 4;
        b5 \<leftarrow> rd buf 5;
        let follow = be16 b4 b5;
        Some (if unat follow < 3 \<or> unat follow > kMaxResponseLen - 6 then 0
              else 6 + unat follow)
      })"

text \<open>The copy loop of \<open>parse_read\<close>, from index \<open>i\<close> with \<open>n\<close> registers to go.\<close>

fun mbtcp_copy_regs :: "bytes \<Rightarrow> nat \<Rightarrow> nat \<Rightarrow> u16 list \<Rightarrow> u16 list option" where
  "mbtcp_copy_regs buf i 0 regs_out = Some regs_out"
| "mbtcp_copy_regs buf i (Suc n) regs_out = do {
     hi \<leftarrow> rd buf (9 + 2 * i);
     lo \<leftarrow> rd buf (10 + 2 * i);
     if i < length regs_out
     then mbtcp_copy_regs buf (Suc i) n (regs_out[i := be16 hi lo])
     else None
   }"

text \<open>
  \<open>parse_read\<close>: the outer \<open>None\<close> is an access outside \<open>buf\<close> or \<open>regs_out\<close>; otherwise the
  result code, the contents of \<open>regs_out\<close> and what is stored through \<open>exception_code\<close>.
\<close>

definition mbtcp_parse_read ::
  "bytes \<Rightarrow> u16 \<Rightarrow> u8 \<Rightarrow> u8 \<Rightarrow> u16 \<Rightarrow> u16 list \<Rightarrow> (mbtcp_Parse \<times> u16 list \<times> u8 option) option"
where
  "mbtcp_parse_read buf transaction unit fc count regs_out = do {
     total \<leftarrow> mbtcp_frame_length buf;
     if length buf < 6 then Some (MB_Incomplete, regs_out, None)
     else do {
       b2 \<leftarrow> rd buf 2;
       b3 \<leftarrow> rd buf 3;
       if b2 \<noteq> 0 \<or> b3 \<noteq> 0 then Some (MB_BadProtocol, regs_out, None)
       else if total = 0 then Some (MB_BadLength, regs_out, None)
       else if length buf < total then Some (MB_Incomplete, regs_out, None)
       else do {
         b0 \<leftarrow> rd buf 0;
         b1 \<leftarrow> rd buf 1;
         if be16 b0 b1 \<noteq> transaction then Some (MB_WrongTransaction, regs_out, None)
         else do {
           b6 \<leftarrow> rd buf 6;
           if b6 \<noteq> unit then Some (MB_WrongUnit, regs_out, None)
           else do {
             rfc \<leftarrow> rd buf 7;
             if rfc = (fc OR 0x80) then
               (if total \<noteq> kHeaderLen + 2 then Some (MB_BadLength, regs_out, None)
                else do { code \<leftarrow> rd buf 8; Some (MB_Exception, regs_out, Some code) })
             else if rfc \<noteq> fc then Some (MB_WrongFunction, regs_out, None)
             else do {
               bytes \<leftarrow> rd buf 8;
               if unat bytes \<noteq> 2 * unat count \<or> total \<noteq> kHeaderLen + 2 + unat bytes
               then Some (MB_BadLength, regs_out, None)
               else do {
                 regs \<leftarrow> mbtcp_copy_regs buf 0 (unat count) regs_out;
                 Some (MB_Ok, regs, None)
               }
             }
           }
         }
       }
     }
   }"

definition mbtcp_parse_name :: "mbtcp_Parse \<Rightarrow> string" where
  "mbtcp_parse_name p = (case p of
     MB_Ok \<Rightarrow> ''ok'' | MB_Incomplete \<Rightarrow> ''incomplete'' | MB_BadProtocol \<Rightarrow> ''bad_protocol''
   | MB_WrongTransaction \<Rightarrow> ''wrong_transaction'' | MB_WrongUnit \<Rightarrow> ''wrong_unit''
   | MB_WrongFunction \<Rightarrow> ''wrong_function'' | MB_BadLength \<Rightarrow> ''bad_length''
   | MB_Exception \<Rightarrow> ''exception'')"

section \<open>The protocol's response frame\<close>

text \<open>
  The reference: the application data unit a conforming device answers with
  (MBAP header, function code, byte count, registers most significant byte first).
\<close>

definition reg_bytes :: "u16 list \<Rightarrow> bytes" where
  "reg_bytes regs = concat (map (\<lambda>r. [hi8 r, lo8 r]) regs)"

definition mbtcp_response :: "u16 \<Rightarrow> u8 \<Rightarrow> u8 \<Rightarrow> u16 list \<Rightarrow> bytes" where
  "mbtcp_response transaction unit fc regs =
     (let follow = of_nat (3 + 2 * length regs) in
      [hi8 transaction, lo8 transaction, 0, 0, hi8 follow, lo8 follow, unit, fc,
       of_nat (2 * length regs)] @ reg_bytes regs)"

lemma reg_bytes_simps [simp]:
  "reg_bytes [] = []"
  "reg_bytes (r # rs) = hi8 r # lo8 r # reg_bytes rs"
  by (simp_all add: reg_bytes_def)

lemma length_reg_bytes [simp]: "length (reg_bytes regs) = 2 * length regs"
  by (induction regs) simp_all

lemma nth_reg_bytes:
  "i < length regs \<Longrightarrow>
     reg_bytes regs ! (2 * i) = hi8 (regs ! i) \<and> reg_bytes regs ! Suc (2 * i) = lo8 (regs ! i)"
proof (induction regs arbitrary: i)
  case Nil
  then show ?case by simp
next
  case (Cons r rs)
  then show ?case by (cases i) simp_all
qed

section \<open>The copy loop\<close>

lemma copy_regs_Some:
  "9 + 2 * (i + n) \<le> length buf \<Longrightarrow> i + n \<le> length regs_out \<Longrightarrow>
     mbtcp_copy_regs buf i n regs_out =
       Some (take i regs_out @ map (\<lambda>k. be16 (buf ! (9 + 2 * k)) (buf ! (10 + 2 * k))) [i..<i + n]
             @ drop (i + n) regs_out)"
proof (induction n arbitrary: i regs_out)
  case 0
  then show ?case by simp
next
  case (Suc n)
  let ?v = "be16 (buf ! (9 + 2 * i)) (buf ! (10 + 2 * i))"
  have "mbtcp_copy_regs buf i (Suc n) regs_out =
        mbtcp_copy_regs buf (Suc i) n (regs_out[i := ?v])"
    using Suc.prems by simp
  also have "\<dots> = Some (take (Suc i) (regs_out[i := ?v])
        @ map (\<lambda>k. be16 (buf ! (9 + 2 * k)) (buf ! (10 + 2 * k))) [Suc i..<Suc i + n]
        @ drop (Suc i + n) (regs_out[i := ?v]))"
    using Suc.prems by (intro Suc.IH) simp_all
  also have "take (Suc i) (regs_out[i := ?v]) = take i regs_out @ [?v]"
    using Suc.prems by (simp add: take_Suc_conv_app_nth)
  finally show ?case
    using Suc.prems by (simp add: upt_conv_Cons del: upt_Suc)
qed

lemma copy_regs_response:
  assumes "length regs \<le> length regs_out" and "length hdr = 9"
  shows "mbtcp_copy_regs (hdr @ reg_bytes regs @ rest) 0 (length regs) regs_out =
           Some (regs @ drop (length regs) regs_out)"
proof -
  let ?buf = "hdr @ reg_bytes regs @ rest"
  have "be16 (?buf ! (9 + 2 * k)) (?buf ! (10 + 2 * k)) = regs ! k" if "k < length regs" for k
    using that assms(2) nth_reg_bytes [OF that] by (simp add: nth_append)
  then have "map (\<lambda>k. be16 (?buf ! (9 + 2 * k)) (?buf ! (10 + 2 * k))) [0..<length regs] = regs"
    by (auto intro: nth_equalityI)
  then show ?thesis
    using assms by (subst copy_regs_Some) simp_all
qed

section \<open>Header facts\<close>

lemma frame_length_eq:
  "6 \<le> length buf \<Longrightarrow>
     mbtcp_frame_length buf =
       Some (let follow = unat (be16 (buf ! 4) (buf ! 5)) in
             if follow < 3 \<or> follow > 253 then 0 else 6 + follow)"
  by (simp add: mbtcp_frame_length_def mbtcp_consts Let_def)

lemma frame_length_short: "length buf < 6 \<Longrightarrow> mbtcp_frame_length buf = Some 0"
  by (simp add: mbtcp_frame_length_def)

lemma response_follow:
  "n \<le> 125 \<Longrightarrow> unat (be16 (hi8 (of_nat (3 + 2 * n))) (lo8 (of_nat (3 + 2 * n)))) = 3 + 2 * n"
  by (simp only: be16_hi8_lo8 unat_of_nat) simp

text \<open>The bytes of any buffer that carries a response of \<open>count\<close> registers.\<close>

lemma bytes_as_regs:
  "length bs = 2 * n \<Longrightarrow> \<exists>regs. length regs = n \<and> bs = reg_bytes regs"
proof (induction n arbitrary: bs)
  case 0
  then show ?case by simp
next
  case (Suc n)
  then obtain a b bs' where bs: "bs = a # b # bs'" and "length bs' = 2 * n"
    by (cases bs; cases "tl bs") auto
  then obtain regs where "length regs = n" "bs' = reg_bytes regs"
    using Suc.IH by blast
  then have "length (be16 a b # regs) = Suc n \<and> bs = reg_bytes (be16 a b # regs)"
    by (simp add: bs)
  then show ?case by blast
qed

text \<open>
  Once the whole frame is there, \<open>parse_read\<close> is a cascade of checks on bytes that exist.
\<close>

lemma parse_read_complete:
  assumes f: "unat (be16 (buf ! 4) (buf ! 5)) = follow" "3 \<le> follow" "follow \<le> 253"
    and len: "6 + follow \<le> length buf"
    and regs: "unat count \<le> length regs_out"
  shows "mbtcp_parse_read buf transaction unit fc count regs_out = Some (
     if buf ! 2 \<noteq> 0 \<or> buf ! 3 \<noteq> 0 then (MB_BadProtocol, regs_out, None)
     else if be16 (buf ! 0) (buf ! 1) \<noteq> transaction then (MB_WrongTransaction, regs_out, None)
     else if buf ! 6 \<noteq> unit then (MB_WrongUnit, regs_out, None)
     else if buf ! 7 = (fc OR 0x80) then
       (if follow \<noteq> 3 then (MB_BadLength, regs_out, None)
        else (MB_Exception, regs_out, Some (buf ! 8)))
     else if buf ! 7 \<noteq> fc then (MB_WrongFunction, regs_out, None)
     else if unat (buf ! 8) \<noteq> 2 * unat count \<or> follow \<noteq> 3 + unat (buf ! 8)
       then (MB_BadLength, regs_out, None)
     else (MB_Ok, map (\<lambda>k. be16 (buf ! (9 + 2 * k)) (buf ! (10 + 2 * k))) [0..<unat count]
                  @ drop (unat count) regs_out, None))"
proof -
  have ne: "buf \<noteq> []" and l9: "9 \<le> length buf"
    using f len by auto
  have fl: "mbtcp_frame_length buf = Some (6 + follow)"
    using f l9 by (simp add: frame_length_eq)
  show ?thesis
    using f ne l9 len regs
    by (simp add: mbtcp_parse_read_def fl mbtcp_consts copy_regs_Some)
qed

lemma parse_read_incomplete:
  assumes "6 \<le> length buf" and "unat (be16 (buf ! 4) (buf ! 5)) = follow"
    and "follow < 3 \<or> follow > 253 \<or> length buf < 6 + follow"
  shows "mbtcp_parse_read buf transaction unit fc count regs_out = Some (
     if buf ! 2 \<noteq> 0 \<or> buf ! 3 \<noteq> 0 then (MB_BadProtocol, regs_out, None)
     else if follow < 3 \<or> follow > 253 then (MB_BadLength, regs_out, None)
     else (MB_Incomplete, regs_out, None))"
  using assms by (auto simp: mbtcp_parse_read_def frame_length_eq)

lemma response_ok:
  assumes "length regs \<le> 125" and "fc = kFcReadHolding \<or> fc = kFcReadInput"
    and "unat count = length regs" and "length regs_out = length regs"
  shows "mbtcp_parse_read (mbtcp_response transaction unit fc regs @ rest) transaction unit fc
           count regs_out = Some (MB_Ok, regs, None)"
proof -
  define follow :: u16 where "follow = of_nat (3 + 2 * length regs)"
  define hdr where "hdr = [hi8 transaction, lo8 transaction, 0, 0, hi8 follow, lo8 follow, unit, fc,
    of_nat (2 * length regs)]"
  define buf where "buf = mbtcp_response transaction unit fc regs @ rest"
  have buf: "buf = hdr @ reg_bytes regs @ rest" and hl: "length hdr = 9"
    by (simp_all add: buf_def mbtcp_response_def hdr_def follow_def Let_def)
  have follow: "unat follow = 3 + 2 * length regs"
    using assms(1) unfolding follow_def by (simp only: unat_of_nat) simp
  have bytes: "unat (of_nat (2 * length regs) :: u8) = 2 * length regs"
    using assms(1) by (simp only: unat_of_nat) simp
  have nth: "buf ! i = hdr ! i" if "i < 9" for i
    using that hl by (simp add: buf nth_append)
  have "Some (map (\<lambda>k. be16 (buf ! (9 + 2 * k)) (buf ! (10 + 2 * k))) [0..<unat count]
              @ drop (unat count) regs_out) = Some regs"
    using copy_regs_response [of regs regs_out hdr rest]
      copy_regs_Some [of 0 "unat count" buf regs_out] assms hl by (simp add: buf)
  moreover have "fc \<noteq> (fc OR 0x80)"
    using assms(2) by (auto simp: mbtcp_consts)
  moreover have "unat (be16 (buf ! 4) (buf ! 5)) = unat follow"
    by (simp add: nth) (simp add: hdr_def)
  ultimately show ?thesis
    unfolding buf_def [symmetric]
    using assms hl follow bytes
    by (subst parse_read_complete [of buf "unat follow"]) (simp_all add: nth buf, simp_all add: hdr_def)
qed

lemma of_nat_unat_eq: "unat w = n \<Longrightarrow> w = of_nat n"
  by (auto simp: word_unat_eq_iff unat_of_nat)

lemma take_9: "9 \<le> length xs \<Longrightarrow>
   take 9 xs = [xs ! 0, xs ! 1, xs ! 2, xs ! 3, xs ! 4, xs ! 5, xs ! 6, xs ! 7, xs ! 8]"
  by (rule nth_equalityI) (auto simp: less_Suc_eq numeral_eq_Suc)

lemma ok_response:
  assumes ok: "mbtcp_parse_read buf transaction unit fc count regs_out = Some (MB_Ok, regs, None)"
    and "unat count \<le> 125" and "length regs_out = unat count"
    and "fc = kFcReadHolding \<or> fc = kFcReadInput"
  shows "length regs = unat count \<and> (\<exists>rest. buf = mbtcp_response transaction unit fc regs @ rest)"
proof -
  define follow where "follow = unat (be16 (buf ! 4) (buf ! 5))"
  have l6: "6 \<le> length buf"
    using ok by (cases "length buf < 6") (auto simp: mbtcp_parse_read_def frame_length_short)
  have complete: "3 \<le> follow" "follow \<le> 253" "6 + follow \<le> length buf"
    using ok parse_read_incomplete [OF l6 follow_def [symmetric], of transaction unit fc count regs_out]
    by (fastforce split: if_splits)+
  have facts: "buf ! 2 = 0 \<and> buf ! 3 = 0 \<and> be16 (buf ! 0) (buf ! 1) = transaction \<and> buf ! 6 = unit
      \<and> buf ! 7 = fc \<and> unat (buf ! 8) = 2 * unat count \<and> follow = 3 + unat (buf ! 8)"
    using ok parse_read_complete [OF follow_def [symmetric] complete, of count regs_out transaction unit fc]
      assms(3) by (simp split: if_splits)
  have follow16: "be16 (buf ! 4) (buf ! 5) = of_nat (3 + 2 * unat count)"
    using facts follow_def by (intro of_nat_unat_eq) simp
  have b8: "buf ! 8 = of_nat (2 * unat count)"
    using facts by (intro of_nat_unat_eq) simp
  have hdr: "buf ! 0 = hi8 transaction" "buf ! 1 = lo8 transaction"
    "buf ! 4 = hi8 (of_nat (3 + 2 * unat count))" "buf ! 5 = lo8 (of_nat (3 + 2 * unat count))"
    "buf ! 8 = of_nat (2 * unat count)"
    using facts b8 unfolding follow16 [symmetric] by auto
  obtain regs' where regs': "length regs' = unat count"
    "take (2 * unat count) (drop 9 buf) = reg_bytes regs'"
    using bytes_as_regs [of "take (2 * unat count) (drop 9 buf)" "unat count"] facts complete by auto
  define rest where "rest = drop (2 * unat count) (drop 9 buf)"
  have "buf = take 9 buf @ take (2 * unat count) (drop 9 buf) @ rest"
    unfolding rest_def by (simp only: append_take_drop_id)
  also have "take 9 buf = [hi8 transaction, lo8 transaction, 0, 0, hi8 (of_nat (3 + 2 * unat count)),
      lo8 (of_nat (3 + 2 * unat count)), unit, fc, of_nat (2 * unat count)]"
    using facts complete hdr by (simp add: take_9)
  finally have buf: "buf = mbtcp_response transaction unit fc regs' @ rest"
    unfolding regs'(2) mbtcp_response_def Let_def regs'(1) by simp
  have "mbtcp_parse_read buf transaction unit fc count regs_out = Some (MB_Ok, regs', None)"
    unfolding buf by (rule response_ok) (use assms(2-4) regs'(1) in simp_all)
  with ok have "regs' = regs"
    by simp
  with regs'(1) buf show ?thesis
    by blast
qed

section \<open>Properties\<close>

text \<open>
  Network bytes never drive the parser out of its buffers.  For any received buffer and
  any expected transaction, \<open>parse_read\<close> returns a result (no read outside \<open>buf\<close>, no write
  outside \<open>regs_out\<close>) as long as the caller's array holds \<open>count\<close> registers.
\<close>

theorem mbtcp_parse_read_in_bounds:
  assumes "unat count \<le> length regs_out"
  shows "mbtcp_parse_read buf transaction unit fc count regs_out \<noteq> None"
proof -
  let ?f = "unat (be16 (buf ! 4) (buf ! 5))"
  consider (short) "length buf < 6"
    | (broken) "6 \<le> length buf" "?f < 3 \<or> ?f > 253 \<or> length buf < 6 + ?f"
    | (complete) "3 \<le> ?f" "?f \<le> 253" "6 + ?f \<le> length buf"
    by linarith
  then show ?thesis
  proof cases
    case short
    then show ?thesis by (simp add: mbtcp_parse_read_def frame_length_short)
  next
    case broken
    show ?thesis by (simp only: parse_read_incomplete [OF broken(1) refl broken(2)]) simp
  next
    case complete
    show ?thesis by (simp only: parse_read_complete [OF refl complete assms]) simp
  qed
qed

theorem mbtcp_parse_read_in_bounds_witness:
  "mbtcp_parse_read [0, 1, 0, 0, 0, 3, 9, 0x83, 2] 1 9 3 2 [0, 0] \<noteq> None"
  using mbtcp_parse_read_in_bounds [of 2 "[0, 0]"] by simp

text \<open>
  C28: \<open>parse_read\<close> accepts exactly the protocol's responses.  It reports \<open>Ok\<close> with registers
  \<open>regs\<close> in \<open>regs_out\<close> if and only if the buffer starts with the response frame for that
  transaction, unit and function code carrying those registers.
\<close>

theorem mbtcp_parse_read_ok_iff:
  assumes "unat count \<le> 125" and "length regs_out = unat count"
    and "fc = kFcReadHolding \<or> fc = kFcReadInput"
  shows "mbtcp_parse_read buf transaction unit fc count regs_out = Some (MB_Ok, regs, None) \<longleftrightarrow>
           length regs = unat count \<and> (\<exists>rest. buf = mbtcp_response transaction unit fc regs @ rest)"
    (is "?ok \<longleftrightarrow> ?resp")
proof
  assume ?resp
  then obtain rest where n: "length regs = unat count"
    and buf: "buf = mbtcp_response transaction unit fc regs @ rest" by blast
  have n125: "length regs \<le> 125" using assms(1) n by simp
  show ?ok
    using response_ok [OF n125 assms(3), of count regs_out transaction unit rest] assms n buf by simp
next
  assume ?ok
  then show ?resp
    using ok_response assms by blast
qed

theorem mbtcp_parse_read_ok_iff_witness:
  "mbtcp_parse_read [0, 7, 0, 0, 0, 7, 9, 3, 4, 0x12, 0x34, 0, 5, 0xFF] 7 9 3 2 [0, 0] =
     Some (MB_Ok, [0x1234, 5], None)"
proof -
  have "[0, 7, 0, 0, 0, 7, 9, 3, 4, 0x12, 0x34, 0, 5, 0xFF] =
        mbtcp_response 7 9 3 [0x1234, 5] @ [0xFF]"
    by (simp add: mbtcp_response_def hi8_def lo8_def drop_bit_eq_div)
  then have "\<exists>rest. [0, 7, 0, 0, 0, 7, 9, 3, 4, 0x12, 0x34, 0, 5, 0xFF] =
        mbtcp_response 7 9 3 [0x1234, 5] @ rest"
    by blast
  then show ?thesis
    by (subst mbtcp_parse_read_ok_iff) (simp_all add: mbtcp_consts)
qed

text \<open>
  The streaming length is stable and bounded.  Once the six header bytes are there, the
  length \<open>frame_length\<close> reports does not change as more bytes arrive, and a receiver that
  reads that many bytes never needs more than \<open>kMaxResponseLen\<close> of buffer; a valid length
  always leaves room for unit, function code and one data byte.
\<close>

theorem mbtcp_frame_length_stream:
  assumes "6 \<le> length buf"
  shows "\<exists>n. mbtcp_frame_length (buf @ more) = Some n \<and> mbtcp_frame_length buf = Some n
           \<and> n \<le> kMaxResponseLen \<and> (n \<noteq> 0 \<longrightarrow> kHeaderLen + 2 \<le> n)"
  using assms by (auto simp: frame_length_eq nth_append mbtcp_consts Let_def)

theorem mbtcp_frame_length_stream_witness:
  "\<exists>n. mbtcp_frame_length ([0, 7, 0, 0, 0, 7] @ [9, 3]) = Some n
     \<and> mbtcp_frame_length [0, 7, 0, 0, 0, 7] = Some n
     \<and> n \<le> kMaxResponseLen \<and> (n \<noteq> 0 \<longrightarrow> kHeaderLen + 2 \<le> n)"
  by (rule mbtcp_frame_length_stream) simp

text \<open>
  A request that is built asks only for registers that exist, in the layout of the
  protocol: 12 bytes whose length field counts the bytes after it, whose count is between 1
  and 125 and whose last register address fits in 16 bits.  Everything else is refused.
\<close>

theorem mbtcp_build_read_spec:
  "mbtcp_build_read transaction unit fc start count =
     (if (fc = 3 \<or> fc = 4) \<and> 1 \<le> unat count \<and> unat count \<le> 125 \<and> unat start + unat count \<le> 65536
      then Some ([hi8 transaction, lo8 transaction, 0, 0] @ [hi8 6, lo8 6] @
                 [unit, fc, hi8 start, lo8 start, hi8 count, lo8 count])
      else None)"
proof -
  have zero: "count = 0 \<longleftrightarrow> \<not> 1 \<le> unat count"
    by (subst word_unat_eq_iff) auto
  have six: "hi8 6 = 0" "lo8 6 = 6"
    by (simp_all add: hi8_def lo8_def drop_bit_eq_div)
  show ?thesis
    unfolding mbtcp_build_read_def zero six by (auto simp: mbtcp_consts)
qed

end
