(* ===== verification/Bacnet_Read.thy ===== *)
theory Bacnet_Read
  imports Prelude
begin

text \<open>
  The parsing half of the BACnet/IP codec of the external temperature sensors,
  \<open>main/bacnet_frame.cpp\<close>: NPDU/APDU headers, tagged values, ReadProperty and ReadPropertyMultiple
  acknowledgements and I-Am announcements.

  The input is whatever a datagram holds.  Every access goes through \<open>rd\<close>, so a read outside the
  received bytes is \<open>None\<close>.  A parser that the code gives a position pointer and that answers
  \<open>true\<close> or \<open>false\<close> is a \<open>scan\<close>: the outer \<open>None\<close> is an out-of-bounds access, the inner \<open>None\<close> is
  \<open>false\<close>, and a success carries the value and the new position.
\<close>

section \<open>Constants and data\<close>

definition kBvlcType :: u8 where "kBvlcType = 0x81"
definition kBvlcOriginalUnicast :: u8 where "kBvlcOriginalUnicast = 0x0A"
definition kBvlcOriginalBroadcast :: u8 where "kBvlcOriginalBroadcast = 0x0B"
definition kNpduVersion :: u8 where "kNpduVersion = 0x01"
definition kComplexAck :: u8 where "kComplexAck = 0x30"
definition kErrorPdu :: u8 where "kErrorPdu = 0x50"
definition kRejectPdu :: u8 where "kRejectPdu = 0x60"
definition kAbortPdu :: u8 where "kAbortPdu = 0x70"
definition kServiceReadProperty :: u8 where "kServiceReadProperty = 12"
definition kServiceReadPropertyMultiple :: u8 where "kServiceReadPropertyMultiple = 14"
definition kServiceIAm :: u8 where "kServiceIAm = 0"
definition kDeviceWildcard :: u32 where "kDeviceWildcard = 4194303"
definition ObjectType_Device :: u16 where "ObjectType_Device = 8"

datatype ValueType = VNull | VBool | VUnsigned | VEnumerated | VReal | VString | VBitString | VObjectId

record ObjectId =
  otype :: u16
  instance_no :: u32

text \<open>\<open>real\<close> holds the bits of the float; \<open>str\<close> the characters before the terminating zero.\<close>

record Value =
  vtype :: ValueType
  vu :: u32
  real_bits :: u32
  vb :: bool
  vstr :: bytes
  bit_count :: u8
  vbits :: u8
  object :: ObjectId

definition Value_zero :: Value where
  "Value_zero = \<lparr> vtype = VNull, vu = 0, real_bits = 0, vb = False, vstr = [], bit_count = 0, vbits = 0,
     object = \<lparr> otype = 0, instance_no = 0 \<rparr> \<rparr>"

datatype Parse = Parse_Ok | Incomplete | BadFrame | WrongInvoke | WrongService | Parse_Error | Reject | Abort
  | Unsupported | NotFound

record ErrorInfo =
  error_class :: u8
  error_code :: u8
  reason :: u8

record PropertyValue =
  pv_object :: ObjectId
  pv_property :: u32
  pv_error :: bool
  pv_error_info :: ErrorInfo
  pv_value :: Value

record IAm =
  device_instance :: u32
  max_apdu :: u32
  segmentation :: u32
  vendor_id :: u32

record Header =
  pdu :: u8
  h_invoke :: u8
  h_service :: u8
  h_pos :: nat

type_synonym 'a scan = "('a \<times> nat) option option"

definition scan_bind :: "'a scan \<Rightarrow> ('a \<Rightarrow> nat \<Rightarrow> 'b scan) \<Rightarrow> 'b scan" where
  "scan_bind x f = (case x of None \<Rightarrow> None | Some None \<Rightarrow> Some None | Some (Some (v, pos)) \<Rightarrow> f v pos)"

section \<open>Tagged values\<close>

fun read_be_from :: "bytes \<Rightarrow> nat \<Rightarrow> nat \<Rightarrow> u32 \<Rightarrow> u32 option" where
  "read_be_from buf p 0 v = Some v"
| "read_be_from buf p (Suc n) v = do { b \<leftarrow> rd buf p; read_be_from buf (Suc p) n (push_bit 8 v OR ucast b) }"

definition read_be :: "bytes \<Rightarrow> nat \<Rightarrow> nat \<Rightarrow> u32 option" where
  "read_be buf p n = read_be_from buf p n 0"

definition is_open :: "u8 \<Rightarrow> u8 \<Rightarrow> bool" where "is_open b tag \<longleftrightarrow> b = push_bit 4 tag OR 0x0E"
definition is_close :: "u8 \<Rightarrow> u8 \<Rightarrow> bool" where "is_close b tag \<longleftrightarrow> b = push_bit 4 tag OR 0x0F"

record tag_info =
  ti_tag :: u8
  ti_context :: bool
  ti_open :: bool
  ti_close :: bool
  ti_len :: nat

definition decode_tag_len :: "bytes \<Rightarrow> nat \<Rightarrow> nat \<Rightarrow> tag_info scan" where
  "decode_tag_len buf len pos =
     (if pos \<ge> len then Some None
      else do {
        b \<leftarrow> rd buf pos;
        let ctx = b AND 0x08 \<noteq> 0;
        let lvt = b AND 0x07;
        let info = \<lparr> ti_tag = drop_bit 4 b, ti_context = ctx, ti_open = ctx \<and> lvt = 6,
                     ti_close = ctx \<and> lvt = 7, ti_len = 0 \<rparr>;
        if ti_open info \<or> ti_close info then Some (Some (info, pos + 1))
        else if lvt = 5 then
          if pos + 1 \<ge> len then Some None
          else do {
            n \<leftarrow> rd buf (pos + 1);
            Some (if pos + 2 + unat n \<le> len then Some (info\<lparr> ti_len := unat n \<rparr>, pos + 2) else None) }
        else Some (if pos + 1 + unat lvt \<le> len then Some (info\<lparr> ti_len := unat lvt \<rparr>, pos + 1) else None) })"

text \<open>The \<open>switch\<close> of \<open>decode_app_value\<close>, on \<open>n\<close> bytes at \<open>p\<close>.\<close>

definition app_value :: "bytes \<Rightarrow> u8 \<Rightarrow> nat \<Rightarrow> nat \<Rightarrow> Value option option" where
  "app_value buf tag p n =
     (if tag = 0 then Some (if n = 0 then Some Value_zero else None)
      else if tag = 1 then Some (Some (Value_zero\<lparr> vtype := VBool, vb := n \<noteq> 0 \<rparr>))
      else if tag = 2 then
        if n = 0 \<or> n > 4 then Some None
        else do { u \<leftarrow> read_be buf p n; Some (Some (Value_zero\<lparr> vtype := VUnsigned, vu := u \<rparr>)) }
      else if tag = 4 then
        if n \<noteq> 4 then Some None
        else do { u \<leftarrow> read_be buf p 4; Some (Some (Value_zero\<lparr> vtype := VReal, real_bits := u \<rparr>)) }
      else if tag = 7 then
        if n < 1 then Some None
        else do {
          let copy = (if n - 1 \<ge> 64 then 63 else n - 1);
          if p + 1 + copy \<le> length buf
          then do {
            enc \<leftarrow> rd buf p;
            Some (if enc = 0 then Some (Value_zero\<lparr> vtype := VString, vstr := take copy (drop (p + 1) buf) \<rparr>) else None) }
          else None }
      else if tag = 8 then
        if n < 1 then Some None
        else do {
          unused \<leftarrow> rd buf p;
          b1 \<leftarrow> (if n > 1 then rd buf (p + 1) else Some 0);
          Some (Some (Value_zero\<lparr> vtype := VBitString, bit_count := of_nat ((n - 1) * 8) - unused, vbits := b1 \<rparr>)) }
      else if tag = 9 then
        if n = 0 \<or> n > 4 then Some None
        else do { u \<leftarrow> read_be buf p n; Some (Some (Value_zero\<lparr> vtype := VEnumerated, vu := u \<rparr>)) }
      else if tag = 12 then
        if n \<noteq> 4 then Some None
        else do {
          oid \<leftarrow> read_be buf p 4;
          Some (Some (Value_zero\<lparr> vtype := VObjectId,
            object := \<lparr> otype = ucast (drop_bit 22 oid), instance_no = oid AND 0x3FFFFF \<rparr> \<rparr>)) }
      else Some None)"

definition decode_app_value :: "bytes \<Rightarrow> nat \<Rightarrow> nat \<Rightarrow> Value scan" where
  "decode_app_value buf len pos =
     scan_bind (decode_tag_len buf len pos) (\<lambda>t pos.
       if ti_context t \<or> ti_open t \<or> ti_close t then Some None
       else do {
         v \<leftarrow> app_value buf (ti_tag t) pos (ti_len t);
         Some (map_option (\<lambda>v. (v, pos + ti_len t)) v) })"

definition read_context_uint :: "u8 \<Rightarrow> bytes \<Rightarrow> nat \<Rightarrow> nat \<Rightarrow> u32 scan" where
  "read_context_uint wanted buf len pos =
     scan_bind (decode_tag_len buf len pos) (\<lambda>t pos.
       if \<not> ti_context t \<or> ti_open t \<or> ti_close t \<or> ti_tag t \<noteq> wanted \<or> ti_len t = 0 \<or> ti_len t > 4 then Some None
       else do { v \<leftarrow> read_be buf pos (ti_len t); Some (Some (v, pos + ti_len t)) })"

definition read_context_object :: "u8 \<Rightarrow> bytes \<Rightarrow> nat \<Rightarrow> nat \<Rightarrow> ObjectId scan" where
  "read_context_object wanted buf len pos =
     scan_bind (read_context_uint wanted buf len pos) (\<lambda>v pos.
       Some (Some (\<lparr> otype = ucast (drop_bit 22 v), instance_no = v AND 0x3FFFFF \<rparr>, pos)))"

text \<open>\<open>*pos >= len || !is_open(buf[*pos], tag)\<close> returns false; otherwise \<open>++*pos\<close>.\<close>

definition expect :: "(u8 \<Rightarrow> bool) \<Rightarrow> bytes \<Rightarrow> nat \<Rightarrow> nat \<Rightarrow> unit scan" where
  "expect ok buf len pos =
     (if pos \<ge> len then Some None
      else do { b \<leftarrow> rd buf pos; Some (if ok b then Some ((), pos + 1) else None) })"

definition error_body :: "bytes \<Rightarrow> nat \<Rightarrow> nat \<Rightarrow> (u32 \<times> u32) scan" where
  "error_body buf len pos =
     scan_bind (read_context_uint 0 buf len pos) (\<lambda>cls pos.
       scan_bind (read_context_uint 1 buf len pos) (\<lambda>code pos.
         scan_bind (expect (\<lambda>b. is_close b 5) buf len pos) (\<lambda>_ pos. Some (Some ((cls, code), pos)))))"

definition value_body :: "bytes \<Rightarrow> nat \<Rightarrow> nat \<Rightarrow> Value scan" where
  "value_body buf len pos =
     scan_bind (decode_app_value buf len pos) (\<lambda>v pos.
       scan_bind (expect (\<lambda>b. is_close b 4) buf len pos) (\<lambda>_ pos. Some (Some (v, pos))))"

definition result_body :: "PropertyValue \<Rightarrow> bytes \<Rightarrow> nat \<Rightarrow> nat \<Rightarrow> PropertyValue scan" where
  "result_body pv buf len pos =
     (if pos \<ge> len then Some None
      else do {
        b \<leftarrow> rd buf pos;
        if is_open b 5 then
          scan_bind (error_body buf len (pos + 1)) (\<lambda>(cls, code) pos.
            Some (Some (pv\<lparr> pv_error := True, pv_error_info := (pv_error_info pv)\<lparr> error_class := ucast cls,
                            error_code := ucast code \<rparr> \<rparr>, pos)))
        else if \<not> is_open b 4 then Some None
        else scan_bind (value_body buf len (pos + 1)) (\<lambda>v pos. Some (Some (pv\<lparr> pv_value := v \<rparr>, pos))) })"

definition read_property_result :: "ObjectId \<Rightarrow> PropertyValue \<Rightarrow> bytes \<Rightarrow> nat \<Rightarrow> nat \<Rightarrow> PropertyValue scan" where
  "read_property_result obj pv buf len pos =
     scan_bind (read_context_uint 2 buf len pos) (\<lambda>prop pos.
       result_body (pv\<lparr> pv_object := obj, pv_property := prop \<rparr>) buf len pos)"

section \<open>Frames\<close>

text \<open>\<open>read_enum\<close> of the error PDU: the flag, the stored byte and the position, which moves even on failure.\<close>

definition read_enum :: "bytes \<Rightarrow> nat \<Rightarrow> nat \<Rightarrow> (u8 option \<times> nat) option" where
  "read_enum buf tot p =
     (if p \<ge> tot then Some (None, p)
      else do {
        b \<leftarrow> rd buf p;
        if drop_bit 4 b \<noteq> 9 then Some (None, p)
        else do {
          let n = unat (b AND 0x07);
          let p = p + 1;
          if n = 5 \<and> p \<ge> tot then Some (None, p)
          else do {
            (n, p) \<leftarrow> (if n = 5 then do { m \<leftarrow> rd buf p; Some (unat m, p + 1) } else Some (n, p));
            if n = 0 \<or> n > 4 \<or> p + n > tot then Some (None, p)
            else do { v \<leftarrow> read_be buf p n; Some (Some (ucast v), p + n) } } } })"

definition set_opt :: "(u8 \<Rightarrow> ErrorInfo \<Rightarrow> ErrorInfo) \<Rightarrow> u8 option \<Rightarrow> ErrorInfo \<Rightarrow> ErrorInfo" where
  "set_opt f v e = (case v of None \<Rightarrow> e | Some x \<Rightarrow> f x e)"

text \<open>
  \<open>parse_header\<close> from the check of the invoke id on, with the announced length \<open>tot\<close> already validated
  and the PDU type \<open>pd\<close> one of the four that the codec knows.  The result is the result code, the
  header on \<open>Ok\<close>, and the error information (when the caller passed one).
\<close>

definition parse_reply :: "bytes \<Rightarrow> nat \<Rightarrow> u8 \<Rightarrow> u8 \<Rightarrow> u8 \<Rightarrow> ErrorInfo option \<Rightarrow>
    (Parse \<times> Header option \<times> ErrorInfo option) option" where
  "parse_reply buf tot pd invoke service err = do {
     b7 \<leftarrow> rd buf 7; b8 \<leftarrow> rd buf 8;
     if b7 \<noteq> invoke then Some (WrongInvoke, None, err)
     else if pd = kComplexAck then
       Some (if b8 \<noteq> service then (WrongService, None, err)
             else (Parse_Ok, Some \<lparr> pdu = pd, h_invoke = b7, h_service = b8, h_pos = 9 \<rparr>, err))
     else if pd = kErrorPdu then
       (case err of None \<Rightarrow> Some (Parse_Error, None, None)
        | Some e \<Rightarrow> do {
            (cls, p) \<leftarrow> read_enum buf tot 9;
            (code, p) \<leftarrow> read_enum buf tot p;
            Some (Parse_Error, None, Some (set_opt (\<lambda>x e. e\<lparr> error_code := x \<rparr>) code
              (set_opt (\<lambda>x e. e\<lparr> error_class := x \<rparr>) cls e))) })
     else Some (if pd = kRejectPdu then Reject else Abort, None, map_option (\<lambda>e. e\<lparr> reason := b8 \<rparr>) err) }"

definition parse_header :: "bytes \<Rightarrow> u8 \<Rightarrow> u8 \<Rightarrow> ErrorInfo option \<Rightarrow> (Parse \<times> Header option \<times> ErrorInfo option) option" where
  "parse_header buf invoke service err =
     (if length buf < 7 then Some (Incomplete, None, err)
      else do {
        b0 \<leftarrow> rd buf 0; b1 \<leftarrow> rd buf 1;
        if b0 \<noteq> kBvlcType \<or> b1 \<noteq> kBvlcOriginalUnicast then Some (BadFrame, None, err)
        else do {
          b2 \<leftarrow> rd buf 2; b3 \<leftarrow> rd buf 3;
          let tot = unat (be16 b2 b3);
          if tot < 7 \<or> tot > length buf
          then Some (if tot > length buf then Incomplete else BadFrame, None, err)
          else do {
            b4 \<leftarrow> rd buf 4; b5 \<leftarrow> rd buf 5; b6 \<leftarrow> rd buf 6;
            if b4 \<noteq> kNpduVersion then Some (BadFrame, None, err)
            else if b5 AND 0x28 \<noteq> 0 then Some (BadFrame, None, err)
            else do {
              let pd = b6 AND 0xF0;
              if pd \<noteq> kComplexAck \<and> pd \<noteq> kErrorPdu \<and> pd \<noteq> kRejectPdu \<and> pd \<noteq> kAbortPdu
              then Some (Unsupported, None, err)
              else if tot < 9 then Some (Incomplete, None, err)
              else parse_reply buf tot pd invoke service err } } } })"

definition total_of :: "bytes \<Rightarrow> nat option" where
  "total_of buf = do { b2 \<leftarrow> rd buf 2; b3 \<leftarrow> rd buf 3; Some (unat (be16 b2 b3)) }"

definition object_expected :: "ObjectId option \<Rightarrow> ObjectId \<Rightarrow> bool" where
  "object_expected expected oid =
     (case expected of None \<Rightarrow> True
      | Some e \<Rightarrow> otype oid = otype e \<and> (instance_no e = kDeviceWildcard \<or> instance_no oid = instance_no e))"

text \<open>A \<open>scan\<close> as a result code: \<open>false\<close> becomes \<open>BadFrame\<close>.\<close>

definition or_bad :: "'a scan \<Rightarrow> ('a \<Rightarrow> nat \<Rightarrow> (Parse \<times> 'b) option) \<Rightarrow> 'b \<Rightarrow> (Parse \<times> 'b) option" where
  "or_bad x k bad = (case x of None \<Rightarrow> None | Some None \<Rightarrow> Some (BadFrame, bad) | Some (Some (v, pos)) \<Rightarrow> k v pos)"

definition skip_array_index :: "bytes \<Rightarrow> nat \<Rightarrow> nat \<Rightarrow> unit scan" where
  "skip_array_index buf tot pos =
     (if pos \<ge> tot then Some (Some ((), pos))
      else do {
        b \<leftarrow> rd buf pos;
        if drop_bit 4 b = 2 \<and> b AND 0x08 \<noteq> 0
        then scan_bind (read_context_uint 2 buf tot pos) (\<lambda>_ pos. Some (Some ((), pos)))
        else Some (Some ((), pos)) })"

definition parse_read_property_ack ::
  "bytes \<Rightarrow> u8 \<Rightarrow> u32 \<Rightarrow> ErrorInfo option \<Rightarrow> ObjectId option \<Rightarrow> (Parse \<times> (Value option \<times> ErrorInfo option)) option" where
  "parse_read_property_ack buf invoke property err expected = do {
     (p, h, err) \<leftarrow> parse_header buf invoke kServiceReadProperty err;
     (case h of None \<Rightarrow> Some (p, None, err)
      | Some h \<Rightarrow> do {
          tot \<leftarrow> total_of buf;
          let bad = (None, err);
          or_bad (read_context_object 0 buf tot (h_pos h)) (\<lambda>oid pos.
          or_bad (read_context_uint 1 buf tot pos) (\<lambda>prop pos.
            if \<not> object_expected expected oid then Some (BadFrame, bad)
            else if prop \<noteq> property then Some (WrongService, bad)
            else
              or_bad (skip_array_index buf tot pos) (\<lambda>_ pos.
              or_bad (expect (\<lambda>b. is_open b 3) buf tot pos) (\<lambda>_ pos.
              or_bad (decode_app_value buf tot pos) (\<lambda>v pos.
              or_bad (expect (\<lambda>b. is_close b 3) buf tot pos) (\<lambda>_ pos.
                Some (Parse_Ok, Some v, err)) bad) bad) bad) bad) bad) bad }) }"


text \<open>
  The two loops of \<open>parse_read_property_multiple_ack\<close>.  Every round moves the position, so as many
  rounds as there are bytes left suffice; \<open>out\<close> is the caller's array of \<open>cap\<close> entries.
\<close>

datatype rpm_end = Go nat | Stop Parse

fun rpm_props :: "nat \<Rightarrow> bytes \<Rightarrow> nat \<Rightarrow> ObjectId \<Rightarrow> nat \<Rightarrow> PropertyValue list \<Rightarrow> nat \<Rightarrow>
    (rpm_end \<times> PropertyValue list \<times> nat) option" where
  "rpm_props fuel buf tot obj pos out count =
     (if pos \<ge> tot then Some (Go pos, out, count)
      else do {
        b \<leftarrow> rd buf pos;
        if is_close b 1 then Some (Go pos, out, count)
        else if count \<ge> length out then Some (Stop Unsupported, out, count)
        else case fuel of 0 \<Rightarrow> None
        | Suc fuel \<Rightarrow>
            (case read_property_result obj (out ! count) buf tot pos of
               None \<Rightarrow> None
             | Some None \<Rightarrow> Some (Stop BadFrame, out, count)
             | Some (Some (pv, pos)) \<Rightarrow> rpm_props fuel buf tot obj pos (out[count := pv]) (Suc count)) })"

fun rpm_objects :: "nat \<Rightarrow> bytes \<Rightarrow> nat \<Rightarrow> ObjectId option \<Rightarrow> nat \<Rightarrow> PropertyValue list \<Rightarrow> nat \<Rightarrow>
    (Parse \<times> PropertyValue list \<times> nat) option" where
  "rpm_objects fuel buf tot expected pos out count =
     (if pos \<ge> tot then Some (Parse_Ok, out, count)
      else case fuel of 0 \<Rightarrow> None
      | Suc fuel \<Rightarrow>
        or_bad (read_context_object 0 buf tot pos) (\<lambda>obj pos.
          or_bad (expect (\<lambda>b. is_open b 1) buf tot pos) (\<lambda>_ pos'.
            if \<not> object_expected expected obj then Some (BadFrame, out, count)
            else do {
              (r, out, count) \<leftarrow> rpm_props (tot - pos') buf tot obj pos' out count;
              (case r of Stop p \<Rightarrow> Some (p, out, count)
               | Go pos \<Rightarrow>
                   or_bad (expect (\<lambda>b. is_close b 1) buf tot pos) (\<lambda>_ pos.
                     rpm_objects fuel buf tot expected pos out count) (out, count)) })
            (out, count)) (out, count))"

declare rpm_props.simps [simp del] rpm_objects.simps [simp del]

definition parse_read_property_multiple_ack ::
  "bytes \<Rightarrow> u8 \<Rightarrow> PropertyValue list \<Rightarrow> ErrorInfo option \<Rightarrow> ObjectId option \<Rightarrow>
   (Parse \<times> PropertyValue list \<times> nat \<times> ErrorInfo option) option" where
  "parse_read_property_multiple_ack buf invoke out err expected = do {
     (p, h, err) \<leftarrow> parse_header buf invoke kServiceReadPropertyMultiple err;
     (case h of None \<Rightarrow> Some (p, out, 0, err)
      | Some h \<Rightarrow> do {
          tot \<leftarrow> total_of buf;
          (p, out, count) \<leftarrow> rpm_objects (tot - h_pos h) buf tot expected (h_pos h) out 0;
          Some (p, out, count, err) }) }"

definition read_app_uint_tag :: "u8 \<Rightarrow> bytes \<Rightarrow> nat \<Rightarrow> nat \<Rightarrow> u32 scan" where
  "read_app_uint_tag tag buf tot pos =
     (if pos \<ge> tot then Some None
      else do {
        b \<leftarrow> rd buf pos;
        if drop_bit 4 b \<noteq> tag then Some None
        else do {
          let n = unat (b AND 0x07);
          if n = 5 \<and> pos + 1 \<ge> tot then Some None
          else do {
            (n, pos) \<leftarrow> (if n = 5 then do { m \<leftarrow> rd buf (pos + 1); Some (unat m, pos + 2) } else Some (n, pos + 1));
            if n = 0 \<or> n > 4 \<or> pos + n > tot then Some None
            else do { v \<leftarrow> read_be buf pos n; Some (Some (v, pos + n)) } } } })"

text \<open>\<open>parse_i_am\<close> from the unconfirmed-request header at \<open>pos\<close> on.\<close>

definition i_am_body :: "bytes \<Rightarrow> nat \<Rightarrow> nat \<Rightarrow> (Parse \<times> IAm option) option" where
  "i_am_body buf tot pos =
     (if pos + 2 > tot then Some (Incomplete, None)
      else do {
        b \<leftarrow> rd buf pos;
        s \<leftarrow> rd buf (pos + 1);
        if b AND 0xF0 \<noteq> 0x10 \<or> s \<noteq> kServiceIAm then Some (WrongService, None)
        else
          or_bad (read_app_uint_tag 12 buf tot (pos + 2)) (\<lambda>obj pos.
            if drop_bit 22 obj \<noteq> ucast ObjectType_Device then Some (BadFrame, None)
            else
              or_bad (read_app_uint_tag 2 buf tot pos) (\<lambda>apdu pos.
              or_bad (read_app_uint_tag 9 buf tot pos) (\<lambda>seg pos.
              or_bad (read_app_uint_tag 2 buf tot pos) (\<lambda>vendor pos.
                Some (Parse_Ok, Some \<lparr> device_instance = obj AND 0x3FFFFF, max_apdu = apdu,
                  segmentation = seg, vendor_id = vendor \<rparr>)) None) None) None) None })"

definition parse_i_am :: "bytes \<Rightarrow> (Parse \<times> IAm option) option" where
  "parse_i_am buf =
     (if length buf < 12 then Some (Incomplete, None)
      else do {
        b0 \<leftarrow> rd buf 0; b1 \<leftarrow> rd buf 1;
        if b0 \<noteq> kBvlcType \<or> b1 \<noteq> kBvlcOriginalUnicast \<and> b1 \<noteq> kBvlcOriginalBroadcast then Some (BadFrame, None)
        else do {
          tot \<leftarrow> total_of buf;
          b4 \<leftarrow> rd buf 4;
          control \<leftarrow> rd buf 5;
          if tot > length buf then Some (Incomplete, None)
          else if tot < 12 \<or> b4 \<noteq> kNpduVersion then Some (BadFrame, None)
          else if control AND 0x08 \<noteq> 0 then Some (BadFrame, None)
          else if control AND 0x20 \<noteq> 0 then
            if 6 + 4 > tot then Some (Incomplete, None)
            else do {
              dlen \<leftarrow> rd buf 8;
              if 9 + unat dlen + 1 > tot then Some (Incomplete, None) else i_am_body buf tot (9 + unat dlen + 1) }
          else i_am_body buf tot 6 } })"

definition frame_matches :: "bytes \<Rightarrow> u8 \<Rightarrow> u8 \<Rightarrow> bool option" where
  "frame_matches buf invoke service = do {
     (p, _, _) \<leftarrow> parse_header buf invoke service (Some \<lparr> error_class = 0, error_code = 0, reason = 0 \<rparr>);
     Some (p = Parse_Ok \<or> p = Parse_Error \<or> p = Reject \<or> p = Abort) }"

definition frame_matches_object :: "bytes \<Rightarrow> u8 \<Rightarrow> u8 \<Rightarrow> ObjectId \<Rightarrow> bool option" where
  "frame_matches_object buf invoke service expected = do {
     (p, h, _) \<leftarrow> parse_header buf invoke service (Some \<lparr> error_class = 0, error_code = 0, reason = 0 \<rparr>);
     if p = Parse_Error \<or> p = Reject \<or> p = Abort then Some True
     else (case h of None \<Rightarrow> Some False
       | Some h \<Rightarrow> do {
           tot \<leftarrow> total_of buf;
           r \<leftarrow> read_context_object 0 buf tot (h_pos h);
           Some (case r of None \<Rightarrow> False | Some (oid, _) \<Rightarrow> object_expected (Some expected) oid) }) }"

fun parse_name :: "Parse \<Rightarrow> string" where
  "parse_name Parse_Ok = ''ok''" | "parse_name Incomplete = ''incomplete''" | "parse_name BadFrame = ''bad_frame''"
| "parse_name WrongInvoke = ''wrong_invoke''" | "parse_name WrongService = ''wrong_service''"
| "parse_name Parse_Error = ''error''" | "parse_name Reject = ''reject''" | "parse_name Abort = ''abort''"
| "parse_name Unsupported = ''unsupported''" | "parse_name NotFound = ''not_found''"


section \<open>Scanners that stay in bounds\<close>

text \<open>
  The contract every scanning function of the codec keeps and every caller relies on: on a buffer
  that holds at least \<open>tot\<close> bytes it never reads outside the buffer, and a success leaves the
  position further on and not beyond \<open>tot\<close>.
\<close>

locale bounded_scanner =
  fixes scan :: "bytes \<Rightarrow> nat \<Rightarrow> nat \<Rightarrow> 'a scan"
  assumes scan_safe: "tot \<le> length buf \<Longrightarrow> scan buf tot pos \<noteq> None"
    and scan_advances: "scan buf tot pos = Some (Some (v, pos')) \<Longrightarrow> pos < pos' \<and> pos' \<le> tot"
begin

lemma bind_safe:
  assumes "tot \<le> length buf" "\<And>v p. pos < p \<Longrightarrow> p \<le> tot \<Longrightarrow> k v p \<noteq> None"
  shows "scan_bind (scan buf tot pos) k \<noteq> None"
  using assms scan_safe [OF assms(1), of pos] scan_advances [of buf tot pos]
  by (auto simp: scan_bind_def split: option.splits)

lemma bind_advances:
  assumes "scan_bind (scan buf tot pos) k = Some (Some (w, pos'))"
    "\<And>v p. pos < p \<Longrightarrow> p \<le> tot \<Longrightarrow> k v p = Some (Some (w, pos')) \<Longrightarrow> p \<le> pos' \<and> pos' \<le> tot"
  shows "pos < pos' \<and> pos' \<le> tot"
  using assms scan_advances [of buf tot pos] by (fastforce simp: scan_bind_def split: option.splits)

lemma or_bad_safe:
  assumes "tot \<le> length buf" "\<And>v p. pos < p \<Longrightarrow> p \<le> tot \<Longrightarrow> k v p \<noteq> None"
  shows "or_bad (scan buf tot pos) k bad \<noteq> None"
  using assms scan_safe [OF assms(1), of pos] scan_advances [of buf tot pos]
  by (auto simp: or_bad_def split: option.splits)

end

text \<open>The value of a run of bytes, most significant first.\<close>

definition be_value :: "bytes \<Rightarrow> u32" where
  "be_value bs = foldl (\<lambda>v b. push_bit 8 v OR ucast b) 0 bs"

lemma read_be_from_eq:
  "p + n \<le> length buf \<Longrightarrow> read_be_from buf p n v = Some (foldl (\<lambda>v b. push_bit 8 v OR ucast b) v (take n (drop p buf)))"
proof (induction n arbitrary: p v)
  case (Suc n)
  then have "take (Suc n) (drop p buf) = buf ! p # take n (drop (Suc p) buf)"
    by (simp add: take_Suc_conv_app_nth Cons_nth_drop_Suc [symmetric])
  then show ?case using Suc by simp
qed simp

lemma read_be_eq [simp]: "p + n \<le> length buf \<Longrightarrow> read_be buf p n = Some (be_value (take n (drop p buf)))"
  by (simp add: read_be_def read_be_from_eq be_value_def)

lemma decode_tag_len_cases:
  assumes "tot \<le> length buf"
  shows "decode_tag_len buf tot pos \<noteq> None"
  using assms by (auto simp: decode_tag_len_def Let_def rd_def)

lemma decode_tag_len_value:
  assumes "decode_tag_len buf tot pos = Some (Some (t, pos'))"
  shows "pos < pos' \<and> pos' + ti_len t \<le> tot"
  using assms by (auto simp: decode_tag_len_def Let_def bind_eq_Some_conv split: if_splits)

interpretation tag: bounded_scanner decode_tag_len
  using decode_tag_len_cases decode_tag_len_value by unfold_locales fastforce+

interpretation expect: bounded_scanner "expect ok" for ok
  by unfold_locales (auto simp: expect_def bind_eq_Some_conv rd_def split: if_splits)

lemma app_value_safe: "p + n \<le> length buf \<Longrightarrow> app_value buf tag p n \<noteq> None"
  by (auto simp: app_value_def Let_def bind_eq_None_conv rd_def)

interpretation context_uint: bounded_scanner "read_context_uint wanted" for wanted
proof
  fix tot pos :: nat and buf :: bytes
  assume l: "tot \<le> length buf"
  show "read_context_uint wanted buf tot pos \<noteq> None"
    unfolding read_context_uint_def
    using decode_tag_len_cases [OF l, of pos] decode_tag_len_value [of buf tot pos] l
    by (auto simp: scan_bind_def split: option.splits)
next
  fix buf tot pos v pos'
  assume "read_context_uint wanted buf tot pos = Some (Some (v, pos'))"
  then show "pos < pos' \<and> pos' \<le> tot"
    using decode_tag_len_value [of buf tot pos]
    by (fastforce simp: read_context_uint_def scan_bind_def bind_eq_Some_conv split: option.splits if_splits)
qed

interpretation context_object: bounded_scanner "read_context_object wanted" for wanted
proof
  fix tot pos :: nat and buf :: bytes
  assume "tot \<le> length buf"
  then show "read_context_object wanted buf tot pos \<noteq> None"
    unfolding read_context_object_def by (rule context_uint.bind_safe) simp
next
  fix buf tot pos v pos'
  assume "read_context_object wanted buf tot pos = Some (Some (v, pos'))"
  then show "pos < pos' \<and> pos' \<le> tot"
    unfolding read_context_object_def by (rule context_uint.bind_advances) simp
qed

interpretation app: bounded_scanner decode_app_value
proof
  fix tot pos :: nat and buf :: bytes
  assume l: "tot \<le> length buf"
  show "decode_app_value buf tot pos \<noteq> None"
  proof (cases "decode_tag_len buf tot pos")
    case (Some r)
    show ?thesis
    proof (cases r)
      case r: (Some tp)
      obtain t p where "tp = (t, p)" by fastforce
      with Some r have d: "decode_tag_len buf tot pos = Some (Some (t, p))" by simp
      then have "p + ti_len t \<le> length buf" using decode_tag_len_value [OF d] l by simp
      then show ?thesis using app_value_safe [of p "ti_len t" buf "ti_tag t"]
        by (auto simp: decode_app_value_def scan_bind_def d)
    qed (simp add: decode_app_value_def scan_bind_def Some)
  qed (use decode_tag_len_cases [OF l, of pos] in simp)
next
  fix buf tot pos v pos'
  assume "decode_app_value buf tot pos = Some (Some (v, pos'))"
  then show "pos < pos' \<and> pos' \<le> tot"
    using decode_tag_len_value [of buf tot pos]
    by (fastforce simp: decode_app_value_def scan_bind_def bind_eq_Some_conv split: option.splits if_splits)
qed

interpretation app_uint: bounded_scanner "read_app_uint_tag tag" for tag
proof
  fix tot pos :: nat and buf :: bytes
  assume l: "tot \<le> length buf"
  show "read_app_uint_tag tag buf tot pos \<noteq> None"
    using l by (auto simp: read_app_uint_tag_def Let_def rd_def)
next
  fix buf tot pos v pos'
  assume "read_app_uint_tag tag buf tot pos = Some (Some (v, pos'))"
  then show "pos < pos' \<and> pos' \<le> tot"
    by (auto simp: read_app_uint_tag_def Let_def bind_eq_Some_conv split: if_splits)
qed


lemma later: "pos < pos' \<and> pos' \<le> tot \<Longrightarrow> pos \<le> pos' \<and> pos' \<le> (tot :: nat)"
  by simp

interpretation error_body: bounded_scanner error_body
  by unfold_locales
    (unfold error_body_def, intro context_uint.bind_safe expect.bind_safe, simp_all del: not_None_eq,
     elim context_uint.bind_advances, rule later, elim context_uint.bind_advances, rule later,
     elim expect.bind_advances, auto)

interpretation value_body: bounded_scanner value_body
  by unfold_locales
    (unfold value_body_def, intro app.bind_safe expect.bind_safe, simp_all del: not_None_eq,
     elim app.bind_advances, rule later, elim expect.bind_advances, auto)

interpretation result_body: bounded_scanner "result_body pv" for pv
proof
  fix tot pos :: nat and buf :: bytes
  assume l: "tot \<le> length buf"
  then show "result_body pv buf tot pos \<noteq> None"
    by (simp add: result_body_def error_body.bind_safe value_body.bind_safe split_def del: not_None_eq)
next
  fix buf tot pos v pos'
  assume "result_body pv buf tot pos = Some (Some (v, pos'))"
  then have "pos + 1 < pos' \<and> pos' \<le> tot"
    unfolding result_body_def
    by (auto simp: bind_eq_Some_conv split: if_splits dest!: error_body.bind_advances value_body.bind_advances)
  then show "pos < pos' \<and> pos' \<le> tot" by simp
qed

interpretation result: bounded_scanner "read_property_result obj pv" for obj pv
proof
  fix tot pos :: nat and buf :: bytes
  assume l: "tot \<le> length buf"
  then show "read_property_result obj pv buf tot pos \<noteq> None"
    unfolding read_property_result_def by (intro context_uint.bind_safe result_body.scan_safe)
next
  fix buf tot pos v pos'
  assume "read_property_result obj pv buf tot pos = Some (Some (v, pos'))"
  then show "pos < pos' \<and> pos' \<le> tot"
    unfolding read_property_result_def
    by (rule context_uint.bind_advances) (auto dest: result_body.scan_advances)
qed


section \<open>No datagram leads out of bounds\<close>

lemma read_enum_safe: "tot \<le> length buf \<Longrightarrow> read_enum buf tot p \<noteq> None"
  by (auto simp: read_enum_def Let_def rd_def)

lemma parse_reply_safe:
  assumes "9 \<le> tot" "tot \<le> length buf"
  shows "parse_reply buf tot pd invoke service err \<noteq> None"
proof -
  obtain c q where e1: "read_enum buf tot 9 = Some (c, q)" using read_enum_safe [OF assms(2), of 9] by auto
  obtain d r where e2: "read_enum buf tot q = Some (d, r)" using read_enum_safe [OF assms(2), of q] by auto
  show ?thesis using assms by (simp add: parse_reply_def e1 e2 split: option.split del: not_None_eq)
qed

lemma parse_header_safe: "parse_header buf invoke service err \<noteq> None"
proof (cases "length buf < 7")
  case False
  then have "buf \<noteq> []" by auto
  with False show ?thesis by (simp add: parse_header_def Let_def parse_reply_safe del: not_None_eq)
qed (simp add: parse_header_def)

lemma parse_reply_ok:
  assumes "parse_reply buf tot pd invoke service err = Some (p, Some h, err')"
  shows "p = Parse_Ok \<and> h_pos h = 9 \<and> pd = kComplexAck \<and> buf ! 7 = invoke \<and> buf ! 8 = service"
  using assms by (auto simp: parse_reply_def bind_eq_Some_conv rd_def split: if_splits option.splits)

lemma parse_header_ok:
  assumes "parse_header buf invoke service err = Some (p, Some h, err')"
  shows "p = Parse_Ok" "h_pos h = 9" "\<exists>tot. total_of buf = Some tot \<and> 9 \<le> tot \<and> tot \<le> length buf"
proof -
  have "buf \<noteq> []" "\<not> length buf < 7" using assms by (auto simp: parse_header_def)
  with assms obtain pd where *: "parse_reply buf (unat (be16 (buf ! 2) (buf ! 3))) pd invoke service err = Some (p, Some h, err')"
    "9 \<le> unat (be16 (buf ! 2) (buf ! 3))" "unat (be16 (buf ! 2) (buf ! 3)) \<le> length buf"
    by (auto simp: parse_header_def Let_def split: if_splits)
  then show "p = Parse_Ok" "h_pos h = 9" using parse_reply_ok by auto
  show "\<exists>tot. total_of buf = Some tot \<and> 9 \<le> tot \<and> tot \<le> length buf" using * by (simp add: total_of_def)
qed

lemma skip_array_index_safe: "tot \<le> length buf \<Longrightarrow> skip_array_index buf tot pos \<noteq> None"
  by (simp add: skip_array_index_def context_uint.bind_safe del: not_None_eq)

lemma header_then_total:
  assumes "\<And>p err. k p None err \<noteq> None"
    "\<And>tot h err. total_of buf = Some tot \<Longrightarrow> 9 \<le> tot \<Longrightarrow> tot \<le> length buf \<Longrightarrow> h_pos h = 9 \<Longrightarrow> k Parse_Ok (Some h) err \<noteq> None"
  shows "parse_header buf invoke service err \<bind> (\<lambda>(p, h, err). k p h err) \<noteq> None"
proof -
  obtain p h e where ph: "parse_header buf invoke service err = Some (p, h, e)"
    using parse_header_safe [of buf invoke service err] by auto
  show ?thesis
  proof (cases h)
    case (Some h')
    then show ?thesis using parse_header_ok [of buf invoke service err p h' e] ph assms(2) by auto
  qed (use ph assms(1) in simp)
qed

lemma or_bad_skip_safe:
  "tot \<le> length buf \<Longrightarrow> (\<And>u p. k u p \<noteq> None) \<Longrightarrow> or_bad (skip_array_index buf tot pos) k bad \<noteq> None"
  using skip_array_index_safe [of tot buf pos] by (auto simp: or_bad_def split: option.splits)

lemma parse_read_property_ack_safe: "parse_read_property_ack buf invoke property err expected \<noteq> None"
  unfolding parse_read_property_ack_def
  by (rule header_then_total)
    (simp_all add: Let_def context_object.or_bad_safe context_uint.or_bad_safe expect.or_bad_safe
      app.or_bad_safe or_bad_skip_safe del: not_None_eq)

lemma rpm_props_safe:
  assumes "tot \<le> length buf" "tot - pos \<le> fuel"
  shows "\<exists>r out' count'. rpm_props fuel buf tot obj pos out count = Some (r, out', count') \<and>
    length out' = length out \<and> (count \<le> length out \<longrightarrow> count' \<le> length out) \<and> (\<forall>p. r = Go p \<longrightarrow> pos \<le> p)"
  using assms
proof (induction fuel arbitrary: pos out count)
  case 0
  then show ?case by (subst rpm_props.simps) simp
next
  case (Suc fuel)
  show ?case
  proof (cases "pos < tot \<and> \<not> is_close (buf ! pos) 1 \<and> count < length out")
    case True
    obtain r where r: "read_property_result obj (out ! count) buf tot pos = Some r"
      using result.scan_safe [OF Suc.prems(1), of obj "out ! count" pos] by auto
    show ?thesis
    proof (cases r)
      case None
      then show ?thesis using True r Suc.prems(1) by (subst rpm_props.simps) simp
    next
      case (Some x)
      then obtain pv p where rr: "read_property_result obj (out ! count) buf tot pos = Some (Some (pv, p))"
        using r by (cases x) simp
      have "pos < p" using result.scan_advances [OF rr] by simp
      then have "tot - p \<le> fuel" using Suc.prems(2) by simp
      from Suc.IH [OF Suc.prems(1) this, of "out[count := pv]" "Suc count"]
      show ?thesis using True rr \<open>pos < p\<close> Suc.prems(1) by (subst rpm_props.simps) fastforce
    qed
  next
    case False
    then show ?thesis using Suc.prems(1) by (subst rpm_props.simps) auto
  qed
qed

lemma rpm_objects_safe:
  assumes "tot \<le> length buf" "tot - pos \<le> fuel" "count \<le> length out"
  shows "\<exists>p out' count'. rpm_objects fuel buf tot expected pos out count = Some (p, out', count') \<and>
    length out' = length out \<and> count' \<le> length out"
  using assms
proof (induction fuel arbitrary: pos out count)
  case 0
  then show ?case by (subst rpm_objects.simps) simp
next
  case (Suc fuel)
  note l = Suc.prems(1)
  show ?case
  proof (cases "tot \<le> pos")
    case False
    obtain r1 where r1: "read_context_object 0 buf tot pos = Some r1"
      using context_object.scan_safe [OF l] by blast
    show ?thesis
    proof (cases r1)
      case (Some op)
      then obtain obj p1 where o: "read_context_object 0 buf tot pos = Some (Some (obj, p1))"
        using r1 by (cases op) simp
      obtain r2 where r2: "expect (\<lambda>b. is_open b 1) buf tot p1 = Some r2"
        using expect.scan_safe [OF l] by blast
      show ?thesis
      proof (cases r2)
        case (Some up)
        then obtain p2 where e: "expect (\<lambda>b. is_open b 1) buf tot p1 = Some (Some ((), p2))"
          using r2 by (cases up) simp
        have adv: "pos < p2" using context_object.scan_advances [OF o] expect.scan_advances [OF e] by simp
        obtain r out1 c1 where pr: "rpm_props (tot - p2) buf tot obj p2 out count = Some (r, out1, c1)"
          "length out1 = length out" "c1 \<le> length out" "\<And>p. r = Go p \<Longrightarrow> p2 \<le> p"
          using rpm_props_safe [OF l order_refl, of p2 obj out count] Suc.prems(3) by blast
        show ?thesis
        proof (cases r)
          case (Go p3)
          obtain r3 where r3: "expect (\<lambda>b. is_close b 1) buf tot p3 = Some r3"
            using expect.scan_safe [OF l] by blast
          show ?thesis
          proof (cases r3)
            case (Some up)
            then obtain p4 where e4: "expect (\<lambda>b. is_close b 1) buf tot p3 = Some (Some ((), p4))"
              using r3 by (cases up) simp
            have "tot - p4 \<le> fuel"
              using expect.scan_advances [OF e4] pr(4) [OF Go] adv Suc.prems(2) by linarith
            from Suc.IH [OF l this, of c1 out1] show ?thesis
              using False o e pr Go e4 by (subst rpm_objects.simps) (auto simp: or_bad_def Suc.prems(3))
          qed (use False o e pr Go r3 Suc.prems(3) in \<open>subst rpm_objects.simps, auto simp: or_bad_def\<close>)
        qed (use False o e pr Suc.prems(3) in \<open>subst rpm_objects.simps, auto simp: or_bad_def\<close>)
      qed (use False o r2 Suc.prems(3) in \<open>subst rpm_objects.simps, auto simp: or_bad_def\<close>)
    qed (use False r1 Suc.prems(3) in \<open>subst rpm_objects.simps, auto simp: or_bad_def\<close>)
  qed (use Suc.prems(3) in \<open>subst rpm_objects.simps, simp\<close>)
qed


lemma frame_matches_safe: "frame_matches buf invoke service \<noteq> None"
  unfolding frame_matches_def by (rule header_then_total) simp_all

lemma frame_matches_object_safe: "frame_matches_object buf invoke service expected \<noteq> None"
  unfolding frame_matches_object_def
  by (rule header_then_total) (simp_all add: bind_eq_None_conv context_object.scan_safe del: not_None_eq)

lemma parse_read_property_multiple_ack_safe:
  "\<exists>p out' count err'. parse_read_property_multiple_ack buf invoke out err expected = Some (p, out', count, err') \<and>
     length out' = length out \<and> count \<le> length out"
proof -
  obtain p h e where ph: "parse_header buf invoke kServiceReadPropertyMultiple err = Some (p, h, e)"
    using parse_header_safe [of buf invoke kServiceReadPropertyMultiple err] by auto
  show ?thesis
  proof (cases h)
    case (Some h')
    with parse_header_ok(3) ph obtain tot where t: "total_of buf = Some tot" "tot \<le> length buf" by blast
    from rpm_objects_safe [OF t(2) order_refl, of 0 out "h_pos h'" expected]
    show ?thesis by (auto simp: parse_read_property_multiple_ack_def ph Some t)
  qed (simp add: parse_read_property_multiple_ack_def ph)
qed

lemma i_am_body_safe: "tot \<le> length buf \<Longrightarrow> i_am_body buf tot pos \<noteq> None"
  by (simp add: i_am_body_def app_uint.or_bad_safe del: not_None_eq)

lemma parse_i_am_safe: "parse_i_am buf \<noteq> None"
proof (cases "length buf < 12")
  case False
  then have "buf \<noteq> []" by auto
  with False show ?thesis
    by (simp add: parse_i_am_def total_of_def Let_def i_am_body_safe del: not_None_eq)
qed (simp add: parse_i_am_def)


text \<open>
  C6: No datagram, whatever its length and bytes, makes a parser of the codec read outside the
  received bytes, and every parser returns.  The acknowledgement of a ReadPropertyMultiple stores its
  results inside the caller's array and never counts more of them than the array holds.
\<close>

theorem no_datagram_leads_out_of_bounds:
  "parse_header buf invoke service err \<noteq> None \<and>
   parse_read_property_ack buf invoke property err expected \<noteq> None \<and>
   parse_i_am buf \<noteq> None \<and>
   frame_matches buf invoke service \<noteq> None \<and>
   frame_matches_object buf invoke service oid \<noteq> None \<and>
   (\<exists>p out' count err'. parse_read_property_multiple_ack buf invoke out err expected = Some (p, out', count, err') \<and>
      length out' = length out \<and> count \<le> length out)"
  by (intro conjI parse_header_safe parse_read_property_ack_safe parse_i_am_safe frame_matches_safe
      frame_matches_object_safe parse_read_property_multiple_ack_safe)

section \<open>An accepted acknowledgement answers the request\<close>

lemma parse_header_accepts:
  assumes "parse_header buf invoke service err = Some (p, Some h, err')"
  shows "buf ! 0 = kBvlcType \<and> buf ! 1 = kBvlcOriginalUnicast \<and> buf ! 4 = kNpduVersion \<and>
    buf ! 6 AND 0xF0 = kComplexAck \<and> buf ! 7 = invoke \<and> buf ! 8 = service"
proof -
  have "buf \<noteq> []" "\<not> length buf < 7" using assms by (auto simp: parse_header_def)
  with assms parse_reply_ok show ?thesis
    by (auto simp: parse_header_def Let_def split: if_splits)
qed

lemma parse_header_refuses:
  assumes "parse_header buf invoke service err = Some (p, None, err')"
  shows "p \<noteq> Parse_Ok"
proof -
  have reply: "parse_reply buf tot pd invoke service err = Some (p, None, err') \<Longrightarrow> p \<noteq> Parse_Ok" for tot pd
    by (auto simp: parse_reply_def bind_eq_Some_conv split: if_splits option.splits)
  show ?thesis
  proof (cases "length buf < 7")
    case False
    then have "buf \<noteq> []" by auto
    with False assms reply show ?thesis by (auto simp: parse_header_def Let_def split: if_splits)
  qed (use assms in \<open>simp add: parse_header_def\<close>)
qed

lemma or_bad_ok:
  "or_bad x k bad = Some (Parse_Ok, r) \<Longrightarrow> \<exists>v p. x = Some (Some (v, p)) \<and> k v p = Some (Parse_Ok, r)"
  by (auto simp: or_bad_def split: option.splits)

text \<open>
  C26: \<open>parse_read_property_ack\<close> returns a value only for the answer to the request that was sent: a
  unicast BACnet/IP frame holding a complex acknowledgement with the request's invoke id and service,
  whose object is the expected one (any instance for the wildcard) and whose property is the one asked for.
\<close>

theorem accepted_ack_answers_request:
  assumes "parse_read_property_ack buf invoke property err (Some expected) = Some (Parse_Ok, v, err')"
  shows "v \<noteq> None \<and> buf ! 0 = 0x81 \<and> buf ! 1 = 0x0A \<and> buf ! 6 AND 0xF0 = 0x30 \<and> buf ! 7 = invoke \<and> buf ! 8 = 12 \<and>
    (\<exists>tot oid p q. total_of buf = Some tot \<and> tot \<le> length buf \<and>
       read_context_object 0 buf tot 9 = Some (Some (oid, p)) \<and> otype oid = otype expected \<and>
       (instance_no expected = 4194303 \<or> instance_no oid = instance_no expected) \<and>
       read_context_uint 1 buf tot p = Some (Some (property, q)))"
proof -
  obtain p h e where ph: "parse_header buf invoke kServiceReadProperty err = Some (p, h, e)"
    using parse_header_safe [of buf invoke kServiceReadProperty err] by auto
  show ?thesis
  proof (cases h)
    case None
    then show ?thesis using assms parse_header_refuses [of buf invoke kServiceReadProperty err p e] ph
      by (simp add: parse_read_property_ack_def)
  next
    case (Some h')
    note ok = parse_header_ok [OF ph [unfolded Some]] parse_header_accepts [OF ph [unfolded Some]]
    then obtain tot where t: "total_of buf = Some tot" "tot \<le> length buf" by blast
    show ?thesis using assms ok t
      unfolding parse_read_property_ack_def ph Some
      by (auto simp: Let_def kBvlcType_def kBvlcOriginalUnicast_def kComplexAck_def kServiceReadProperty_def
          object_expected_def kDeviceWildcard_def dest!: or_bad_ok split: if_splits)
  qed
qed

text \<open>An acknowledgement of the present value 20.5 of analog input 1.\<close>

definition demo_ack :: bytes where
  "demo_ack = [0x81, 0x0A, 0, 23, 1, 0, 0x30, 7, 12, 0x0C, 0, 0, 0, 1, 0x19, 85, 0x3E, 0x44, 0x41, 0xA4, 0, 0, 0x3F]"

theorem accepted_ack_answers_request_witness:
  "parse_read_property_ack demo_ack 7 85 None (Some \<lparr> otype = 0, instance_no = 1 \<rparr>) =
     Some (Parse_Ok, Some (Value_zero\<lparr> vtype := VReal, real_bits := 0x41A40000 \<rparr>), None) \<and>
   demo_ack ! 7 = 7 \<and> demo_ack ! 8 = 12"
proof -
  have *: "parse_read_property_ack demo_ack 7 85 None (Some \<lparr> otype = 0, instance_no = 1 \<rparr>) =
     Some (Parse_Ok, Some (Value_zero\<lparr> vtype := VReal, real_bits := 0x41A40000 \<rparr>), None)"
    by code_simp
  from accepted_ack_answers_request [OF *] * show ?thesis by simp
qed

end
