(* ===== verification/Bacnet_Write.thy ===== *)
theory Bacnet_Write
  imports Bacnet_Read
begin

unbundle bit_operations_syntax

text \<open>
  The building half of the BACnet/IP codec (\<open>main/bacnet_frame.cpp\<close>): the \<open>Writer\<close> of application
  values and the ReadProperty, ReadPropertyMultiple and Who-Is requests.

  The three arguments \<open>(uint8_t* out, size_t cap, size_t* pos)\<close> that the builders pass around are an
  \<open>out_buf\<close>; a \<open>Writer\<close> is an \<open>out_buf\<close> with the sticky \<open>ok_\<close> flag.  \<open>w_buf\<close> is all the memory behind
  the pointer: a store past its end is the outer \<open>None\<close>.  An operation returns the boolean of the code
  and the state it leaves, also when it fails half way.

  The contract \<open>emitter\<close> says that an operation appends a fixed run of bytes when they fit and reports
  failure without leaving the buffer when they do not; it is closed under sequencing, so the contracts
  of the builders follow from those of their parts.
\<close>

section \<open>Output buffers\<close>

record out_buf =
  w_buf :: bytes
  w_cap :: nat
  w_pos :: nat

record Writer = out_buf +
  w_ok :: bool

text \<open>The state after storing \<open>bs\<close> at the position and moving on, and the store itself.\<close>

definition wrote :: "'a out_buf_scheme \<Rightarrow> bytes \<Rightarrow> 'a out_buf_scheme" where
  "wrote w bs = w\<lparr> w_buf := take (w_pos w) (w_buf w) @ bs @ drop (w_pos w + length bs) (w_buf w),
                   w_pos := w_pos w + length bs \<rparr>"

definition store :: "'a out_buf_scheme \<Rightarrow> bytes \<Rightarrow> 'a out_buf_scheme option" where
  "store w bs = (if w_pos w + length bs \<le> length (w_buf w) then Some (wrote w bs) else None)"

text \<open>\<open>a && b\<close> and \<open>if (!a) return false; b\<close>.\<close>

definition and_then :: "(bool \<times> 'w) option \<Rightarrow> ('w \<Rightarrow> (bool \<times> 'w) option) \<Rightarrow> (bool \<times> 'w) option" where
  "and_then x f = (case x of None \<Rightarrow> None | Some (ok, w) \<Rightarrow> if ok then f w else Some (False, w))"

section \<open>The writer of application values\<close>

definition Writer_u8 :: "Writer \<Rightarrow> u8 \<Rightarrow> (bool \<times> Writer) option" where
  "Writer_u8 w v =
     (if w_pos w \<ge> w_cap w then Some (False, w\<lparr> w_ok := False \<rparr>)
      else do { w \<leftarrow> store w [v]; Some (True, w) })"

definition Writer_bytes :: "Writer \<Rightarrow> bytes \<Rightarrow> (bool \<times> Writer) option" where
  "Writer_bytes w data =
     (if w_pos w + length data > w_cap w then Some (False, w\<lparr> w_ok := False \<rparr>)
      else do { w \<leftarrow> store w data; Some (True, w) })"

definition Writer_tag :: "Writer \<Rightarrow> u8 \<Rightarrow> nat \<Rightarrow> (bool \<times> Writer) option" where
  "Writer_tag w tag_id n =
     (if n < 5 then Writer_u8 w (push_bit 4 tag_id OR of_nat n)
      else and_then (Writer_u8 w (push_bit 4 tag_id OR 5)) (\<lambda>w. Writer_u8 w (of_nat n)))"

definition object_id_word :: "u16 \<Rightarrow> u32 \<Rightarrow> u32" where
  "object_id_word ty inst = push_bit 22 (ucast ty) OR (inst AND 0x3FFFFF)"

definition be4 :: "u32 \<Rightarrow> bytes" where
  "be4 v = [ucast (drop_bit 24 v), ucast (drop_bit 16 v), ucast (drop_bit 8 v), ucast v]"

definition application_object_id :: "Writer \<Rightarrow> u16 \<Rightarrow> u32 \<Rightarrow> (bool \<times> Writer) option" where
  "application_object_id w ty inst =
     and_then (Writer_tag w 12 4) (\<lambda>w. Writer_bytes w (be4 (object_id_word ty inst)))"

definition unsigned_bytes :: "u32 \<Rightarrow> bytes" where
  "unsigned_bytes v =
     (if v \<le> 0xFF then [ucast v]
      else if v \<le> 0xFFFF then [ucast (drop_bit 8 v), ucast v]
      else be4 v)"

definition application_unsigned :: "Writer \<Rightarrow> u32 \<Rightarrow> (bool \<times> Writer) option" where
  "application_unsigned w v =
     (let b = unsigned_bytes v in and_then (Writer_tag w 2 (length b)) (\<lambda>w. Writer_bytes w b))"

text \<open>The loop fills \<open>b[n - 1 - i]\<close> with byte \<open>i\<close> of the value.\<close>

definition enumerated_bytes :: "u32 \<Rightarrow> bytes" where
  "enumerated_bytes v =
     (let n = if v \<le> 0xFF then 1 else if v \<le> 0xFFFF then 2 else (4 :: nat)
      in fold (\<lambda>i b. b[n - 1 - i := ucast (drop_bit (8 * i) v)]) [0..<n] (replicate n 0))"

definition application_enumerated :: "Writer \<Rightarrow> u32 \<Rightarrow> (bool \<times> Writer) option" where
  "application_enumerated w v =
     (let b = enumerated_bytes v in and_then (Writer_tag w 9 (length b)) (\<lambda>w. Writer_bytes w b))"

text \<open>\<open>bits\<close> is the representation of the float, as \<open>memcpy\<close> reads it.\<close>

definition application_real :: "Writer \<Rightarrow> u32 \<Rightarrow> (bool \<times> Writer) option" where
  "application_real w bits = and_then (Writer_tag w 4 4) (\<lambda>w. Writer_bytes w (be4 bits))"

text \<open>\<open>s\<close> holds the characters before the terminating zero.\<close>

definition application_string :: "Writer \<Rightarrow> bytes \<Rightarrow> (bool \<times> Writer) option" where
  "application_string w s =
     (let n = if length s > 63 then 63 else length s
      in and_then (and_then (Writer_tag w 7 (n + 1)) (\<lambda>w. Writer_u8 w 0)) (\<lambda>w. Writer_bytes w (take n s)))"

definition application_bitstring :: "Writer \<Rightarrow> u8 \<Rightarrow> u8 \<Rightarrow> (bool \<times> Writer) option" where
  "application_bitstring w bits count =
     and_then (Writer_tag w 8 2) (\<lambda>w. Writer_bytes w [8 - count, bits])"

section \<open>Requests\<close>

definition kNpduExpectingReply :: u8 where "kNpduExpectingReply = 0x04"
definition kConfirmedRequest :: u8 where "kConfirmedRequest = 0x00"
definition kMaxSegmentsMaxApdu :: u8 where "kMaxSegmentsMaxApdu = 0x05"
definition kServiceWhoIs :: u8 where "kServiceWhoIs = 8"
definition kMaxFrame :: nat where "kMaxFrame = 1500"
definition ObjectType_AnalogInput :: u16 where "ObjectType_AnalogInput = 0"
definition ObjectType_AnalogValue :: u16 where "ObjectType_AnalogValue = 2"

definition context_bytes :: "u32 \<Rightarrow> bytes" where
  "context_bytes v =
     (if v \<le> 0xFF then [ucast v]
      else if v \<le> 0xFFFF then [ucast (drop_bit 8 v), ucast v]
      else if v \<le> 0xFFFFFF then [ucast (drop_bit 16 v), ucast (drop_bit 8 v), ucast v]
      else [ucast (drop_bit 24 v), ucast (drop_bit 16 v), ucast (drop_bit 8 v), ucast v])"

definition context_tag :: "out_buf \<Rightarrow> u8 \<Rightarrow> u32 \<Rightarrow> (bool \<times> out_buf) option" where
  "context_tag w tag v =
     (let b = context_bytes v; n = length b
      in if w_pos w + 1 + n > w_cap w then Some (False, w)
         else do {
           w \<leftarrow> store w [push_bit 4 tag OR of_nat n OR 0x08];
           w \<leftarrow> store w b;
           Some (True, w) })"

definition context_object_id :: "out_buf \<Rightarrow> u8 \<Rightarrow> u16 \<Rightarrow> u32 \<Rightarrow> (bool \<times> out_buf) option" where
  "context_object_id w tag ty inst =
     (if inst > kDeviceWildcard \<or> w_pos w + 5 > w_cap w then Some (False, w)
      else do {
        w \<leftarrow> store w [push_bit 4 tag OR 4 OR 0x08];
        w \<leftarrow> store w (be4 (object_id_word ty inst));
        Some (True, w) })"

definition opening_tag :: "out_buf \<Rightarrow> u8 \<Rightarrow> (bool \<times> out_buf) option" where
  "opening_tag w tag =
     (if w_pos w + 1 > w_cap w then Some (False, w)
      else do { w \<leftarrow> store w [push_bit 4 tag OR 0x0E]; Some (True, w) })"

definition closing_tag :: "out_buf \<Rightarrow> u8 \<Rightarrow> (bool \<times> out_buf) option" where
  "closing_tag w tag =
     (if w_pos w + 1 > w_cap w then Some (False, w)
      else do { w \<leftarrow> store w [push_bit 4 tag OR 0x0F]; Some (True, w) })"

definition request_start :: "u8 \<Rightarrow> u8 \<Rightarrow> bytes" where
  "request_start invoke service =
     [kBvlcType, kBvlcOriginalUnicast, 0, 0, kNpduVersion, kNpduExpectingReply, kConfirmedRequest,
      kMaxSegmentsMaxApdu, invoke, service]"

definition begin_request :: "u8 \<Rightarrow> u8 \<Rightarrow> out_buf \<Rightarrow> (bool \<times> out_buf) option" where
  "begin_request invoke service w =
     (if w_cap w < 10 then Some (False, w)
      else do { w \<leftarrow> store (w\<lparr> w_pos := 0 \<rparr>) (request_start invoke service); Some (True, w) })"

text \<open>On success \<open>w_pos\<close> is what is stored through \<open>out_len\<close>.\<close>

definition finish_request :: "out_buf \<Rightarrow> (bool \<times> out_buf) option" where
  "finish_request w =
     (if w_pos w > kMaxFrame then Some (False, w)
      else if length (w_buf w) \<le> 3 then None
      else Some (True, w\<lparr> w_buf := (w_buf w)[2 := of_nat (w_pos w div 256), 3 := of_nat (w_pos w)] \<rparr>))"

definition fresh_out :: "bytes \<Rightarrow> nat \<Rightarrow> out_buf" where
  "fresh_out out cap = \<lparr> w_buf = out, w_cap = cap, w_pos = 0 \<rparr>"

definition build_read_property ::
  "u8 \<Rightarrow> u16 \<Rightarrow> u32 \<Rightarrow> u32 \<Rightarrow> u32 \<Rightarrow> bool \<Rightarrow> bytes \<Rightarrow> nat \<Rightarrow> (bool \<times> out_buf) option" where
  "build_read_property invoke ty inst property array_index has_array_index out cap =
     and_then (begin_request invoke kServiceReadProperty (fresh_out out cap)) (\<lambda>w.
     and_then (context_object_id w 0 ty inst) (\<lambda>w.
     and_then (context_tag w 1 property) (\<lambda>w.
     and_then (if has_array_index then context_tag w 2 array_index else Some (True, w)) finish_request)))"

fun context_tags :: "out_buf \<Rightarrow> u32 list \<Rightarrow> (bool \<times> out_buf) option" where
  "context_tags w [] = Some (True, w)"
| "context_tags w (p # ps) = and_then (context_tag w 0 p) (\<lambda>w. context_tags w ps)"

definition build_read_property_multiple ::
  "u8 \<Rightarrow> u16 \<Rightarrow> u32 \<Rightarrow> u32 list \<Rightarrow> bytes \<Rightarrow> nat \<Rightarrow> (bool \<times> out_buf) option" where
  "build_read_property_multiple invoke ty inst properties out cap =
     and_then (begin_request invoke kServiceReadPropertyMultiple (fresh_out out cap)) (\<lambda>w.
     and_then (context_object_id w 0 ty inst) (\<lambda>w.
     and_then (opening_tag w 1) (\<lambda>w.
     and_then (context_tags w properties) (\<lambda>w.
     and_then (closing_tag w 1) finish_request))))"

definition build_who_is :: "bytes \<Rightarrow> nat \<Rightarrow> (bool \<times> out_buf) option" where
  "build_who_is out cap =
     (if cap < 8 then Some (False, fresh_out out cap)
      else do {
        w \<leftarrow> store (fresh_out out cap)
               [kBvlcType, kBvlcOriginalBroadcast, 0, 8, kNpduVersion, 0, 0x10, kServiceWhoIs];
        Some (True, w) })"

text \<open>\<open>None\<close> is the return value false; \<open>*out\<close> is then untouched.\<close>

definition object_type_from_perf :: "u8 \<Rightarrow> u16 option" where
  "object_type_from_perf perf_type =
     (if perf_type = 0 then Some ObjectType_AnalogInput
      else if perf_type = 1 then Some ObjectType_AnalogValue
      else None)"

section \<open>Emitters\<close>

text \<open>A buffer whose announced capacity is really there.\<close>

definition out_ok :: "'a out_buf_scheme \<Rightarrow> bool" where
  "out_ok w \<longleftrightarrow> w_pos w \<le> w_cap w \<and> w_cap w \<le> length (w_buf w)"

definition fits :: "'a out_buf_scheme \<Rightarrow> bytes \<Rightarrow> bool" where
  "fits w bs \<longleftrightarrow> w_pos w + length bs \<le> w_cap w"

lemma wrote_simps [simp]:
  "w_cap (wrote w bs) = w_cap w"
  "w_pos (wrote w bs) = w_pos w + length bs"
  "w_pos w + length bs \<le> length (w_buf w) \<Longrightarrow> length (w_buf (wrote w bs)) = length (w_buf w)"
  by (simp_all add: wrote_def)

lemma wrote_wrote:
  assumes "w_pos w + length xs + length ys \<le> length (w_buf w)"
  shows "wrote (wrote w xs) ys = wrote w (xs @ ys)"
proof -
  have "min (length (w_buf w)) (w_pos w) = w_pos w" using assms by simp
  then show ?thesis by (simp add: wrote_def ac_simps)
qed

lemma out_ok_wrote: "out_ok w \<Longrightarrow> fits w bs \<Longrightarrow> out_ok (wrote w bs)"
  by (simp add: out_ok_def fits_def)

lemma store_eq: "out_ok w \<Longrightarrow> fits w bs \<Longrightarrow> store w bs = Some (wrote w bs)"
  by (simp add: store_def out_ok_def fits_def)

locale emitter =
  fixes f :: "'a out_buf_scheme \<Rightarrow> (bool \<times> 'a out_buf_scheme) option" and enc :: bytes
  assumes room: "out_ok w \<Longrightarrow> fits w enc \<Longrightarrow> f w = Some (True, wrote w enc)"
    and no_room: "out_ok w \<Longrightarrow> \<not> fits w enc \<Longrightarrow>
      \<exists>w'. f w = Some (False, w') \<and> out_ok w' \<and> w_cap w' = w_cap w \<and> length (w_buf w') = length (w_buf w)"
begin

text \<open>No store leaves the buffer, and the buffer stays well formed.\<close>

lemma in_bounds:
  assumes "out_ok w"
  shows "\<exists>ok w'. f w = Some (ok, w') \<and> out_ok w' \<and> w_cap w' = w_cap w \<and> length (w_buf w') = length (w_buf w)"
proof (cases "fits w enc")
  case True
  then have "w_pos w + length enc \<le> length (w_buf w)" using assms by (simp add: fits_def out_ok_def)
  then show ?thesis using room [OF assms True] out_ok_wrote [OF assms True] by auto
qed (use no_room [OF assms] in blast)

lemma succeeds_iff: "out_ok w \<Longrightarrow> (\<exists>w'. f w = Some (True, w')) \<longleftrightarrow> fits w enc"
  using room [of w] no_room [of w] by (cases "fits w enc") auto

lemma result: "out_ok w \<Longrightarrow> f w = Some (True, w') \<Longrightarrow> fits w enc \<and> w' = wrote w enc"
  using room [of w] no_room [of w] by (cases "fits w enc") auto

text \<open>What follows a successful emitter continues at the end of its bytes.\<close>

lemma seq:
  assumes "emitter g enc'"
  shows "emitter (\<lambda>w. and_then (f w) g) (enc @ enc')"
proof
  fix w :: "'a out_buf_scheme"
  assume w: "out_ok w" "fits w (enc @ enc')"
  then have 1: "fits w enc" by (simp add: fits_def)
  have "fits (wrote w enc) enc'" using w by (simp add: fits_def)
  then have "g (wrote w enc) = Some (True, wrote (wrote w enc) enc')"
    using emitter.room [OF assms] out_ok_wrote [OF w(1) 1] by blast
  moreover have "wrote (wrote w enc) enc' = wrote w (enc @ enc')"
    using w by (intro wrote_wrote) (simp add: fits_def out_ok_def)
  ultimately show "and_then (f w) g = Some (True, wrote w (enc @ enc'))"
    by (simp add: and_then_def room [OF w(1) 1])
next
  fix w :: "'a out_buf_scheme"
  assume w: "out_ok w" "\<not> fits w (enc @ enc')"
  show "\<exists>w'. and_then (f w) g = Some (False, w') \<and> out_ok w' \<and> w_cap w' = w_cap w \<and> length (w_buf w') = length (w_buf w)"
  proof (cases "fits w enc")
    case True
    then have "\<not> fits (wrote w enc) enc'" using w by (simp add: fits_def)
    moreover have "w_pos w + length enc \<le> length (w_buf w)" using w True by (simp add: fits_def out_ok_def)
    ultimately show ?thesis
      using emitter.no_room [OF assms out_ok_wrote [OF w(1) True]] room [OF w(1) True] by (auto simp: and_then_def)
  next
    case False
    then show ?thesis using no_room [OF w(1) False] by (auto simp: and_then_def)
  qed
qed

end


section \<open>The emitters of the codec\<close>

lemma out_ok_flag [simp]: "out_ok (w\<lparr> w_ok := b \<rparr>) = out_ok w"
  by (simp add: out_ok_def)

interpretation u8: emitter "\<lambda>w. Writer_u8 w v" "[v]" for v
  by unfold_locales (auto simp: Writer_u8_def store_eq, auto simp: fits_def)

interpretation raw: emitter "\<lambda>w. Writer_bytes w data" data for data
  by unfold_locales (auto simp: Writer_bytes_def store_eq, auto simp: fits_def)

definition tag_enc :: "u8 \<Rightarrow> nat \<Rightarrow> bytes" where
  "tag_enc tag n = (if n < 5 then [push_bit 4 tag OR of_nat n] else [push_bit 4 tag OR 5, of_nat n])"

interpretation wtag: emitter "\<lambda>w. Writer_tag w tag n" "tag_enc tag n" for tag n
proof (cases "n < 5")
  case True
  then show "emitter (\<lambda>w. Writer_tag w tag n) (tag_enc tag n)"
    using u8.emitter_axioms [of "push_bit 4 tag OR of_nat n"] by (simp add: Writer_tag_def tag_enc_def)
next
  case False
  then show "emitter (\<lambda>w. Writer_tag w tag n) (tag_enc tag n)"
    using u8.seq [OF u8.emitter_axioms, of "push_bit 4 tag OR 5" "of_nat n"] by (simp add: Writer_tag_def tag_enc_def)
qed

lemmas tagged_emitter = wtag.seq [OF raw.emitter_axioms]

interpretation w_object: emitter "\<lambda>w. application_object_id w ty inst" "tag_enc 12 4 @ be4 (object_id_word ty inst)" for ty inst
  using tagged_emitter by (simp add: application_object_id_def)

interpretation w_unsigned: emitter "\<lambda>w. application_unsigned w v" "tag_enc 2 (length (unsigned_bytes v)) @ unsigned_bytes v" for v
  using tagged_emitter by (simp add: application_unsigned_def Let_def)

interpretation w_enumerated: emitter "\<lambda>w. application_enumerated w v"
    "tag_enc 9 (length (enumerated_bytes v)) @ enumerated_bytes v" for v
  using tagged_emitter by (simp add: application_enumerated_def Let_def)

interpretation w_real: emitter "\<lambda>w. application_real w bits" "tag_enc 4 4 @ be4 bits" for bits
  using tagged_emitter by (simp add: application_real_def)

interpretation w_string: emitter "\<lambda>w. application_string w s" "tag_enc 7 (Suc (length (take 63 s))) @ 0 # take 63 s" for s
  using emitter.seq [OF wtag.seq [OF u8.emitter_axioms] raw.emitter_axioms, of 7 "Suc (length (take 63 s))" 0 "take 63 s"]
  by (cases "63 < length s") (simp_all add: application_string_def min_def)

interpretation w_bitstring: emitter "\<lambda>w. application_bitstring w bits count" "tag_enc 8 2 @ [8 - count, bits]" for bits count
  using tagged_emitter by (simp add: application_bitstring_def)

text \<open>The emitters of the requests.\<close>

interpretation open_tag: emitter "\<lambda>w. opening_tag w tag" "[push_bit 4 tag OR 0x0E]" for tag
  by unfold_locales (auto simp: opening_tag_def store_eq, auto simp: fits_def)

interpretation close_tag: emitter "\<lambda>w. closing_tag w tag" "[push_bit 4 tag OR 0x0F]" for tag
  by unfold_locales (auto simp: closing_tag_def store_eq, auto simp: fits_def)

lemma store_store:
  assumes "out_ok w" "fits w (xs @ ys)"
  shows "(do { w \<leftarrow> store w xs; w \<leftarrow> store w ys; Some (True, w) }) = Some (True, wrote w (xs @ ys))"
proof -
  have "fits w xs" "fits (wrote w xs) ys" using assms by (simp_all add: fits_def)
  moreover have "wrote (wrote w xs) ys = wrote w (xs @ ys)"
    using assms by (intro wrote_wrote) (simp add: fits_def out_ok_def)
  ultimately show ?thesis using assms by (simp add: store_eq out_ok_wrote)
qed

definition context_enc :: "u8 \<Rightarrow> u32 \<Rightarrow> bytes" where
  "context_enc tag v = [push_bit 4 tag OR of_nat (length (context_bytes v)) OR 0x08] @ context_bytes v"

interpretation ctag: emitter "\<lambda>w. context_tag w tag v" "context_enc tag v" for tag v
  by unfold_locales
    (auto simp: context_tag_def context_enc_def store_store [of _ "[_]", simplified] Let_def, auto simp: fits_def)

definition object_enc :: "u8 \<Rightarrow> u16 \<Rightarrow> u32 \<Rightarrow> bytes" where
  "object_enc tag ty inst = [push_bit 4 tag OR 4 OR 0x08] @ be4 (object_id_word ty inst)"

lemma length_be4 [simp]: "length (be4 v) = 4"
  by (simp add: be4_def)

lemma cobj_emitter:
  assumes "inst \<le> kDeviceWildcard"
  shows "emitter (\<lambda>w. context_object_id w tag ty inst) (object_enc tag ty inst)"
  by unfold_locales
    (use assms in \<open>auto simp: context_object_id_def object_enc_def store_store [of _ "[_]", simplified] not_less fits_def\<close>)

lemma nil_emitter: "emitter (\<lambda>w. Some (True, w)) []"
  by unfold_locales (simp_all add: wrote_def fits_def out_ok_def)

lemma ctags_emitter: "emitter (\<lambda>w. context_tags w ps) (concat (map (context_enc 0) ps))"
  by (induction ps) (simp_all add: nil_emitter ctag.seq)


section \<open>Values survive the wire\<close>

lemma be_step:
  assumes "unat (a :: u32) < 16777216"
  shows "unat (push_bit 8 a OR ucast (b :: u8) :: u32) = unat a * 256 + unat b"
proof -
  have "unat (push_bit 8 a OR ucast b :: u32) = (unat a * 2 ^ 8) OR unat b"
    using assms u8_bound [of b] by (simp add: unsigned_or_eq word_nat)
  also have "\<dots> = unat a * 2 ^ 8 + unat b"
    using u8_bound [of b] by (intro nat_or_disjoint) simp
  finally show ?thesis by simp
qed

lemma be_value_snoc: "be_value (xs @ [b]) = push_bit 8 (be_value xs) OR ucast b"
  by (simp add: be_value_def)

lemma unat_be_value_snoc:
  assumes "length xs < 4"
  shows "unat (be_value xs) < 256 ^ length xs \<and> unat (be_value (xs @ [b])) = unat (be_value xs) * 256 + unat b"
  using assms
proof (induction xs arbitrary: b rule: rev_induct)
  case Nil
  show ?case using u8_bound [of b] by (simp add: be_value_def word_nat)
next
  case (snoc x xs)
  then have "unat (be_value xs) < 256 ^ length xs" "unat (be_value (xs @ [x])) = unat (be_value xs) * 256 + unat x"
    by simp_all
  then have less: "unat (be_value (xs @ [x])) < 256 ^ Suc (length xs)" using u8_bound [of x] by simp
  also have "\<dots> \<le> 256 ^ 3" using snoc.prems by (intro power_increasing) simp_all
  finally have "unat (be_value (xs @ [x])) < 16777216" by simp
  from be_step [OF this] show ?case using less by (simp add: be_value_snoc [of "xs @ [x]", simplified])
qed

lemma be_value_simps:
  "unat (be_value [a]) = unat a"
  "unat (be_value [a, b]) = unat a * 256 + unat b"
  "unat (be_value [a, b, c]) = (unat a * 256 + unat b) * 256 + unat c"
  "unat (be_value [a, b, c, d]) = ((unat a * 256 + unat b) * 256 + unat c) * 256 + unat d"
proof -
  show 1: "unat (be_value [a]) = unat a"
    using unat_be_value_snoc [of "[]" a] by (simp add: be_value_def)
  show 2: "unat (be_value [a, b]) = unat a * 256 + unat b"
    using unat_be_value_snoc [of "[a]" b] 1 by simp
  show 3: "unat (be_value [a, b, c]) = (unat a * 256 + unat b) * 256 + unat c"
    using unat_be_value_snoc [of "[a, b]" c] 2 by simp
  show "unat (be_value [a, b, c, d]) = ((unat a * 256 + unat b) * 256 + unat c) * 256 + unat d"
    using unat_be_value_snoc [of "[a, b, c]" d] 3 by simp
qed

lemma byte_shifts: "n div 65536 = n div 256 div 256" "n div 16777216 = n div 256 div 256 div 256"
  for n :: nat
  by (simp_all add: div_mult2_eq [symmetric])

lemma be_value_be4 [simp]: "be_value (be4 v) = v"
proof -
  define n where "n = unat v"
  have "((n div 16777216 * 256 + n div 65536 mod 256) * 256 + n div 256 mod 256) * 256 + n mod 256 = n"
    by (simp only: byte_shifts div_mult_mod_eq)
  moreover have "n div 16777216 < 256" using u32_bound [of v] by (simp add: n_def div_less_iff_less_mult)
  ultimately show ?thesis by (simp add: be4_def word_unat_eq_iff be_value_simps word_nat n_def)
qed

lemma be_value_2: "v \<le> 0xFFFF \<Longrightarrow> be_value [ucast (drop_bit 8 v), ucast v] = (v :: u32)"
  by (simp add: word_unat_eq_iff be_value_simps word_nat word_le_nat_alt div_less)

lemma be_value_3: "v \<le> 0xFFFFFF \<Longrightarrow> be_value [ucast (drop_bit 16 v), ucast (drop_bit 8 v), ucast v] = (v :: u32)"
proof -
  assume v: "v \<le> 0xFFFFFF"
  define n where "n = unat v"
  have "(n div 65536 * 256 + n div 256 mod 256) * 256 + n mod 256 = n"
    by (simp only: byte_shifts div_mult_mod_eq)
  moreover have "n div 65536 < 256" using v by (simp add: n_def word_le_nat_alt div_less_iff_less_mult)
  ultimately show ?thesis by (simp add: word_unat_eq_iff be_value_simps word_nat n_def)
qed

lemma be_value_1: "v \<le> 0xFF \<Longrightarrow> be_value [ucast v] = (v :: u32)"
  by (simp add: word_unat_eq_iff be_value_simps word_nat word_le_nat_alt)

lemma enumerated_bytes_eq: "enumerated_bytes v = unsigned_bytes v"
  by (simp add: enumerated_bytes_def unsigned_bytes_def be4_def upt_rec numeral_eq_Suc)

lemma be_value_unsigned [simp]: "be_value (unsigned_bytes v) = v"
  by (simp add: unsigned_bytes_def be_value_1 be_value_2 not_le)

lemma length_unsigned: "length (unsigned_bytes v) \<in> {1, 2, 4}"
  by (simp add: unsigned_bytes_def)

lemma be_value_context [simp]: "be_value (context_bytes v) = v"
  using be_value_be4 [of v] by (simp add: context_bytes_def be_value_1 be_value_2 be_value_3 be4_def)

lemma length_context: "length (context_bytes v) \<in> {1, 2, 3, 4}"
  by (simp add: context_bytes_def)

definition app_tags :: "u8 list" where
  "app_tags = [2, 4, 7, 8, 9, 12]"

lemma app_tag_byte:
  assumes "tag \<in> set app_tags" "m \<in> {0, 1, 2, 3, 4, 5}"
  shows "(push_bit 4 tag OR m) AND 0x08 = 0 \<and> (push_bit 4 tag OR m) AND 0x07 = m \<and> drop_bit 4 (push_bit 4 tag OR m) = tag"
  using assms unfolding app_tags_def by auto

lemma decode_tag_enc:
  assumes tag: "tag \<in> set app_tags" and n: "n < 256" and tot: "length xs + length (tag_enc tag n) + n \<le> tot"
  shows "decode_tag_len (xs @ tag_enc tag n @ ys) tot (length xs) =
    Some (Some (\<lparr> ti_tag = tag, ti_context = False, ti_open = False, ti_close = False, ti_len = n \<rparr>,
      length xs + length (tag_enc tag n)))"
proof (cases "n < 5")
  case True
  then consider "n = 0" | "n = 1" | "n = 2" | "n = 3" | "n = 4" by linarith
  then have small: "of_nat n \<in> {0, 1, 2, 3, 4, 5 :: u8}" "(of_nat n :: u8) \<noteq> 5" "unat (of_nat n :: u8) = n"
    by (cases, simp_all)+
  from app_tag_byte [OF tag small(1)] show ?thesis
    using True tot small by (simp add: decode_tag_len_def tag_enc_def Let_def rd_def nth_append)
next
  case False
  have "unat (of_nat n :: u8) = n" using n by (simp add: unat_of_nat)
  with False app_tag_byte [OF tag, of 5] show ?thesis
    using tot by (simp add: decode_tag_len_def tag_enc_def Let_def rd_def nth_append)
qed

text \<open>A tagged run of bytes decodes to what the \<open>switch\<close> makes of it.\<close>

lemma decode_tagged:
  assumes "tag \<in> set app_tags" "length bs < 256"
    "app_value (xs @ tag_enc tag (length bs) @ bs @ ys) tag (length xs + length (tag_enc tag (length bs))) (length bs) = Some (Some v)"
  shows "decode_app_value (xs @ (tag_enc tag (length bs) @ bs) @ ys) (length xs + length (tag_enc tag (length bs) @ bs)) (length xs)
     = Some (Some (v, length xs + length (tag_enc tag (length bs) @ bs)))"
  using assms(3) decode_tag_enc [OF assms(1,2), of xs _ "bs @ ys"]
  by (simp add: decode_app_value_def scan_bind_def)

lemma read_be_mid [simp]:
  "p = length xs + length ts \<Longrightarrow> n = length bs \<Longrightarrow> read_be (xs @ ts @ bs @ ys) p n = Some (be_value bs)"
  by simp

lemma decode_unsigned:
  assumes "enc = tag_enc 2 (length (unsigned_bytes v)) @ unsigned_bytes v"
  shows "decode_app_value (xs @ enc @ ys) (length xs + length enc) (length xs) =
    Some (Some (Value_zero\<lparr> vtype := VUnsigned, vu := v \<rparr>, length xs + length enc))"
  unfolding assms
  by (rule decode_tagged) (use length_unsigned [of v] in \<open>auto simp: app_tags_def app_value_def\<close>)

lemma decode_enumerated:
  assumes "enc = tag_enc 9 (length (enumerated_bytes v)) @ enumerated_bytes v"
  shows "decode_app_value (xs @ enc @ ys) (length xs + length enc) (length xs) =
    Some (Some (Value_zero\<lparr> vtype := VEnumerated, vu := v \<rparr>, length xs + length enc))"
  unfolding assms enumerated_bytes_eq
  by (rule decode_tagged) (use length_unsigned [of v] in \<open>auto simp: app_tags_def app_value_def\<close>)

lemma decode_real:
  assumes "enc = tag_enc 4 4 @ be4 bits"
  shows "decode_app_value (xs @ enc @ ys) (length xs + length enc) (length xs) =
    Some (Some (Value_zero\<lparr> vtype := VReal, real_bits := bits \<rparr>, length xs + length enc))"
  using decode_tagged [of 4 "be4 bits" xs ys] unfolding assms
  by (simp add: app_tags_def app_value_def)

lemma and_instance: "x AND 0x3FFFFF = take_bit 22 (x :: u32)"
  by (simp add: take_bit_eq_mask mask_eq_exp_minus_1)

lemma unat_and_instance: "unat (x AND 0x3FFFFF :: u32) = unat x mod 4194304"
  by (simp only: and_instance unsigned_take_bit_eq) (simp add: take_bit_eq_mod)

lemma unat_object_id_word:
  assumes "unat ty < 1024" "inst \<le> kDeviceWildcard"
  shows "unat (object_id_word ty inst) = unat ty * 4194304 + unat inst"
proof -
  have i: "unat inst < 4194304" using assms(2) by (simp add: kDeviceWildcard_def word_le_nat_alt)
  then have "unat (inst AND 0x3FFFFF) = unat inst" by (simp add: unat_and_instance)
  moreover have "unat (push_bit 22 (ucast ty :: u32)) = unat ty * 2 ^ 22" using assms(1) by (simp add: word_nat)
  ultimately have "unat (object_id_word ty inst) = (unat ty * 2 ^ 22) OR unat inst"
    by (simp add: object_id_word_def unsigned_or_eq)
  also have "\<dots> = unat ty * 2 ^ 22 + unat inst" using i by (intro nat_or_disjoint) simp
  finally show ?thesis by simp
qed

lemma object_id_word_fields:
  assumes "unat ty < 1024" "inst \<le> kDeviceWildcard"
  shows "ucast (drop_bit 22 (object_id_word ty inst)) = ty" "object_id_word ty inst AND 0x3FFFFF = inst"
proof -
  have i: "unat inst < 4194304" using assms(2) by (simp add: kDeviceWildcard_def word_le_nat_alt)
  show "ucast (drop_bit 22 (object_id_word ty inst)) = ty"
    using i assms(1) by (simp add: word_unat_eq_iff word_nat unat_object_id_word [OF assms])
  show "object_id_word ty inst AND 0x3FFFFF = inst"
    using i by (simp add: word_unat_eq_iff unat_and_instance unat_object_id_word [OF assms])
qed

lemma decode_object:
  assumes "enc = tag_enc 12 4 @ be4 (object_id_word ty inst)" "unat ty < 1024" "inst \<le> kDeviceWildcard"
  shows "decode_app_value (xs @ enc @ ys) (length xs + length enc) (length xs) =
    Some (Some (Value_zero\<lparr> vtype := VObjectId, object := \<lparr> otype = ty, instance_no = inst \<rparr> \<rparr>, length xs + length enc))"
  using decode_tagged [of 12 "be4 (object_id_word ty inst)" xs ys] unfolding assms(1)
  by (simp add: app_tags_def app_value_def object_id_word_fields [OF assms(2,3)])

lemma decode_string:
  assumes "enc = tag_enc 7 (Suc (length (take 63 s))) @ 0 # take 63 s"
  shows "decode_app_value (xs @ enc @ ys) (length xs + length enc) (length xs) =
    Some (Some (Value_zero\<lparr> vtype := VString, vstr := take 63 s \<rparr>, length xs + length enc))"
  using decode_tagged [of 7 "0 # take 63 s" xs ys] unfolding assms
  by (simp add: app_tags_def app_value_def Let_def rd_def nth_append min_def)

lemma decode_bitstring:
  assumes "enc = tag_enc 8 2 @ [8 - count, bits]"
  shows "decode_app_value (xs @ enc @ ys) (length xs + length enc) (length xs) =
    Some (Some (Value_zero\<lparr> vtype := VBitString, bit_count := count, vbits := bits \<rparr>, length xs + length enc))"
  using decode_tagged [of 8 "[8 - count, bits]" xs ys] unfolding assms numeral_2_eq_2
  by (simp add: app_tags_def app_value_def rd_def nth_append)


text \<open>
  \<open>delivers w r v k\<close>: the write that gave \<open>r\<close> stayed in the buffer, it failed only for want of \<open>k\<close>
  bytes of room, and on success the parser reads \<open>v\<close> back at the old position and stops at the new
  one, with everything before untouched.
\<close>

definition delivers :: "Writer \<Rightarrow> (bool \<times> Writer) option \<Rightarrow> Value \<Rightarrow> nat \<Rightarrow> bool" where
  "delivers w r v k =
     (case r of None \<Rightarrow> False
      | Some (ok, w') \<Rightarrow>
          out_ok w' \<and> length (w_buf w') = length (w_buf w) \<and>
          (if ok then decode_app_value (w_buf w') (w_pos w') (w_pos w) = Some (Some (v, w_pos w')) \<and>
                      take (w_pos w) (w_buf w') = take (w_pos w) (w_buf w)
           else w_cap w < w_pos w + k))"

lemma emitter_delivers:
  assumes e: "emitter f enc" and w: "out_ok w" and k: "length enc \<le> k"
    and dec: "\<And>xs ys. decode_app_value (xs @ enc @ ys) (length xs + length enc) (length xs) = Some (Some (v, length xs + length enc))"
  shows "delivers w (f w) v k"
proof (cases "fits w enc")
  case True
  have l: "length (take (w_pos w) (w_buf w)) = w_pos w" "w_pos w + length enc \<le> length (w_buf w)"
    using w True by (simp_all add: out_ok_def fits_def)
  show ?thesis
    using dec [of "take (w_pos w) (w_buf w)" "drop (w_pos w + length enc) (w_buf w)"] out_ok_wrote [OF w True] l
    by (simp add: delivers_def emitter.room [OF e w True] wrote_def)
next
  case False
  then obtain w' where "f w = Some (False, w')" "out_ok w'" "length (w_buf w') = length (w_buf w)"
    using emitter.no_room [OF e w] by blast
  then show ?thesis using False k by (auto simp: delivers_def fits_def)
qed

lemma length_tag_enc: "length (tag_enc tag n) = (if n < 5 then 1 else 2)"
  by (simp add: tag_enc_def)

text \<open>
  C27: Every application value the \<open>Writer\<close> emits is the value the parser reads back: an unsigned or
  enumerated number, the bits of a float, a string (its first 63 characters, the bound both sides
  share), a bit string and an object identifier of a 10-bit type and a 22-bit instance.  No writer
  stores outside its buffer, and it reports failure only when the encoding does not fit.
\<close>

theorem application_values_round_trip:
  assumes "out_ok w" "unat ty < 1024" "inst \<le> kDeviceWildcard"
  shows "delivers w (application_unsigned w v) (Value_zero\<lparr> vtype := VUnsigned, vu := v \<rparr>) 5 \<and>
    delivers w (application_enumerated w v) (Value_zero\<lparr> vtype := VEnumerated, vu := v \<rparr>) 5 \<and>
    delivers w (application_real w bits) (Value_zero\<lparr> vtype := VReal, real_bits := bits \<rparr>) 5 \<and>
    delivers w (application_string w s) (Value_zero\<lparr> vtype := VString, vstr := take 63 s \<rparr>) (3 + min (length s) 63) \<and>
    delivers w (application_bitstring w b count) (Value_zero\<lparr> vtype := VBitString, bit_count := count, vbits := b \<rparr>) 3 \<and>
    delivers w (application_object_id w ty inst)
      (Value_zero\<lparr> vtype := VObjectId, object := \<lparr> otype = ty, instance_no = inst \<rparr> \<rparr>) 5"
proof (intro conjI)
  show "delivers w (application_unsigned w v) (Value_zero\<lparr> vtype := VUnsigned, vu := v \<rparr>) 5"
    using length_unsigned [of v]
    by (intro emitter_delivers [OF w_unsigned.emitter_axioms assms(1) _ decode_unsigned]) (auto simp: length_tag_enc)
  show "delivers w (application_enumerated w v) (Value_zero\<lparr> vtype := VEnumerated, vu := v \<rparr>) 5"
    using length_unsigned [of v]
    by (intro emitter_delivers [OF w_enumerated.emitter_axioms assms(1) _ decode_enumerated])
      (auto simp: length_tag_enc enumerated_bytes_eq)
  show "delivers w (application_real w bits) (Value_zero\<lparr> vtype := VReal, real_bits := bits \<rparr>) 5"
    by (intro emitter_delivers [OF w_real.emitter_axioms assms(1) _ decode_real]) (simp_all add: length_tag_enc)
  show "delivers w (application_string w s) (Value_zero\<lparr> vtype := VString, vstr := take 63 s \<rparr>) (3 + min (length s) 63)"
    by (intro emitter_delivers [OF w_string.emitter_axioms assms(1) _ decode_string]) (simp_all add: length_tag_enc)
  show "delivers w (application_bitstring w b count) (Value_zero\<lparr> vtype := VBitString, bit_count := count, vbits := b \<rparr>) 3"
    by (intro emitter_delivers [OF w_bitstring.emitter_axioms assms(1) _ decode_bitstring]) (simp_all add: length_tag_enc)
  show "delivers w (application_object_id w ty inst)
      (Value_zero\<lparr> vtype := VObjectId, object := \<lparr> otype = ty, instance_no = inst \<rparr> \<rparr>) 5"
    by (intro emitter_delivers [OF w_object.emitter_axioms assms(1) _ decode_object [OF _ assms(2,3)]])
      (simp_all add: length_tag_enc)
qed

text \<open>A writer on a fresh buffer of eight bytes.\<close>

definition demo_writer :: Writer where
  "demo_writer = \<lparr> w_buf = replicate 8 0, w_cap = 8, w_pos = 0, w_ok = True \<rparr>"

theorem application_values_round_trip_witness:
  "delivers demo_writer (application_real demo_writer 0x41A40000) (Value_zero\<lparr> vtype := VReal, real_bits := 0x41A40000 \<rparr>) 5 \<and>
   delivers demo_writer (application_object_id demo_writer 8 1234)
     (Value_zero\<lparr> vtype := VObjectId, object := \<lparr> otype = 8, instance_no = 1234 \<rparr> \<rparr>) 5"
  using application_values_round_trip [of demo_writer 8 1234 0 "0x41A40000" "[]" 0 0]
  by (simp add: demo_writer_def out_ok_def kDeviceWildcard_def)


section \<open>Requests ask for what they were built for\<close>

lemma context_tag_byte:
  assumes "tag \<in> {0, 1, 2}" "m \<in> {1, 2, 3, 4}"
  shows "(push_bit 4 tag OR m OR 0x08) AND 0x08 = (0x08 :: u8) \<and> (push_bit 4 tag OR m OR 0x08) AND 0x07 = m \<and>
    drop_bit 4 (push_bit 4 tag OR m OR 0x08) = tag"
  using assms by auto

lemma read_context_run:
  assumes tag: "tag \<in> {0, 1, 2}" and n: "length bs \<in> {1, 2, 3, 4}"
    and tot: "length xs + Suc (length bs) \<le> tot"
  shows "read_context_uint tag (xs @ (push_bit 4 tag OR of_nat (length bs) OR 0x08) # bs @ ys) tot (length xs) =
    Some (Some (be_value bs, length xs + Suc (length bs)))"
proof -
  from n consider "length bs = 1" | "length bs = 2" | "length bs = 3" | "length bs = 4" by blast
  then have m: "(of_nat (length bs) :: u8) \<in> {1, 2, 3, 4}" "unat (of_nat (length bs) :: u8) = length bs"
    "(of_nat (length bs) :: u8) \<noteq> 5" "(of_nat (length bs) :: u8) \<noteq> 6" "(of_nat (length bs) :: u8) \<noteq> 7"
    by (cases, simp_all)+
  show ?thesis
    using context_tag_byte [OF tag m(1)] m(2-) tot n
    by (simp add: read_context_uint_def decode_tag_len_def scan_bind_def Let_def rd_def nth_append) auto
qed

lemma read_context_at:
  assumes "p = length xs" "tag \<in> {0, 1, 2}" "p + length (context_enc tag v) \<le> tot"
  shows "read_context_uint tag (xs @ context_enc tag v @ ys) tot p = Some (Some (v, p + length (context_enc tag v)))"
  using read_context_run [OF assms(2) length_context, of xs v tot ys] assms(1,3) by (simp add: context_enc_def)

lemma read_object_enc:
  assumes "tag \<in> {0, 1, 2}" "length xs + 5 \<le> tot" "p = length xs" "unat ty < 1024" "inst \<le> kDeviceWildcard"
  shows "read_context_object tag (xs @ object_enc tag ty inst @ ys) tot p =
    Some (Some (\<lparr> otype = ty, instance_no = inst \<rparr>, p + 5))"
  using read_context_run [OF assms(1), of "be4 (object_id_word ty inst)" xs tot ys] assms(2,3)
  by (simp add: read_context_object_def scan_bind_def object_enc_def object_id_word_fields [OF assms(4,5)])

lemma and_then_assoc: "and_then (and_then x f) g = and_then x (\<lambda>w. and_then (f w) g)"
  by (auto simp: and_then_def split: option.splits)

definition frame_start :: "u8 \<Rightarrow> u8 \<Rightarrow> nat \<Rightarrow> bytes" where
  "frame_start invoke service n =
     [kBvlcType, kBvlcOriginalUnicast, of_nat (n div 256), of_nat n, kNpduVersion, kNpduExpectingReply,
      kConfirmedRequest, kMaxSegmentsMaxApdu, invoke, service]"

lemma length_request_start [simp]: "length (request_start invoke service) = 10"
  by (simp add: request_start_def)

text \<open>A request is its start, the bytes of the body and the length patched in at the end.\<close>

lemma request_result:
  assumes body: "emitter body enc" and cap: "cap \<le> length out" and n: "n = 10 + length enc"
  shows "\<exists>ok w'. and_then (begin_request invoke service (fresh_out out cap)) (\<lambda>w. and_then (body w) finish_request) = Some (ok, w') \<and>
      length (w_buf w') = length out \<and> (ok \<longleftrightarrow> n \<le> cap \<and> n \<le> kMaxFrame) \<and>
      (ok \<longrightarrow> w_pos w' = n \<and> w_buf w' = frame_start invoke service n @ enc @ drop n out)"
proof (cases "cap < 10")
  case True
  then show ?thesis using cap n by (auto simp: begin_request_def and_then_def fresh_out_def)
next
  case False
  define w where "w = wrote (fresh_out out cap) (request_start invoke service)"
  have w: "out_ok w" "w_cap w = cap" "w_pos w = 10" "w_buf w = request_start invoke service @ drop 10 out"
    "length (w_buf w) = length out"
    using False cap by (simp_all add: w_def out_ok_def fresh_out_def wrote_def)
  have b: "begin_request invoke service (fresh_out out cap) = Some (True, w)"
    using False cap by (simp add: begin_request_def store_def w_def fresh_out_def wrote_def)
  show ?thesis
  proof (cases "fits w enc")
    case True
    define w' where "w' = wrote w enc"
    have nc: "n \<le> cap" using True n w by (simp add: fits_def)
    have w': "w_pos w' = n" "w_buf w' = request_start invoke service @ enc @ drop n out"
      "length (w_buf w') = length out"
      using w True nc cap n by (simp_all add: w'_def wrote_def fits_def ac_simps)
    have "body w = Some (True, w')" using emitter.room [OF body w(1) True] by (simp add: w'_def)
    then show ?thesis using b nc w' n
      by (auto simp: and_then_def finish_request_def request_start_def frame_start_def)
  next
    case False
    then have "\<not> n \<le> cap" using n w by (simp add: fits_def)
    moreover obtain w' where "body w = Some (False, w')" "length (w_buf w') = length (w_buf w)"
      using emitter.no_room [OF body w(1) False] by blast
    ultimately show ?thesis using b w by (auto simp: and_then_def)
  qed
qed

text \<open>What the receiver of a request sees, read with the codec's own scanners.\<close>

definition request_header_ok :: "bytes \<Rightarrow> nat \<Rightarrow> u8 \<Rightarrow> u8 \<Rightarrow> bool" where
  "request_header_ok buf n invoke service \<longleftrightarrow>
     n \<le> length buf \<and> unat (be16 (buf ! 2) (buf ! 3)) = n \<and> buf ! 0 = 0x81 \<and> buf ! 1 = 0x0A \<and>
     buf ! 4 = 1 \<and> buf ! 5 = 4 \<and> buf ! 6 = 0 \<and> buf ! 7 = 5 \<and> buf ! 8 = invoke \<and> buf ! 9 = service"

definition asks_read_property :: "bytes \<Rightarrow> nat \<Rightarrow> u8 \<Rightarrow> u16 \<Rightarrow> u32 \<Rightarrow> u32 \<Rightarrow> u32 option \<Rightarrow> bool" where
  "asks_read_property buf n invoke ty inst property index \<longleftrightarrow>
     request_header_ok buf n invoke 12 \<and>
     read_context_object 0 buf n 10 = Some (Some (\<lparr> otype = ty, instance_no = inst \<rparr>, 15)) \<and>
     (case read_context_uint 1 buf n 15 of
        Some (Some (q, p)) \<Rightarrow> q = property \<and>
          (case index of None \<Rightarrow> p = n | Some i \<Rightarrow> read_context_uint 2 buf n p = Some (Some (i, n)))
      | _ \<Rightarrow> False)"

text \<open>The position after the run of context-0 numbers \<open>vs\<close> at \<open>p\<close>.\<close>

fun skip_uints :: "bytes \<Rightarrow> nat \<Rightarrow> u32 list \<Rightarrow> nat \<Rightarrow> nat option" where
  "skip_uints buf tot [] p = Some p"
| "skip_uints buf tot (v # vs) p =
     (case read_context_uint 0 buf tot p of
        Some (Some (x, p')) \<Rightarrow> if x = v then skip_uints buf tot vs p' else None
      | _ \<Rightarrow> None)"

definition asks_read_multiple :: "bytes \<Rightarrow> nat \<Rightarrow> u8 \<Rightarrow> u16 \<Rightarrow> u32 \<Rightarrow> u32 list \<Rightarrow> bool" where
  "asks_read_multiple buf n invoke ty inst properties \<longleftrightarrow>
     request_header_ok buf n invoke 14 \<and>
     read_context_object 0 buf n 10 = Some (Some (\<lparr> otype = ty, instance_no = inst \<rparr>, 15)) \<and>
     is_open (buf ! 15) 1 \<and>
     (case skip_uints buf n properties 16 of None \<Rightarrow> False | Some p \<Rightarrow> is_close (buf ! p) 1 \<and> p + 1 = n)"

lemma length_frame_start [simp]: "length (frame_start invoke service n) = 10"
  by (simp add: frame_start_def)

lemma request_header_frame:
  assumes "n = 10 + length enc" "n \<le> kMaxFrame"
  shows "request_header_ok (frame_start invoke service n @ enc @ ys) n invoke service"
proof -
  have d: "n div 256 < 256" using assms(2) by (simp add: kMaxFrame_def)
  then have "unat (of_nat (n div 256) :: u8) = n div 256" by (simp add: unat_of_nat)
  moreover have "unat (of_nat n :: u8) = n mod 256" by (simp add: unat_of_nat)
  ultimately have "unat (be16 (of_nat (n div 256)) (of_nat n)) = n" by (simp add: unat_be16)
  then show ?thesis using assms(1)
    by (simp add: request_header_ok_def frame_start_def kBvlcType_def kBvlcOriginalUnicast_def kNpduVersion_def
        kNpduExpectingReply_def kConfirmedRequest_def kMaxSegmentsMaxApdu_def)
qed

lemma length_object_enc [simp]: "length (object_enc tag ty inst) = 5"
  by (simp add: object_enc_def)

lemma length_context_enc: "length (context_enc tag v) \<le> 5"
  using length_context [of v] by (auto simp: context_enc_def)

lemma skip_uints_enc:
  assumes "p = length xs" "length xs + length (concat (map (context_enc 0) vs)) \<le> tot"
  shows "skip_uints (xs @ concat (map (context_enc 0) vs) @ ys) tot vs p =
    Some (p + length (concat (map (context_enc 0) vs)))"
  using assms
proof (induction vs arbitrary: xs p)
  case (Cons v vs)
  from Cons.prems read_context_at [of p xs 0 v tot "concat (map (context_enc 0) vs) @ ys"]
    Cons.IH [of "p + length (context_enc 0 v)" "xs @ context_enc 0 v"]
  show ?case by simp
qed simp

lemma read_object_first:
  assumes "length S = 10" "n = 10 + length (object_enc 0 ty inst @ ts)" "unat ty < 1024" "inst \<le> kDeviceWildcard"
  shows "read_context_object 0 (S @ object_enc 0 ty inst @ rest) n 10 = Some (Some (\<lparr> otype = ty, instance_no = inst \<rparr>, 15))"
proof -
  have "length S + 5 \<le> n" "10 = length S" using assms(1,2) by simp_all
  from read_object_enc [OF _ this assms(3,4), of 0 rest] show ?thesis by simp
qed

lemma build_read_property_asks:
  assumes "cap \<le> length out" "unat ty < 1024" "inst \<le> kDeviceWildcard"
  shows "case build_read_property invoke ty inst property i has out cap of None \<Rightarrow> False | Some (ok, w') \<Rightarrow>
    length (w_buf w') = length out \<and> (25 \<le> cap \<longrightarrow> ok) \<and>
    (ok \<longrightarrow> w_pos w' \<le> cap \<and> w_pos w' \<le> 25 \<and>
       asks_read_property (w_buf w') (w_pos w') invoke ty inst property (if has then Some i else None))"
proof -
  define tail where "tail = (if has then context_enc 2 i else [])"
  define enc where "enc = object_enc 0 ty inst @ context_enc 1 property @ tail"
  define n where "n = 10 + length enc"
  have t: "emitter (\<lambda>w. if has then context_tag w 2 i else Some (True, w)) tail"
    by (cases has) (simp_all add: tail_def ctag.emitter_axioms nil_emitter)
  have "length tail \<le> 5" using length_context_enc [of 2 i] by (simp add: tail_def)
  then have n25: "n \<le> 25" "n \<le> kMaxFrame" using length_context_enc [of 1 property] by (simp_all add: n_def enc_def kMaxFrame_def)
  have e: "emitter (\<lambda>w. and_then (context_object_id w 0 ty inst) (\<lambda>w. and_then (context_tag w 1 property)
      (\<lambda>w. if has then context_tag w 2 i else Some (True, w)))) enc"
    unfolding enc_def by (rule emitter.seq [OF cobj_emitter [OF assms(3)] ctag.seq [OF t]])
  define S where "S = frame_start invoke kServiceReadProperty n"
  have "asks_read_property (S @ enc @ drop n out) n invoke ty inst property (if has then Some i else None)"
  proof -
    have l: "length S = 10" by (simp add: S_def)
    have le: "15 + length (context_enc 1 property) \<le> n" "has \<Longrightarrow> 15 + length (context_enc 1 property) + length (context_enc 2 i) = n"
      by (simp_all add: n_def enc_def tail_def)
    have "request_header_ok (S @ enc @ drop n out) n invoke 12"
      using request_header_frame [OF n_def n25(2), of invoke kServiceReadProperty "drop n out"]
      by (simp add: S_def kServiceReadProperty_def)
    moreover have "read_context_object 0 (S @ enc @ drop n out) n 10 = Some (Some (\<lparr> otype = ty, instance_no = inst \<rparr>, 15))"
      using read_object_first [OF l n_def [unfolded enc_def] assms(2,3)] by (simp add: enc_def)
    moreover have "read_context_uint 1 (S @ enc @ drop n out) n 15 = Some (Some (property, 15 + length (context_enc 1 property)))"
      using read_context_at [of 15 "S @ object_enc 0 ty inst" 1 property n "tail @ drop n out"] l le by (simp add: enc_def)
    moreover have "has \<Longrightarrow> read_context_uint 2 (S @ enc @ drop n out) n (15 + length (context_enc 1 property)) = Some (Some (i, n))"
      using read_context_at [of "15 + length (context_enc 1 property)" "S @ object_enc 0 ty inst @ context_enc 1 property"
          2 i n "drop n out"] l le(2) by (simp add: enc_def tail_def)
    moreover have "\<not> has \<Longrightarrow> 15 + length (context_enc 1 property) = n" by (simp add: n_def enc_def tail_def)
    ultimately show ?thesis by (simp add: asks_read_property_def)
  qed
  moreover obtain ok w' where r: "build_read_property invoke ty inst property i has out cap = Some (ok, w')"
    "length (w_buf w') = length out" "ok \<longleftrightarrow> n \<le> cap \<and> n \<le> kMaxFrame"
    "ok \<longrightarrow> w_pos w' = n \<and> w_buf w' = S @ enc @ drop n out"
    using request_result [OF e assms(1) n_def, of invoke kServiceReadProperty]
    unfolding build_read_property_def and_then_assoc S_def by blast
  ultimately show ?thesis using n25 unfolding r(1) by (cases ok) simp_all
qed

lemma build_read_property_multiple_asks:
  assumes "cap \<le> length out" "unat ty < 1024" "inst \<le> kDeviceWildcard"
  shows "case build_read_property_multiple invoke ty inst ps out cap of None \<Rightarrow> False | Some (ok, w') \<Rightarrow>
    length (w_buf w') = length out \<and> (17 + 5 * length ps \<le> cap \<and> 17 + 5 * length ps \<le> kMaxFrame \<longrightarrow> ok) \<and>
    (ok \<longrightarrow> w_pos w' \<le> cap \<and> w_pos w' \<le> kMaxFrame \<and>
       asks_read_multiple (w_buf w') (w_pos w') invoke ty inst ps)"
proof -
  define run where "run = concat (map (context_enc 0) ps)"
  define enc where "enc = object_enc 0 ty inst @ [push_bit 4 1 OR 0x0E] @ run @ [push_bit 4 1 OR 0x0F]"
  define n where "n = 10 + length enc"
  have "length run \<le> 5 * length ps"
    unfolding run_def using length_context_enc [of 0] by (induction ps) (simp_all add: add_mono)
  then have n5: "n \<le> 17 + 5 * length ps" by (simp add: n_def enc_def)
  have e: "emitter (\<lambda>w. and_then (context_object_id w 0 ty inst) (\<lambda>w. and_then (opening_tag w 1)
      (\<lambda>w. and_then (context_tags w ps) (\<lambda>w. closing_tag w 1)))) enc"
    unfolding enc_def run_def
    by (rule emitter.seq [OF cobj_emitter [OF assms(3)] open_tag.seq
          [OF emitter.seq [OF ctags_emitter close_tag.emitter_axioms]]])
  define S where "S = frame_start invoke kServiceReadPropertyMultiple n"
  have "asks_read_multiple (S @ enc @ drop n out) n invoke ty inst ps" if "n \<le> kMaxFrame"
  proof -
    have l: "length S = 10" by (simp add: S_def)
    have "request_header_ok (S @ enc @ drop n out) n invoke 14"
      using request_header_frame [OF n_def that, of invoke kServiceReadPropertyMultiple "drop n out"]
      by (simp add: S_def kServiceReadPropertyMultiple_def)
    moreover have "read_context_object 0 (S @ enc @ drop n out) n 10 = Some (Some (\<lparr> otype = ty, instance_no = inst \<rparr>, 15))"
      using read_object_first [OF l n_def [unfolded enc_def] assms(2,3)] by (simp add: enc_def)
    moreover have "(S @ enc @ drop n out) ! 15 = push_bit 4 1 OR 0x0E" using l by (simp add: nth_append enc_def)
    moreover have "skip_uints (S @ enc @ drop n out) n ps 16 = Some (16 + length run)"
      using skip_uints_enc [of 16 "S @ object_enc 0 ty inst @ [push_bit 4 1 OR 0x0E]" ps n "[push_bit 4 1 OR 0x0F] @ drop n out"] l
      by (simp add: enc_def n_def run_def)
    moreover have "(S @ enc @ drop n out) ! (16 + length run) = push_bit 4 1 OR 0x0F" using l by (simp add: nth_append enc_def)
    moreover have "16 + length run + 1 = n" by (simp add: n_def enc_def)
    ultimately show ?thesis by (simp add: asks_read_multiple_def is_open_def is_close_def)
  qed
  moreover obtain ok w' where r: "build_read_property_multiple invoke ty inst ps out cap = Some (ok, w')"
    "length (w_buf w') = length out" "ok \<longleftrightarrow> n \<le> cap \<and> n \<le> kMaxFrame"
    "ok \<longrightarrow> w_pos w' = n \<and> w_buf w' = S @ enc @ drop n out"
    using request_result [OF e assms(1) n_def, of invoke kServiceReadPropertyMultiple]
    unfolding build_read_property_multiple_def and_then_assoc S_def by blast
  ultimately show ?thesis using n5 unfolding r(1) by (cases ok) (simp_all, linarith)
qed

lemma build_rejects_instance:
  assumes "cap \<le> length out" "inst > kDeviceWildcard"
  shows "case build_read_property invoke ty inst property i has out cap of None \<Rightarrow> False | Some (ok, w') \<Rightarrow>
      length (w_buf w') = length out \<and> \<not> ok"
    "case build_read_property_multiple invoke ty inst ps out cap of None \<Rightarrow> False | Some (ok, w') \<Rightarrow>
      length (w_buf w') = length out \<and> \<not> ok"
  using assms
  by (auto simp: build_read_property_def build_read_property_multiple_def and_then_def begin_request_def
      context_object_id_def fresh_out_def store_def wrote_def)

lemma result_mono:
  "case x of None \<Rightarrow> False | Some (a, b) \<Rightarrow> P a b \<Longrightarrow> (\<And>a b. P a b \<Longrightarrow> Q a b) \<Longrightarrow>
   case x of None \<Rightarrow> False | Some (a, b) \<Rightarrow> Q a b"
  by (auto split: option.splits)

text \<open>
  C21: The request builders are correct and stay in the caller's buffer.  An instance number above
  the 22-bit wildcard is refused; with room for 25 bytes \<open>build_read_property\<close> succeeds (and
  \<open>build_read_property_multiple\<close> with 17 bytes and 5 per property, up to the 1500 of a frame); and a
  request that was built, read back with the codec's own scanners, carries its own length, the invoke
  id and service, the object, and exactly the properties (and array index) asked for, in order.
\<close>

theorem requests_ask_for_what_was_given:
  assumes "cap \<le> length out" "unat ty < 1024"
  shows "(case build_read_property invoke ty inst property i has out cap of None \<Rightarrow> False | Some (ok, w') \<Rightarrow>
      length (w_buf w') = length out \<and> (ok \<longrightarrow> inst \<le> kDeviceWildcard) \<and>
      (inst \<le> kDeviceWildcard \<and> 25 \<le> cap \<longrightarrow> ok) \<and>
      (ok \<longrightarrow> w_pos w' \<le> cap \<and> w_pos w' \<le> 25 \<and>
        asks_read_property (w_buf w') (w_pos w') invoke ty inst property (if has then Some i else None))) \<and>
    (case build_read_property_multiple invoke ty inst ps out cap of None \<Rightarrow> False | Some (ok, w') \<Rightarrow>
      length (w_buf w') = length out \<and> (ok \<longrightarrow> inst \<le> kDeviceWildcard) \<and>
      (inst \<le> kDeviceWildcard \<and> 17 + 5 * length ps \<le> cap \<and> 17 + 5 * length ps \<le> kMaxFrame \<longrightarrow> ok) \<and>
      (ok \<longrightarrow> w_pos w' \<le> cap \<and> w_pos w' \<le> kMaxFrame \<and>
        asks_read_multiple (w_buf w') (w_pos w') invoke ty inst ps))"
proof (cases "inst \<le> kDeviceWildcard")
  case True
  show ?thesis
    by (intro conjI result_mono [OF build_read_property_asks [OF assms True]]
        result_mono [OF build_read_property_multiple_asks [OF assms True]]) (simp_all add: True)
next
  case False
  then have "inst > kDeviceWildcard" by simp
  note r = build_rejects_instance [OF assms(1) this]
  show ?thesis by (intro conjI result_mono [OF r(1)] result_mono [OF r(2)]) (simp_all add: False)
qed

theorem requests_ask_for_what_was_given_witness:
  "case build_read_property 7 2 1234 85 0 False (replicate 64 0) 64 of None \<Rightarrow> False | Some (ok, w') \<Rightarrow>
     ok \<and> asks_read_property (w_buf w') (w_pos w') 7 2 1234 85 None"
  using requests_ask_for_what_was_given [where out = "replicate 64 0" and cap = 64 and ty = 2 and invoke = 7 and inst = 1234 and property = 85
      and i = 0 and has = False and ps = "[]"]
  by (auto simp: kDeviceWildcard_def split: option.splits)

end
