(* ===== verification/Pb_Wire.thy ===== *)
theory Pb_Wire
  imports Prelude
begin

unbundle bit_operations_syntax

text \<open>
  The wire primitives of the protobuf-c runtime that carries every RPC between the
  controller and its WiFi co-processor
  (\<open>components/espressif__esp_hosted/common/protobuf-c/protobuf-c/protobuf-c.c\<close>):
  size functions, packers that write through an output pointer, and the scalar parsers.

  Signed C integers are carried as words of the same width (\<open>sint\<close> reads them).  A packer
  takes the memory and the output address and returns the new memory and the number of
  bytes it wrote.  The reference is \<open>varint\<close>, base 128 with continuation bits; the lemmas
  show that each packer writes exactly a \<open>varint\<close>, that the size functions predict its
  length and that the parsers invert it.
\<close>

section \<open>Reference: base-128 varints\<close>

fun varint :: "nat \<Rightarrow> bytes" where
  "varint n = (if n < 128 then [of_nat n] else of_nat (n mod 128 + 128) # varint (n div 128))"

declare varint.simps [simp del]

fun varint_val :: "bytes \<Rightarrow> nat" where
  "varint_val [] = 0"
| "varint_val (b # bs) = unat b mod 128 + 128 * varint_val bs"

lemma varint_small: "n < 128 \<Longrightarrow> varint n = [of_nat n]"
  by (simp add: varint.simps)

lemma varint_big: "128 \<le> n \<Longrightarrow> varint n = of_nat (n mod 128 + 128) # varint (n div 128)"
  by (subst varint.simps) simp

lemma varint_not_Nil [simp]: "varint n \<noteq> []"
  by (subst varint.simps) simp

lemma unat_of_nat_u8: "n < 256 \<Longrightarrow> unat (of_nat n :: u8) = n"
  by (simp add: unat_of_nat)

lemma varint_val_varint [simp]: "varint_val (varint n) = n"
proof (induction n rule: varint.induct)
  case (1 n)
  show ?case
  proof (cases "n < 128")
    case True
    then show ?thesis by (simp add: varint_small unat_of_nat_u8)
  next
    case False
    have "n mod 128 + 128 < (256::nat)" by simp
    with False 1 show ?thesis
      by (simp only: varint_big not_less varint_val.simps unat_of_nat_u8) simp
  qed
qed

text \<open>Every byte but the last has its top bit set; the last has it clear.\<close>

definition more_bit :: "u8 \<Rightarrow> bool" where
  "more_bit b \<longleftrightarrow> b AND 0x80 \<noteq> 0"

lemma more_bit_iff [simp]: "more_bit b \<longleftrightarrow> 128 \<le> unat b"
proof -
  have "b AND 2 ^ 7 \<noteq> 0 \<longleftrightarrow> bit b 7"
    by (simp only: and_exp_eq_0_iff_not_bit not_not)
  then have "more_bit b \<longleftrightarrow> bit b 7"
    by (simp add: more_bit_def)
  also have "\<dots> \<longleftrightarrow> bit (unat b) 7"
    by (simp add: bit_unsigned_iff)
  also have "\<dots> \<longleftrightarrow> odd (unat b div 128)"
    by (simp add: bit_iff_odd)
  also have "unat b div 128 = (if 128 \<le> unat b then 1 else 0)"
    using unat_bound [of b] by (auto intro!: div_nat_eqI)
  finally show ?thesis by simp
qed

lemma varint_more_bits:
  "i < length (varint n) \<Longrightarrow> more_bit (varint n ! i) \<longleftrightarrow> Suc i < length (varint n)"
proof (induction n arbitrary: i rule: varint.induct)
  case (1 n)
  show ?case
  proof (cases "n < 128")
    case True
    with "1.prems" show ?thesis by (simp add: varint_small unat_of_nat_u8)
  next
    case False
    have "n mod 128 + 128 < (256::nat)" by simp
    with False "1.IH" "1.prems" show ?thesis
      by (cases i) (simp_all add: varint_big unat_of_nat_u8 del: of_nat_add)
  qed
qed

lemma length_varint_le: "n < 128 ^ k \<Longrightarrow> 0 < k \<Longrightarrow> length (varint n) \<le> k"
proof (induction k arbitrary: n)
  case 0
  then show ?case by simp
next
  case (Suc k)
  show ?case
  proof (cases "n < 128")
    case True
    then show ?thesis by (simp add: varint_small)
  next
    case False
    with Suc.prems have "k \<noteq> 0" by (cases k) auto
    moreover have "n div 128 < 128 ^ k"
      using Suc.prems(1) by (simp add: less_mult_imp_div_less mult.commute)
    ultimately show ?thesis
      using Suc.IH False by (simp add: varint_big)
  qed
qed

lemma length_varint_gt: "128 ^ k \<le> n \<Longrightarrow> k < length (varint n)"
proof (induction k arbitrary: n)
  case 0
  then show ?case by simp
next
  case (Suc k)
  have "128 \<le> n"
    using Suc.prems by (metis le_trans mult_le_mono2 one_le_numeral one_le_power mult_1_right power_Suc)
  moreover have "128 ^ k \<le> n div 128"
    using Suc.prems by (simp add: less_eq_div_iff_mult_less_eq mult.commute)
  ultimately show ?case
    using Suc.IH by (simp add: varint_big)
qed

lemma length_varint_eq:
  "128 ^ k \<le> n \<Longrightarrow> n < 128 ^ Suc k \<Longrightarrow> length (varint n) = Suc k"
  using length_varint_gt [of k n] length_varint_le [of n "Suc k"] by simp

lemmas length_varint_cases =
  length_varint_eq [of 1, simplified] length_varint_eq [of 2, simplified]
  length_varint_eq [of 3, simplified] length_varint_eq [of 4, simplified]
  length_varint_eq [of 5, simplified] length_varint_eq [of 6, simplified]
  length_varint_eq [of 7, simplified] length_varint_eq [of 8, simplified]
  length_varint_eq [of 9, simplified]

section \<open>Sizes\<close>

definition get_tag_size :: "u32 \<Rightarrow> nat" where
  "get_tag_size number =
     (if number < 2 ^ 4 then 1
      else if number < 2 ^ 11 then 2
      else if number < 2 ^ 18 then 3
      else if number < 2 ^ 25 then 4
      else 5)"

definition uint32_size :: "u32 \<Rightarrow> nat" where
  "uint32_size v =
     (if v < 2 ^ 7 then 1
      else if v < 2 ^ 14 then 2
      else if v < 2 ^ 21 then 3
      else if v < 2 ^ 28 then 4
      else 5)"

definition int32_size :: "u32 \<Rightarrow> nat" where
  "int32_size v =
     (if sint v < 0 then 10
      else if sint v < 2 ^ 7 then 1
      else if sint v < 2 ^ 14 then 2
      else if sint v < 2 ^ 21 then 3
      else if sint v < 2 ^ 28 then 4
      else 5)"

definition zigzag32 :: "u32 \<Rightarrow> u32" where
  "zigzag32 v = push_bit 1 v XOR - drop_bit 31 v"

definition sint32_size :: "u32 \<Rightarrow> nat" where
  "sint32_size v = uint32_size (zigzag32 v)"

definition uint64_size :: "u64 \<Rightarrow> nat" where
  "uint64_size v =
     (let upper_v = ucast (drop_bit 32 v) :: u32 in
      if upper_v = 0 then uint32_size (ucast v)
      else if upper_v < 2 ^ 3 then 5
      else if upper_v < 2 ^ 10 then 6
      else if upper_v < 2 ^ 17 then 7
      else if upper_v < 2 ^ 24 then 8
      else if upper_v < 2 ^ 31 then 9
      else 10)"

definition zigzag64 :: "u64 \<Rightarrow> u64" where
  "zigzag64 v = push_bit 1 v XOR - drop_bit 63 v"

definition sint64_size :: "u64 \<Rightarrow> nat" where
  "sint64_size v = uint64_size (zigzag64 v)"

lemma u64_bound: "unat (v :: u64) < 18446744073709551616"
  using unat_bound [of v] by simp

lemma uint32_size_varint: "uint32_size v = length (varint (unat v))"
proof -
  have "unat v < 34359738368"
    using unat_bound [of v] by simp
  then show ?thesis
    by (auto simp: uint32_size_def word_less_nat_alt varint_small length_varint_cases)
qed

lemma get_tag_size_varint: "get_tag_size v = length (varint (8 * unat v))"
proof -
  have "8 * unat v < 34359738368"
    using unat_bound [of v] by simp
  then show ?thesis
    by (auto simp: get_tag_size_def word_less_nat_alt varint_small length_varint_cases)
qed

lemma unat_upper32: "unat (ucast (drop_bit 32 (v :: u64)) :: u32) = unat v div 4294967296"
proof -
  have "unat v div 4294967296 < 4294967296"
    using u64_bound [of v] by (simp add: less_mult_imp_div_less)
  then show ?thesis by (simp add: word_nat)
qed

lemma unat_lower32: "unat (ucast (v :: u64) :: u32) = unat v mod 4294967296"
  by (simp add: word_nat)

lemma uint64_size_varint: "uint64_size v = length (varint (unat v))"
proof -
  define n where "n = unat v"
  have n: "n < 18446744073709551616" unfolding n_def by (rule u64_bound)
  have up: "unat (ucast (drop_bit 32 v) :: u32) = n div 4294967296"
    by (simp add: unat_upper32 n_def)
  have zero: "(ucast (drop_bit 32 v) :: u32) = 0 \<longleftrightarrow> n < 4294967296"
    by (simp add: word_unat_eq_iff up div_eq_0_iff)
  have "n < 4294967296 \<Longrightarrow> uint32_size (ucast v) = length (varint n)"
    by (simp add: uint32_size_varint unat_lower32 flip: n_def)
  moreover have bound: "n div 4294967296 < k \<longleftrightarrow> n < k * 4294967296" for k
    by (simp add: div_less_iff_less_mult)
  ultimately show ?thesis
    using n unfolding uint64_size_def Let_def word_less_nat_alt up zero n_def [symmetric]
    by (auto simp: length_varint_cases bound)
qed

section \<open>Packers\<close>

definition uint32_pack :: "u32 \<Rightarrow> mem \<Rightarrow> nat \<Rightarrow> mem \<times> nat" where
  "uint32_pack value m out =
     (let rv = 0;
          (value, m, rv) =
            (if value \<ge> 0x80 then
               let m = m(out + rv := ucast (value OR 0x80)); rv = rv + 1; value = drop_bit 7 value in
               if value \<ge> 0x80 then
                 let m = m(out + rv := ucast (value OR 0x80)); rv = rv + 1; value = drop_bit 7 value in
                 if value \<ge> 0x80 then
                   let m = m(out + rv := ucast (value OR 0x80)); rv = rv + 1; value = drop_bit 7 value in
                   if value \<ge> 0x80 then
                     let m = m(out + rv := ucast (value OR 0x80)); rv = rv + 1; value = drop_bit 7 value in
                     (value, m, rv)
                   else (value, m, rv)
                 else (value, m, rv)
               else (value, m, rv)
             else (value, m, rv))
      in (m(out + rv := ucast value), rv + 1))"

definition int32_pack :: "u32 \<Rightarrow> mem \<Rightarrow> nat \<Rightarrow> mem \<times> nat" where
  "int32_pack value m out =
     (if sint value < 0 then
        (m(out := ucast (value OR 0x80),
           out + 1 := ucast (drop_bit 7 value OR 0x80),
           out + 2 := ucast (drop_bit 14 value OR 0x80),
           out + 3 := ucast (drop_bit 21 value OR 0x80),
           out + 4 := ucast (drop_bit 28 value OR 0xf0),
           out + 5 := 0xff, out + 6 := 0xff, out + 7 := 0xff, out + 8 := 0xff,
           out + 9 := 0x01), 10)
      else uint32_pack value m out)"

definition sint32_pack :: "u32 \<Rightarrow> mem \<Rightarrow> nat \<Rightarrow> mem \<times> nat" where
  "sint32_pack value m out = uint32_pack (zigzag32 value) m out"

text \<open>The \<open>while (hi >= 128)\<close> loop at the end of \<open>uint64_pack\<close>.\<close>

function uint64_pack_loop :: "u32 \<Rightarrow> mem \<Rightarrow> nat \<Rightarrow> nat \<Rightarrow> u32 \<times> mem \<times> nat" where
  "uint64_pack_loop hi m out rv =
     (if hi \<ge> 128
      then uint64_pack_loop (drop_bit 7 hi) (m(out + rv := ucast (hi OR 0x80))) out (rv + 1)
      else (hi, m, rv))"
  by pat_completeness auto
termination
  by (relation "measure (\<lambda>(hi, _, _, _). unat hi)") (auto simp: word_nat word_le_nat_alt)

declare uint64_pack_loop.simps [simp del]

definition uint64_pack :: "u64 \<Rightarrow> mem \<Rightarrow> nat \<Rightarrow> mem \<times> nat" where
  "uint64_pack value m out =
     (let hi = ucast (drop_bit 32 value) :: u32; lo = ucast value :: u32 in
      if hi = 0 then uint32_pack lo m out
      else
        let m = m(out := ucast (lo OR 0x80),
                  out + 1 := ucast (drop_bit 7 lo OR 0x80),
                  out + 2 := ucast (drop_bit 14 lo OR 0x80),
                  out + 3 := ucast (drop_bit 21 lo OR 0x80))
        in if hi < 8 then (m(out + 4 := ucast (push_bit 4 hi OR drop_bit 28 lo)), 5)
           else
             let m = m(out + 4 := ucast ((push_bit 4 (hi AND 7) OR drop_bit 28 lo) OR 0x80));
                 (hi, m, rv) = uint64_pack_loop (drop_bit 3 hi) m out 5
             in (m(out + rv := ucast hi), rv + 1))"

definition sint64_pack :: "u64 \<Rightarrow> mem \<Rightarrow> nat \<Rightarrow> mem \<times> nat" where
  "sint64_pack value m out = uint64_pack (zigzag64 value) m out"

text \<open>The target is little-endian: \<open>memcpy(out, &value, 4)\<close> stores the low byte first.\<close>

definition fixed32_pack :: "u32 \<Rightarrow> mem \<Rightarrow> nat \<Rightarrow> mem \<times> nat" where
  "fixed32_pack value m out =
     (m(out := ucast value, out + 1 := ucast (drop_bit 8 value),
        out + 2 := ucast (drop_bit 16 value), out + 3 := ucast (drop_bit 24 value)), 4)"

definition fixed64_pack :: "u64 \<Rightarrow> mem \<Rightarrow> nat \<Rightarrow> mem \<times> nat" where
  "fixed64_pack value m out =
     (m(out := ucast value, out + 1 := ucast (drop_bit 8 value),
        out + 2 := ucast (drop_bit 16 value), out + 3 := ucast (drop_bit 24 value),
        out + 4 := ucast (drop_bit 32 value), out + 5 := ucast (drop_bit 40 value),
        out + 6 := ucast (drop_bit 48 value), out + 7 := ucast (drop_bit 56 value)), 8)"

definition boolean_pack :: "u32 \<Rightarrow> mem \<Rightarrow> nat \<Rightarrow> mem \<times> nat" where
  "boolean_pack value m out = (m(out := (if value \<noteq> 0 then 1 else 0)), 1)"

definition tag_pack :: "u32 \<Rightarrow> mem \<Rightarrow> nat \<Rightarrow> mem \<times> nat" where
  "tag_pack tid m out =
     (if tid < 2 ^ (32 - 3) then uint32_pack (push_bit 3 tid) m out
      else uint64_pack (push_bit 3 (ucast tid)) m out)"

section \<open>What the packers write\<close>

definition emits :: "(mem \<Rightarrow> nat \<Rightarrow> mem \<times> nat) \<Rightarrow> bytes \<Rightarrow> bool" where
  "emits p bs \<longleftrightarrow> (\<forall>m out. p m out = (write_bytes m out bs, length bs))"

lemma emitsI: "(\<And>m out. p m out = (write_bytes m out bs, length bs)) \<Longrightarrow> emits p bs"
  by (simp add: emits_def)

lemma emitsD: "emits p bs \<Longrightarrow> p m out = (write_bytes m out bs, length bs)"
  by (simp add: emits_def)

lemma take_bit_Suc_or_exp: "take_bit (Suc k) ((n::nat) OR 2 ^ k) = take_bit k n + 2 ^ k"
proof -
  have "take_bit (Suc k) (n OR 2 ^ k) = 1 * 2 ^ k OR take_bit k n"
    by (rule bit_eqI) (auto simp: bit_simps less_Suc_eq)
  also have "\<dots> = 1 * 2 ^ k + take_bit k n"
    by (rule nat_or_disjoint) simp
  finally show ?thesis by simp
qed

lemma nat_or_80_mod: "((n::nat) OR 128) mod 256 = n mod 128 + 128"
  using take_bit_Suc_or_exp [of 7 n] by (simp add: take_bit_eq_mod)

lemma ucast_u8_of_nat: "(ucast (v :: u32) :: u8) = of_nat (unat v)"
  by (simp add: word_unat_eq_iff word_nat unat_of_nat)

lemma ucast_or_80: "(ucast ((v :: u32) OR 0x80) :: u8) = of_nat (unat v mod 128 + 128)"
proof -
  have "unat v mod 128 + 128 < 256" by simp
  moreover have "unat (ucast (v OR 0x80) :: u8) = (unat v OR 128) mod 256"
    by (subst unat_ucast_word, subst unsigned_or_eq) simp
  ultimately show ?thesis
    by (simp only: word_unat_eq_iff unat_of_nat_u8 nat_or_80_mod)
qed

text \<open>Varints up to five bytes, spelled out.\<close>

lemma varint_2: "128 \<le> n \<Longrightarrow> n < 16384 \<Longrightarrow>
    varint n = [of_nat (n mod 128 + 128), of_nat (n div 128)]"
  by (subst varint_big) (simp_all add: varint_small div_less_iff_less_mult del: of_nat_add)

lemma varint_3: "16384 \<le> n \<Longrightarrow> n < 2097152 \<Longrightarrow>
    varint n = [of_nat (n mod 128 + 128), of_nat (n div 128 mod 128 + 128), of_nat (n div 16384)]"
  by (subst varint_big, simp, subst varint_2) (simp_all add: div_mult2_eq [symmetric] div_less_iff_less_mult less_eq_div_iff_mult_less_eq del: of_nat_add)

lemma varint_4: "2097152 \<le> n \<Longrightarrow> n < 268435456 \<Longrightarrow>
    varint n = [of_nat (n mod 128 + 128), of_nat (n div 128 mod 128 + 128),
                of_nat (n div 16384 mod 128 + 128), of_nat (n div 2097152)]"
  by (subst varint_big, simp, subst varint_3) (simp_all add: div_mult2_eq [symmetric] div_less_iff_less_mult less_eq_div_iff_mult_less_eq del: of_nat_add)

lemma varint_5: "268435456 \<le> n \<Longrightarrow>
    varint n = [of_nat (n mod 128 + 128), of_nat (n div 128 mod 128 + 128),
                of_nat (n div 16384 mod 128 + 128), of_nat (n div 2097152 mod 128 + 128)]
               @ varint (n div 268435456)"
  by (subst varint_big, simp, subst varint_big, simp add: less_eq_div_iff_mult_less_eq,
      subst varint_big, simp add: less_eq_div_iff_mult_less_eq,
      subst varint_big, simp add: less_eq_div_iff_mult_less_eq)
    (simp add: div_mult2_eq [symmetric] del: of_nat_add)

lemma uint32_pack_varint: "emits (uint32_pack v) (varint (unat v))"
proof (rule emitsI)
  fix m out
  define n where "n = unat v"
  have n: "n < 4294967296" unfolding n_def by (rule u32_bound)
  have ge: "v \<ge> 0x80 \<longleftrightarrow> 128 \<le> n" "drop_bit 7 v \<ge> 0x80 \<longleftrightarrow> 16384 \<le> n"
    "drop_bit 7 (drop_bit 7 v) \<ge> 0x80 \<longleftrightarrow> 2097152 \<le> n"
    "drop_bit 7 (drop_bit 7 (drop_bit 7 v)) \<ge> 0x80 \<longleftrightarrow> 268435456 \<le> n"
    unfolding n_def by (auto simp: word_le_nat_alt word_nat)
  have d: "unat v = n" "unat (drop_bit 7 v) = n div 128"
    "unat (drop_bit 7 (drop_bit 7 v)) = n div 16384"
    "unat (drop_bit 7 (drop_bit 7 (drop_bit 7 v))) = n div 2097152"
    "unat (drop_bit 7 (drop_bit 7 (drop_bit 7 (drop_bit 7 v)))) = n div 268435456"
    unfolding n_def by (simp_all add: word_nat)
  have tops: "(ucast v :: u8) = of_nat n" "(ucast (drop_bit 7 v) :: u8) = of_nat (n div 128)"
    "(ucast (drop_bit 14 v) :: u8) = of_nat (n div 16384)"
    "(ucast (drop_bit 21 v) :: u8) = of_nat (n div 2097152)"
    "(ucast (drop_bit 28 v) :: u8) = of_nat (n div 268435456)"
    unfolding n_def by (simp_all only: ucast_u8_of_nat unat_drop_bit_word) simp_all
  have last: "268435456 \<le> n \<Longrightarrow> varint (n div 268435456) = [of_nat (n div 268435456)]"
    using n by (intro varint_small) (simp add: div_less_iff_less_mult)
  consider "n < 128" | "128 \<le> n" "n < 16384" | "16384 \<le> n" "n < 2097152"
    | "2097152 \<le> n" "n < 268435456" | "268435456 \<le> n"
    by linarith
  then show "uint32_pack v m out = (write_bytes m out (varint (unat v)), length (varint (unat v)))"
    unfolding uint32_pack_def Let_def ge ucast_or_80 d
    by cases (simp_all add: tops varint_small varint_2 varint_3 varint_4 varint_5 last write_bytes_Cons
        del: of_nat_add)
qed

text \<open>The 64-bit two's complement image of a 32-bit signed value.\<close>

definition sign_ext :: "u32 \<Rightarrow> nat" where
  "sign_ext v = nat (sint v mod 2 ^ 64)"

lemma sint_u32:
  assumes "unat (v :: u32) = n"
  shows "sint v = (if 2147483648 \<le> n then int n - 4294967296 else int n)"
proof -
  have n: "n < 4294967296" and u: "uint v = int n"
    using u32_bound [of v] assms by auto
  have "sint v = (int n + 2147483648) mod 4294967296 - 2147483648"
    by (simp add: sint_uint signed_take_bit_eq_take_bit_shift take_bit_eq_mod u)
  moreover have "(int n + 2147483648) mod 4294967296 =
      (if 2147483648 \<le> n then int n - 2147483648 else int n + 2147483648)"
  proof (cases "2147483648 \<le> n")
    case True
    have "int n + 2147483648 = (int n - 2147483648) + 4294967296" by simp
    then have "(int n + 2147483648) mod 4294967296 = (int n - 2147483648) mod 4294967296"
      by (simp only: mod_add_self2)
    with True n show ?thesis by (simp add: mod_pos_pos_trivial)
  next
    case False
    then show ?thesis by (simp add: mod_pos_pos_trivial)
  qed
  ultimately show ?thesis by simp
qed

lemma sint_neg_u32: "sint (v :: u32) < 0 \<longleftrightarrow> 2147483648 \<le> unat v"
  using u32_bound [of v] sint_u32 [OF refl, of v] by (simp del: of_nat_unat)

lemma sign_ext_nonneg: "\<not> sint v < 0 \<Longrightarrow> sign_ext v = unat v"
proof -
  assume v: "\<not> sint v < 0"
  define n where "n = unat v"
  have "\<not> 2147483648 \<le> n" using v by (simp add: sint_neg_u32 n_def)
  with sint_u32 [OF n_def [symmetric]] show ?thesis
    by (simp add: sign_ext_def flip: n_def)
qed

lemma sign_ext_neg: "sint v < 0 \<Longrightarrow> sign_ext v = unat v + 18446744069414584320"
proof -
  assume v: "sint v < 0"
  define n where "n = unat v"
  have n: "2147483648 \<le> n" "n < 4294967296"
    using v u32_bound [of v] by (simp_all add: sint_neg_u32 n_def)
  have "(int n - 4294967296) mod 18446744073709551616 =
        (int n - 4294967296 + 18446744073709551616) mod 18446744073709551616"
    by (simp only: mod_add_self2)
  also have "\<dots> = int n + 18446744069414584320"
    using n by (subst mod_pos_pos_trivial) auto
  finally show ?thesis
    using n sint_u32 [OF n_def [symmetric]] by (simp add: sign_ext_def flip: n_def)
qed

lemma int32_size_varint: "int32_size v = length (varint (sign_ext v))"
proof (cases "sint v < 0")
  case True
  have n: "2147483648 \<le> unat v" "unat v < 4294967296"
    using True u32_bound [of v] by (simp_all add: sint_neg_u32)
  then have "length (varint (unat v + 18446744069414584320)) = 10"
    by (intro length_varint_cases) simp_all
  with True show ?thesis
    by (simp add: int32_size_def sign_ext_neg)
next
  case False
  define n where "n = unat v"
  have n: "n < 2147483648" using False by (simp add: sint_neg_u32 n_def)
  then have "int32_size v = uint32_size v"
    using sint_u32 [OF n_def [symmetric]]
    by (simp add: int32_size_def uint32_size_def word_less_nat_alt flip: n_def)
  with False show ?thesis
    by (simp add: sign_ext_nonneg uint32_size_varint)
qed

lemma ucast_or_f0: "unat w < 16 \<Longrightarrow> (ucast ((w :: u32) OR 0xf0) :: u8) = of_nat (unat w + 240)"
proof -
  assume w: "unat w < 16"
  have "unat (w OR 0xf0) = 15 * 2 ^ 4 OR unat w"
    by (simp add: unsigned_or_eq or.commute)
  also have "\<dots> = 15 * 2 ^ 4 + unat w"
    using w by (intro nat_or_disjoint) simp
  finally have "unat (w OR 0xf0) = unat w + 240" by simp
  then show ?thesis
    by (simp only: ucast_u8_of_nat)
qed

lemma int32_pack_varint: "emits (int32_pack v) (varint (sign_ext v))"
proof (rule emitsI)
  fix m out
  show "int32_pack v m out = (write_bytes m out (varint (sign_ext v)), length (varint (sign_ext v)))"
  proof (cases "sint v < 0")
    case False
    then show ?thesis
      using emitsD [OF uint32_pack_varint, of v m out] by (simp add: int32_pack_def sign_ext_nonneg)
  next
    case True
    define n where "n = unat v"
    have n: "2147483648 \<le> n" "n < 4294967296"
      using True u32_bound [of v] by (simp_all add: sint_neg_u32 n_def)
    have top: "n div 268435456 < 16"
      using n by (simp add: div_less_iff_less_mult)
    have d: "unat v = n" "unat (drop_bit 7 v) = n div 128" "unat (drop_bit 14 v) = n div 16384"
      "unat (drop_bit 21 v) = n div 2097152" "unat (drop_bit 28 v) = n div 268435456"
      unfolding n_def by (simp_all add: word_nat)
    let ?N = "n + 18446744069414584320"
    have N: "?N = n + 128 * 144115188042301440" "?N = n + 16384 * 1125899906580480"
      "?N = n + 2097152 * 8796093020160" "?N = n + 268435456 * 68719476720" by simp_all
    have q: "?N div 128 = n div 128 + 128 * 1125899906580480"
      "?N div 16384 = n div 16384 + 128 * 8796093020160"
      "?N div 2097152 = n div 2097152 + 128 * 68719476720"
      "?N div 268435456 = n div 268435456 + 68719476720"
      by (subst N(1), subst div_mult_self2, simp, simp,
          subst N(2), subst div_mult_self2, simp, simp,
          subst N(3), subst div_mult_self2, simp, simp,
          subst N(4), subst div_mult_self2, simp, simp)
    have bytes: "?N mod 128 = n mod 128" "?N div 128 mod 128 = n div 128 mod 128"
      "?N div 16384 mod 128 = n div 16384 mod 128" "?N div 2097152 mod 128 = n div 2097152 mod 128"
      unfolding q(1,2,3) by (simp_all only: N(1) mod_mult_self2)
    have "varint (?N div 268435456) = [of_nat (n div 268435456 + 240), 0xff, 0xff, 0xff, 0xff, 1]"
    proof -
      define k where "k = n div 268435456"
      have k: "k + 112 < 128" using top by (simp add: k_def)
      have K: "k + 68719476720 = k + 112 + 128 * 536870911" by simp
      have "(k + 68719476720) mod 128 = k + 112" "(k + 68719476720) div 128 = 536870911"
        unfolding K using k by (simp_all only: mod_mult_self2 div_mult_self2 mod_less div_less)
      then have "varint (k + 68719476720) = of_nat (k + 112 + 128) # varint 536870911"
        using varint_big [of "k + 68719476720"] by (simp del: of_nat_add)
      also have "varint 536870911 = [0xff, 0xff, 0xff, 0xff, 1]"
        by (simp add: varint_big varint_small)
      finally show ?thesis
        unfolding q k_def [symmetric] by (simp add: add.assoc)
    qed
    then have v: "varint (sign_ext v) = [of_nat (n mod 128 + 128), of_nat (n div 128 mod 128 + 128),
        of_nat (n div 16384 mod 128 + 128), of_nat (n div 2097152 mod 128 + 128),
        of_nat (n div 268435456 + 240), 0xff, 0xff, 0xff, 0xff, 1]"
      using varint_5 [of ?N] n unfolding sign_ext_neg [OF True] n_def [symmetric] bytes by simp
    have "(ucast (drop_bit 28 v OR 0xf0) :: u8) = of_nat (n div 268435456 + 240)"
      using ucast_or_f0 [of "drop_bit 28 v"] top unfolding d by simp
    with True show ?thesis
      unfolding int32_pack_def v ucast_or_80 d by (simp add: poke_simps del: of_nat_add)
  qed
qed

lemma uint64_pack_loop_varint:
  "(let (hi', m', rv') = uint64_pack_loop hi m out rv in (m'(out + rv' := ucast hi'), rv' + 1)) =
     (write_bytes m (out + rv) (varint (unat hi)), rv + length (varint (unat hi)))"
proof (induction hi m out rv rule: uint64_pack_loop.induct)
  case (1 hi m out rv)
  show ?case
  proof (cases "hi \<ge> 128")
    case True
    then have ge: "128 \<le> unat hi" by (simp add: word_le_nat_alt)
    have step: "uint64_pack_loop hi m out rv =
        uint64_pack_loop (drop_bit 7 hi) (m(out + rv := ucast (hi OR 0x80))) out (rv + 1)"
      using True by (subst uint64_pack_loop.simps) simp
    have d: "unat (drop_bit 7 hi) = unat hi div 128"
      by (simp add: word_nat)
    show ?thesis
      unfolding step using "1.IH" [OF True] unfolding d ucast_or_80
      by (simp add: varint_big [OF ge] write_bytes_Cons fun_upd_def del: of_nat_add)
  next
    case False
    then have lt: "unat hi < 128" by (simp add: word_le_nat_alt)
    have stop: "uint64_pack_loop hi m out rv = (hi, m, rv)"
      using False by (subst uint64_pack_loop.simps) simp
    show ?thesis
      unfolding stop varint_small [OF lt] ucast_u8_of_nat [symmetric]
      by (simp add: write_bytes_Cons)
  qed
qed

text \<open>
  In the long form the four low groups come from \<open>lo\<close>, the fifth mixes the top nibble of \<open>lo\<close>
  with the low bits of \<open>hi\<close>.
\<close>

lemma unat_nibble_join:
  assumes "unat (h :: u32) < 268435456" and "unat (l :: u32) < 16"
  shows "unat (push_bit 4 h OR l) = unat h * 16 + unat l"
proof -
  have "unat (push_bit 4 h OR l) = unat h * 2 ^ 4 OR unat l"
    using assms(1) by (simp add: unsigned_or_eq unat_push_bit_word)
  also have "\<dots> = unat h * 2 ^ 4 + unat l"
    using assms(2) by (intro nat_or_disjoint) simp
  finally show ?thesis by simp
qed

lemma unat_and_7: "unat ((w :: u32) AND 7) = unat w mod 8"
proof -
  have "w AND 7 = take_bit 3 w" by (simp add: take_bit_eq_mask mask_eq_exp_minus_1)
  then show ?thesis by (simp only: unsigned_take_bit_eq) (simp add: take_bit_eq_mod)
qed

lemma uint64_pack_varint: "emits (uint64_pack v) (varint (unat v))"
proof (rule emitsI)
  fix m out
  define N where "N = unat v"
  define hi lo :: u32 where "hi = ucast (drop_bit 32 v)" and "lo = ucast v"
  have h: "unat hi = N div 4294967296" unfolding hi_def N_def by (rule unat_upper32)
  have l: "unat lo = N mod 4294967296" unfolding lo_def N_def by (rule unat_lower32)
  note fold = hi_def [symmetric] lo_def [symmetric] N_def [symmetric]
  show "uint64_pack v m out = (write_bytes m out (varint (unat v)), length (varint (unat v)))"
  proof (cases "hi = 0")
    case True
    then have "unat lo = N" using h l by (simp add: div_eq_0_iff)
    with True show ?thesis
      using emitsD [OF uint32_pack_varint, of lo m out] by (simp add: uint64_pack_def fold)
  next
    case False
    then have big: "268435456 \<le> N" using h by (auto simp: word_unat_eq_iff div_eq_0_iff)
    define Q where "Q = N div 268435456"
    have Q: "unat (drop_bit 28 lo) = Q mod 16" "unat hi = Q div 16"
      using div_mod_slice [of 268435456 N 16 1] unfolding Q_def
      by (simp_all add: word_nat l h div_mult2_eq [symmetric] modulo_nat_def)
    have g: "unat lo mod 128 = N mod 128" "unat (drop_bit 7 lo) mod 128 = N div 128 mod 128"
      "unat (drop_bit 14 lo) mod 128 = N div 16384 mod 128"
      "unat (drop_bit 21 lo) mod 128 = N div 2097152 mod 128"
      using div_mod_slice [of 1 N 128 33554432] div_mod_slice [of 128 N 128 262144]
        div_mod_slice [of 16384 N 128 2048] div_mod_slice [of 2097152 N 128 16]
      by (simp_all add: word_nat l)
    have hi8: "hi < 8 \<longleftrightarrow> Q < 128" by (simp add: word_less_nat_alt Q div_less_iff_less_mult)
    note bytes = varint_5 [OF big, folded Q_def]
    show ?thesis
    proof (cases "Q < 128")
      case True
      then have "unat (push_bit 4 hi OR drop_bit 28 lo) = Q"
        using unat_nibble_join [of hi "drop_bit 28 lo"] Q by simp
      then have "(ucast (push_bit 4 hi OR drop_bit 28 lo) :: u8) = of_nat Q"
        by (simp only: ucast_u8_of_nat)
      with True False hi8 show ?thesis
        unfolding uint64_pack_def fold Let_def bytes ucast_or_80 g varint_small [OF True]
        by (simp add: poke_simps del: of_nat_add)
    next
      case big_Q: False
      have "unat (push_bit 4 (hi AND 7) OR drop_bit 28 lo) = Q div 16 mod 8 * 16 + Q mod 16"
        using unat_nibble_join [of "hi AND 7" "drop_bit 28 lo"] Q by (simp add: unat_and_7)
      also have "\<dots> = Q mod 128"
        using mod_mult2_eq [of Q 16 8] by simp
      finally have "unat (push_bit 4 (hi AND 7) OR drop_bit 28 lo) mod 128 = Q mod 128"
        by (simp only: mod_mod_trivial)
      moreover have "unat (drop_bit 3 hi) = Q div 128"
        by (simp add: word_nat Q div_mult2_eq [symmetric])
      moreover have "varint Q = of_nat (Q mod 128 + 128) # varint (Q div 128)"
        using big_Q by (simp add: varint_big)
      ultimately show ?thesis
        using False hi8 big_Q uint64_pack_loop_varint [of "drop_bit 3 hi" _ out 5]
        unfolding uint64_pack_def fold Let_def bytes ucast_or_80 g
        by (simp add: poke_simps del: of_nat_add)
    qed
  qed
qed

lemma tag_pack_varint: "emits (tag_pack t) (varint (8 * unat t))"
proof (rule emitsI)
  fix m out
  show "tag_pack t m out = (write_bytes m out (varint (8 * unat t)), length (varint (8 * unat t)))"
  proof (cases "t < 2 ^ 29")
    case True
    then have "unat (push_bit 3 t) = 8 * unat t"
      by (simp add: word_less_nat_alt unat_push_bit_word)
    with True show ?thesis
      using emitsD [OF uint32_pack_varint, of "push_bit 3 t" m out] by (simp add: tag_pack_def)
  next
    case False
    have "unat (push_bit 3 (ucast t :: u64)) = 8 * unat t"
      using u32_bound [of t] by (simp add: unat_push_bit_word unat_ucast_word)
    with False show ?thesis
      using emitsD [OF uint64_pack_varint, of "push_bit 3 (ucast t)" m out] by (simp add: tag_pack_def)
  qed
qed

text \<open>Little-endian images of the fixed-width types.\<close>

definition le32 :: "u32 \<Rightarrow> bytes" where
  "le32 v = map (\<lambda>i. ucast (drop_bit (8 * i) v)) [0..<4]"

definition le64 :: "u64 \<Rightarrow> bytes" where
  "le64 v = map (\<lambda>i. ucast (drop_bit (8 * i) v)) [0..<8]"

lemma length_le32 [simp]: "length (le32 v) = 4"
  by (simp add: le32_def)

lemma length_le64 [simp]: "length (le64 v) = 8"
  by (simp add: le64_def)

lemma fixed32_pack_le32: "emits (fixed32_pack v) (le32 v)"
  by (rule emitsI) (simp add: fixed32_pack_def le32_def upt_rec poke_simps)

lemma fixed64_pack_le64: "emits (fixed64_pack v) (le64 v)"
  by (rule emitsI) (simp add: fixed64_pack_def le64_def upt_rec poke_simps)

lemma boolean_pack_byte: "emits (boolean_pack v) [if v \<noteq> 0 then 1 else 0]"
  by (rule emitsI) (simp add: boolean_pack_def poke_simps)

lemma sint32_pack_varint: "emits (sint32_pack v) (varint (unat (zigzag32 v)))"
  using uint32_pack_varint [of "zigzag32 v"] by (simp add: emits_def sint32_pack_def)

lemma sint64_pack_varint: "emits (sint64_pack v) (varint (unat (zigzag64 v)))"
  using uint64_pack_varint [of "zigzag64 v"] by (simp add: emits_def sint64_pack_def)

lemmas pack_emits = uint32_pack_varint int32_pack_varint sint32_pack_varint uint64_pack_varint
  sint64_pack_varint fixed32_pack_le32 fixed64_pack_le64 boolean_pack_byte tag_pack_varint

section \<open>ZigZag\<close>

definition unzigzag32 :: "u32 \<Rightarrow> u32" where
  "unzigzag32 v = drop_bit 1 v XOR - (v AND 1)"

definition unzigzag64 :: "u64 \<Rightarrow> u64" where
  "unzigzag64 v = drop_bit 1 v XOR - (v AND 1)"

lemma drop_top_bit:
  "drop_bit (LENGTH('a) - 1) (v :: 'a::len word) = (if bit v (LENGTH('a) - 1) then 1 else 0)"
proof (rule bit_word_eqI)
  fix n assume "n < LENGTH('a)"
  show "bit (drop_bit (LENGTH('a) - 1) v) n =
        bit (if bit v (LENGTH('a) - 1) then 1 else 0 :: 'a word) n"
  proof (cases n)
    case 0
    then show ?thesis by (simp add: bit_simps)
  next
    case (Suc k)
    then have "\<not> bit v (LENGTH('a) - 1 + n)"
      by (auto dest: bit_imp_le_length)
    with Suc show ?thesis by (simp add: bit_simps add.commute)
  qed
qed

lemma zigzag_top_bit:
  fixes v :: "'a::len word"
  defines "z \<equiv> push_bit 1 v XOR - drop_bit (LENGTH('a) - 1) v"
  shows "drop_bit 1 z XOR - (z AND 1) = v"
proof -
  let ?s = "bit v (LENGTH('a) - 1)"
  have zb: "bit z n \<longleftrightarrow> n < LENGTH('a) \<and> ((0 < n \<and> bit v (n - 1)) \<noteq> ?s)" for n
    unfolding z_def drop_top_bit
    by (auto simp only: bit_xor_iff bit_push_bit_iff bit_minus_1_iff minus_zero bit_0_eq
        if_True if_False possible_bit_word possible_bit_0 split: if_splits)
  have "z AND 1 = (if ?s then 1 else 0)"
    by (rule bit_word_eqI) (auto simp: bit_and_iff bit_1_iff zb)
  then have "bit (drop_bit 1 z XOR - (z AND 1)) n = bit v n" if "n < LENGTH('a)" for n
    using that
    by (cases "Suc n < LENGTH('a)") (auto simp: bit_xor_iff bit_drop_bit_eq zb bit_minus_1_iff
        dest: less_antisym)
  then show ?thesis
    by (rule bit_word_eqI)
qed

lemma unzigzag32_zigzag32 [simp]: "unzigzag32 (zigzag32 v) = v"
  using zigzag_top_bit [of v] by (simp add: unzigzag32_def zigzag32_def)

lemma unzigzag64_zigzag64 [simp]: "unzigzag64 (zigzag64 v) = v"
  using zigzag_top_bit [of v] by (simp add: unzigzag64_def zigzag64_def)

end
