(* ===== verification/Pb_Parse.thy ===== *)
theory Pb_Parse
  imports Pb_Wire
begin

unbundle bit_operations_syntax

text \<open>
  The reading half of the protobuf-c wire layer: tag parsing, length prefixes, varint
  scanning and the scalar parsers.  The data come from the co-processor, so each byte is
  read with \<open>rd\<close>: \<open>None\<close> is a read outside the buffer.  The lemmas give the value of every
  parser in terms of \<open>varint_val\<close> and show that they invert the packers of \<open>Pb_Wire\<close>.
\<close>

section \<open>The model\<close>

definition parse_uint32 :: "nat \<Rightarrow> bytes \<Rightarrow> u32 option" where
  "parse_uint32 len data = do {
     b0 \<leftarrow> rd data 0;
     let rv = ucast (b0 AND 0x7f);
     if len > 1 then do {
       b1 \<leftarrow> rd data 1;
       let rv = rv OR push_bit 7 (ucast (b1 AND 0x7f));
       if len > 2 then do {
         b2 \<leftarrow> rd data 2;
         let rv = rv OR push_bit 14 (ucast (b2 AND 0x7f));
         if len > 3 then do {
           b3 \<leftarrow> rd data 3;
           let rv = rv OR push_bit 21 (ucast (b3 AND 0x7f));
           if len > 4 then do {
             b4 \<leftarrow> rd data 4;
             Some (rv OR push_bit 28 (ucast b4))
           } else Some rv
         } else Some rv
       } else Some rv
     } else Some rv
   }"

definition parse_int32 :: "nat \<Rightarrow> bytes \<Rightarrow> u32 option" where
  "parse_int32 len data = parse_uint32 len data"

text \<open>The loop \<open>for (i = 4; i < len; i++)\<close> of \<open>parse_uint64\<close>, \<open>k\<close> bytes to go.\<close>

fun parse_uint64_loop :: "nat \<Rightarrow> nat \<Rightarrow> nat \<Rightarrow> bytes \<Rightarrow> u64 \<Rightarrow> u64 option" where
  "parse_uint64_loop i shift 0 data rv = Some rv"
| "parse_uint64_loop i shift (Suc k) data rv = do {
     b \<leftarrow> rd data i;
     parse_uint64_loop (Suc i) (shift + 7) k data (rv OR push_bit shift (ucast (b AND 0x7f)))
   }"

definition parse_uint64 :: "nat \<Rightarrow> bytes \<Rightarrow> u64 option" where
  "parse_uint64 len data =
     (if len < 5 then map_option ucast (parse_uint32 len data)
      else do {
        b0 \<leftarrow> rd data 0;
        b1 \<leftarrow> rd data 1;
        b2 \<leftarrow> rd data 2;
        b3 \<leftarrow> rd data 3;
        let rv = ((ucast (b0 AND 0x7f) OR push_bit 7 (ucast (b1 AND 0x7f)))
                  OR push_bit 14 (ucast (b2 AND 0x7f))) OR push_bit 21 (ucast (b3 AND 0x7f));
        parse_uint64_loop 4 28 (len - 4) data rv
      })"

definition parse_fixed_uint32 :: "bytes \<Rightarrow> u32 option" where
  "parse_fixed_uint32 data = do {
     b0 \<leftarrow> rd data 0; b1 \<leftarrow> rd data 1; b2 \<leftarrow> rd data 2; b3 \<leftarrow> rd data 3;
     Some (((ucast b0 OR push_bit 8 (ucast b1)) OR push_bit 16 (ucast b2)) OR push_bit 24 (ucast b3))
   }"

definition parse_fixed_uint64 :: "bytes \<Rightarrow> u64 option" where
  "parse_fixed_uint64 data = do {
     lo \<leftarrow> parse_fixed_uint32 data;
     hi \<leftarrow> parse_fixed_uint32 (drop 4 data);
     Some (ucast lo OR push_bit 32 (ucast hi))
   }"

fun parse_boolean_from :: "nat \<Rightarrow> nat \<Rightarrow> bytes \<Rightarrow> bool option" where
  "parse_boolean_from i 0 data = Some False"
| "parse_boolean_from i (Suc k) data = do {
     b \<leftarrow> rd data i;
     if b AND 0x7f \<noteq> 0 then Some True else parse_boolean_from (Suc i) k data
   }"

definition parse_boolean :: "nat \<Rightarrow> bytes \<Rightarrow> bool option" where
  "parse_boolean len data = parse_boolean_from 0 len data"

text \<open>
  The search for the first byte without a continuation bit, shared by \<open>scan_varint\<close> and the
  varint case of the unpacker: the index, or the bound when there is none.
\<close>

fun scan_more :: "nat \<Rightarrow> nat \<Rightarrow> bytes \<Rightarrow> nat option" where
  "scan_more i 0 data = Some i"
| "scan_more i (Suc k) data = do {
     b \<leftarrow> rd data i;
     if \<not> more_bit b then Some i else scan_more (Suc i) k data
   }"

definition scan_varint :: "nat \<Rightarrow> bytes \<Rightarrow> nat option" where
  "scan_varint len data = do {
     let len = (if len > 10 then 10 else len);
     i \<leftarrow> scan_more 0 len data;
     Some (if i = len then 0 else i + 1)
   }"

fun max_b128_numbers :: "bytes \<Rightarrow> nat" where
  "max_b128_numbers [] = 0"
| "max_b128_numbers (b # data) = (if \<not> more_bit b then 1 else 0) + max_b128_numbers data"

fun parse_tag_loop :: "nat \<Rightarrow> nat \<Rightarrow> nat \<Rightarrow> bytes \<Rightarrow> u32 \<Rightarrow> (nat \<times> u32) option" where
  "parse_tag_loop rv shift 0 data tag = Some (0, tag)"
| "parse_tag_loop rv shift (Suc k) data tag = do {
     b \<leftarrow> rd data rv;
     if more_bit b
     then parse_tag_loop (Suc rv) (shift + 7) k data (tag OR push_bit shift (ucast (b AND 0x7f)))
     else Some (rv + 1, tag OR push_bit shift (ucast b))
   }"

text \<open>
  \<open>parse_tag_and_wiretype\<close>: the bytes used (0 is the error return), the tag and the wire type.
\<close>

definition parse_tag_and_wiretype :: "bytes \<Rightarrow> (nat \<times> u32 \<times> u8) option" where
  "parse_tag_and_wiretype data = do {
     b0 \<leftarrow> rd data 0;
     let max_rv = (if length data > 5 then 5 else length data);
     let tag = (ucast (drop_bit 3 (b0 AND 0x7f)) :: u32);
     let wiretype = b0 AND 7;
     if b0 AND 0xf8 = 0 then Some (0, tag, wiretype)
     else if \<not> more_bit b0 then Some (1, tag, wiretype)
     else do {
       (used, tag) \<leftarrow> parse_tag_loop 1 4 (max_rv - 1) data tag;
       Some (used, tag, wiretype)
     }
   }"

text \<open>
  \<open>scan_length_prefixed_data\<close>: the total length of prefix and data and the prefix length, or
  \<open>(0, _)\<close> on error.  The value is accumulated in \<open>size_t\<close>, 32 bits on the target.
\<close>

fun scan_length_loop :: "nat \<Rightarrow> nat \<Rightarrow> nat \<Rightarrow> bytes \<Rightarrow> u32 \<Rightarrow> (nat \<times> u32) option" where
  "scan_length_loop i shift 0 data val = Some (i, val)"
| "scan_length_loop i shift (Suc k) data val = do {
     b \<leftarrow> rd data i;
     let val = val OR push_bit shift (ucast b AND 0x7f);
     if \<not> more_bit b then Some (i, val)
     else scan_length_loop (Suc i) (shift + 7) k data val
   }"

definition scan_length_prefixed_data :: "bytes \<Rightarrow> (nat \<times> nat) option" where
  "scan_length_prefixed_data data = do {
     let len = length data;
     let hdr_max = (if len < 5 then len else 5);
     (i, val) \<leftarrow> scan_length_loop 0 0 hdr_max data 0;
     Some (if i = hdr_max then (0, 0)
           else let hdr_len = i + 1 in
             if unat val > 2147483647 then (0, hdr_len)
             else if hdr_len + unat val > len then (0, hdr_len)
             else (hdr_len + unat val, hdr_len))
   }"

section \<open>Joining groups of bits\<close>

lemma or_push_of_nat:
  assumes "a < 2 ^ n"
  shows "(of_nat a :: 'a::len word) OR push_bit n (of_nat b) = of_nat (a + b * 2 ^ n)"
proof -
  have a: "take_bit n a = a"
    using assms by (simp add: take_bit_nat_eq_self_iff)
  have "bit (of_nat a :: 'a word) k \<Longrightarrow> k < n" for k
    by (metis a bit_of_nat_iff bit_take_bit_iff)
  then have "(of_nat a :: 'a word) AND push_bit n (of_nat b) = 0"
    by (intro bit_word_eqI) (auto simp: bit_simps not_le)
  then show ?thesis
    by (simp flip: disjunctive_add_eq_or add: push_bit_eq_mult)
qed

lemma and_7f: "(b :: u8) AND 0x7f = of_nat (unat b mod 128)"
proof -
  have "b AND 0x7f = take_bit 7 b" by (simp add: take_bit_eq_mask mask_eq_exp_minus_1)
  then have "unat (b AND 0x7f) = unat b mod 128"
    by (simp only: unsigned_take_bit_eq) (simp add: take_bit_eq_mod)
  then show ?thesis
    by (auto simp: word_unat_eq_iff unat_of_nat)
qed

lemma ucast_of_nat_u8: "n < 256 \<Longrightarrow> (ucast (of_nat n :: u8) :: 'a::len word) = of_nat n"
  by (simp add: word_unat_eq_iff unat_ucast_word unat_of_nat)

lemma ucast_and_7f [simp]: "(ucast ((b :: u8) AND 0x7f) :: 'a::len word) = of_nat (unat b mod 128)"
  unfolding and_7f by (rule ucast_of_nat_u8) (simp add: order_less_trans [OF mod_less_divisor])

lemma ucast_u8_as_nat: "(ucast (b :: u8) :: 'a::len word) = of_nat (unat b)"
  by (simp add: word_unat_eq_iff unat_ucast_word unat_of_nat)

section \<open>Values of the scalar parsers\<close>

lemma varint_val_append:
  "varint_val (xs @ ys) = varint_val xs + 128 ^ length xs * varint_val ys"
  by (induction xs) (simp_all add: algebra_simps)

lemma varint_val_less: "varint_val xs < 128 ^ length xs"
proof (induction xs)
  case (Cons b xs)
  have "r < 128 \<Longrightarrow> x < P \<Longrightarrow> r + 128 * x < 128 * P" for r x P :: nat by linarith
  from this [OF _ Cons.IH, of "unat b mod 128"] show ?case
    by (simp only: varint_val.simps list.size power_Suc add_0_right add_Suc_right mod_less_divisor
        zero_less_numeral)
qed simp

lemma varint_val_take_Suc:
  "i < length data \<Longrightarrow>
     varint_val (take (Suc i) data) = varint_val (take i data) + (unat (data ! i) mod 128) * 2 ^ (7 * i)"
  by (simp add: take_Suc_conv_app_nth varint_val_append power_mult)

lemma varint_val_take_less: "varint_val (take i data) < 2 ^ (7 * i)"
proof -
  have "varint_val (take i data) < 128 ^ min (length data) i"
    using varint_val_less [of "take i data"] by simp
  also have "\<dots> \<le> 128 ^ i" by (rule power_increasing) auto
  finally show ?thesis by (simp add: power_mult)
qed

lemma or_group:
  "i < length data \<Longrightarrow>
     (of_nat (varint_val (take i data)) :: 'a::len word) OR
       push_bit (7 * i) (of_nat (unat (data ! i) mod 128)) =
     of_nat (varint_val (take (Suc i) data))"
  by (simp only: or_push_of_nat [OF varint_val_take_less] varint_val_take_Suc)

lemma or_group_to:
  assumes "i < length data" and "j = Suc i" and "s = 7 * i"
  shows "(of_nat (varint_val (take i data)) :: 'a::len word) OR
       push_bit s (of_nat (unat (data ! i) mod 128)) = of_nat (varint_val (take j data))"
  using assms by (simp only: or_group)

lemmas or_groups = or_group_to [of "Suc 0" _ 2 7] or_group_to [of 2 _ 3 14] or_group_to [of 3 _ 4 21]

lemma parse_uint64_loop_val:
  assumes "rv = of_nat (varint_val (take i data))" and "i + k \<le> length data" and "shift = 7 * i"
  shows "parse_uint64_loop i shift k data rv = Some (of_nat (varint_val (take (i + k) data)))"
  using assms
proof (induction i shift k data rv rule: parse_uint64_loop.induct)
  case (2 i shift k data rv)
  then have i: "i < length data" by linarith
  then have rd: "rd data i = Some (data ! i)" by (rule rd_in)
  have "parse_uint64_loop (Suc i) (shift + 7) k data
          (rv OR push_bit shift (ucast (data ! i AND 0x7f))) =
        Some (of_nat (varint_val (take (Suc i + k) data)))"
    using "2.prems" i by (intro "2.IH" [OF rd]) (simp_all only: ucast_and_7f or_group, simp_all)
  with rd show ?case by simp
qed simp

lemma take_1_val: "data \<noteq> [] \<Longrightarrow> varint_val (take 1 data) = unat (data ! 0) mod 128"
  by (cases data) auto

lemma parse_uint32_short:
  assumes "0 < len" and "len \<le> length data" and "len < 5"
  shows "parse_uint32 len data = Some (of_nat (varint_val (take len data)))"
proof -
  consider "len = 1" | "len = 2" | "len = 3" | "len = 4" using assms by linarith
  moreover have "data \<noteq> []" using assms by auto
  ultimately show ?thesis
    using assms(2)
    by cases (simp_all add: parse_uint32_def take_1_val [symmetric] or_groups)
qed

lemma of_nat_u32_shift32: "(of_nat (a + x * 4294967296) :: u32) = of_nat a"
proof -
  have "unat (of_nat (a + x * 4294967296) :: u32) = unat (of_nat a :: u32)"
    unfolding unat_of_nat by simp
  then show ?thesis by (simp only: word_unat_eq_iff)
qed

lemma parse_uint32_long:
  assumes "len \<le> length data" and "5 \<le> len"
  shows "parse_uint32 len data = Some (of_nat (varint_val (take len data)))"
proof -
  define b where "b = unat (data ! 4)"
  have "data \<noteq> []" using assms by auto
  then have "parse_uint32 len data =
      Some (of_nat (varint_val (take 4 data)) OR push_bit 28 (ucast (data ! 4)))"
    using assms by (simp add: parse_uint32_def take_1_val [symmetric] or_groups)
  also have "of_nat (varint_val (take 4 data)) OR push_bit 28 (ucast (data ! 4)) =
      (of_nat (varint_val (take 4 data) + b * 2 ^ 28) :: u32)"
    unfolding ucast_u8_as_nat b_def
    by (rule or_push_of_nat) (use varint_val_take_less [of 4 data] in simp)
  also have "\<dots> = of_nat (varint_val (take len data))"
  proof -
    have split: "take len data = take 4 data @ (data ! 4) # drop 5 (take len data)"
      using assms by (auto intro!: nth_equalityI simp: nth_append nth_Cons')
    define a where "a = varint_val (take 4 data)"
    define r where "r = varint_val (drop 5 (take len data))"
    have "varint_val (take len data) = a + 268435456 * (b mod 128 + 128 * r)"
      using assms by (subst split) (simp add: varint_val_append a_def b_def r_def)
    moreover have "a + b * 2 ^ 28 = a + 268435456 * (b mod 128) + b div 128 * 8 * 4294967296"
    proof -
      define q s where "q = b div 128" and "s = b mod 128"
      have "b = s + 128 * q" by (simp add: q_def s_def)
      then show ?thesis unfolding q_def [symmetric] s_def [symmetric] by simp
    qed
    moreover have "a + 268435456 * (b mod 128 + 128 * r) =
        a + 268435456 * (b mod 128) + r * 8 * 4294967296" by simp
    ultimately show ?thesis
      unfolding a_def [symmetric] by (simp only: of_nat_u32_shift32)
  qed
  finally show ?thesis .
qed

lemma parse_uint32_val:
  assumes "0 < len" and "len \<le> length data"
  shows "parse_uint32 len data = Some (of_nat (varint_val (take len data)))"
  using assms parse_uint32_short parse_uint32_long by (cases "len < 5") simp_all

lemma parse_uint64_val:
  assumes "0 < len" and "len \<le> length data"
  shows "parse_uint64 len data = Some (of_nat (varint_val (take len data)))"
proof (cases "len < 5")
  case True
  have "varint_val (take len data) < 2 ^ (7 * len)" by (rule varint_val_take_less)
  also have "(2::nat) ^ (7 * len) \<le> 2 ^ 28" using True by (intro power_increasing) auto
  finally have "varint_val (take len data) < 268435456" by simp
  then have "ucast (of_nat (varint_val (take len data)) :: u32) =
      (of_nat (varint_val (take len data)) :: u64)"
    by (simp add: word_unat_eq_iff unat_ucast_word unat_of_nat)
  with True assms show ?thesis
    by (simp add: parse_uint64_def parse_uint32_val)
next
  case False
  have "data \<noteq> []" using assms by auto
  with False show ?thesis
    using assms parse_uint64_loop_val [of _ 4 data "len - 4" 28]
    by (simp add: parse_uint64_def take_1_val [symmetric] or_groups)
qed

section \<open>Scanning what the packers wrote\<close>

text \<open>
  The loops over continuation bits, on a buffer whose unread part starts with a varint.
\<close>

lemma drop_varint_cases:
  assumes "drop i data = varint q @ rest"
  obtains (last) "q < 128" "i < length data" "data ! i = of_nat q" "unat (data ! i) = q"
    "length (varint q) = 1"
  | (more) "128 \<le> q" "i < length data" "unat (data ! i) = q mod 128 + 128"
    "length (varint q) = Suc (length (varint (q div 128)))"
    "drop (Suc i) data = varint (q div 128) @ rest"
proof -
  have i: "i < length data" using assms
    by (metis append_is_Nil_conv drop_all not_le varint_not_Nil)
  then have split: "drop i data = data ! i # drop (Suc i) data"
    by (rule Cons_nth_drop_Suc [symmetric])
  show thesis
  proof (cases "q < 128")
    case True
    with assms split have "data ! i = of_nat q" by (simp add: varint_small)
    with True i show thesis by (intro last) (simp_all add: varint_small unat_of_nat_u8)
  next
    case False
    have "q mod 128 + 128 < (256::nat)" by simp
    moreover have "data ! i = of_nat (q mod 128 + 128)" "drop (Suc i) data = varint (q div 128) @ rest"
      using False assms split by (simp_all add: varint_big)
    ultimately show thesis
      using False i by (intro more) (simp_all add: varint_big unat_of_nat_u8 del: of_nat_add)
  qed
qed

lemma scan_more_varint:
  "drop i data = varint q @ rest \<Longrightarrow> length (varint q) \<le> k \<Longrightarrow>
     scan_more i k data = Some (i + length (varint q) - 1)"
proof (induction i k data arbitrary: q rule: scan_more.induct)
  case (1 i data)
  then show ?case by simp
next
  case (2 i k data)
  from "2.prems"(1) show ?case
  proof (cases rule: drop_varint_cases)
    case last
    then show ?thesis by simp
  next
    case more
    then have "more_bit (data ! i)" by simp
    with more "2.IH" [of "data ! i" "q div 128"] "2.prems"(2) show ?thesis by simp
  qed
qed

lemma scan_varint_varint:
  assumes "data = varint q @ rest" and "length (varint q) \<le> 10"
  shows "scan_varint (length data) data = Some (length (varint q))"
proof -
  obtain n where "length (varint q) = Suc n" by (cases "varint q") auto
  define k where "k = (if length data > 10 then 10 else length data)"
  have "length (varint q) \<le> k" using assms by (simp add: k_def)
  moreover from this have "scan_more 0 k data = Some (length (varint q) - 1)"
    using scan_more_varint [of 0 data q rest k] assms(1) by simp
  ultimately show ?thesis
    using \<open>length (varint q) = Suc n\<close> unfolding scan_varint_def k_def [symmetric] by simp
qed

lemma group_join:
  assumes "a < 2 ^ shift"
  shows "(of_nat a :: 'a::len word) OR push_bit shift (of_nat (q mod 128)) =
           of_nat (a + (q mod 128) * 2 ^ shift)"
    and "a + (q mod 128) * 2 ^ shift < 2 ^ (shift + 7)"
    and "a + (q mod 128) * 2 ^ shift + q div 128 * 2 ^ (shift + 7) = a + q * 2 ^ shift"
proof -
  show "(of_nat a :: 'a word) OR push_bit shift (of_nat (q mod 128)) =
          of_nat (a + (q mod 128) * 2 ^ shift)"
    using assms by (rule or_push_of_nat)
  have "q mod 128 + 1 \<le> 128" by (simp add: Suc_leI)
  then have "(q mod 128 + 1) * 2 ^ shift \<le> 128 * 2 ^ shift" by (rule mult_right_mono) simp
  then have "(q mod 128) * 2 ^ shift + 2 ^ shift \<le> 128 * 2 ^ shift"
    by (simp only: add_mult_distrib mult_1)
  with assms have "a + (q mod 128) * 2 ^ shift < 128 * 2 ^ shift" by linarith
  then show "a + (q mod 128) * 2 ^ shift < 2 ^ (shift + 7)"
    by (simp add: power_add mult.commute)
  define r d where "r = q mod 128" and "d = q div 128"
  then have "q = r + 128 * d" by simp
  then show "a + (q mod 128) * 2 ^ shift + q div 128 * 2 ^ (shift + 7) = a + q * 2 ^ shift"
    unfolding r_def [symmetric] d_def [symmetric] by (simp add: power_add algebra_simps)
qed

lemma parse_tag_loop_varint:
  "drop rv data = varint q @ rest \<Longrightarrow> length (varint q) \<le> k \<Longrightarrow> a < 2 ^ shift \<Longrightarrow>
     parse_tag_loop rv shift k data (of_nat a) =
       Some (rv + length (varint q), of_nat (a + q * 2 ^ shift))"
proof (induction k arbitrary: rv shift q a)
  case 0
  then show ?case by simp
next
  case (Suc k)
  from Suc.prems(1) show ?case
  proof (cases rule: drop_varint_cases)
    case last
    then show ?thesis
      using or_push_of_nat [OF Suc.prems(3), of q, where 'a = 32]
      by (simp add: ucast_u8_as_nat)
  next
    case more
    note g = group_join [OF Suc.prems(3), of q]
    have "unat (data ! rv) mod 128 = q mod 128" using more(3) by simp
    then have "parse_tag_loop rv shift (Suc k) data (of_nat a) =
        parse_tag_loop (Suc rv) (shift + 7) k data (of_nat (a + (q mod 128) * 2 ^ shift))"
      using more by (simp add: g(1))
    with Suc.IH [OF more(5) _ g(2)] Suc.prems(2) more(4) show ?thesis
      by (simp add: g(3))
  qed
qed

lemma scan_length_loop_varint:
  "drop i data = varint q @ rest \<Longrightarrow> length (varint q) \<le> k \<Longrightarrow> a < 2 ^ shift \<Longrightarrow>
     scan_length_loop i shift k data (of_nat a) =
       Some (i + length (varint q) - 1, of_nat (a + q * 2 ^ shift))"
proof (induction k arbitrary: i shift q a)
  case 0
  then show ?case by simp
next
  case (Suc k)
  have low: "(ucast (b :: u8) AND 0x7f :: u32) = of_nat (unat b mod 128)" for b
  proof -
    have "(ucast b AND 0x7f :: u32) = ucast (b AND 0x7f)" by (simp only: unsigned_and_eq) simp
    then show ?thesis by (simp only: ucast_and_7f)
  qed
  from Suc.prems(1) show ?case
  proof (cases rule: drop_varint_cases)
    case last
    then show ?thesis
      using or_push_of_nat [OF Suc.prems(3), of q, where 'a = 32] by (simp add: low)
  next
    case more
    note g = group_join [OF Suc.prems(3), of q]
    have "unat (data ! i) mod 128 = q mod 128" using more(3) by simp
    then have "scan_length_loop i shift (Suc k) data (of_nat a) =
        scan_length_loop (Suc i) (shift + 7) k data (of_nat (a + (q mod 128) * 2 ^ shift))"
      using more by (simp add: low g(1))
    with Suc.IH [OF more(5) _ g(2)] Suc.prems(2) more(4) show ?thesis
      by (simp add: g(3))
  qed
qed

section \<open>Field keys\<close>

lemma and_f8_eq_0: "(b :: u8) AND 0xf8 = 0 \<longleftrightarrow> unat b < 8"
proof -
  have "(0xf8 :: u8) = NOT (mask 3)" by (simp add: mask_eq_exp_minus_1)
  moreover have "b AND NOT (mask 3) = push_bit 3 (drop_bit 3 b)"
    by (rule bit_word_eqI) (auto simp: bit_simps)
  ultimately have "b AND 0xf8 = push_bit 3 (drop_bit 3 b)" by (simp only:)
  moreover have "unat b div 8 * 8 < 256" using u8_bound [of b] by linarith
  ultimately have "unat (b AND 0xf8) = unat b div 8 * 8"
    by (simp add: unat_push_bit_word unat_drop_bit_word)
  then show ?thesis by (simp add: word_unat_eq_iff div_eq_0_iff)
qed

lemma and_7_of_nat: "(b :: u8) AND 7 = of_nat (unat b mod 8)"
proof -
  have "b AND 7 = take_bit 3 b" by (simp add: take_bit_eq_mask mask_eq_exp_minus_1)
  then have "unat (b AND 7) = unat b mod 8"
    by (simp only: unsigned_take_bit_eq) (simp add: take_bit_eq_mod)
  then show ?thesis by (auto simp: word_unat_eq_iff unat_of_nat)
qed

lemma tag_bits_of_nat: "(ucast (drop_bit 3 ((b :: u8) AND 0x7f)) :: u32) = of_nat (unat b mod 128 div 8)"
proof -
  have b: "unat b mod 128 < 128" by simp
  then have "unat (b AND 0x7f) = unat b mod 128"
    unfolding and_7f by (simp add: unat_of_nat_u8)
  with b show ?thesis
    by (simp only: word_unat_eq_iff unat_ucast_word unat_drop_bit_word)
       (simp add: unat_of_nat)
qed

lemma parse_tag_and_wiretype_key:
  assumes "data = varint (8 * unat t + w) @ rest" and "t \<noteq> 0" and "w < 8"
  shows "parse_tag_and_wiretype data = Some (length (varint (8 * unat t + w)), t, of_nat w)"
proof -
  define n where "n = 8 * unat t + w"
  have n: "8 \<le> n" "n div 8 = unat t" "n mod 8 = w" "n < 34359738368"
    using assms(2,3) u32_bound [of t] by (auto simp: n_def word_unat_eq_iff)
  from assms(1) have "drop 0 data = varint n @ rest" by (simp add: n_def)
  then have "parse_tag_and_wiretype data = Some (length (varint n), t, of_nat w)"
  proof (cases rule: drop_varint_cases)
    case last
    with n show ?thesis
      unfolding parse_tag_and_wiretype_def tag_bits_of_nat and_f8_eq_0 and_7_of_nat
      by (simp flip: length_greater_0_conv)
  next
    case more
    have len: "length (varint n) \<le> 5"
      using n(4) length_varint_le [of n 5] by simp
    have low: "(n mod 128 + 128) mod 8 = w"
      using n(3) mod_mod_cancel [of 8 128 n] mod_mult_self2 [of "n mod 128" 8 16] by simp
    have "n mod 128 div 8 < 2 ^ 4" by (simp add: div_less_iff_less_mult)
    moreover have "length (varint (n div 128)) \<le> (if length data > 5 then 5 else length data) - 1"
      using more(4) len assms(1) by (auto simp flip: n_def)
    ultimately have "parse_tag_loop 1 4 ((if length data > 5 then 5 else length data) - 1) data
          (of_nat (n mod 128 div 8)) =
        Some (1 + length (varint (n div 128)), of_nat (n mod 128 div 8 + n div 128 * 2 ^ 4))"
      using more(5) by (intro parse_tag_loop_varint) auto
    moreover have "n mod 128 div 8 + n div 128 * 16 = n div 8"
      using div_mult2_eq [of n 8 16] mod_mult2_eq [of n 8 16] by simp
    ultimately show ?thesis
      using more n(2) low
      unfolding parse_tag_and_wiretype_def tag_bits_of_nat and_f8_eq_0 and_7_of_nat
      by (simp flip: length_greater_0_conv)
  qed
  then show ?thesis by (simp only: n_def)
qed

text \<open>The packers write \<open>tag_pack\<close> first and then or the wire type into the first byte.\<close>

definition key_bytes :: "u32 \<Rightarrow> nat \<Rightarrow> bytes" where
  "key_bytes t w = varint (8 * unat t + w)"

lemma u8_or_low: "w < 8 \<Longrightarrow> (of_nat (8 * k) :: u8) OR of_nat w = of_nat (8 * k + w)"
  using or_push_of_nat [of w 3 k, where 'a = 8]
  by (simp add: push_bit_eq_mult or.commute add.commute mult.commute)

lemma varint_or_low:
  assumes "w < 8"
  shows "varint (8 * t + w) = (hd (varint (8 * t)) OR of_nat w) # tl (varint (8 * t))"
proof (cases "t < 16")
  case True
  with assms show ?thesis
    using u8_or_low [of w t] by (simp add: varint_small)
next
  case False
  define q r where "q = t div 16" and "r = t mod 16"
  then have t: "t = 16 * q + r" "r < 16" by simp_all
  have dm: "(128 * q + s) div 128 = q" "(128 * q + s) mod 128 = s" if "s < 128" for s :: nat
    using that by simp_all
  have e: "8 * t + w = 128 * q + (8 * r + w)" "8 * t = 128 * q + 8 * r" using t by simp_all
  have lt: "8 * r + w < 128" "8 * r < 128" using t assms by simp_all
  have "(8 * t + w) div 128 = q" "(8 * t + w) mod 128 = 8 * r + w"
    unfolding e(1) by (rule dm [OF lt(1)])+
  moreover have "8 * t div 128 = q" "8 * t mod 128 = 8 * r"
    unfolding e(2) by (rule dm [OF lt(2)])+
  ultimately show ?thesis
    using u8_or_low [of w "r + 16"] assms False
    by (simp add: varint_big add.assoc add.commute add.left_commute del: of_nat_add of_nat_mult)
qed

lemma key_bytes_tag: "w < 8 \<Longrightarrow> key_bytes t w = (hd (varint (8 * unat t)) OR of_nat w) # tl (varint (8 * unat t))"
  by (simp add: key_bytes_def varint_or_low)

lemma length_key_bytes: "w < 8 \<Longrightarrow> length (key_bytes t w) = get_tag_size t"
  by (simp add: key_bytes_tag get_tag_size_varint)

lemma write_bytes_or_first:
  "bs \<noteq> [] \<Longrightarrow> (write_bytes m out bs)(out := write_bytes m out bs out OR w) =
     write_bytes m out ((hd bs OR w) # tl bs)"
  by (cases bs) (auto simp: write_bytes_def nth_Cons')

lemma tag_pack_or_wiretype:
  assumes "tag_pack t m out = (m', n)" and "w < 8"
  shows "m'(out := m' out OR of_nat w) = write_bytes m out (key_bytes t w)"
    and "n = length (key_bytes t w)"
proof -
  have *: "m' = write_bytes m out (varint (8 * unat t))" "n = length (varint (8 * unat t))"
    using emitsD [OF tag_pack_varint, of t m out] assms(1) by simp_all
  show "m'(out := m' out OR of_nat w) = write_bytes m out (key_bytes t w)"
    unfolding * key_bytes_tag [OF assms(2)] by (rule write_bytes_or_first) simp
  show "n = length (key_bytes t w)"
    using * assms(2) by (simp add: length_key_bytes get_tag_size_varint)
qed

section \<open>Length prefixes\<close>

lemma scan_length_prefixed_data_inverse:
  assumes "data = varint (length body) @ body @ rest" and "length body < 2 ^ 31"
  shows "scan_length_prefixed_data data =
           Some (length (varint (length body)) + length body, length (varint (length body)))"
proof -
  let ?n = "length body"
  define hdr_max where "hdr_max = (if length data < 5 then length data else 5)"
  have len: "length (varint ?n) \<le> hdr_max"
    using assms length_varint_le [of ?n 5] by (auto simp: hdr_max_def)
  then have "scan_length_loop 0 0 hdr_max data 0 = Some (length (varint ?n) - 1, of_nat ?n)"
    using scan_length_loop_varint [of 0 data ?n "body @ rest" hdr_max 0 0] assms(1) by simp
  moreover obtain k where "length (varint ?n) = Suc k" by (cases "varint ?n") auto
  moreover have "unat (of_nat ?n :: u32) = ?n" using assms(2) by (simp add: unat_of_nat)
  ultimately show ?thesis
    using len assms unfolding scan_length_prefixed_data_def Let_def hdr_max_def [symmetric]
    by simp
qed

lemma scan_length_loop_total:
  assumes "i + k \<le> length data"
  obtains j v where "scan_length_loop i shift k data val = Some (j, v)" "i \<le> j" "j \<le> i + k"
  using assms
proof (induction i shift k data val arbitrary: thesis rule: scan_length_loop.induct)
  case (2 i shift k data val)
  have i: "i < length data" using "2.prems"(2) by linarith
  show ?case
  proof (cases "more_bit (data ! i)")
    case True
    obtain j v where "scan_length_loop (Suc i) (shift + 7) k data
        (val OR push_bit shift (ucast (data ! i) AND 0x7f)) = Some (j, v)" "Suc i \<le> j" "j \<le> Suc i + k"
      using "2.IH" [of "data ! i", OF rd_in [OF i] refl] True "2.prems"(2) by auto
    with True i show ?thesis by (intro "2.prems"(1) [of j v]) (simp_all add: Let_def)
  next
    case False
    with i show ?thesis by (intro "2.prems"(1) [of i]) (simp_all add: Let_def)
  qed
qed simp

text \<open>The scans stay inside the buffer and what they return does too.\<close>

lemma scan_length_prefixed_data_cases:
  obtains (error) hdr where "scan_length_prefixed_data data = Some (0, hdr)"
  | (ok) tot hdr where "scan_length_prefixed_data data = Some (tot, hdr)"
      "0 < hdr" "hdr \<le> tot" "tot \<le> length data" "hdr \<le> 5"
proof -
  define hdr_max where "hdr_max = (if length data < 5 then length data else 5)"
  have "0 + hdr_max \<le> length data" by (simp add: hdr_max_def)
  then obtain j v where j: "scan_length_loop 0 0 hdr_max data 0 = Some (j, v)" "j \<le> hdr_max"
    by (rule scan_length_loop_total [of _ _ _ 0 0]) auto
  have "hdr_max \<le> 5" by (simp add: hdr_max_def)
  show thesis
  proof (cases "j = hdr_max \<or> unat v > 2147483647 \<or> j + 1 + unat v > length data")
    case True
    with j show ?thesis
      by (intro error [of "if j = hdr_max then 0 else j + 1"])
         (auto simp: scan_length_prefixed_data_def Let_def simp flip: hdr_max_def)
  next
    case False
    with j \<open>hdr_max \<le> 5\<close> show ?thesis
      by (intro ok [of "j + 1 + unat v" "j + 1"])
         (auto simp: scan_length_prefixed_data_def Let_def simp flip: hdr_max_def)
  qed
qed

lemma parse_tag_loop_total:
  assumes "rv + k \<le> length data"
  obtains u tag' where "parse_tag_loop rv shift k data tag = Some (u, tag')" "u \<le> rv + k"
  using assms
proof (induction rv shift k data tag arbitrary: thesis rule: parse_tag_loop.induct)
  case (2 rv shift k data tag)
  have i: "rv < length data" using "2.prems"(2) by linarith
  show ?case
  proof (cases "more_bit (data ! rv)")
    case True
    obtain u tag' where "parse_tag_loop (Suc rv) (shift + 7) k data
        (tag OR push_bit shift (ucast (data ! rv AND 0x7f))) = Some (u, tag')" "u \<le> Suc rv + k"
      using "2.IH" [of "data ! rv", OF rd_in [OF i]] True "2.prems"(2) by auto
    with True i show ?thesis by (intro "2.prems"(1) [of u tag']) simp_all
  next
    case False
    with i show ?thesis by (intro "2.prems"(1) [of "rv + 1"]) simp_all
  qed
qed simp

lemma parse_tag_and_wiretype_total:
  assumes "data \<noteq> []"
  obtains used tag wt where "parse_tag_and_wiretype data = Some (used, tag, wt)"
    "used \<le> length data" "used \<le> 5"
proof -
  define max_rv where "max_rv = (if length data > 5 then 5 else length data)"
  have m: "1 + (max_rv - 1) \<le> length data" "max_rv \<le> length data" "max_rv \<le> 5" "0 < max_rv"
    using assms by (auto simp: max_rv_def Suc_le_eq)
  obtain u tag' where loop: "parse_tag_loop 1 4 (max_rv - 1) data
      (ucast (drop_bit 3 (data ! 0 AND 0x7f))) = Some (u, tag')" "u \<le> 1 + (max_rv - 1)"
    by (rule parse_tag_loop_total [OF m(1)])
  have 1: "1 \<le> length data" using assms by (simp add: Suc_le_eq)
  show thesis
  proof (cases "data ! 0 AND 0xf8 = 0 \<or> \<not> more_bit (data ! 0)")
    case True
    with assms 1 show ?thesis
      by (intro that [of "if data ! 0 AND 0xf8 = 0 then 0 else 1"
            "ucast (drop_bit 3 (data ! 0 AND 0x7f))" "data ! 0 AND 7"])
         (auto simp: parse_tag_and_wiretype_def Let_def)
  next
    case False
    with assms m loop show ?thesis
      by (intro that [of u tag' "data ! 0 AND 7"])
         (auto simp: parse_tag_and_wiretype_def Let_def simp flip: max_rv_def)
  qed
qed

lemma scan_more_total:
  assumes "i + k \<le> length data"
  obtains j where "scan_more i k data = Some j" "i \<le> j" "j \<le> i + k"
  using assms
proof (induction i k data arbitrary: thesis rule: scan_more.induct)
  case (2 i k data)
  have i: "i < length data" using "2.prems"(2) by linarith
  show ?case
  proof (cases "more_bit (data ! i)")
    case True
    obtain j where "scan_more (Suc i) k data = Some j" "Suc i \<le> j" "j \<le> Suc i + k"
      using "2.IH" [of "data ! i", OF rd_in [OF i]] True "2.prems"(2) by auto
    with True i show ?thesis by (intro "2.prems"(1) [of j]) simp_all
  next
    case False
    with i show ?thesis by (intro "2.prems"(1) [of i]) simp_all
  qed
qed simp

lemma scan_varint_total:
  assumes "len \<le> length data"
  obtains r where "scan_varint len data = Some r" "r \<le> len" "r \<le> 10"
proof -
  define k where "k = (if len > 10 then 10 else len)"
  have k: "0 + k \<le> length data" "k \<le> 10" "k \<le> len" using assms by (auto simp: k_def)
  obtain j where j: "scan_more 0 k data = Some j" "j \<le> 0 + k"
    by (rule scan_more_total [OF k(1)])
  with k show thesis
    by (intro that [of "if j = k then 0 else j + 1"])
       (auto simp: scan_varint_def simp flip: k_def)
qed

lemma parse_boolean_total:
  assumes "i + k \<le> length data"
  obtains b where "parse_boolean_from i k data = Some b"
  using assms
proof (induction i k data arbitrary: thesis rule: parse_boolean_from.induct)
  case (2 i k data)
  have i: "i < length data" using "2.prems"(2) by linarith
  show ?case
  proof (cases "data ! i AND 0x7f = 0")
    case True
    then obtain b where "parse_boolean_from (Suc i) k data = Some b"
      using "2.IH" [of "data ! i", OF rd_in [OF i]] "2.prems"(2) by auto
    with True i show ?thesis by (intro "2.prems"(1)) simp
  next
    case False
    with i show ?thesis by (intro "2.prems"(1) [of True]) simp
  qed
qed auto

section \<open>Round trips through memory\<close>

text \<open>
  The parsers invert what the packers wrote.  A value is read back from its own bytes only,
  the way the unpacker calls the parsers once it has cut the member out.
\<close>

lemma unat_sign_ext_mod: "(of_nat (sign_ext v) :: u32) = v"
proof (cases "sint v < 0")
  case True
  have "sign_ext v = unat v + 4294967295 * 4294967296"
    using sign_ext_neg [OF True] by simp
  then show ?thesis by (simp only: of_nat_u32_shift32) simp
next
  case False
  then show ?thesis by (simp add: sign_ext_nonneg)
qed

lemma parse_uint32_varint: "parse_uint32 (length (varint n)) (varint n) = Some (of_nat n)"
  using parse_uint32_val [of "length (varint n)" "varint n"] by simp

lemma parse_uint64_varint: "parse_uint64 (length (varint n)) (varint n) = Some (of_nat n)"
  using parse_uint64_val [of "length (varint n)" "varint n"] by simp

lemma parse_fixed_uint32_le32: "parse_fixed_uint32 (le32 v @ rest) = Some v"
proof -
  have "((ucast (ucast v :: u8) OR push_bit 8 (ucast (ucast (drop_bit 8 v) :: u8))) OR
      push_bit 16 (ucast (ucast (drop_bit 16 v) :: u8))) OR
      push_bit 24 (ucast (ucast (drop_bit 24 v) :: u8)) = v" (is "?w = v")
  proof (rule bit_word_eqI)
    show "bit ?w n = bit v n" if "n < LENGTH(32)" for n
      using that by ((cases "n < 16"; cases "n < 24"), auto simp: bit_simps)
  qed
  then show ?thesis
    by (simp add: parse_fixed_uint32_def le32_def upt_rec)
qed

lemma parse_fixed_uint64_le64: "parse_fixed_uint64 (le64 v @ rest) = Some v"
proof -
  have split: "le64 v = le32 (ucast v) @ le32 (ucast (drop_bit 32 v))"
    by (simp add: le64_def le32_def upt_rec) (intro conjI bit_word_eqI; auto simp: bit_simps)
  have "ucast (ucast v :: u32) OR push_bit 32 (ucast (ucast (drop_bit 32 v) :: u32)) = v"
    by (rule bit_word_eqI) (auto simp: bit_simps)
  then show ?thesis
    unfolding split by (simp add: parse_fixed_uint64_def parse_fixed_uint32_le32)
qed

text \<open>
  A 64-bit value packed at \<open>out\<close> takes exactly \<open>uint64_size\<close> bytes, leaves the memory around
  them alone, is delimited again by \<open>scan_varint\<close> whatever follows it, and parses back to itself.
\<close>

theorem uint64_pack_roundtrip:
  assumes "uint64_pack v m out = (m', n)"
  shows "n = uint64_size v \<and>
     (\<forall>i. i < out \<or> out + n \<le> i \<longrightarrow> m' i = m i) \<and>
     scan_varint (n + length rest) (read_bytes m' out n @ rest) = Some n \<and>
     parse_uint64 n (read_bytes m' out n) = Some v"
proof (intro conjI allI impI)
  have m': "m' = write_bytes m out (varint (unat v))" and n: "n = length (varint (unat v))"
    using emitsD [OF uint64_pack_varint, of v m out] assms by simp_all
  show "n = uint64_size v" by (simp add: n uint64_size_varint)
  show "m' i = m i" if "i < out \<or> out + n \<le> i" for i
    using that unfolding m' n by (rule write_bytes_outside)
  have "length (varint (unat v)) \<le> 10"
    using u64_bound [of v] by (intro length_varint_le) simp_all
  then show "scan_varint (n + length rest) (read_bytes m' out n @ rest) = Some n"
    using scan_varint_varint [of "varint (unat v) @ rest"] by (simp add: m' n)
  show "parse_uint64 n (read_bytes m' out n) = Some v"
    by (simp add: m' n parse_uint64_varint)
qed

theorem uint64_pack_roundtrip_witness:
  "snd (uint64_pack 300 (\<lambda>_. 0) 7) = 2 \<and>
   parse_uint64 2 (read_bytes (fst (uint64_pack 300 (\<lambda>_. 0) 7)) 7 2) = Some 300"
proof -
  obtain m' n where p: "uint64_pack 300 (\<lambda>_. 0) 7 = (m', n)" by fastforce
  note r = uint64_pack_roundtrip [OF p, of "[]"]
  have "uint64_size 300 = 2" by (simp add: uint64_size_def uint32_size_def)
  with r p show ?thesis by auto
qed

text \<open>
  A negative 32-bit integer is packed as ten bytes (its sign-extended 64-bit image), any other
  in at most five; both parse back to the value with \<open>parse_int32\<close>, and the byte count is the one
  \<open>int32_size\<close> promised.
\<close>

theorem int32_pack_roundtrip:
  assumes "int32_pack v m out = (m', n)"
  shows "n = int32_size v \<and>
     (sint v < 0 \<longleftrightarrow> n = 10) \<and> (sint v \<ge> 0 \<longleftrightarrow> n \<le> 5) \<and>
     (\<forall>i. i < out \<or> out + n \<le> i \<longrightarrow> m' i = m i) \<and>
     parse_int32 n (read_bytes m' out n) = Some v"
proof (intro conjI allI impI)
  have m': "m' = write_bytes m out (varint (sign_ext v))" and n: "n = length (varint (sign_ext v))"
    using emitsD [OF int32_pack_varint, of v m out] assms by simp_all
  show size: "n = int32_size v" by (simp add: n int32_size_varint)
  show "sint v < 0 \<longleftrightarrow> n = 10" "sint v \<ge> 0 \<longleftrightarrow> n \<le> 5"
    unfolding size by (simp_all add: int32_size_def)
  show "m' i = m i" if "i < out \<or> out + n \<le> i" for i
    using that unfolding m' n by (rule write_bytes_outside)
  show "parse_int32 n (read_bytes m' out n) = Some v"
    by (simp add: m' n parse_int32_def parse_uint32_varint unat_sign_ext_mod)
qed

theorem int32_pack_roundtrip_witness:
  "snd (int32_pack (-1) (\<lambda>_. 0) 0) = 10 \<and>
   parse_int32 10 (read_bytes (fst (int32_pack (-1) (\<lambda>_. 0) 0)) 0 10) = Some (-1)"
proof -
  obtain m' n where p: "int32_pack (-1) (\<lambda>_. 0) 0 = (m', n)" by fastforce
  note r = int32_pack_roundtrip [OF p]
  have "int32_size (-1) = 10" by (simp add: int32_size_def)
  with r p show ?thesis by auto
qed

text \<open>
  \<open>scan_length_prefixed_data\<close>, given bytes from the peer, never reads past them and never
  accepts a length that reaches past them: a non-zero result is a prefix of at most five bytes
  plus a body, both inside the buffer.
\<close>

theorem scan_length_prefixed_data_in_bounds:
  "case scan_length_prefixed_data data of
     None \<Rightarrow> False
   | Some (tot, hdr) \<Rightarrow> tot = 0 \<or> (0 < hdr \<and> hdr \<le> 5 \<and> hdr \<le> tot \<and> tot \<le> length data)"
  by (rule scan_length_prefixed_data_cases [of data]) auto

text \<open>
  \<open>parse_tag_and_wiretype\<close> reads back every non-zero 32-bit field number and wire type from the
  key bytes the packers emit (\<open>tag_pack\<close>, then the wire type or-ed into the first byte), and
  reports exactly their length, whatever follows.
\<close>

theorem parse_tag_and_wiretype_inverts_key:
  assumes "t \<noteq> 0" and "w < 8"
    and "tag_pack t m out = (m', n)"
    and "m'' = m'(out := m' out OR of_nat w)"
  shows "parse_tag_and_wiretype (read_bytes m'' out n @ rest) = Some (n, t, of_nat w)"
proof -
  have "read_bytes m'' out n = key_bytes t w"
    using tag_pack_or_wiretype [OF assms(3,2)] assms(4) by simp
  with tag_pack_or_wiretype(2) [OF assms(3,2)] show ?thesis
    using parse_tag_and_wiretype_key [OF _ assms(1,2)] by (simp add: key_bytes_def)
qed

theorem parse_tag_and_wiretype_inverts_key_witness:
  "\<exists>m' n. tag_pack 300 (\<lambda>_. 0) 0 = (m', n) \<and>
     parse_tag_and_wiretype (read_bytes (m'(0 := m' 0 OR of_nat 2)) 0 n @ [9]) = Some (n, 300, 2)"
proof -
  obtain m' n where p: "tag_pack 300 (\<lambda>_. 0) 0 = (m', n)" by fastforce
  have "parse_tag_and_wiretype (read_bytes (m'(0 := m' 0 OR of_nat 2)) 0 n @ [9]) =
      Some (n, 300, of_nat 2)"
    by (rule parse_tag_and_wiretype_inverts_key [OF _ _ p refl]) simp_all
  with p show ?thesis by auto
qed

end
