(* ===== verification/Pb_Message.thy ===== *)
theory Pb_Message
  imports Pb_Parse
begin

unbundle bit_operations_syntax

text \<open>
  Messages of the protobuf-c runtime: descriptors, the in-memory message and
  \<open>protobuf_c_message_get_packed_size\<close> with its per-label helpers.

  A message is its descriptor, the quantifiers (the \<open>has_\<close>, \<open>n_\<close> and case words), the member
  cells and the unknown fields.  \<open>quantifier_offset\<close> and \<open>offset\<close> index the two lists the way the
  C code indexes the struct, so members of a union share a cell and a case word.  A pointer
  member distinguishes \<open>NULL\<close>, the descriptor's own default object and any other object, which
  is what the code compares.

  Values are polymorphic in what stands for a sub-message.  Recursion over the message tree
  replaces each sub-message by the result of the recursive call on it (its size, its packer),
  so \<open>required_field_get_packed_size\<close> works on \<open>nat pb_val\<close>, where a sub-message is its size.
\<close>

section \<open>Descriptors\<close>

datatype pb_label = REQUIRED | OPTIONAL | REPEATED | NONE

datatype pb_type = T_INT32 | T_SINT32 | T_SFIXED32 | T_INT64 | T_SINT64 | T_SFIXED64
  | T_UINT32 | T_FIXED32 | T_UINT64 | T_FIXED64 | T_FLOAT | T_DOUBLE | T_BOOL | T_ENUM
  | T_STRING | T_BYTES | T_MESSAGE

definition WIRE_TYPE_VARINT :: nat where "WIRE_TYPE_VARINT = 0"
definition WIRE_TYPE_64BIT :: nat where "WIRE_TYPE_64BIT = 1"
definition WIRE_TYPE_LENGTH_PREFIXED :: nat where "WIRE_TYPE_LENGTH_PREFIXED = 2"
definition WIRE_TYPE_32BIT :: nat where "WIRE_TYPE_32BIT = 5"

lemmas wire_types = WIRE_TYPE_VARINT_def WIRE_TYPE_64BIT_def WIRE_TYPE_LENGTH_PREFIXED_def
  WIRE_TYPE_32BIT_def

definition FLAG_PACKED :: u32 where "FLAG_PACKED = 1"
definition FLAG_ONEOF :: u32 where "FLAG_ONEOF = 4"

datatype pb_default = No_Default | D32 u32 | D64 u64 | DBool u32 | DStr bytes | DBytes bytes

text \<open>\<open>descriptor\<close> is an index into the table of message descriptors, so types may be recursive.\<close>

record field_desc =
  name :: string
  tid :: u32
  label :: pb_label
  ftype :: pb_type
  quantifier_offset :: nat
  offset :: nat
  descriptor :: nat
  default_value :: pb_default
  flags :: u32

record int_range =
  start_value :: u32
  orig_index :: nat

record message_desc =
  short_name :: string
  sizeof_message :: nat
  mfields :: "field_desc list"
  fields_sorted_by_name :: "nat list"
  field_ranges :: "int_range list"
  n_quantifiers :: nat
  n_cells :: nat

definition is_packed :: "field_desc \<Rightarrow> bool" where
  "is_packed field \<longleftrightarrow> flags field AND FLAG_PACKED \<noteq> 0"

definition is_oneof :: "field_desc \<Rightarrow> bool" where
  "is_oneof field \<longleftrightarrow> flags field AND FLAG_ONEOF \<noteq> 0"

section \<open>Messages\<close>

datatype 'a ptr = Null | Default 'a | Heap 'a

fun target :: "'a ptr \<Rightarrow> 'a option" where
  "target Null = None"
| "target (Default a) = Some a"
| "target (Heap a) = Some a"

fun null_or_default :: "'a ptr \<Rightarrow> bool" where
  "null_or_default (Heap a) = False"
| "null_or_default _ = True"

datatype 'm pb_val = V32 u32 | V64 u64 | VBool u32 | VStr "bytes ptr" | VBytes "bytes ptr" | VMsg "'m ptr"

datatype 'm cell = One "'m pb_val" | Many "'m pb_val list"

record unknown_field =
  utag :: u32
  wire_type :: u8
  udata :: bytes

datatype pb_msg = Msg message_desc "u32 list" "pb_msg cell list" "unknown_field list"

text \<open>
  Reading a cell at a C type.  The scalar members of a union overlap, least significant word
  first; the generated code never reads a scalar as a pointer or the reverse.
\<close>

fun as32 :: "'m pb_val \<Rightarrow> u32" where
  "as32 (V32 v) = v"
| "as32 (V64 v) = ucast v"
| "as32 (VBool v) = v"
| "as32 _ = 0"

fun as64 :: "'m pb_val \<Rightarrow> u64" where
  "as64 (V64 v) = v"
| "as64 (V32 v) = ucast v"
| "as64 (VBool v) = ucast v"
| "as64 _ = 0"

fun as_str :: "'m pb_val \<Rightarrow> bytes ptr" where
  "as_str (VStr p) = p"
| "as_str _ = Null"

fun as_bytes :: "'m pb_val \<Rightarrow> bytes ptr" where
  "as_bytes (VBytes p) = p"
| "as_bytes _ = Null"

fun as_msg :: "'m pb_val \<Rightarrow> 'm ptr" where
  "as_msg (VMsg p) = p"
| "as_msg _ = Null"

definition member_at :: "'m cell list \<Rightarrow> nat \<Rightarrow> 'm pb_val" where
  "member_at cells off =
     (if off < length cells then case cells ! off of One v \<Rightarrow> v | Many _ \<Rightarrow> V32 0 else V32 0)"

definition quantifier_at :: "u32 list \<Rightarrow> nat \<Rightarrow> u32" where
  "quantifier_at qs off = (if off < length qs then qs ! off else 0)"

text \<open>The first \<open>count\<close> elements of a repeated member; its array has at least that many.\<close>

definition array_at :: "'m cell list \<Rightarrow> nat \<Rightarrow> u32 \<Rightarrow> 'm pb_val list" where
  "array_at cells off count =
     take (unat count)
       (if off < length cells then case cells ! off of Many vs \<Rightarrow> vs | One _ \<Rightarrow> [] else [])"

text \<open>A C string ends at its first zero byte.\<close>

definition cstr :: "bytes \<Rightarrow> bytes" where
  "cstr s = takeWhile (\<lambda>c. c \<noteq> 0) s"

definition strlen :: "bytes \<Rightarrow> nat" where
  "strlen s = length (cstr s)"

definition str_text :: "bytes ptr \<Rightarrow> bytes" where
  "str_text p = (case target p of None \<Rightarrow> [] | Some s \<Rightarrow> cstr s)"

definition bin_data :: "bytes ptr \<Rightarrow> bytes" where
  "bin_data p = (case target p of None \<Rightarrow> [] | Some s \<Rightarrow> s)"

text \<open>The test \<open>ptr == NULL || ptr == field->default_value\<close> on a string or message member.\<close>

definition ptr_absent :: "field_desc \<Rightarrow> 'm pb_val \<Rightarrow> bool" where
  "ptr_absent field v =
     (if ftype field = T_MESSAGE then null_or_default (as_msg v) else null_or_default (as_str v))"

definition is_ptr_type :: "field_desc \<Rightarrow> bool" where
  "is_ptr_type field \<longleftrightarrow> ftype field = T_MESSAGE \<or> ftype field = T_STRING"

section \<open>Packed sizes\<close>

definition required_field_get_packed_size :: "field_desc \<Rightarrow> nat pb_val \<Rightarrow> nat" where
  "required_field_get_packed_size field member =
     (let rv = get_tag_size (tid field) in
      case ftype field of
        T_SINT32 \<Rightarrow> rv + sint32_size (as32 member)
      | T_ENUM \<Rightarrow> rv + int32_size (as32 member)
      | T_INT32 \<Rightarrow> rv + int32_size (as32 member)
      | T_UINT32 \<Rightarrow> rv + uint32_size (as32 member)
      | T_SINT64 \<Rightarrow> rv + sint64_size (as64 member)
      | T_INT64 \<Rightarrow> rv + uint64_size (as64 member)
      | T_UINT64 \<Rightarrow> rv + uint64_size (as64 member)
      | T_SFIXED32 \<Rightarrow> rv + 4
      | T_FIXED32 \<Rightarrow> rv + 4
      | T_SFIXED64 \<Rightarrow> rv + 8
      | T_FIXED64 \<Rightarrow> rv + 8
      | T_BOOL \<Rightarrow> rv + 1
      | T_FLOAT \<Rightarrow> rv + 4
      | T_DOUBLE \<Rightarrow> rv + 8
      | T_STRING \<Rightarrow>
          let len = (case target (as_str member) of None \<Rightarrow> 0 | Some str \<Rightarrow> strlen str) in
          rv + uint32_size (of_nat len) + len
      | T_BYTES \<Rightarrow>
          let len = length (bin_data (as_bytes member)) in
          rv + uint32_size (of_nat len) + len
      | T_MESSAGE \<Rightarrow>
          let subrv = (case target (as_msg member) of None \<Rightarrow> 0 | Some sz \<Rightarrow> sz) in
          rv + uint32_size (of_nat subrv) + subrv)"

definition oneof_field_get_packed_size :: "field_desc \<Rightarrow> u32 \<Rightarrow> nat pb_val \<Rightarrow> nat" where
  "oneof_field_get_packed_size field oneof_case member =
     (if oneof_case \<noteq> tid field then 0
      else if is_ptr_type field \<and> ptr_absent field member then 0
      else required_field_get_packed_size field member)"

definition optional_field_get_packed_size :: "field_desc \<Rightarrow> u32 \<Rightarrow> nat pb_val \<Rightarrow> nat" where
  "optional_field_get_packed_size field has member =
     (if is_ptr_type field \<and> ptr_absent field member then 0
      else if \<not> is_ptr_type field \<and> has = 0 then 0
      else required_field_get_packed_size field member)"

text \<open>
  A float is zero when all bits but the sign are.  For a \<open>bytes\<close> member the code reads the first
  word of the \<open>{len, data}\<close> pair as the pointer, which is the length.
\<close>

definition field_is_zeroish :: "field_desc \<Rightarrow> 'm pb_val \<Rightarrow> bool" where
  "field_is_zeroish field member =
     (case ftype field of
        T_BOOL \<Rightarrow> as32 member = 0
      | T_ENUM \<Rightarrow> as32 member = 0
      | T_SINT32 \<Rightarrow> as32 member = 0
      | T_INT32 \<Rightarrow> as32 member = 0
      | T_UINT32 \<Rightarrow> as32 member = 0
      | T_SFIXED32 \<Rightarrow> as32 member = 0
      | T_FIXED32 \<Rightarrow> as32 member = 0
      | T_SINT64 \<Rightarrow> as64 member = 0
      | T_INT64 \<Rightarrow> as64 member = 0
      | T_UINT64 \<Rightarrow> as64 member = 0
      | T_SFIXED64 \<Rightarrow> as64 member = 0
      | T_FIXED64 \<Rightarrow> as64 member = 0
      | T_FLOAT \<Rightarrow> push_bit 1 (as32 member) = 0
      | T_DOUBLE \<Rightarrow> push_bit 1 (as64 member) = 0
      | T_STRING \<Rightarrow> (case target (as_str member) of None \<Rightarrow> True | Some str \<Rightarrow> cstr str = [])
      | T_BYTES \<Rightarrow> length (bin_data (as_bytes member)) = 0
      | T_MESSAGE \<Rightarrow> target (as_msg member) = None)"

definition unlabeled_field_get_packed_size :: "field_desc \<Rightarrow> nat pb_val \<Rightarrow> nat" where
  "unlabeled_field_get_packed_size field member =
     (if field_is_zeroish field member then 0 else required_field_get_packed_size field member)"

definition repeated_field_get_packed_size :: "field_desc \<Rightarrow> nat pb_val list \<Rightarrow> nat" where
  "repeated_field_get_packed_size field array =
     (let count = length array in
      if count = 0 then 0
      else
        let header_size = get_tag_size (tid field);
            header_size = (if \<not> is_packed field then header_size * count else header_size);
            rv = (case ftype field of
                T_SINT32 \<Rightarrow> \<Sum>v\<leftarrow>array. sint32_size (as32 v)
              | T_ENUM \<Rightarrow> \<Sum>v\<leftarrow>array. int32_size (as32 v)
              | T_INT32 \<Rightarrow> \<Sum>v\<leftarrow>array. int32_size (as32 v)
              | T_UINT32 \<Rightarrow> \<Sum>v\<leftarrow>array. uint32_size (as32 v)
              | T_SINT64 \<Rightarrow> \<Sum>v\<leftarrow>array. sint64_size (as64 v)
              | T_INT64 \<Rightarrow> \<Sum>v\<leftarrow>array. uint64_size (as64 v)
              | T_UINT64 \<Rightarrow> \<Sum>v\<leftarrow>array. uint64_size (as64 v)
              | T_SFIXED32 \<Rightarrow> 4 * count
              | T_FIXED32 \<Rightarrow> 4 * count
              | T_FLOAT \<Rightarrow> 4 * count
              | T_SFIXED64 \<Rightarrow> 8 * count
              | T_FIXED64 \<Rightarrow> 8 * count
              | T_DOUBLE \<Rightarrow> 8 * count
              | T_BOOL \<Rightarrow> count
              | T_STRING \<Rightarrow> \<Sum>v\<leftarrow>array. let len = length (str_text (as_str v)) in uint32_size (of_nat len) + len
              | T_BYTES \<Rightarrow> \<Sum>v\<leftarrow>array. let len = length (bin_data (as_bytes v)) in uint32_size (of_nat len) + len
              | T_MESSAGE \<Rightarrow> \<Sum>v\<leftarrow>array.
                  let len = (case target (as_msg v) of None \<Rightarrow> 0 | Some sz \<Rightarrow> sz) in
                  uint32_size (of_nat len) + len);
            header_size = (if is_packed field then header_size + uint32_size (of_nat rv) else header_size)
        in header_size + rv)"

definition unknown_field_get_packed_size :: "unknown_field \<Rightarrow> nat" where
  "unknown_field_get_packed_size field = get_tag_size (utag field) + length (udata field)"

text \<open>
  The dispatch on the label, the same in the three message loops of the packer; \<open>required\<close>,
  \<open>oneof\<close>, \<open>optional\<close>, \<open>unlabeled\<close> and \<open>repeated\<close> are the helpers of the loop.
\<close>

definition field_dispatch ::
  "(field_desc \<Rightarrow> 'm pb_val \<Rightarrow> 'r) \<Rightarrow> (field_desc \<Rightarrow> u32 \<Rightarrow> 'm pb_val \<Rightarrow> 'r) \<Rightarrow>
   (field_desc \<Rightarrow> u32 \<Rightarrow> 'm pb_val \<Rightarrow> 'r) \<Rightarrow> (field_desc \<Rightarrow> 'm pb_val \<Rightarrow> 'r) \<Rightarrow>
   (field_desc \<Rightarrow> 'm pb_val list \<Rightarrow> 'r) \<Rightarrow> u32 list \<Rightarrow> 'm cell list \<Rightarrow> field_desc \<Rightarrow> 'r" where
  "field_dispatch required oneof optional unlabeled repeated qs cells field =
     (let member = member_at cells (offset field);
          q = quantifier_at qs (quantifier_offset field) in
      if label field = REQUIRED then required field member
      else if (label field = OPTIONAL \<or> label field = NONE) \<and> is_oneof field then oneof field q member
      else if label field = OPTIONAL then optional field q member
      else if label field = NONE then unlabeled field member
      else repeated field (array_at cells (offset field) q))"

definition message_size :: "message_desc \<Rightarrow> u32 list \<Rightarrow> nat cell list \<Rightarrow> unknown_field list \<Rightarrow> nat" where
  "message_size desc qs cells us =
     (\<Sum>field\<leftarrow>mfields desc.
        field_dispatch required_field_get_packed_size oneof_field_get_packed_size
          optional_field_get_packed_size unlabeled_field_get_packed_size
          repeated_field_get_packed_size qs cells field) +
     (\<Sum>u\<leftarrow>us. unknown_field_get_packed_size u)"

primrec protobuf_c_message_get_packed_size :: "pb_msg \<Rightarrow> nat" where
  "protobuf_c_message_get_packed_size (Msg desc qs cells us) =
     message_size desc qs (map (map_cell protobuf_c_message_get_packed_size) cells) us"

section \<open>Reference encoding\<close>

text \<open>
  What is on the wire, independent of how the code gets it there: which values of a field are
  present, the bytes of one value, and their keys.  A sub-message stands as its own encoding.
\<close>

definition tag_key :: "u32 \<Rightarrow> u8 \<Rightarrow> bytes" where
  "tag_key t w = (hd (varint (8 * unat t)) OR w) # tl (varint (8 * unat t))"

definition prefixed :: "bytes \<Rightarrow> bytes" where
  "prefixed bs = varint (unat (of_nat (length bs) :: u32)) @ bs"

fun wire_type_of :: "pb_type \<Rightarrow> nat" where
  "wire_type_of T_SFIXED32 = WIRE_TYPE_32BIT"
| "wire_type_of T_FIXED32 = WIRE_TYPE_32BIT"
| "wire_type_of T_FLOAT = WIRE_TYPE_32BIT"
| "wire_type_of T_SFIXED64 = WIRE_TYPE_64BIT"
| "wire_type_of T_FIXED64 = WIRE_TYPE_64BIT"
| "wire_type_of T_DOUBLE = WIRE_TYPE_64BIT"
| "wire_type_of T_STRING = WIRE_TYPE_LENGTH_PREFIXED"
| "wire_type_of T_BYTES = WIRE_TYPE_LENGTH_PREFIXED"
| "wire_type_of T_MESSAGE = WIRE_TYPE_LENGTH_PREFIXED"
| "wire_type_of _ = WIRE_TYPE_VARINT"

fun val_bytes :: "pb_type \<Rightarrow> bytes pb_val \<Rightarrow> bytes" where
  "val_bytes T_SINT32 v = varint (unat (zigzag32 (as32 v)))"
| "val_bytes T_ENUM v = varint (sign_ext (as32 v))"
| "val_bytes T_INT32 v = varint (sign_ext (as32 v))"
| "val_bytes T_UINT32 v = varint (unat (as32 v))"
| "val_bytes T_SINT64 v = varint (unat (zigzag64 (as64 v)))"
| "val_bytes T_INT64 v = varint (unat (as64 v))"
| "val_bytes T_UINT64 v = varint (unat (as64 v))"
| "val_bytes T_SFIXED32 v = le32 (as32 v)"
| "val_bytes T_FIXED32 v = le32 (as32 v)"
| "val_bytes T_FLOAT v = le32 (as32 v)"
| "val_bytes T_SFIXED64 v = le64 (as64 v)"
| "val_bytes T_FIXED64 v = le64 (as64 v)"
| "val_bytes T_DOUBLE v = le64 (as64 v)"
| "val_bytes T_BOOL v = [if as32 v \<noteq> 0 then 1 else 0]"
| "val_bytes T_STRING v = prefixed (str_text (as_str v))"
| "val_bytes T_BYTES v = prefixed (bin_data (as_bytes v))"
| "val_bytes T_MESSAGE v = prefixed (case target (as_msg v) of None \<Rightarrow> [] | Some bs \<Rightarrow> bs)"

definition enc_value :: "field_desc \<Rightarrow> bytes pb_val \<Rightarrow> bytes" where
  "enc_value field v =
     tag_key (tid field) (of_nat (wire_type_of (ftype field))) @ val_bytes (ftype field) v"

definition enc_repeated :: "field_desc \<Rightarrow> bytes pb_val list \<Rightarrow> bytes" where
  "enc_repeated field vs =
     (if is_packed field
      then if vs = [] then []
           else tag_key (tid field) (of_nat WIRE_TYPE_LENGTH_PREFIXED) @
                prefixed (concat (map (val_bytes (ftype field)) vs))
      else concat (map (enc_value field) vs))"

definition enc_field :: "u32 list \<Rightarrow> bytes cell list \<Rightarrow> field_desc \<Rightarrow> bytes" where
  "enc_field =
     field_dispatch enc_value
       (\<lambda>f q v. if q = tid f \<and> \<not> (is_ptr_type f \<and> ptr_absent f v) then enc_value f v else [])
       (\<lambda>f q v. if (if is_ptr_type f then \<not> ptr_absent f v else q \<noteq> 0) then enc_value f v else [])
       (\<lambda>f v. if field_is_zeroish f v then [] else enc_value f v)
       enc_repeated"

definition enc_unknown :: "unknown_field \<Rightarrow> bytes" where
  "enc_unknown u = tag_key (utag u) (wire_type u) @ udata u"

definition enc_message :: "message_desc \<Rightarrow> u32 list \<Rightarrow> bytes cell list \<Rightarrow> unknown_field list \<Rightarrow> bytes" where
  "enc_message desc qs cells us =
     concat (map (enc_field qs cells) (mfields desc)) @ concat (map enc_unknown us)"

primrec enc :: "pb_msg \<Rightarrow> bytes" where
  "enc (Msg desc qs cells us) = enc_message desc qs (map (map_cell enc) cells) us"

text \<open>Packed repeated fields are of a scalar type, as the compiler for .proto files ensures.\<close>

definition is_packable_type :: "pb_type \<Rightarrow> bool" where
  "is_packable_type t \<longleftrightarrow> t \<noteq> T_STRING \<and> t \<noteq> T_BYTES \<and> t \<noteq> T_MESSAGE"

section \<open>Sizes are lengths of encodings\<close>

lemma map_reads [simp]:
  "as32 (map_pb_val f v) = as32 v"
  "as64 (map_pb_val f v) = as64 v"
  "as_str (map_pb_val f v) = as_str v"
  "as_bytes (map_pb_val f v) = as_bytes v"
  "as_msg (map_pb_val f v) = map_ptr f (as_msg v)"
  "target (map_ptr f p) = map_option f (target p)"
  "null_or_default (map_ptr f p) = null_or_default p"
  by (cases v; simp; fail)+ (cases p; simp)+

lemma map_tests [simp]:
  "ptr_absent field (map_pb_val f v) = ptr_absent field v"
  "field_is_zeroish field (map_pb_val f v) = field_is_zeroish field v"
  by (simp_all add: ptr_absent_def field_is_zeroish_def split: pb_type.split)

lemma member_at_map [simp]: "member_at (map (map_cell f) cells) off = map_pb_val f (member_at cells off)"
  by (auto simp: member_at_def split: cell.split)

lemma array_at_map [simp]:
  "array_at (map (map_cell f) cells) off q = map (map_pb_val f) (array_at cells off q)"
  by (auto simp: array_at_def take_map split: cell.split)

text \<open>
  An operation on messages computed by \<open>op1\<close> and one by \<open>op2\<close> correspond when they do for every
  label; \<open>f\<close> relates the two representations of sub-messages and \<open>g\<close> the results.
\<close>

lemma field_dispatch_map:
  assumes "\<And>v. req1 field (map_pb_val f v) = g (req2 field v)"
    and "\<And>q v. one1 field q (map_pb_val f v) = g (one2 field q v)"
    and "\<And>q v. opt1 field q (map_pb_val f v) = g (opt2 field q v)"
    and "\<And>v. unl1 field (map_pb_val f v) = g (unl2 field v)"
    and "\<And>vs. label field = REPEATED \<Longrightarrow> vs = array_at cells (offset field) (quantifier_at qs (quantifier_offset field)) \<Longrightarrow>
           rep1 field (map (map_pb_val f) vs) = g (rep2 field vs)"
  shows "field_dispatch req1 one1 opt1 unl1 rep1 qs (map (map_cell f) cells) field =
         g (field_dispatch req2 one2 opt2 unl2 rep2 qs cells field)"
  using assms by (cases "label field") (simp_all add: field_dispatch_def Let_def)

lemma length_tag_key: "length (tag_key t w) = get_tag_size t"
  by (simp add: tag_key_def get_tag_size_varint)

lemma length_prefixed: "length (prefixed bs) = uint32_size (of_nat (length bs)) + length bs"
  by (simp add: prefixed_def uint32_size_varint)

lemmas length_values = int32_size_varint uint32_size_varint uint64_size_varint sint32_size_def
  sint64_size_def length_prefixed

lemma strlen_str_text: "(case target p of None \<Rightarrow> 0 | Some s \<Rightarrow> strlen s) = length (str_text p)"
  by (cases p) (simp_all add: str_text_def strlen_def)

lemma required_field_get_packed_size_enc:
  "required_field_get_packed_size field (map_pb_val length v) = length (enc_value field v)"
  by (cases "ftype field")
     (simp_all add: required_field_get_packed_size_def enc_value_def length_tag_key Let_def
       length_values strlen_str_text split: option.split)

lemma sub_size_length:
  "(case map_option length x of None \<Rightarrow> 0 | Some sz \<Rightarrow> sz) = length (case x of None \<Rightarrow> [] | Some bs \<Rightarrow> bs)"
  by (cases x) simp_all

lemma sum_list_const: "(\<Sum>x\<leftarrow>xs. c) = c * length xs"
  for c :: nat
  by (induction xs) simp_all

lemma repeated_field_get_packed_size_enc:
  "repeated_field_get_packed_size field (map (map_pb_val length) vs) = length (enc_repeated field vs)"
proof (cases "vs = []")
  case True
  then show ?thesis by (simp add: repeated_field_get_packed_size_def enc_repeated_def)
next
  case False
  let ?n = "\<Sum>v\<leftarrow>vs. length (val_bytes (ftype field) v)"
  have keys: "(\<Sum>v\<leftarrow>vs. length (enc_value field v)) = get_tag_size (tid field) * length vs + ?n"
    by (simp add: enc_value_def length_tag_key sum_list_addf sum_list_const)
  have "repeated_field_get_packed_size field (map (map_pb_val length) vs) =
      (if is_packed field then get_tag_size (tid field) + uint32_size (of_nat ?n)
       else get_tag_size (tid field) * length vs) + ?n"
    using False unfolding repeated_field_get_packed_size_def
    by (cases "ftype field")
       (simp_all add: Let_def o_def sum_list_const sum_list_triv length_values sub_size_length
         del: case_map_option)
  then show ?thesis
    using False keys
    by (simp add: enc_repeated_def length_concat o_def length_tag_key length_prefixed)
qed

lemma enc_unknown_size: "unknown_field_get_packed_size u = length (enc_unknown u)"
  by (simp add: unknown_field_get_packed_size_def enc_unknown_def length_tag_key)

lemma message_size_enc:
  "message_size desc qs (map (map_cell length) cells) us = length (enc_message desc qs cells us)"
proof -
  have "field_dispatch required_field_get_packed_size oneof_field_get_packed_size
          optional_field_get_packed_size unlabeled_field_get_packed_size
          repeated_field_get_packed_size qs (map (map_cell length) cells) field =
        length (enc_field qs cells field)" for field
    unfolding enc_field_def
    by (rule field_dispatch_map)
       (simp_all add: required_field_get_packed_size_enc repeated_field_get_packed_size_enc
         oneof_field_get_packed_size_def optional_field_get_packed_size_def
         unlabeled_field_get_packed_size_def)
  then show ?thesis
    by (simp add: message_size_def enc_message_def length_concat o_def enc_unknown_size)
qed

lemma get_packed_size_enc: "protobuf_c_message_get_packed_size msg = length (enc msg)"
proof (induction msg)
  case (Msg desc qs cells us)
  then have "map (map_cell protobuf_c_message_get_packed_size) cells =
      map (map_cell length) (map (map_cell enc) cells)"
    by (auto simp: cell.map_comp intro!: cell.map_cong0)
  then show ?case by (simp only: protobuf_c_message_get_packed_size.simps enc.simps message_size_enc)
qed

end
