(* ===== verification/Pb_Pack.thy ===== *)
theory Pb_Pack
  imports Pb_Message
begin

unbundle bit_operations_syntax

text \<open>
  \<open>protobuf_c_message_pack\<close>: writing a message through an output pointer.  A packer takes the
  memory and the output address and returns the memory and the bytes written; the \<open>memmove\<close>s
  that make room for a length prefix discovered after the payload was written are in the model.

  \<open>emit bs\<close> is the packer that writes exactly \<open>bs\<close>.  Every packer of the code is shown equal to
  \<open>emit\<close> of its reference encoding, so the memory outside those bytes is untouched, and the
  whole message is \<open>emit (enc msg)\<close>.
\<close>

type_synonym packer = "mem \<Rightarrow> nat \<Rightarrow> mem \<times> nat"

section \<open>The model\<close>

definition memmove :: "mem \<Rightarrow> nat \<Rightarrow> nat \<Rightarrow> nat \<Rightarrow> mem" where
  "memmove m dst src n = write_bytes m dst (read_bytes m src n)"

definition string_pack :: "bytes ptr \<Rightarrow> packer" where
  "string_pack str m out =
     (case target str of
        None \<Rightarrow> (m(out := 0), 1)
      | Some s \<Rightarrow>
          let len = strlen s;
              (m, rv) = uint32_pack (of_nat len) m out;
              m = write_bytes m (out + rv) (take len s)
          in (m, rv + len))"

definition binary_data_pack :: "bytes ptr \<Rightarrow> packer" where
  "binary_data_pack bd m out =
     (let len = length (bin_data bd);
          (m, rv) = uint32_pack (of_nat len) m out;
          m = write_bytes m (out + rv) (bin_data bd)
      in (m, rv + len))"

definition prefixed_message_pack :: "packer ptr \<Rightarrow> packer" where
  "prefixed_message_pack message m out =
     (case target message of
        None \<Rightarrow> (m(out := 0), 1)
      | Some message_pack \<Rightarrow>
          let (m, rv) = message_pack m (out + 1);
              rv_packed_size = uint32_size (of_nat rv);
              m = (if rv_packed_size \<noteq> 1 then memmove m (out + rv_packed_size) (out + 1) rv else m);
              (m, n) = uint32_pack (of_nat rv) m out
          in (m, n + rv))"

text \<open>The shape of every branch of \<open>required_field_pack\<close>: tag, wire type or-ed in, then the value.\<close>

definition pack_tagged :: "u32 \<Rightarrow> nat \<Rightarrow> packer \<Rightarrow> packer" where
  "pack_tagged tag wt value_pack m out =
     (let (m, rv) = tag_pack tag m out;
          m = m(out := m out OR of_nat wt);
          (m, n) = value_pack m (out + rv)
      in (m, rv + n))"

definition required_field_pack :: "field_desc \<Rightarrow> packer pb_val \<Rightarrow> packer" where
  "required_field_pack field member =
     (case ftype field of
        T_SINT32 \<Rightarrow> pack_tagged (tid field) WIRE_TYPE_VARINT (sint32_pack (as32 member))
      | T_ENUM \<Rightarrow> pack_tagged (tid field) WIRE_TYPE_VARINT (int32_pack (as32 member))
      | T_INT32 \<Rightarrow> pack_tagged (tid field) WIRE_TYPE_VARINT (int32_pack (as32 member))
      | T_UINT32 \<Rightarrow> pack_tagged (tid field) WIRE_TYPE_VARINT (uint32_pack (as32 member))
      | T_SINT64 \<Rightarrow> pack_tagged (tid field) WIRE_TYPE_VARINT (sint64_pack (as64 member))
      | T_INT64 \<Rightarrow> pack_tagged (tid field) WIRE_TYPE_VARINT (uint64_pack (as64 member))
      | T_UINT64 \<Rightarrow> pack_tagged (tid field) WIRE_TYPE_VARINT (uint64_pack (as64 member))
      | T_SFIXED32 \<Rightarrow> pack_tagged (tid field) WIRE_TYPE_32BIT (fixed32_pack (as32 member))
      | T_FIXED32 \<Rightarrow> pack_tagged (tid field) WIRE_TYPE_32BIT (fixed32_pack (as32 member))
      | T_FLOAT \<Rightarrow> pack_tagged (tid field) WIRE_TYPE_32BIT (fixed32_pack (as32 member))
      | T_SFIXED64 \<Rightarrow> pack_tagged (tid field) WIRE_TYPE_64BIT (fixed64_pack (as64 member))
      | T_FIXED64 \<Rightarrow> pack_tagged (tid field) WIRE_TYPE_64BIT (fixed64_pack (as64 member))
      | T_DOUBLE \<Rightarrow> pack_tagged (tid field) WIRE_TYPE_64BIT (fixed64_pack (as64 member))
      | T_BOOL \<Rightarrow> pack_tagged (tid field) WIRE_TYPE_VARINT (boolean_pack (as32 member))
      | T_STRING \<Rightarrow> pack_tagged (tid field) WIRE_TYPE_LENGTH_PREFIXED (string_pack (as_str member))
      | T_BYTES \<Rightarrow> pack_tagged (tid field) WIRE_TYPE_LENGTH_PREFIXED (binary_data_pack (as_bytes member))
      | T_MESSAGE \<Rightarrow> pack_tagged (tid field) WIRE_TYPE_LENGTH_PREFIXED (prefixed_message_pack (as_msg member)))"

definition pack_nothing :: packer where
  "pack_nothing m out = (m, 0)"

definition oneof_field_pack :: "field_desc \<Rightarrow> u32 \<Rightarrow> packer pb_val \<Rightarrow> packer" where
  "oneof_field_pack field oneof_case member =
     (if oneof_case \<noteq> tid field then pack_nothing
      else if is_ptr_type field \<and> ptr_absent field member then pack_nothing
      else required_field_pack field member)"

definition optional_field_pack :: "field_desc \<Rightarrow> u32 \<Rightarrow> packer pb_val \<Rightarrow> packer" where
  "optional_field_pack field has member =
     (if is_ptr_type field \<and> ptr_absent field member then pack_nothing
      else if \<not> is_ptr_type field \<and> has = 0 then pack_nothing
      else required_field_pack field member)"

definition unlabeled_field_pack :: "field_desc \<Rightarrow> packer pb_val \<Rightarrow> packer" where
  "unlabeled_field_pack field member =
     (if field_is_zeroish field member then pack_nothing else required_field_pack field member)"

text \<open>A loop \<open>rv += pack(..., out + rv)\<close> over a list of things to pack.\<close>

fun pack_loop :: "packer list \<Rightarrow> nat \<Rightarrow> packer" where
  "pack_loop [] rv m out = (m, rv)"
| "pack_loop (p # ps) rv m out = (let (m, n) = p m (out + rv) in pack_loop ps (rv + n) m out)"

definition get_type_min_size :: "pb_type \<Rightarrow> nat" where
  "get_type_min_size type =
     (if type = T_SFIXED32 \<or> type = T_FIXED32 \<or> type = T_FLOAT then 4
      else if type = T_SFIXED64 \<or> type = T_FIXED64 \<or> type = T_DOUBLE then 8
      else 1)"

definition copy_to_little_endian_32 :: "mem \<Rightarrow> nat \<Rightarrow> u32 list \<Rightarrow> mem" where
  "copy_to_little_endian_32 m out inp = write_bytes m out (concat (map le32 inp))"

definition copy_to_little_endian_64 :: "mem \<Rightarrow> nat \<Rightarrow> u64 list \<Rightarrow> mem" where
  "copy_to_little_endian_64 m out inp = write_bytes m out (concat (map le64 inp))"

text \<open>
  The switch of the packed case of \<open>repeated_field_pack\<close>: the payload at \<open>payload_at\<close> and its
  length.  The default branch is unreachable for a packable type.
\<close>

definition packed_payload :: "pb_type \<Rightarrow> packer pb_val list \<Rightarrow> packer" where
  "packed_payload type array m payload_at =
     (let fixed32 = (copy_to_little_endian_32 m payload_at (map as32 array), 4 * length array);
          fixed64 = (copy_to_little_endian_64 m payload_at (map as64 array), 8 * length array) in
      case type of
        T_SFIXED32 \<Rightarrow> fixed32 | T_FIXED32 \<Rightarrow> fixed32 | T_FLOAT \<Rightarrow> fixed32
      | T_SFIXED64 \<Rightarrow> fixed64 | T_FIXED64 \<Rightarrow> fixed64 | T_DOUBLE \<Rightarrow> fixed64
      | T_ENUM \<Rightarrow> pack_loop (map (\<lambda>v. int32_pack (as32 v)) array) 0 m payload_at
      | T_INT32 \<Rightarrow> pack_loop (map (\<lambda>v. int32_pack (as32 v)) array) 0 m payload_at
      | T_SINT32 \<Rightarrow> pack_loop (map (\<lambda>v. sint32_pack (as32 v)) array) 0 m payload_at
      | T_SINT64 \<Rightarrow> pack_loop (map (\<lambda>v. sint64_pack (as64 v)) array) 0 m payload_at
      | T_UINT32 \<Rightarrow> pack_loop (map (\<lambda>v. uint32_pack (as32 v)) array) 0 m payload_at
      | T_INT64 \<Rightarrow> pack_loop (map (\<lambda>v. uint64_pack (as64 v)) array) 0 m payload_at
      | T_UINT64 \<Rightarrow> pack_loop (map (\<lambda>v. uint64_pack (as64 v)) array) 0 m payload_at
      | T_BOOL \<Rightarrow> pack_loop (map (\<lambda>v. boolean_pack (as32 v)) array) 0 m payload_at
      | _ \<Rightarrow> (m, 0))"

definition repeated_field_pack :: "field_desc \<Rightarrow> packer pb_val list \<Rightarrow> packer" where
  "repeated_field_pack field array m out =
     (if is_packed field then
        if length array = 0 then (m, 0)
        else
          let (m, len_start) = tag_pack (tid field) m out;
              m = m(out := m out OR of_nat WIRE_TYPE_LENGTH_PREFIXED);
              min_length = get_type_min_size (ftype field) * length array;
              length_size_min = uint32_size (of_nat min_length);
              header_len = len_start + length_size_min;
              (m, payload_len) = packed_payload (ftype field) array m (out + header_len);
              actual_length_size = uint32_size (of_nat payload_len);
              (m, header_len) =
                (if length_size_min \<noteq> actual_length_size
                 then (memmove m (out + header_len + 1) (out + header_len) payload_len, header_len + 1)
                 else (m, header_len));
              (m, _) = uint32_pack (of_nat payload_len) m (out + len_start)
          in (m, header_len + payload_len)
      else pack_loop (map (required_field_pack field) array) 0 m out)"

definition unknown_field_pack :: "unknown_field \<Rightarrow> packer" where
  "unknown_field_pack field m out =
     (let (m, rv) = tag_pack (utag field) m out;
          m = m(out := m out OR wire_type field);
          m = write_bytes m (out + rv) (udata field)
      in (m, rv + length (udata field)))"

definition message_pack ::
  "message_desc \<Rightarrow> u32 list \<Rightarrow> packer cell list \<Rightarrow> unknown_field list \<Rightarrow> packer" where
  "message_pack desc qs cells us =
     pack_loop
       (map (field_dispatch required_field_pack oneof_field_pack optional_field_pack
               unlabeled_field_pack repeated_field_pack qs cells) (mfields desc) @
        map unknown_field_pack us) 0"

primrec protobuf_c_message_pack :: "pb_msg \<Rightarrow> packer" where
  "protobuf_c_message_pack (Msg desc qs cells us) =
     message_pack desc qs (map (map_cell protobuf_c_message_pack) cells) us"

section \<open>Packers as written bytes\<close>

definition emit :: "bytes \<Rightarrow> packer" where
  "emit bs m out = (write_bytes m out bs, length bs)"

lemma emits_emit: "emits p bs \<longleftrightarrow> p = emit bs"
  by (auto simp: emits_def emit_def fun_eq_iff)

lemmas pack_emit = pack_emits [unfolded emits_emit]

lemma pack_nothing_emit: "pack_nothing = emit []"
  by (simp add: fun_eq_iff pack_nothing_def emit_def)

lemma varint_0: "varint 0 = [0]"
  by (simp add: varint_small)

lemma take_strlen: "take (strlen s) s = cstr s"
  unfolding strlen_def cstr_def by (rule takeWhile_eq_take [symmetric])

lemma string_pack_emit: "string_pack str = emit (prefixed (str_text str))"
proof (intro ext)
  fix m out
  show "string_pack str m out = emit (prefixed (str_text str)) m out"
    by (cases "target str")
       (simp_all add: string_pack_def str_text_def prefixed_def varint_0 emit_def poke_simps
         pack_emit take_strlen strlen_def [symmetric] mem_simps Let_def)
qed

lemma binary_data_pack_emit: "binary_data_pack bd = emit (prefixed (bin_data bd))"
  by (simp add: fun_eq_iff binary_data_pack_def prefixed_def emit_def pack_emit mem_simps Let_def)

text \<open>
  A payload written at \<open>a + j\<close>, moved to where a prefix of its final length ends, then the prefix
  written: the result is prefix and payload in place, and nothing else.
\<close>

lemma write_shift:
  "j \<le> length pre \<Longrightarrow>
     write_bytes (write_bytes (write_bytes m (a + j) bs) (a + length pre) bs) a pre =
     write_bytes m a (pre @ bs)"
  by (rule ext) (auto simp: write_bytes_def nth_append)

lemma memmove_written:
  "n = length bs \<Longrightarrow> memmove (write_bytes m src bs) dst src n = write_bytes (write_bytes m src bs) dst bs"
  by (simp add: memmove_def)

lemma write_noshift:
  "length pre = j \<Longrightarrow>
     write_bytes (write_bytes m (a + j) bs) a pre = write_bytes m a (pre @ bs)"
  by (rule ext) (auto simp: write_bytes_def nth_append)

lemma prefixed_message_pack_emit:
  "prefixed_message_pack (map_ptr emit p) =
     emit (prefixed (case target p of None \<Rightarrow> [] | Some bs \<Rightarrow> bs))"
proof (intro ext)
  fix m out
  show "prefixed_message_pack (map_ptr emit p) m out =
      emit (prefixed (case target p of None \<Rightarrow> [] | Some bs \<Rightarrow> bs)) m out"
  proof (cases "target p")
    case None
    then show ?thesis
      by (simp add: prefixed_message_pack_def prefixed_def varint_0 emit_def poke_simps)
  next
    case (Some bs)
    define pre where "pre = varint (unat (of_nat (length bs) :: u32))"
    have "1 \<le> length pre" by (simp add: pre_def Suc_le_eq)
    then show ?thesis
      using write_shift [of 1 pre m out bs] write_noshift [of pre 1 m out bs]
      by (simp add: Some prefixed_message_pack_def prefixed_def emit_def memmove_written pack_emit Let_def
          uint32_size_varint flip: pre_def)
  qed
qed

lemma tag_pack_or:
  "tag_pack t m out = (m', n) \<Longrightarrow> m'(out := m' out OR w) = write_bytes m out (tag_key t w) \<and> n = length (tag_key t w)"
  by (auto simp: pack_emit emit_def tag_key_def write_bytes_or_first)

lemma pack_tagged_emit: "pack_tagged t w (emit bs) = emit (tag_key t (of_nat w) @ bs)"
proof (intro ext)
  fix m out
  obtain m' n where p: "tag_pack t m out = (m', n)" by fastforce
  show "pack_tagged t w (emit bs) m out = emit (tag_key t (of_nat w) @ bs) m out"
    using tag_pack_or [OF p, of "of_nat w"]
    by (simp add: pack_tagged_def p Let_def emit_def write_bytes_append)
qed

lemma required_field_pack_emit:
  "required_field_pack field (map_pb_val emit v) = emit (enc_value field v)"
  by (cases "ftype field")
     (simp_all add: required_field_pack_def enc_value_def pack_emit pack_tagged_emit
       string_pack_emit binary_data_pack_emit prefixed_message_pack_emit)

lemma pack_loop_emit: "pack_loop (map emit bss) rv m out = (write_bytes m (out + rv) (concat bss), rv + length (concat bss))"
proof (induction bss arbitrary: rv m)
  case (Cons bs bss)
  then show ?case
    using write_bytes_append [of m "out + rv" bs "concat bss"] by (simp add: emit_def add.assoc)
qed simp

lemma pack_loop_map_emit:
  assumes "\<And>x. x \<in> set xs \<Longrightarrow> f x = emit (g x)"
  shows "pack_loop (map f xs) 0 = emit (concat (map g xs))"
proof -
  have "map f xs = map emit (map g xs)" using assms by simp
  then show ?thesis
    by (simp only:) (simp add: fun_eq_iff pack_loop_emit [of "map g xs", simplified] emit_def)
qed

lemma length_concat_le:
  "length (concat (map (\<lambda>v. le32 (f v)) vs)) = 4 * length vs"
  "length (concat (map (\<lambda>v. le64 (g v)) vs)) = 8 * length vs"
  by (induction vs) simp_all

lemma packed_payload_emit:
  assumes "is_packable_type t"
  shows "packed_payload t (map (map_pb_val emit) vs) = emit (concat (map (val_bytes t) vs))"
proof (intro ext)
  fix m out
  have loops: "pack_loop (map (\<lambda>v. emit (g v)) vs) 0 m out = emit (concat (map g vs)) m out"
    for g :: "bytes pb_val \<Rightarrow> bytes"
    using pack_loop_map_emit [of vs "\<lambda>v. emit (g v)" g] by simp
  show "packed_payload t (map (map_pb_val emit) vs) m out = emit (concat (map (val_bytes t) vs)) m out"
    using assms
    by (cases t)
       (simp_all add: packed_payload_def Let_def is_packable_type_def pack_emit o_def loops,
        simp_all add: emit_def o_def copy_to_little_endian_32_def copy_to_little_endian_64_def
          length_concat_le val_bytes.simps [abs_def])
qed

text \<open>
  The room left for the length of a packed payload is what its shortest form needs; the real
  length needs at most one byte more, which is the assertion in \<open>repeated_field_pack\<close>.
\<close>

lemma length_varint_mono: "n \<le> k \<Longrightarrow> length (varint n) \<le> length (varint k)"
proof -
  assume nk: "n \<le> k"
  obtain j where j: "length (varint k) = Suc j" by (cases "varint k") auto
  have "k < 128 ^ Suc j"
    using length_varint_gt [of "Suc j" k] j by (metis less_irrefl not_le)
  then show ?thesis
    using length_varint_le [of n "Suc j"] nk j by simp
qed

lemma length_varint_scaled:
  assumes "n \<le> k" and "k \<le> 128 * n"
  shows "length (varint k) = length (varint n) \<or> length (varint k) = length (varint n) + 1"
proof -
  obtain j where j: "length (varint n) = Suc j" by (cases "varint n") auto
  have "n < 128 ^ Suc j"
    using length_varint_gt [of "Suc j" n] j by (metis less_irrefl not_le)
  then have "k < 128 ^ Suc (Suc j)" using assms(2) by simp
  then have "length (varint k) \<le> Suc (Suc j)" by (rule length_varint_le) simp
  with length_varint_mono [OF assms(1)] j show ?thesis by linarith
qed

lemma uint32_size_of_nat: "n < 2 ^ 32 \<Longrightarrow> uint32_size (of_nat n) = length (varint n)"
  by (simp add: uint32_size_varint unat_of_nat)

lemma length_varint_pos: "1 \<le> length (varint n)"
  by (simp add: Suc_le_eq)

lemma length_varint_u64: "n < 18446744073709551616 \<Longrightarrow> length (varint n) \<le> 10"
  by (rule length_varint_le) simp_all

lemma sign_ext_bound: "sign_ext v < 18446744073709551616"
proof (cases "sint v < 0")
  case True
  then show ?thesis using u32_bound [of v] by (simp add: sign_ext_neg)
next
  case False
  then show ?thesis using u32_bound [of v] by (simp add: sign_ext_nonneg)
qed

lemma length_val_bytes:
  assumes "is_packable_type t"
  shows "get_type_min_size t \<le> length (val_bytes t v) \<and> length (val_bytes t v) \<le> 10 * get_type_min_size t"
proof -
  have "unat x < 18446744073709551616" for x :: u32
    using u32_bound [of x] by simp
  then show ?thesis
    using assms length_varint_pos u64_bound
    by (cases t) (simp_all add: is_packable_type_def get_type_min_size_def length_varint_u64
        sign_ext_bound Suc_le_eq)
qed

lemma length_payload:
  assumes "is_packable_type t"
  shows "get_type_min_size t * length vs \<le> length (concat (map (val_bytes t) vs))"
    and "length (concat (map (val_bytes t) vs)) \<le> 10 * (get_type_min_size t * length vs)"
proof (induction vs)
  case (Cons v vs)
  { case 1 from length_val_bytes [OF assms, of v] Cons show ?case by simp }
  { case 2 from length_val_bytes [OF assms, of v] Cons show ?case by simp }
qed simp_all

section \<open>Whole messages\<close>

definition repeated_ok :: "field_desc \<Rightarrow> 'm pb_val list \<Rightarrow> bool" where
  "repeated_ok field vs \<longleftrightarrow> is_packed field \<longrightarrow>
     is_packable_type (ftype field) \<and> 10 * (get_type_min_size (ftype field) * length vs) < 2 ^ 32"

lemma repeated_field_pack_emit:
  assumes "repeated_ok field vs"
  shows "repeated_field_pack field (map (map_pb_val emit) vs) = emit (enc_repeated field vs)"
proof (cases "is_packed field \<and> vs \<noteq> []")
  case False
  then show ?thesis
    using pack_loop_map_emit [of vs "\<lambda>v. required_field_pack field (map_pb_val emit v)" "enc_value field"]
    by (auto simp: fun_eq_iff repeated_field_pack_def enc_repeated_def required_field_pack_emit o_def emit_def)
next
  case True
  let ?t = "ftype field"
  define pl where "pl = concat (map (val_bytes ?t) vs)"
  define lo where "lo = get_type_min_size ?t * length vs"
  define pre where "pre = varint (length pl)"
  have t: "is_packable_type ?t" and lim: "10 * lo < 4294967296"
    using True assms by (simp_all add: repeated_ok_def lo_def)
  have pl: "lo \<le> length pl" "length pl \<le> 10 * lo"
    using length_payload [OF t, of vs] by (simp_all add: pl_def lo_def)
  have sizes: "uint32_size (of_nat lo) = length (varint lo)" "uint32_size (of_nat (length pl)) = length pre"
    "unat (of_nat (length pl) :: u32) = length pl"
    using lim pl by (simp_all add: uint32_size_of_nat pre_def unat_of_nat)
  have "length pre = length (varint lo) \<or> length pre = length (varint lo) + 1"
    unfolding pre_def using pl by (intro length_varint_scaled) simp_all
  then consider (same) "length (varint lo) = length pre" | (longer) "length pre = length (varint lo) + 1"
    by auto
  then have room: "(let (m, h) =
       (if length (varint lo) \<noteq> length pre
        then (memmove (write_bytes m (a + length (varint lo)) pl) (a + length (varint lo) + 1)
                (a + length (varint lo)) (length pl), length (varint lo) + 1)
        else (write_bytes m (a + length (varint lo)) pl, length (varint lo)))
     in (write_bytes m a pre, h)) = (write_bytes m a (pre @ pl), length pre)" for m a
    by cases (use write_noshift [of pre "length (varint lo)" m a pl]
        write_shift [of "length (varint lo)" pre m a pl] in \<open>simp_all add: memmove_written\<close>)
  show ?thesis
  proof (intro ext)
    fix m out
    obtain m' n where p: "tag_pack (tid field) m out = (m', n)" by fastforce
    define key where "key = tag_key (tid field) (of_nat WIRE_TYPE_LENGTH_PREFIXED)"
    have k: "m'(out := m' out OR of_nat WIRE_TYPE_LENGTH_PREFIXED) = write_bytes m out key"
      "n = length key" using tag_pack_or [OF p] by (auto simp: key_def)
    show "repeated_field_pack field (map (map_pb_val emit) vs) m out = emit (enc_repeated field vs) m out"
      using True room [of "write_bytes m out key" "out + length key"] write_bytes_append [of m out key "pre @ pl"]
      unfolding repeated_field_pack_def p enc_repeated_def prefixed_def
      by (auto simp: k packed_payload_emit [OF t] sizes pack_emit emit_def Let_def add.assoc
          simp flip: pl_def lo_def pre_def key_def split: if_splits)
  qed
qed

lemma unknown_field_pack_emit: "unknown_field_pack u = emit (enc_unknown u)"
proof (intro ext)
  fix m out
  obtain m' n where p: "tag_pack (utag u) m out = (m', n)" by fastforce
  show "unknown_field_pack u m out = emit (enc_unknown u) m out"
    using tag_pack_or [OF p, of "wire_type u"]
    by (simp add: unknown_field_pack_def p Let_def enc_unknown_def emit_def write_bytes_append)
qed

definition fields_ok :: "message_desc \<Rightarrow> u32 list \<Rightarrow> 'm cell list \<Rightarrow> bool" where
  "fields_ok desc qs cells \<longleftrightarrow>
     (\<forall>field \<in> set (mfields desc). label field = REPEATED \<longrightarrow>
        repeated_ok field (array_at cells (offset field) (quantifier_at qs (quantifier_offset field))))"

primrec msg_ok :: "pb_msg \<Rightarrow> bool" where
  "msg_ok (Msg desc qs cells us) \<longleftrightarrow>
     fields_ok desc qs cells \<and> list_all (pred_cell (\<lambda>b. b)) (map (map_cell msg_ok) cells)"

lemma repeated_ok_map [simp]: "repeated_ok field (map f vs) = repeated_ok field vs"
  by (simp add: repeated_ok_def)

lemma fields_ok_map [simp]: "fields_ok desc qs (map (map_cell f) cells) = fields_ok desc qs cells"
  by (simp add: fields_ok_def)

lemma message_pack_emit:
  assumes "fields_ok desc qs cells"
  shows "message_pack desc qs (map (map_cell emit) cells) us = emit (enc_message desc qs cells us)"
proof -
  let ?step = "field_dispatch required_field_pack oneof_field_pack optional_field_pack
    unlabeled_field_pack repeated_field_pack qs (map (map_cell emit) cells)"
  have "?step field = emit (enc_field qs cells field)" if "field \<in> set (mfields desc)" for field
    unfolding enc_field_def using that assms
    by (intro field_dispatch_map)
       (auto simp: required_field_pack_emit repeated_field_pack_emit oneof_field_pack_def
         optional_field_pack_def unlabeled_field_pack_def pack_nothing_emit fields_ok_def)
  then have "map ?step (mfields desc) @ map unknown_field_pack us =
      map emit (map (enc_field qs cells) (mfields desc) @ map enc_unknown us)"
    by (simp add: unknown_field_pack_emit)
  then show ?thesis
    unfolding message_pack_def enc_message_def
    by (simp only: fun_eq_iff pack_loop_emit) (simp add: emit_def)
qed

lemma message_pack_enc: "msg_ok msg \<Longrightarrow> protobuf_c_message_pack msg = emit (enc msg)"
proof (induction msg)
  case (Msg desc qs cells us)
  have "protobuf_c_message_pack sub = emit (enc sub)" if "c \<in> set cells" "sub \<in> set_cell c" for c sub
    using Msg that by (auto simp: list_all_iff cell.pred_set cell.set_map)
  then have "map (map_cell protobuf_c_message_pack) cells = map (map_cell emit) (map (map_cell enc) cells)"
    by (auto simp: cell.map_comp intro!: cell.map_cong0)
  then show ?case
    using Msg.prems by (simp only: protobuf_c_message_pack.simps enc.simps) (simp add: message_pack_emit del: map_map)
qed

text \<open>
  C2: \<open>protobuf_c_message_pack\<close> writes exactly the reference encoding of the message, changes no
  byte outside it, and returns the size that \<open>protobuf_c_message_get_packed_size\<close> promised the
  caller who allocated the buffer.  The hypothesis excludes packed arrays of pointer types (which
  the compiler never generates) and arrays whose packed size would not fit 32 bits.
\<close>

theorem protobuf_c_message_pack_exact:
  assumes "msg_ok msg" and "protobuf_c_message_pack msg m out = (m', n)"
  shows "n = protobuf_c_message_get_packed_size msg \<and>
     read_bytes m' out n = enc msg \<and>
     (\<forall>i. i < out \<or> out + protobuf_c_message_get_packed_size msg \<le> i \<longrightarrow> m' i = m i)"
proof -
  have "m' = write_bytes m out (enc msg)" "n = length (enc msg)"
    using assms by (simp_all add: message_pack_enc emit_def)
  then show ?thesis by (auto simp: get_packed_size_enc write_bytes_outside)
qed

definition example_field :: field_desc where
  "example_field = \<lparr> name = ''vals'', tid = 5, label = REPEATED, ftype = T_INT32,
     quantifier_offset = 0, offset = 0, descriptor = 0, default_value = No_Default, flags = FLAG_PACKED \<rparr>"

definition example_desc :: message_desc where
  "example_desc = \<lparr> short_name = ''Example'', sizeof_message = 32, mfields = [example_field], fields_sorted_by_name = [0],
     field_ranges = [], n_quantifiers = 1, n_cells = 1 \<rparr>"

definition example_msg :: pb_msg where
  "example_msg = Msg example_desc [2] [Many [V32 1, V32 300]] []"

lemma example_msg_ok: "msg_ok example_msg"
  by (simp add: example_msg_def example_desc_def example_field_def fields_ok_def array_at_def
      quantifier_at_def repeated_ok_def is_packable_type_def get_type_min_size_def)

lemma enc_example_msg: "enc example_msg = [42, 3, 1, 172, 2]"
  by (simp add: example_msg_def example_desc_def example_field_def enc_message_def enc_field_def
      field_dispatch_def enc_repeated_def is_packed_def FLAG_PACKED_def array_at_def
      quantifier_at_def tag_key_def prefixed_def varint_small varint_big sign_ext_def wire_types)

theorem protobuf_c_message_pack_exact_witness:
  "snd (protobuf_c_message_pack example_msg (\<lambda>_. 0) 3) = 5 \<and>
   read_bytes (fst (protobuf_c_message_pack example_msg (\<lambda>_. 0) 3)) 3 5 = [42, 3, 1, 172, 2]"
proof -
  obtain m' n where p: "protobuf_c_message_pack example_msg (\<lambda>_. 0) 3 = (m', n)" by fastforce
  with protobuf_c_message_pack_exact [OF example_msg_ok p] show ?thesis
    by (auto simp: get_packed_size_enc enc_example_msg eval_nat_numeral)
qed

end
