(* ===== verification/Pb_Buffer.thy ===== *)
theory Pb_Buffer
  imports Pb_Pack
begin

unbundle bit_operations_syntax

text \<open>
  \<open>protobuf_c_message_pack_to_buffer\<close> and the growable \<open>ProtobufCBufferSimple\<close>.

  The virtual \<open>append\<close> of \<open>ProtobufCBuffer\<close> is an argument of the packers, as in the code, and
  its contract is the locale \<open>pb_buffer\<close>: an append that fits the limit succeeds and extends the
  contents.  The packers are proved correct once, inside the locale; the simple buffer over an
  allocator that does not fail is shown to be such a buffer.

  \<open>None\<close> is a run that does not return a usable result: a failed assertion, a write outside a
  scratch array or allocated block, or a loop that never ends.
\<close>

section \<open>The simple buffer\<close>

record buffer_simple =
  alloced :: u32
  len :: u32
  data :: bytes
  must_free_data :: bool

definition PROTOBUF_C_BUFFER_SIMPLE_INIT :: "bytes \<Rightarrow> buffer_simple" where
  "PROTOBUF_C_BUFFER_SIMPLE_INIT pad =
     \<lparr> alloced = of_nat (length pad), len = 0, data = pad, must_free_data = False \<rparr>"

definition memcpy :: "bytes \<Rightarrow> nat \<Rightarrow> bytes \<Rightarrow> bytes option" where
  "memcpy dst off src =
     (if off + length src \<le> length dst
      then Some (take off dst @ src @ drop (off + length src) dst) else None)"

text \<open>\<open>while (new_alloced < new_len) new_alloced += new_alloced;\<close> in \<open>size_t\<close>.\<close>

partial_function (option) grow :: "u32 \<Rightarrow> u32 \<Rightarrow> u32 option" where
  "grow new_alloced new_len =
     (if new_alloced < new_len then grow (new_alloced + new_alloced) new_len else Some new_alloced)"

text \<open>\<open>alloc n\<close> is the block the allocator returns for \<open>n\<close> bytes, \<open>None\<close> for \<open>NULL\<close>.\<close>

definition protobuf_c_buffer_simple_append ::
  "(u32 \<Rightarrow> bytes option) \<Rightarrow> buffer_simple \<Rightarrow> bytes \<Rightarrow> buffer_simple option" where
  "protobuf_c_buffer_simple_append alloc simp src =
     (let new_len = len simp + of_nat (length src);
          copy = (\<lambda>simp. do {
            d \<leftarrow> memcpy (data simp) (unat (len simp)) src;
            Some (simp\<lparr> data := d, len := new_len \<rparr>) })
      in if new_len > alloced simp then do {
           new_alloced \<leftarrow> grow (alloced simp * 2) new_len;
           (case alloc new_alloced of
              None \<Rightarrow> Some simp
            | Some new_data \<Rightarrow> do {
                new_data \<leftarrow> memcpy new_data 0 (take (unat (len simp)) (data simp));
                copy (simp\<lparr> data := new_data, alloced := new_alloced, must_free_data := True \<rparr>) })
         } else copy simp)"

section \<open>Packing to a buffer\<close>

type_synonym 'b append = "'b \<Rightarrow> bytes \<Rightarrow> 'b option"
type_synonym 'b sink = "'b \<Rightarrow> ('b \<times> nat) option"

definition MAX_UINT64_ENCODED_SIZE :: nat where
  "MAX_UINT64_ENCODED_SIZE = 10"

text \<open>\<open>buffer->append(buffer, rv, scratch)\<close>, where \<open>scratch\<close> is an array of \<open>cap\<close> bytes.\<close>

definition append_scratch :: "nat \<Rightarrow> 'b append \<Rightarrow> mem \<Rightarrow> nat \<Rightarrow> 'b sink" where
  "append_scratch cap app scratch rv buffer =
     (if rv \<le> cap then do { buffer \<leftarrow> app buffer (read_bytes scratch 0 rv); Some (buffer, rv) }
      else None)"

text \<open>The start of every branch: tag, wire type and a first value in \<open>scratch\<close>, then appended.\<close>

definition tagged_to_buffer :: "nat \<Rightarrow> 'b append \<Rightarrow> u32 \<Rightarrow> u8 \<Rightarrow> packer \<Rightarrow> 'b sink" where
  "tagged_to_buffer cap app tag wt value_pack buffer =
     (let (scratch, rv) = tag_pack tag (\<lambda>_. 0) 0;
          scratch = scratch(0 := scratch 0 OR wt);
          (scratch, n) = value_pack scratch rv
      in append_scratch cap app scratch (rv + n) buffer)"

definition prefixed_to_buffer :: "'b append \<Rightarrow> field_desc \<Rightarrow> bytes \<Rightarrow> 'b sink" where
  "prefixed_to_buffer app field sub buffer = do {
     (buffer, rv) \<leftarrow> tagged_to_buffer (MAX_UINT64_ENCODED_SIZE * 2) app (tid field)
        (of_nat WIRE_TYPE_LENGTH_PREFIXED) (uint32_pack (of_nat (length sub))) buffer;
     buffer \<leftarrow> app buffer sub;
     Some (buffer, rv + length sub)
   }"

text \<open>A sub-message is its packed size and its own packer.\<close>

definition required_field_pack_to_buffer ::
  "'b append \<Rightarrow> field_desc \<Rightarrow> (nat \<times> 'b sink) pb_val \<Rightarrow> 'b sink" where
  "required_field_pack_to_buffer app field member =
     (let scalar = (\<lambda>wt value_pack.
            tagged_to_buffer (MAX_UINT64_ENCODED_SIZE * 2) app (tid field) (of_nat wt) value_pack)
      in case ftype field of
        T_SINT32 \<Rightarrow> scalar WIRE_TYPE_VARINT (sint32_pack (as32 member))
      | T_ENUM \<Rightarrow> scalar WIRE_TYPE_VARINT (int32_pack (as32 member))
      | T_INT32 \<Rightarrow> scalar WIRE_TYPE_VARINT (int32_pack (as32 member))
      | T_UINT32 \<Rightarrow> scalar WIRE_TYPE_VARINT (uint32_pack (as32 member))
      | T_SINT64 \<Rightarrow> scalar WIRE_TYPE_VARINT (sint64_pack (as64 member))
      | T_INT64 \<Rightarrow> scalar WIRE_TYPE_VARINT (uint64_pack (as64 member))
      | T_UINT64 \<Rightarrow> scalar WIRE_TYPE_VARINT (uint64_pack (as64 member))
      | T_SFIXED32 \<Rightarrow> scalar WIRE_TYPE_32BIT (fixed32_pack (as32 member))
      | T_FIXED32 \<Rightarrow> scalar WIRE_TYPE_32BIT (fixed32_pack (as32 member))
      | T_FLOAT \<Rightarrow> scalar WIRE_TYPE_32BIT (fixed32_pack (as32 member))
      | T_SFIXED64 \<Rightarrow> scalar WIRE_TYPE_64BIT (fixed64_pack (as64 member))
      | T_FIXED64 \<Rightarrow> scalar WIRE_TYPE_64BIT (fixed64_pack (as64 member))
      | T_DOUBLE \<Rightarrow> scalar WIRE_TYPE_64BIT (fixed64_pack (as64 member))
      | T_BOOL \<Rightarrow> scalar WIRE_TYPE_VARINT (boolean_pack (as32 member))
      | T_STRING \<Rightarrow> prefixed_to_buffer app field (str_text (as_str member))
      | T_BYTES \<Rightarrow> prefixed_to_buffer app field (bin_data (as_bytes member))
      | T_MESSAGE \<Rightarrow>
          (case target (as_msg member) of
             None \<Rightarrow> scalar WIRE_TYPE_LENGTH_PREFIXED (uint32_pack 0)
           | Some (sublen, pack_sub) \<Rightarrow> (\<lambda>buffer. do {
               (buffer, rv) \<leftarrow> scalar WIRE_TYPE_LENGTH_PREFIXED (uint32_pack (of_nat sublen)) buffer;
               (buffer, _) \<leftarrow> pack_sub buffer;
               Some (buffer, rv + sublen) })))"

definition sink_nothing :: "'b sink" where
  "sink_nothing buffer = Some (buffer, 0)"

definition oneof_field_pack_to_buffer ::
  "'b append \<Rightarrow> field_desc \<Rightarrow> u32 \<Rightarrow> (nat \<times> 'b sink) pb_val \<Rightarrow> 'b sink" where
  "oneof_field_pack_to_buffer app field oneof_case member =
     (if oneof_case \<noteq> tid field then sink_nothing
      else if is_ptr_type field \<and> ptr_absent field member then sink_nothing
      else required_field_pack_to_buffer app field member)"

definition optional_field_pack_to_buffer ::
  "'b append \<Rightarrow> field_desc \<Rightarrow> u32 \<Rightarrow> (nat \<times> 'b sink) pb_val \<Rightarrow> 'b sink" where
  "optional_field_pack_to_buffer app field has member =
     (if is_ptr_type field \<and> ptr_absent field member then sink_nothing
      else if \<not> is_ptr_type field \<and> has = 0 then sink_nothing
      else required_field_pack_to_buffer app field member)"

definition unlabeled_field_pack_to_buffer ::
  "'b append \<Rightarrow> field_desc \<Rightarrow> (nat \<times> 'b sink) pb_val \<Rightarrow> 'b sink" where
  "unlabeled_field_pack_to_buffer app field member =
     (if field_is_zeroish field member then sink_nothing
      else required_field_pack_to_buffer app field member)"

definition get_packed_payload_length :: "field_desc \<Rightarrow> 'm pb_val list \<Rightarrow> nat" where
  "get_packed_payload_length field array =
     (case ftype field of
        T_SFIXED32 \<Rightarrow> length array * 4
      | T_FIXED32 \<Rightarrow> length array * 4
      | T_FLOAT \<Rightarrow> length array * 4
      | T_SFIXED64 \<Rightarrow> length array * 8
      | T_FIXED64 \<Rightarrow> length array * 8
      | T_DOUBLE \<Rightarrow> length array * 8
      | T_ENUM \<Rightarrow> \<Sum>v\<leftarrow>array. int32_size (as32 v)
      | T_INT32 \<Rightarrow> \<Sum>v\<leftarrow>array. int32_size (as32 v)
      | T_SINT32 \<Rightarrow> \<Sum>v\<leftarrow>array. sint32_size (as32 v)
      | T_UINT32 \<Rightarrow> \<Sum>v\<leftarrow>array. uint32_size (as32 v)
      | T_SINT64 \<Rightarrow> \<Sum>v\<leftarrow>array. sint64_size (as64 v)
      | T_INT64 \<Rightarrow> \<Sum>v\<leftarrow>array. uint64_size (as64 v)
      | T_UINT64 \<Rightarrow> \<Sum>v\<leftarrow>array. uint64_size (as64 v)
      | T_BOOL \<Rightarrow> length array
      | _ \<Rightarrow> 0)"

text \<open>A loop \<open>rv += pack(..., buffer)\<close> over a list of things to pack.\<close>

fun sink_loop :: "'b sink list \<Rightarrow> nat \<Rightarrow> 'b sink" where
  "sink_loop [] rv buffer = Some (buffer, rv)"
| "sink_loop (s # ss) rv buffer = do { (buffer, n) \<leftarrow> s buffer; sink_loop ss (rv + n) buffer }"

definition scratch_to_buffer :: "nat \<Rightarrow> 'b append \<Rightarrow> packer \<Rightarrow> 'b sink" where
  "scratch_to_buffer cap app value_pack buffer =
     (let (scratch, n) = value_pack (\<lambda>_. 0) 0 in append_scratch cap app scratch n buffer)"

definition pack_buffer_packed_payload :: "'b append \<Rightarrow> field_desc \<Rightarrow> 'm pb_val list \<Rightarrow> 'b sink" where
  "pack_buffer_packed_payload app field array buffer =
     (let each = (\<lambda>value_pack. sink_loop (map (\<lambda>v. scratch_to_buffer 16 app (value_pack v)) array) 0 buffer);
          whole = (\<lambda>bs. do { buffer \<leftarrow> app buffer bs; Some (buffer, length bs) });
          fixed32 = whole (concat (map (\<lambda>v. le32 (as32 v)) array));
          fixed64 = whole (concat (map (\<lambda>v. le64 (as64 v)) array))
      in case ftype field of
        T_SFIXED32 \<Rightarrow> fixed32 | T_FIXED32 \<Rightarrow> fixed32 | T_FLOAT \<Rightarrow> fixed32
      | T_SFIXED64 \<Rightarrow> fixed64 | T_FIXED64 \<Rightarrow> fixed64 | T_DOUBLE \<Rightarrow> fixed64
      | T_ENUM \<Rightarrow> each (\<lambda>v. int32_pack (as32 v))
      | T_INT32 \<Rightarrow> each (\<lambda>v. int32_pack (as32 v))
      | T_SINT32 \<Rightarrow> each (\<lambda>v. sint32_pack (as32 v))
      | T_UINT32 \<Rightarrow> each (\<lambda>v. uint32_pack (as32 v))
      | T_SINT64 \<Rightarrow> each (\<lambda>v. sint64_pack (as64 v))
      | T_INT64 \<Rightarrow> each (\<lambda>v. uint64_pack (as64 v))
      | T_UINT64 \<Rightarrow> each (\<lambda>v. uint64_pack (as64 v))
      | T_BOOL \<Rightarrow> do { (buffer, _) \<leftarrow> each (\<lambda>v. boolean_pack (as32 v)); Some (buffer, length array) }
      | _ \<Rightarrow> Some (buffer, 0))"

definition repeated_field_pack_to_buffer ::
  "'b append \<Rightarrow> field_desc \<Rightarrow> (nat \<times> 'b sink) pb_val list \<Rightarrow> 'b sink" where
  "repeated_field_pack_to_buffer app field array buffer =
     (if length array = 0 then Some (buffer, 0)
      else if is_packed field then do {
        let payload_len = get_packed_payload_length field array;
        (buffer, rv) \<leftarrow> tagged_to_buffer (MAX_UINT64_ENCODED_SIZE * 2) app (tid field)
           (of_nat WIRE_TYPE_LENGTH_PREFIXED) (uint32_pack (of_nat payload_len)) buffer;
        (buffer, tmp) \<leftarrow> pack_buffer_packed_payload app field array buffer;
        if tmp = payload_len then Some (buffer, rv + payload_len) else None
      } else sink_loop (map (required_field_pack_to_buffer app field) array) 0 buffer)"

definition unknown_field_pack_to_buffer :: "'b append \<Rightarrow> unknown_field \<Rightarrow> 'b sink" where
  "unknown_field_pack_to_buffer app field buffer = do {
     (buffer, rv) \<leftarrow> tagged_to_buffer MAX_UINT64_ENCODED_SIZE app (utag field) (wire_type field)
        pack_nothing buffer;
     buffer \<leftarrow> app buffer (udata field);
     Some (buffer, rv + length (udata field))
   }"

definition message_pack_to_buffer ::
  "'b append \<Rightarrow> message_desc \<Rightarrow> u32 list \<Rightarrow> (nat \<times> 'b sink) cell list \<Rightarrow> unknown_field list \<Rightarrow> 'b sink" where
  "message_pack_to_buffer app desc qs cells us =
     sink_loop
       (map (field_dispatch (required_field_pack_to_buffer app) (oneof_field_pack_to_buffer app)
               (optional_field_pack_to_buffer app) (unlabeled_field_pack_to_buffer app)
               (repeated_field_pack_to_buffer app) qs cells) (mfields desc) @
        map (unknown_field_pack_to_buffer app) us) 0"

primrec protobuf_c_message_pack_to_buffer :: "'b append \<Rightarrow> pb_msg \<Rightarrow> 'b sink" where
  "protobuf_c_message_pack_to_buffer app (Msg desc qs cells us) =
     message_pack_to_buffer app desc qs
       (map (map_cell (\<lambda>msg. (protobuf_c_message_get_packed_size msg,
                              protobuf_c_message_pack_to_buffer app msg))) cells) us"

text \<open>A sub-message of a member is a sub-message of the message.\<close>

lemma member_at_sub:
  assumes "m \<in> set_pb_val (member_at cells off)"
  obtains c where "c \<in> set cells" and "m \<in> set_cell c"
proof (cases "off < length cells")
  case True
  with assms have "m \<in> set_cell (cells ! off)"
    by (cases "cells ! off") (simp_all add: member_at_def)
  with True show thesis by (intro that [of "cells ! off"]) simp_all
qed (use assms in \<open>simp add: member_at_def\<close>)

lemma array_at_sub:
  assumes "v \<in> set (array_at cells off q)" and "m \<in> set_pb_val v"
  obtains c where "c \<in> set cells" and "m \<in> set_cell c"
proof (cases "off < length cells")
  case True
  with assms have "m \<in> set_cell (cells ! off)"
    by (cases "cells ! off") (auto simp: array_at_def dest: in_set_takeD)
  with True show thesis by (intro that [of "cells ! off"]) simp_all
qed (use assms in \<open>simp add: array_at_def\<close>)

section \<open>The buffer contract\<close>

text \<open>
  What a client may rely on: while the contents stay within \<open>limit\<close>, an append returns, keeps the
  invariant and adds exactly the given bytes.
\<close>

definition streams ::
  "('b \<Rightarrow> bytes) \<Rightarrow> ('b \<Rightarrow> bool) \<Rightarrow> nat \<Rightarrow> 'b sink \<Rightarrow> bytes \<Rightarrow> bool" where
  "streams contents valid limit f bs \<longleftrightarrow>
     (\<forall>b. valid b \<and> length (contents b) + length bs \<le> limit \<longrightarrow>
        (\<exists>b'. f b = Some (b', length bs) \<and> valid b' \<and> contents b' = contents b @ bs))"

locale pb_buffer =
  fixes app :: "'b append" and contents :: "'b \<Rightarrow> bytes" and valid :: "'b \<Rightarrow> bool" and limit :: nat
  assumes append_ok: "valid b \<Longrightarrow> length (contents b) + length bs \<le> limit \<Longrightarrow>
    \<exists>b'. app b bs = Some b' \<and> valid b' \<and> contents b' = contents b @ bs"
begin

abbreviation str :: "'b sink \<Rightarrow> bytes \<Rightarrow> bool" where
  "str \<equiv> streams contents valid limit"

lemma str_append: "str (\<lambda>b. do { b \<leftarrow> app b bs; Some (b, length bs) }) bs"
  unfolding streams_def
proof (intro allI impI)
  fix b assume "valid b \<and> length (contents b) + length bs \<le> limit"
  then obtain b' where "app b bs = Some b'" "valid b'" "contents b' = contents b @ bs"
    using append_ok by blast
  then show "\<exists>b'. do { b \<leftarrow> app b bs; Some (b, length bs) } = Some (b', length bs) \<and>
      valid b' \<and> contents b' = contents b @ bs" by simp
qed

lemma str_nothing: "str sink_nothing []"
  by (simp add: streams_def sink_nothing_def)

lemma str_bind:
  assumes "str f xs" and "str g ys"
    and r: "\<And>b. r b (length xs) (length ys) = Some (b, length xs + length ys)"
  shows "str (\<lambda>b. do { (b, n) \<leftarrow> f b; (b, k) \<leftarrow> g b; r b n k }) (xs @ ys)"
  unfolding streams_def
proof (intro allI impI)
  fix b assume b: "valid b \<and> length (contents b) + length (xs @ ys) \<le> limit"
  then obtain b1 where 1: "f b = Some (b1, length xs)" "valid b1" "contents b1 = contents b @ xs"
    using assms(1) by (fastforce simp: streams_def)
  moreover from this b obtain b2 where "g b1 = Some (b2, length ys)" "valid b2" "contents b2 = contents b1 @ ys"
    using assms(2) by (fastforce simp: streams_def)
  ultimately show "\<exists>b'. do { (b, n) \<leftarrow> f b; (b, k) \<leftarrow> g b; r b n k } = Some (b', length (xs @ ys)) \<and>
      valid b' \<and> contents b' = contents b @ xs @ ys" by (simp add: r)
qed

lemma str_seq:
  assumes "str f xs" and "str g ys"
  shows "str (\<lambda>b. do { (b, n) \<leftarrow> f b; (b, k) \<leftarrow> g b; Some (b, n + k) }) (xs @ ys)"
  using assms by (rule str_bind) simp

lemma str_seq_known:
  assumes "str f xs" and "str g ys"
  shows "str (\<lambda>b. do { (b, n) \<leftarrow> f b; (b, _) \<leftarrow> g b; Some (b, n + length ys) }) (xs @ ys)"
  using assms by (rule str_bind) simp

lemma str_seq_check:
  assumes "str f xs" and "str g ys"
  shows "str (\<lambda>b. do { (b, n) \<leftarrow> f b; (b, k) \<leftarrow> g b;
                       if k = length ys then Some (b, n + length ys) else None }) (xs @ ys)"
  using assms by (rule str_bind) simp

lemma sink_loop_rv: "sink_loop ss rv b = map_option (\<lambda>(b, n). (b, rv + n)) (sink_loop ss 0 b)"
proof (induction ss arbitrary: rv b)
  case (Cons s ss)
  show ?case
  proof (cases "s b")
    case (Some r)
    obtain b' n where "r = (b', n)" by fastforce
    with Some show ?thesis
      using Cons [of "rv + n" b'] Cons [of n b']
      by (simp add: option.map_comp o_def split_def add.assoc)
  qed simp
qed simp

lemma str_loop:
  assumes "list_all2 str ss bss"
  shows "str (sink_loop ss 0) (concat bss)"
  using assms
proof (induction ss bss rule: list_all2_induct)
  case Nil
  show ?case by (simp add: streams_def)
next
  case (Cons s ss bs bss)
  have "sink_loop (s # ss) 0 b = do { (b, n) \<leftarrow> s b; (b, k) \<leftarrow> sink_loop ss 0 b; Some (b, n + k) }" for b
    by (subst sink_loop.simps, subst sink_loop_rv)
       (auto simp: map_option_case split: option.split bind_split)
  then have "sink_loop (s # ss) 0 = (\<lambda>b. do { (b, n) \<leftarrow> s b; (b, k) \<leftarrow> sink_loop ss 0 b; Some (b, n + k) })"
    by (rule ext)
  with str_seq [OF Cons.hyps(1) Cons.IH] show ?case by simp
qed

lemma str_scratch:
  assumes "length bs \<le> cap"
  shows "str (scratch_to_buffer cap app (emit bs)) bs"
  using assms str_append [of bs]
  by (simp add: scratch_to_buffer_def emit_def append_scratch_def streams_def)

lemma str_tagged:
  assumes "length (tag_key t wt) + length bs \<le> cap"
  shows "str (tagged_to_buffer cap app t wt (emit bs)) (tag_key t wt @ bs)"
proof -
  obtain m n where p: "tag_pack t (\<lambda>_. 0) 0 = (m, n)" by fastforce
  have k: "m(0 := m 0 OR wt) = write_bytes (\<lambda>_. 0) 0 (tag_key t wt)" "n = length (tag_key t wt)"
    using tag_pack_or [OF p, of wt] by auto
  have "write_bytes (write_bytes (\<lambda>_. 0) 0 (tag_key t wt)) (length (tag_key t wt)) bs =
      write_bytes (\<lambda>_. 0) 0 (tag_key t wt @ bs)"
    using write_bytes_append [of "\<lambda>_. 0" 0 "tag_key t wt" bs] by simp
  then have "tagged_to_buffer cap app t wt (emit bs) b =
      do { b \<leftarrow> app b (tag_key t wt @ bs); Some (b, length (tag_key t wt @ bs)) }" for b
    using assms by (simp add: tagged_to_buffer_def p k emit_def append_scratch_def Let_def)
  then have "tagged_to_buffer cap app t wt (emit bs) =
      (\<lambda>b. do { b \<leftarrow> app b (tag_key t wt @ bs); Some (b, length (tag_key t wt @ bs)) })"
    by (rule ext)
  then show ?thesis by (simp only: str_append)
qed

lemma length_tag_key_le: "length (tag_key t w) \<le> 5"
  by (simp add: length_tag_key get_tag_size_def)

lemma str_scalar:
  "length bs \<le> 10 \<Longrightarrow>
     str (tagged_to_buffer (MAX_UINT64_ENCODED_SIZE * 2) app t wt (emit bs)) (tag_key t wt @ bs)"
  using length_tag_key_le [of t wt] by (intro str_tagged) (simp add: MAX_UINT64_ENCODED_SIZE_def)

lemma length_varint_u32: "length (varint (unat (w :: u32))) \<le> 10"
  using u32_bound [of w] by (intro length_varint_u64) simp

lemma length_scalar_le: "is_packable_type t \<Longrightarrow> length (val_bytes t v) \<le> 10"
  by (cases t) (simp_all add: is_packable_type_def length_varint_u32 length_varint_u64 sign_ext_bound u64_bound)

lemma str_prefix:
  "str (tagged_to_buffer (MAX_UINT64_ENCODED_SIZE * 2) app t wt (uint32_pack w))
     (tag_key t wt @ varint (unat w))"
  by (simp add: pack_emit str_scalar length_varint_u32)

lemma str_prefixed:
  "str (prefixed_to_buffer app field sub)
     (tag_key (tid field) (of_nat WIRE_TYPE_LENGTH_PREFIXED) @ prefixed sub)"
proof -
  have "prefixed_to_buffer app field sub =
      (\<lambda>b. do { (b, n) \<leftarrow> tagged_to_buffer (MAX_UINT64_ENCODED_SIZE * 2) app (tid field)
                   (of_nat WIRE_TYPE_LENGTH_PREFIXED) (uint32_pack (of_nat (length sub))) b;
                (b, _) \<leftarrow> (do { b \<leftarrow> app b sub; Some (b, length sub) });
                Some (b, n + length sub) })"
    by (simp add: prefixed_to_buffer_def [abs_def])
  then show ?thesis
    using str_seq_known [OF str_prefix str_append] by (simp add: prefixed_def)
qed

lemma str_required:
  assumes sub: "\<And>m. m \<in> set_pb_val v \<Longrightarrow> str (pk m) (e m)"
  shows "str (required_field_pack_to_buffer app field (map_pb_val (\<lambda>m. (length (e m), pk m)) v))
           (enc_value field (map_pb_val e v))"
proof (cases "is_packable_type (ftype field)")
  case True
  then show ?thesis
    using length_scalar_le [OF True, of "map_pb_val e v"] unfolding enc_value_def
    by (cases "ftype field")
       (simp_all add: required_field_pack_to_buffer_def is_packable_type_def pack_emit str_scalar)
next
  case False
  then consider (blob) "ftype field = T_STRING \<or> ftype field = T_BYTES" | (msg) "ftype field = T_MESSAGE"
    by (auto simp: is_packable_type_def)
  then show ?thesis
  proof cases
    case blob
    then show ?thesis
      by (auto simp: required_field_pack_to_buffer_def enc_value_def str_prefixed)
  next
    case msg
    show ?thesis
    proof (cases "target (as_msg v)")
      case None
      with msg show ?thesis
        using str_prefix [of "tid field" _ 0]
        by (simp add: required_field_pack_to_buffer_def enc_value_def prefixed_def)
    next
      case (Some m)
      have "m \<in> set_pb_val v"
        using Some by (cases v) (auto elim: target.elims)
      from str_seq_known [OF str_prefix sub [OF this]] msg Some show ?thesis
        by (simp add: required_field_pack_to_buffer_def enc_value_def prefixed_def)
    qed
  qed
qed

lemma str_map_loop:
  assumes "\<And>x. x \<in> set xs \<Longrightarrow> str (f x) (g x)"
  shows "str (sink_loop (map f xs) 0) (concat (map g xs))"
  using assms by (intro str_loop) (simp add: list_all2_conv_all_nth)

lemma str_each:
  assumes "\<And>v. length (g v) \<le> 10"
  shows "str (sink_loop (map (\<lambda>v. scratch_to_buffer 16 app (emit (g v))) vs) 0) (concat (map g vs))"
  using assms by (intro str_map_loop str_scratch) (rule order_trans, assumption, simp)

lemma str_bools:
  assumes "\<And>v. length (g v) = 1"
  shows "str (\<lambda>b. do { (b, _) \<leftarrow> sink_loop (map (\<lambda>v. scratch_to_buffer 16 app (emit (g v))) vs) 0 b;
                       Some (b, length vs) }) (concat (map g vs))"
proof -
  have "length (concat (map g vs)) = length vs" using assms by (induction vs) simp_all
  then show ?thesis
    using str_each [of g vs] assms unfolding streams_def by fastforce
qed

lemma str_payload:
  assumes "is_packable_type (ftype field)"
  shows "str (pack_buffer_packed_payload app field (map (map_pb_val f) vs))
           (concat (map (\<lambda>v. val_bytes (ftype field) (map_pb_val e v)) vs))"
proof -
  have bools: "str (\<lambda>b. do { (b, _) \<leftarrow> sink_loop (map (\<lambda>v. scratch_to_buffer 16 app
      (emit [if as32 v \<noteq> 0 then 1 else 0])) vs) 0 b; Some (b, length vs) })
      (map (\<lambda>v. if as32 v \<noteq> 0 then 1 else 0) vs)" for vs :: "'x pb_val list"
    using str_bools [of "\<lambda>v. [if as32 v \<noteq> 0 then 1 else 0]" vs] by simp
  show ?thesis
    using assms
    by (cases "ftype field")
       (simp_all add: pack_buffer_packed_payload_def [abs_def] is_packable_type_def pack_emit o_def
          bools Let_def str_append,
        (rule str_each, simp add: length_varint_u32 length_varint_u64 u64_bound sign_ext_bound)+)
qed

lemma payload_length:
  assumes "is_packable_type (ftype field)"
  shows "get_packed_payload_length field (map (map_pb_val f) vs) =
           length (concat (map (\<lambda>v. val_bytes (ftype field) (map_pb_val e v)) vs))"
  using assms
  by (cases "ftype field")
     (simp_all add: get_packed_payload_length_def is_packable_type_def length_concat o_def
       length_values sum_list_const sum_list_triv)

lemma str_repeated:
  assumes ok: "repeated_ok field vs"
    and sub: "\<And>v m. v \<in> set vs \<Longrightarrow> m \<in> set_pb_val v \<Longrightarrow> str (pk m) (e m)"
  shows "str (repeated_field_pack_to_buffer app field (map (map_pb_val (\<lambda>m. (length (e m), pk m))) vs))
           (enc_repeated field (map (map_pb_val e) vs))"
proof (cases "is_packed field \<and> vs \<noteq> []")
  case False
  have "str (sink_loop (map (\<lambda>v. required_field_pack_to_buffer app field
            (map_pb_val (\<lambda>m. (length (e m), pk m)) v)) vs) 0)
          (concat (map (\<lambda>v. enc_value field (map_pb_val e v)) vs))"
    using sub by (intro str_map_loop str_required)
  with False str_nothing show ?thesis
    by (cases "vs = []")
       (simp_all add: repeated_field_pack_to_buffer_def [abs_def] enc_repeated_def o_def
         sink_nothing_def [abs_def])
next
  case True
  have t: "is_packable_type (ftype field)" using True ok by (simp add: repeated_ok_def)
  let ?pl = "concat (map (\<lambda>v. val_bytes (ftype field) (map_pb_val e v)) vs)"
  let ?key = "tag_key (tid field) (of_nat WIRE_TYPE_LENGTH_PREFIXED) @ varint (unat (of_nat (length ?pl) :: u32))"
  note str_seq_check [OF str_prefix [of "tid field" "of_nat WIRE_TYPE_LENGTH_PREFIXED" "of_nat (length ?pl)"]
      str_payload [OF t, of "\<lambda>m. (length (e m), pk m)" vs e]]
  with True show ?thesis
    unfolding repeated_field_pack_to_buffer_def [abs_def] payload_length [OF t, of _ vs e] enc_repeated_def
    by (simp add: prefixed_def o_def Let_def)
qed

lemma str_unknown: "str (unknown_field_pack_to_buffer app u) (enc_unknown u)"
proof -
  have "str (tagged_to_buffer MAX_UINT64_ENCODED_SIZE app (utag u) (wire_type u) pack_nothing)
      (tag_key (utag u) (wire_type u) @ [])"
    unfolding pack_nothing_emit using length_tag_key_le [of "utag u" "wire_type u"]
    by (intro str_tagged) (simp add: MAX_UINT64_ENCODED_SIZE_def)
  from str_seq_known [OF this str_append [of "udata u"]] show ?thesis
    by (simp add: unknown_field_pack_to_buffer_def [abs_def] enc_unknown_def)
qed

lemma str_message:
  assumes ok: "fields_ok desc qs cells"
    and sub: "\<And>c m. c \<in> set cells \<Longrightarrow> m \<in> set_cell c \<Longrightarrow> str (pk m) (e m)"
  shows "str (message_pack_to_buffer app desc qs (map (map_cell (\<lambda>m. (length (e m), pk m))) cells) us)
           (enc_message desc qs (map (map_cell e) cells) us)"
proof -
  let ?f = "\<lambda>m. (length (e m), pk m)"
  let ?step = "field_dispatch (required_field_pack_to_buffer app) (oneof_field_pack_to_buffer app)
    (optional_field_pack_to_buffer app) (unlabeled_field_pack_to_buffer app)
    (repeated_field_pack_to_buffer app) qs (map (map_cell ?f) cells)"
  have one: "str (pk m) (e m)" if "m \<in> set_pb_val (member_at cells off)" for m off
    using member_at_sub [OF that] sub by blast
  have many: "str (pk m) (e m)" if "v \<in> set (array_at cells off q)" "m \<in> set_pb_val v" for v m off q
    using array_at_sub [OF that] sub by blast
  have "str (?step field) (enc_field qs (map (map_cell e) cells) field)" if "field \<in> set (mfields desc)" for field
  proof -
    let ?v = "member_at cells (offset field)"
    have req: "str (required_field_pack_to_buffer app field (map_pb_val ?f ?v)) (enc_value field (map_pb_val e ?v))"
      by (rule str_required) (rule one)
    have rep: "label field = REPEATED \<Longrightarrow>
      str (repeated_field_pack_to_buffer app field (map (map_pb_val ?f)
             (array_at cells (offset field) (quantifier_at qs (quantifier_offset field)))))
          (enc_repeated field (map (map_pb_val e)
             (array_at cells (offset field) (quantifier_at qs (quantifier_offset field)))))"
      using ok that by (intro str_repeated many) (auto simp: fields_ok_def)
    show ?thesis
      using req rep str_nothing
      by (cases "label field")
         (auto simp: field_dispatch_def enc_field_def oneof_field_pack_to_buffer_def
           optional_field_pack_to_buffer_def unlabeled_field_pack_to_buffer_def Let_def)
  qed
  then have "str (sink_loop (map ?step (mfields desc) @ map (unknown_field_pack_to_buffer app) us) 0)
      (concat (map (enc_field qs (map (map_cell e) cells)) (mfields desc) @ map enc_unknown us))"
    by (intro str_loop list_all2_appendI) (auto simp: list_all2_conv_all_nth str_unknown)
  then show ?thesis by (simp add: message_pack_to_buffer_def enc_message_def)
qed

lemma str_pack_to_buffer: "msg_ok msg \<Longrightarrow> str (protobuf_c_message_pack_to_buffer app msg) (enc msg)"
proof (induction msg)
  case (Msg desc qs cells us)
  have "str (protobuf_c_message_pack_to_buffer app sub) (enc sub)" if "c \<in> set cells" "sub \<in> set_cell c" for c sub
    using Msg that by (auto simp: list_all_iff cell.pred_set cell.set_map)
  then show ?case
    using Msg.prems str_message [of desc qs cells "protobuf_c_message_pack_to_buffer app" enc us]
    by (simp add: get_packed_size_enc)
qed

end

section \<open>The simple buffer is a buffer\<close>

definition simple_valid :: "buffer_simple \<Rightarrow> bool" where
  "simple_valid b \<longleftrightarrow> length (data b) = unat (alloced b) \<and> len b \<le> alloced b \<and> 0 < alloced b"

definition simple_contents :: "buffer_simple \<Rightarrow> bytes" where
  "simple_contents b = take (unat (len b)) (data b)"

lemma double_u32: "unat a < 2147483648 \<Longrightarrow> unat (a + a :: u32) = 2 * unat a"
  by (simp add: unat_word_ariths mod_less)

text \<open>
  The doubling loop ends because the capacity is positive, and cannot overflow below the bound
  because the last value that was too small was below \<open>2 ^ 31\<close>.
\<close>

lemma grow_terminates:
  assumes "0 < na" and "unat nl \<le> 2147483648"
  shows "\<exists>r. grow na nl = Some r \<and> nl \<le> r"
  using assms
proof (induction "unat nl - unat na" arbitrary: na rule: less_induct)
  case less
  show ?case
  proof (cases "na < nl")
    case True
    then have lt: "unat na < unat nl" by (simp add: word_less_nat_alt)
    have pos: "0 < unat na" using less.prems(1) by (simp add: unat_gt_0)
    have d: "unat (na + na) = 2 * unat na" using lt less.prems(2) by (intro double_u32) simp
    have "0 < na + na" using d pos by (simp add: word_less_nat_alt)
    moreover have "unat nl - unat (na + na) < unat nl - unat na"
      unfolding d using lt pos by linarith
    ultimately obtain r where "grow (na + na) nl = Some r" "nl \<le> r"
      using less.hyps [of "na + na"] less.prems(2) by blast
    with True show ?thesis by (subst grow.simps) simp
  next
    case False
    then have "grow na nl = Some na" by (subst grow.simps) simp
    with False show ?thesis by simp
  qed
qed

lemma grow_from_zero: "0 < nl \<Longrightarrow> grow 0 nl = None"
proof (rule ccontr)
  assume nl: "0 < nl" and "grow 0 nl \<noteq> None"
  then obtain r where "grow 0 nl = Some r" by auto
  moreover have "na = 0 \<longrightarrow> n = 0" if "grow na n = Some r" for na n r
    by (rule grow.raw_induct [where P = "\<lambda>na n r. na = 0 \<longrightarrow> n = 0", OF _ that])
       (auto split: if_splits simp: word_gt_0 not_less)
  ultimately show False using nl by auto
qed

locale pb_allocator =
  fixes alloc :: "u32 \<Rightarrow> bytes option"
  assumes alloc_ok: "\<exists>block. alloc n = Some block \<and> length block = unat n"

lemma simple_append_ok:
  assumes alloc: "\<And>n. \<exists>block. alloc n = Some block \<and> length block = unat n"
    and b: "simple_valid b"
    and fits: "length (simple_contents b) + length bs \<le> 2147483648"
  shows "\<exists>b'. protobuf_c_buffer_simple_append alloc b bs = Some b' \<and>
           simple_valid b' \<and> simple_contents b' = simple_contents b @ bs"
proof -
  define nl where "nl = len b + of_nat (length bs)"
  have len: "unat (len b) \<le> length (data b)" "length (data b) = unat (alloced b)" "0 < alloced b"
    using b by (simp_all add: simple_valid_def word_le_nat_alt)
  then have c: "length (simple_contents b) = unat (len b)" by (simp add: simple_contents_def)
  have nl: "unat nl = unat (len b) + length bs"
    using fits c unfolding nl_def by (simp add: unat_word_ariths unat_of_nat mod_less)
  show ?thesis
  proof (cases "nl > alloced b")
    case False
    then have "unat (len b) + length bs \<le> unat (alloced b)"
      using nl by (simp add: word_le_nat_alt not_less)
    with False len nl show ?thesis
      unfolding protobuf_c_buffer_simple_append_def nl_def [symmetric] Let_def
      by (simp add: memcpy_def simple_valid_def simple_contents_def word_le_nat_alt word_less_nat_alt)
  next
    case True
    have small: "unat (alloced b) < 2147483648"
      using True nl fits c by (simp add: word_less_nat_alt)
    have "0 < alloced b * 2"
      using len(3) double_u32 [OF small] by (simp add: word_less_nat_alt mult_2_right)
    moreover have "unat nl \<le> 2147483648" using nl fits c by simp
    ultimately obtain na where g: "grow (alloced b * 2) nl = Some na" "nl \<le> na"
      using grow_terminates by blast
    obtain block where a: "alloc na = Some block" "length block = unat na" using alloc by blast
    have le: "unat (len b) + length bs \<le> unat na" using g(2) nl by (simp add: word_le_nat_alt)
    have "0 < na" using True g(2) by (simp add: word_less_nat_alt word_le_nat_alt)
    with True g a le len nl show ?thesis
      unfolding protobuf_c_buffer_simple_append_def nl_def [symmetric] Let_def
      by (simp add: memcpy_def simple_valid_def simple_contents_def word_le_nat_alt)
  qed
qed

sublocale pb_allocator \<subseteq> simple: pb_buffer "protobuf_c_buffer_simple_append alloc"
  simple_contents simple_valid 2147483648
  by unfold_locales (rule simple_append_ok [OF alloc_ok])

text \<open>
  \<open>system_alloc\<close> is \<open>malloc\<close>: while memory is available it returns a block of the requested size
  whose contents, \<open>heap\<close>, are whatever was there before.
\<close>

definition system_alloc :: "mem \<Rightarrow> u32 \<Rightarrow> bytes option" where
  "system_alloc heap n = Some (read_bytes heap 0 (unat n))"

interpretation system: pb_allocator "system_alloc heap" for heap
  by unfold_locales (simp add: system_alloc_def)

lemma simple_init: "0 < length pad \<Longrightarrow> length pad < 2 ^ 32 \<Longrightarrow>
    simple_valid (PROTOBUF_C_BUFFER_SIMPLE_INIT pad) \<and> simple_contents (PROTOBUF_C_BUFFER_SIMPLE_INIT pad) = []"
  by (simp add: simple_valid_def simple_contents_def PROTOBUF_C_BUFFER_SIMPLE_INIT_def
      word_less_nat_alt unat_of_nat)

text \<open>
  C5: Packing into a simple buffer gives the same bytes and the same count as packing into memory
  sized by \<open>protobuf_c_message_get_packed_size\<close>, whatever the size of the initial pad, provided it
  is not empty, allocation succeeds and the message is at most 2 GiB; in particular no internal
  assertion fails, no scratch array overflows and the growth loop ends.
\<close>

theorem protobuf_c_message_pack_to_buffer_same:
  assumes "msg_ok msg" and "0 < length pad" and "length pad < 2 ^ 32"
    and "protobuf_c_message_get_packed_size msg \<le> 2 ^ 31"
    and "protobuf_c_message_pack msg m out = (m', n)"
  shows "\<exists>b. protobuf_c_message_pack_to_buffer (protobuf_c_buffer_simple_append (system_alloc heap)) msg
              (PROTOBUF_C_BUFFER_SIMPLE_INIT pad) = Some (b, n) \<and>
           simple_contents b = read_bytes m' out n"
proof -
  have "n = length (enc msg)" "read_bytes m' out n = enc msg"
    using assms(1,5) by (simp_all add: message_pack_enc emit_def) auto
  moreover have "streams simple_contents simple_valid 2147483648
      (protobuf_c_message_pack_to_buffer (protobuf_c_buffer_simple_append (system_alloc heap)) msg) (enc msg)"
    using assms(1) by (rule system.simple.str_pack_to_buffer)
  ultimately show ?thesis
    using simple_init [OF assms(2,3)] assms(4) by (fastforce simp: streams_def get_packed_size_enc)
qed

theorem protobuf_c_message_pack_to_buffer_same_witness:
  "\<exists>b. protobuf_c_message_pack_to_buffer (protobuf_c_buffer_simple_append (system_alloc (\<lambda>_. 7)))
         example_msg (PROTOBUF_C_BUFFER_SIMPLE_INIT [0, 0]) = Some (b, 5) \<and>
       simple_contents b = [42, 3, 1, 172, 2]"
proof -
  obtain m' n where p: "protobuf_c_message_pack example_msg (\<lambda>_. 0) 0 = (m', n)" by fastforce
  have n: "n = 5" "read_bytes m' 0 n = [42, 3, 1, 172, 2]"
    using p by (simp_all add: message_pack_enc example_msg_ok emit_def enc_example_msg) auto
  from protobuf_c_message_pack_to_buffer_same [OF example_msg_ok _ _ _ p, of "[0, 0]" "\<lambda>_. 7"] n
  show ?thesis by (simp add: get_packed_size_enc enc_example_msg)
qed

text \<open>
  C24: \<open>protobuf_c_buffer_simple_append\<close> on a buffer with capacity, below the 2 GiB limit and with
  memory available, returns, keeps the buffer well formed (no write past the allocation) and
  appends exactly the given bytes.
\<close>

theorem buffer_simple_append_correct:
  assumes "simple_valid b" and "length (simple_contents b) + length src \<le> 2 ^ 31"
  shows "\<exists>b'. protobuf_c_buffer_simple_append (system_alloc heap) b src = Some b' \<and>
           simple_valid b' \<and> simple_contents b' = simple_contents b @ src"
  using assms by (intro system.simple.append_ok) simp_all

theorem buffer_simple_append_correct_witness:
  "\<exists>b'. protobuf_c_buffer_simple_append (system_alloc (\<lambda>_. 0)) (PROTOBUF_C_BUFFER_SIMPLE_INIT [9]) [1, 2, 3] = Some b' \<and>
     simple_contents b' = [1, 2, 3]"
  using buffer_simple_append_correct [of "PROTOBUF_C_BUFFER_SIMPLE_INIT [9]" "[1, 2, 3]" "\<lambda>_. 0"]
    simple_init [of "[9]"] by auto

text \<open>
  C37: The two ways an append can go wrong.  A buffer without capacity never returns from the first
  non-empty append, because doubling zero makes no progress; and when the allocator fails the
  bytes are dropped and the buffer is left as it was, with no error reported.
\<close>

theorem buffer_simple_append_failures:
  assumes "src \<noteq> []" and "length src < 2 ^ 32"
  shows "protobuf_c_buffer_simple_append alloc (PROTOBUF_C_BUFFER_SIMPLE_INIT []) src = None \<and>
     (simple_valid b \<and> length (simple_contents b) + length src \<le> 2 ^ 31 \<and>
      unat (alloced b) < length (simple_contents b) + length src \<longrightarrow>
        protobuf_c_buffer_simple_append (\<lambda>_. None) b src = Some b)"
proof (intro conjI impI)
  have "0 < (of_nat (length src) :: u32)"
    using assms by (simp add: word_less_nat_alt unat_of_nat)
  then show "protobuf_c_buffer_simple_append alloc (PROTOBUF_C_BUFFER_SIMPLE_INIT []) src = None"
    by (simp add: protobuf_c_buffer_simple_append_def PROTOBUF_C_BUFFER_SIMPLE_INIT_def grow_from_zero)
next
  assume b: "simple_valid b \<and> length (simple_contents b) + length src \<le> 2 ^ 31 \<and>
    unat (alloced b) < length (simple_contents b) + length src"
  define nl where "nl = len b + of_nat (length src)"
  have "unat (len b) \<le> length (data b)" using b by (simp add: simple_valid_def word_le_nat_alt)
  then have c: "length (simple_contents b) = unat (len b)" by (simp add: simple_contents_def)
  have nl: "unat nl = unat (len b) + length src"
    using b c unfolding nl_def by (simp add: unat_word_ariths unat_of_nat mod_less)
  have "unat (alloced b) < 2147483648" "0 < alloced b" using b by (simp_all add: simple_valid_def)
  then have "0 < alloced b * 2"
    using double_u32 [of "alloced b"] by (simp add: word_less_nat_alt mult_2_right)
  moreover have "unat nl \<le> 2147483648" using nl b c by simp
  ultimately obtain na where "grow (alloced b * 2) nl = Some na"
    using grow_terminates by blast
  moreover have "alloced b < nl" using b nl c by (simp add: word_less_nat_alt)
  ultimately show "protobuf_c_buffer_simple_append (\<lambda>_. None) b src = Some b"
    unfolding protobuf_c_buffer_simple_append_def nl_def [symmetric] Let_def by simp
qed

theorem buffer_simple_append_failures_witness:
  "protobuf_c_buffer_simple_append (\<lambda>_. None) (PROTOBUF_C_BUFFER_SIMPLE_INIT []) [1] = None \<and>
   protobuf_c_buffer_simple_append (\<lambda>_. None) (PROTOBUF_C_BUFFER_SIMPLE_INIT [0]) [1, 2] =
     Some (PROTOBUF_C_BUFFER_SIMPLE_INIT [0])"
proof -
  have v: "simple_valid (PROTOBUF_C_BUFFER_SIMPLE_INIT [0])" "simple_contents (PROTOBUF_C_BUFFER_SIMPLE_INIT [0]) = []"
    using simple_init [of "[0]"] by simp_all
  have "alloced (PROTOBUF_C_BUFFER_SIMPLE_INIT [0]) = 1" by (simp add: PROTOBUF_C_BUFFER_SIMPLE_INIT_def)
  with v buffer_simple_append_failures [of "[1]" "\<lambda>_. None" "PROTOBUF_C_BUFFER_SIMPLE_INIT [0]"]
    buffer_simple_append_failures [of "[1, 2]" "\<lambda>_. None" "PROTOBUF_C_BUFFER_SIMPLE_INIT [0]"]
  show ?thesis by simp
qed

end
