(* ===== verification/Pb_Lookup.thy ===== *)
theory Pb_Lookup
  imports Pb_Message
begin

unbundle bit_operations_syntax

text \<open>
  Querying the descriptors of protobuf-c: \<open>int_range_lookup\<close>, which the unpacker uses to find the
  field of a tag, and the public lookups of fields, enum values and methods by number and by name.

  All are binary searches over tables the compiler for .proto files generates.  \<open>range_table\<close> and
  \<open>name_table\<close> say what it generates; under them every search is shown equal to a linear search.
  A read outside a table is \<open>None\<close>.
\<close>

section \<open>The model\<close>

definition range_at :: "int_range list \<Rightarrow> nat \<Rightarrow> int_range option" where
  "range_at ranges i = (if i < length ranges then Some (ranges ! i) else None)"

text \<open>
  The loop of \<open>int_range_lookup\<close>, then the test of the one range left.  The table holds one dummy
  range at its end, so a range of index below \<open>n_ranges\<close> has a successor.  The ends of ranges and the
  result are computed in 32 bits (\<open>s32\<close>): the end of a run up to \<open>INT_MAX\<close> wraps.
\<close>

fun int_range_loop :: "int_range list \<Rightarrow> int \<Rightarrow> nat \<Rightarrow> nat \<Rightarrow> int option" where
  "int_range_loop ranges value start n =
     (if n > 1 then
        let mid = start + n div 2 in
        case range_at ranges mid of None \<Rightarrow> None | Some r \<Rightarrow>
        if value < sint (start_value r) then int_range_loop ranges value start (mid - start)
        else (case range_at ranges (mid + 1) of None \<Rightarrow> None | Some r' \<Rightarrow>
          if value \<ge> s32 (sint (start_value r) + s32 (int (orig_index r') - int (orig_index r)))
          then let new_start = mid + 1 in
            int_range_loop ranges value new_start (start + n - new_start)
          else Some (s32 (value - sint (start_value r) + int (orig_index r))))
      else if n > 0 then
        case range_at ranges start of None \<Rightarrow> None | Some r \<Rightarrow>
        (case range_at ranges (start + 1) of None \<Rightarrow> None | Some r' \<Rightarrow>
          let range_size = int (orig_index r') - int (orig_index r) in
          if sint (start_value r) \<le> value \<and> value < s32 (sint (start_value r) + range_size)
          then Some (s32 (value - sint (start_value r) + int (orig_index r)))
          else Some (-1))
      else Some (-1))"

declare int_range_loop.simps [simp del]

definition int_range_lookup :: "nat \<Rightarrow> int_range list \<Rightarrow> int \<Rightarrow> int option" where
  "int_range_lookup n_ranges ranges value =
     (if n_ranges = 0 then Some (-1) else int_range_loop ranges value 0 n_ranges)"

definition n_ranges_of :: "int_range list \<Rightarrow> nat" where
  "n_ranges_of ranges = length ranges - 1"

text \<open>The tag of a member, an unsigned 32-bit number, is passed as a C \<open>int\<close>.\<close>

definition field_index :: "message_desc \<Rightarrow> u32 \<Rightarrow> int option" where
  "field_index desc tag = int_range_lookup (n_ranges_of (field_ranges desc)) (field_ranges desc) (sint tag)"

definition protobuf_c_message_descriptor_get_field :: "message_desc \<Rightarrow> u32 \<Rightarrow> field_desc option option" where
  "protobuf_c_message_descriptor_get_field desc value =
     map_option (\<lambda>rv. if rv < 0 then None else Some (mfields desc ! nat rv)) (field_index desc value)"

record enum_value =
  ev_name :: string
  ev_value :: u32

text \<open>\<open>values_by_name\<close> holds a name and the index of its value.\<close>

record enum_desc =
  enum_values :: "enum_value list"
  values_by_name :: "(string \<times> nat) list"
  value_ranges :: "int_range list"

record service_desc =
  methods :: "string list"
  method_indices_by_name :: "nat list"

definition protobuf_c_enum_descriptor_get_value :: "enum_desc \<Rightarrow> u32 \<Rightarrow> enum_value option option" where
  "protobuf_c_enum_descriptor_get_value desc value =
     map_option (\<lambda>rv. if rv < 0 then None else Some (enum_values desc ! nat rv))
       (int_range_lookup (n_ranges_of (value_ranges desc)) (value_ranges desc) (sint value))"

fun strcmp :: "string \<Rightarrow> string \<Rightarrow> int" where
  "strcmp [] [] = 0"
| "strcmp [] (b # bs) = -1"
| "strcmp (a # as) [] = 1"
| "strcmp (a # as) (b # bs) = (if a = b then strcmp as bs else of_char a - of_char b)"

text \<open>
  The loop the three lookups by name share; \<open>name_at i\<close> is the name of the \<open>i\<close>-th entry of the
  sorted table, \<open>None\<close> outside it.  The result is the position of the entry, if there is one.
\<close>

fun name_loop :: "(nat \<Rightarrow> string option) \<Rightarrow> string \<Rightarrow> nat \<Rightarrow> nat \<Rightarrow> nat option option" where
  "name_loop name_at key start count =
     (if count > 1 then
        let mid = start + count div 2 in
        case name_at mid of None \<Rightarrow> None | Some mid_name \<Rightarrow>
        let rv = strcmp mid_name key in
        if rv = 0 then Some (Some mid)
        else if rv < 0 then name_loop name_at key (mid + 1) (start + count - (mid + 1))
        else name_loop name_at key start (mid - start)
      else if count = 0 then Some None
      else case name_at start of None \<Rightarrow> None | Some start_name \<Rightarrow>
        if strcmp start_name key = 0 then Some (Some start) else Some None)"

declare name_loop.simps [simp del]

definition field_name_at :: "message_desc \<Rightarrow> nat \<Rightarrow> string option" where
  "field_name_at desc i =
     (if i < length (fields_sorted_by_name desc) \<and> fields_sorted_by_name desc ! i < length (mfields desc)
      then Some (name (mfields desc ! (fields_sorted_by_name desc ! i))) else None)"

definition protobuf_c_message_descriptor_get_field_by_name ::
  "message_desc \<Rightarrow> string \<Rightarrow> field_desc option option" where
  "protobuf_c_message_descriptor_get_field_by_name desc key =
     map_option (map_option (\<lambda>i. mfields desc ! (fields_sorted_by_name desc ! i)))
       (name_loop (field_name_at desc) key 0 (length (mfields desc)))"

definition value_name_at :: "enum_desc \<Rightarrow> nat \<Rightarrow> string option" where
  "value_name_at desc i =
     (if i < length (values_by_name desc) then Some (fst (values_by_name desc ! i)) else None)"

definition protobuf_c_enum_descriptor_get_value_by_name ::
  "enum_desc \<Rightarrow> string \<Rightarrow> enum_value option option" where
  "protobuf_c_enum_descriptor_get_value_by_name desc key =
     map_option (map_option (\<lambda>i. enum_values desc ! snd (values_by_name desc ! i)))
       (name_loop (value_name_at desc) key 0 (length (values_by_name desc)))"

definition method_name_at :: "service_desc \<Rightarrow> nat \<Rightarrow> string option" where
  "method_name_at desc i =
     (if i < length (method_indices_by_name desc) \<and> method_indices_by_name desc ! i < length (methods desc)
      then Some (methods desc ! (method_indices_by_name desc ! i)) else None)"

text \<open>The method found, by its index.\<close>

definition protobuf_c_service_descriptor_get_method_by_name ::
  "service_desc \<Rightarrow> string \<Rightarrow> nat option option" where
  "protobuf_c_service_descriptor_get_method_by_name desc key =
     map_option (map_option (\<lambda>i. method_indices_by_name desc ! i))
       (name_loop (method_name_at desc) key 0 (length (methods desc)))"

section \<open>Lookup by number\<close>

text \<open>
  What the compiler generates for the numbers \<open>ids\<close>: consecutive runs, in increasing order, that
  tile the indices.  A table without a run is empty or holds the dummy only.  The numbers stay
  below \<open>INT_MAX\<close> (field numbers are below \<open>2 ^ 29\<close>), as does their count.
\<close>

definition run_ok :: "int list \<Rightarrow> int_range \<Rightarrow> int_range \<Rightarrow> bool" where
  "run_ok ids r r' \<longleftrightarrow> orig_index r < orig_index r' \<and> orig_index r' \<le> length ids \<and>
     (\<forall>k \<in> {orig_index r ..< orig_index r'}. ids ! k = sint (start_value r) + int (k - orig_index r))"

definition range_end :: "int_range \<Rightarrow> int_range \<Rightarrow> int" where
  "range_end r r' = sint (start_value r) + (int (orig_index r') - int (orig_index r))"

definition range_table :: "int list \<Rightarrow> int_range list \<Rightarrow> bool" where
  "range_table ids ranges \<longleftrightarrow>
     length ids < 2 ^ 31 \<and> (\<forall>v \<in> set ids. v < 2 ^ 31 - 1) \<and>
     (if ids = [] then length ranges \<le> 1
      else length ranges > 1 \<and> orig_index (ranges ! 0) = 0 \<and> orig_index (last ranges) = length ids \<and>
        (\<forall>i < length ranges - 1. run_ok ids (ranges ! i) (ranges ! (i + 1))) \<and>
        (\<forall>i < length ranges - 2.
           range_end (ranges ! i) (ranges ! (i + 1)) \<le> sint (start_value (ranges ! (i + 1)))))"

text \<open>The specification: the first index of the number, -1 when it does not occur.\<close>

fun linear_search :: "int list \<Rightarrow> int \<Rightarrow> int" where
  "linear_search [] v = -1"
| "linear_search (x # xs) v =
     (if x = v then 0 else let r = linear_search xs v in if r < 0 then -1 else r + 1)"


lemma linear_search_absent: "v \<notin> set ids \<Longrightarrow> linear_search ids v = -1"
  by (induction ids) auto

lemma linear_search_unique:
  assumes "k < length ids" and "ids ! k = v" and "\<And>j. j < k \<Longrightarrow> ids ! j \<noteq> v"
  shows "linear_search ids v = int k"
  using assms
proof (induction ids arbitrary: k)
  case (Cons x ids)
  show ?case
  proof (cases k)
    case 0
    with Cons.prems show ?thesis by simp
  next
    case (Suc j)
    have "x \<noteq> v" using Cons.prems(3) [of 0] Suc by simp
    moreover have "linear_search ids v = int j"
      using Cons.prems Suc by (intro Cons.IH) force+
    ultimately show ?thesis by (simp add: Suc)
  qed
qed simp

text \<open>The run \<open>i\<close> of a table covers the number \<open>v\<close>.\<close>

definition covers :: "int_range list \<Rightarrow> int \<Rightarrow> nat \<Rightarrow> bool" where
  "covers ranges v i \<longleftrightarrow>
     sint (start_value (ranges ! i)) \<le> v \<and> v < range_end (ranges ! i) (ranges ! (i + 1))"

lemma range_runs:
  assumes "range_table ids ranges" and "ids \<noteq> []" and "i < length ranges - 1"
  shows "run_ok ids (ranges ! i) (ranges ! (i + 1))"
    and "sint (start_value (ranges ! i)) < range_end (ranges ! i) (ranges ! (i + 1))"
  using assms unfolding range_table_def range_end_def by (auto simp: run_ok_def)

lemma ranges_ordered:
  assumes t: "range_table ids ranges" and ne: "ids \<noteq> []" and "i < j" and "j < length ranges - 1"
  shows "range_end (ranges ! i) (ranges ! (i + 1)) \<le> sint (start_value (ranges ! j))"
  using assms(3,4)
proof (induction j)
  case (Suc j)
  have step: "range_end (ranges ! j) (ranges ! (j + 1)) \<le> sint (start_value (ranges ! (j + 1)))"
    using t ne Suc.prems unfolding range_table_def by auto
  show ?case
  proof (cases "i = j")
    case False
    with Suc have "range_end (ranges ! i) (ranges ! (i + 1)) \<le> sint (start_value (ranges ! j))" by simp
    with step range_runs(2) [OF t ne, of j] Suc.prems show ?thesis by simp
  qed (use step in simp)
qed simp

lemma covers_ordered:
  assumes t: "range_table ids ranges" and ne: "ids \<noteq> []"
    and "i < length ranges - 1" and "j < length ranges - 1"
    and "covers ranges v i"
  shows "v < sint (start_value (ranges ! j)) \<Longrightarrow> i < j"
    and "range_end (ranges ! j) (ranges ! (j + 1)) \<le> v \<Longrightarrow> j < i"
proof -
  note o = ranges_ordered [OF t ne] and r = range_runs(2) [OF t ne]
  { assume "v < sint (start_value (ranges ! j))"
    then show "i < j"
      using o [of j i] r [of j] assms by (cases i j rule: linorder_cases) (auto simp: covers_def) }
  { assume "range_end (ranges ! j) (ranges ! (j + 1)) \<le> v"
    then show "j < i"
      using o [of i j] r [of j] assms by (cases i j rule: linorder_cases) (auto simp: covers_def) }
qed

text \<open>Below \<open>INT_MAX\<close> the 32-bit arithmetic of the search is exact.\<close>

lemma run_arith:
  assumes t: "range_table ids ranges" and ne: "ids \<noteq> []" and i: "i < length ranges - 1"
  shows "s32 (sint (start_value (ranges ! i)) +
      s32 (int (orig_index (ranges ! Suc i)) - int (orig_index (ranges ! i)))) = range_end (ranges ! i) (ranges ! Suc i)"
    and "s32 (sint (start_value (ranges ! i)) +
      (int (orig_index (ranges ! Suc i)) - int (orig_index (ranges ! i)))) = range_end (ranges ! i) (ranges ! Suc i)"
    and "covers ranges v i \<Longrightarrow> s32 (v - sint (start_value (ranges ! i)) + int (orig_index (ranges ! i))) =
      v - sint (start_value (ranges ! i)) + int (orig_index (ranges ! i))"
proof -
  let ?r = "ranges ! i" and ?r' = "ranges ! Suc i"
  have run: "run_ok ids ?r ?r'"
    using range_runs(1) [OF t ne i] by simp
  have len: "length ids < 2 ^ 31" and below: "\<And>v. v \<in> set ids \<Longrightarrow> v < 2 ^ 31 - 1"
    using t by (simp_all add: range_table_def)
  have o: "orig_index ?r < orig_index ?r'" "orig_index ?r' \<le> length ids"
    using run by (simp_all add: run_ok_def)
  then have o': "int (orig_index ?r') < 2 ^ 31"
    using len by (simp add: zless_nat_eq_int_zless [symmetric])
  have "ids ! (orig_index ?r' - 1) = range_end ?r ?r' - 1"
    using run o by (auto simp: run_ok_def range_end_def)
  moreover have "ids ! (orig_index ?r' - 1) \<in> set ids"
    using o by (intro nth_mem) simp
  ultimately have e: "range_end ?r ?r' < 2 ^ 31"
    using below by force
  have s: "- (2 ^ 31) \<le> sint (start_value ?r)"
    using sint_greater_eq [of "start_value ?r"] by simp
  have d: "s32 (int (orig_index ?r') - int (orig_index ?r)) = int (orig_index ?r') - int (orig_index ?r)"
    using o o' by (intro s32_id_nonneg) simp_all
  show sum: "s32 (sint (start_value ?r) + (int (orig_index ?r') - int (orig_index ?r))) = range_end ?r ?r'"
    using e s o unfolding range_end_def by (intro s32_id) simp_all
  then show "s32 (sint (start_value ?r) + s32 (int (orig_index ?r') - int (orig_index ?r))) = range_end ?r ?r'"
    by (simp only: d)
  show "s32 (v - sint (start_value ?r) + int (orig_index ?r)) = v - sint (start_value ?r) + int (orig_index ?r)"
    if "covers ranges v i"
    using that o' by (intro s32_id_nonneg) (auto simp: covers_def range_end_def)
qed

lemma range_at_in: "i < length ranges \<Longrightarrow> range_at ranges i = Some (ranges ! i)"
  by (simp add: range_at_def)

lemma int_range_loop_finds:
  assumes t: "range_table ids ranges" and ne: "ids \<noteq> []"
    and "start + n \<le> length ranges - 1"
    and "\<And>i. i < length ranges - 1 \<Longrightarrow> covers ranges v i \<Longrightarrow> start \<le> i \<and> i < start + n"
  shows "\<exists>r. int_range_loop ranges v start n = Some r \<and>
     ((\<exists>i < length ranges - 1. covers ranges v i \<and>
         r = v - sint (start_value (ranges ! i)) + int (orig_index (ranges ! i))) \<or>
      r = -1 \<and> (\<forall>i < length ranges - 1. \<not> covers ranges v i))"
  using assms(3-)
proof (induction n arbitrary: start rule: less_induct)
  case (less n)
  note co = covers_ordered [OF t ne]
  consider (many) "1 < n" | (one) "n = 1" | (none) "n = 0" by linarith
  then show ?case
  proof cases
    case many
    define mid where "mid = start + n div 2"
    have mid: "mid < length ranges - 1" "start \<le> mid" "mid < start + n" "mid - start < n"
      "start + n - (mid + 1) < n" "mid + 1 + (start + n - (mid + 1)) = start + n"
      using many less.prems(1) by (auto simp: mid_def)
    have at: "range_at ranges mid = Some (ranges ! mid)" "range_at ranges (Suc mid) = Some (ranges ! Suc mid)"
      using mid by (simp_all add: range_at_in)
    show ?thesis
    proof (cases "v < sint (start_value (ranges ! mid))")
      case True
      have "start \<le> i \<and> i < start + (mid - start)" if "i < length ranges - 1" "covers ranges v i" for i
        using co(1) [OF that(1) mid(1) that(2) True] less.prems(2) [OF that] mid by simp
      with less.IH [OF mid(4), of start] less.prems(1) mid True many show ?thesis
        by (subst int_range_loop.simps) (simp add: at Let_def flip: mid_def)
    next
      case ge: False
      show ?thesis
      proof (cases "range_end (ranges ! mid) (ranges ! (mid + 1)) \<le> v")
        case True
        have "mid + 1 \<le> i \<and> i < mid + 1 + (start + n - (mid + 1))"
          if "i < length ranges - 1" "covers ranges v i" for i
          using co(2) [OF that(1) mid(1) that(2) True] less.prems(2) [OF that] mid by simp
        with less.IH [OF mid(5), of "mid + 1"] less.prems(1) mid True ge many show ?thesis
          by (subst int_range_loop.simps)
             (simp add: at Let_def run_arith [OF t ne mid(1)] flip: mid_def)
      next
        case False
        then have "covers ranges v mid" using ge by (simp add: covers_def)
        with False ge many mid(1) show ?thesis
          by (subst int_range_loop.simps)
             (auto simp: at Let_def run_arith [OF t ne mid(1)] simp flip: mid_def)
      qed
    qed
  next
    case one
    have at: "range_at ranges start = Some (ranges ! start)"
      "range_at ranges (Suc start) = Some (ranges ! Suc start)" and lt: "start < length ranges - 1"
      using less.prems(1) one by (simp_all add: range_at_in)
    show ?thesis
    proof (cases "covers ranges v start")
      case True
      with one lt at show ?thesis
        by (subst int_range_loop.simps) (auto simp: Let_def run_arith [OF t ne lt] covers_def)
    next
      case False
      have "\<not> covers ranges v i" if "i < length ranges - 1" for i
        using less.prems(2) [OF that] one False by (cases "i = start") auto
      with False one at lt show ?thesis
        by (subst int_range_loop.simps) (auto simp: Let_def run_arith [OF t ne lt] covers_def)
    qed
  next
    case none
    with less.prems(2) show ?thesis by (subst int_range_loop.simps) fastforce
  qed
qed

lemma index_in_run:
  assumes t: "range_table ids ranges" and "k < length ids"
  obtains i where "i < length ranges - 1" "orig_index (ranges ! i) \<le> k" "k < orig_index (ranges ! (i + 1))"
proof -
  have ne: "ids \<noteq> []" using assms(2) by auto
  have "\<exists>i < length ranges - 1. orig_index (ranges ! i) \<le> k \<and> k < orig_index (ranges ! (i + 1))"
    if "j < length ranges" "k < orig_index (ranges ! j)" for j
    using that
  proof (induction j)
    case 0
    with t ne show ?case by (simp add: range_table_def)
  next
    case (Suc j)
    then show ?case
      by (cases "k < orig_index (ranges ! j)") (auto simp: not_less intro!: exI [of _ j])
  qed
  moreover have "length ranges - 1 < length ranges" "k < orig_index (ranges ! (length ranges - 1))"
    using t ne assms(2) last_conv_nth [of ranges] by (force simp: range_table_def)+
  ultimately show thesis using that by blast
qed

lemma run_covers:
  assumes t: "range_table ids ranges" and "i < length ranges - 1"
    and "orig_index (ranges ! i) \<le> k" and "k < orig_index (ranges ! (i + 1))" and ne: "ids \<noteq> []"
  shows "covers ranges (ids ! k) i"
    and "ids ! k = sint (start_value (ranges ! i)) + int (k - orig_index (ranges ! i))"
  using range_runs(1) [OF t ne assms(2)] assms(3,4)
  by (auto simp: run_ok_def covers_def range_end_def)

lemma covers_unique:
  assumes "range_table ids ranges" "ids \<noteq> []"
    and "i < length ranges - 1" "j < length ranges - 1" "covers ranges v i" "covers ranges v j"
  shows "i = j"
  using ranges_ordered [OF assms(1,2), of i j] ranges_ordered [OF assms(1,2), of j i] assms(3-)
  by (cases i j rule: linorder_cases) (auto simp: covers_def)

lemma ids_distinct:
  assumes t: "range_table ids ranges" and "j < length ids" and "k < length ids" and "ids ! j = ids ! k"
  shows "j = k"
proof -
  have ne: "ids \<noteq> []" using assms(2) by auto
  obtain i i' where i: "i < length ranges - 1" "orig_index (ranges ! i) \<le> j" "j < orig_index (ranges ! (i + 1))"
    and i': "i' < length ranges - 1" "orig_index (ranges ! i') \<le> k" "k < orig_index (ranges ! (i' + 1))"
    using index_in_run [OF t assms(2)] index_in_run [OF t assms(3)] by metis
  note c = run_covers [OF t i ne] and c' = run_covers [OF t i' ne]
  have "i = i'" using covers_unique [OF t ne i(1) i'(1), of "ids ! j"] c(1) c'(1) assms(4) by simp
  with c(2) c'(2) assms(4) i i' show ?thesis by simp
qed

theorem int_range_lookup_linear:
  assumes t: "range_table ids ranges"
  shows "int_range_lookup (n_ranges_of ranges) ranges v = Some (linear_search ids v)"
proof (cases "ids = []")
  case True
  with t show ?thesis by (auto simp: int_range_lookup_def n_ranges_of_def range_table_def)
next
  case ne: False
  then have "0 < length ranges - 1" using t by (simp add: range_table_def)
  then have "int_range_lookup (n_ranges_of ranges) ranges v = int_range_loop ranges v 0 (length ranges - 1)"
    by (simp add: int_range_lookup_def n_ranges_of_def)
  moreover obtain r where r: "int_range_loop ranges v 0 (length ranges - 1) = Some r"
    "(\<exists>i < length ranges - 1. covers ranges v i \<and>
        r = v - sint (start_value (ranges ! i)) + int (orig_index (ranges ! i))) \<or>
     r = -1 \<and> (\<forall>i < length ranges - 1. \<not> covers ranges v i)"
    using int_range_loop_finds [OF t ne, of 0 "length ranges - 1" v] by auto
  moreover have "r = linear_search ids v"
    using r(2)
  proof (elim disjE exE conjE)
    fix i assume i: "i < length ranges - 1" "covers ranges v i"
      and r: "r = v - sint (start_value (ranges ! i)) + int (orig_index (ranges ! i))"
    define k where "k = nat r"
    note run = range_runs(1) [OF t ne i(1)]
    have "sint (start_value (ranges ! i)) \<le> v" using i(2) by (simp add: covers_def)
    then have k: "int k = r" using r by (simp add: k_def)
    have "orig_index (ranges ! i) \<le> k" "k < orig_index (ranges ! (i + 1))"
      using i(2) r k run by (auto simp: covers_def range_end_def)
    then have "k < length ids" "ids ! k = v"
      using run k r by (auto simp: run_ok_def)
    moreover from this have "ids ! j \<noteq> v" if "j < k" for j
      using ids_distinct [OF t, of j k] that by auto
    ultimately show ?thesis using linear_search_unique [of k ids v] k by simp
  next
    assume no: "\<forall>i < length ranges - 1. \<not> covers ranges v i" and r: "r = -1"
    have "v \<notin> set ids"
    proof
      assume "v \<in> set ids"
      then obtain k where k: "k < length ids" "ids ! k = v" by (auto simp: in_set_conv_nth)
      from index_in_run [OF t k(1)] obtain i where i: "i < length ranges - 1"
        "orig_index (ranges ! i) \<le> k" "k < orig_index (ranges ! (i + 1))" .
      from run_covers(1) [OF t i ne] no i(1) k(2) show False by simp
    qed
    then show ?thesis by (simp add: r linear_search_absent)
  qed
  ultimately show ?thesis by simp
qed


section \<open>Lookup by name\<close>

lemma of_char_eq: "(of_char a :: int) = of_char b \<longleftrightarrow> a = b"
  by simp

lemma strcmp_eq: "strcmp xs ys = 0 \<longleftrightarrow> xs = ys"
  by (induction xs ys rule: strcmp.induct) auto

lemma strcmp_refl [simp]: "strcmp xs xs = 0"
  by (simp add: strcmp_eq)

lemma strcmp_neg_commute: "strcmp ys xs < 0 \<longleftrightarrow> 0 < strcmp xs ys"
  by (induction xs ys rule: strcmp.induct) auto

lemma strcmp_less_trans: "strcmp xs ys < 0 \<Longrightarrow> strcmp ys zs < 0 \<Longrightarrow> strcmp xs zs < 0"
proof (induction xs ys arbitrary: zs rule: strcmp.induct)
  case (2 b bs)
  then show ?case by (cases zs) auto
next
  case (4 a as b bs)
  then show ?case by (cases zs) (auto split: if_splits)
qed simp_all

text \<open>The names, in the order of the sorted table.\<close>

definition name_table :: "(nat \<Rightarrow> string option) \<Rightarrow> string list \<Rightarrow> bool" where
  "name_table name_at names \<longleftrightarrow>
     (\<forall>i < length names. name_at i = Some (names ! i)) \<and>
     sorted_wrt (\<lambda>a b. strcmp a b < 0) names"

lemma name_order:
  assumes "name_table name_at names" and "i < length names" and "j < length names"
  shows "strcmp (names ! i) (names ! j) < 0 \<longleftrightarrow> i < j"
proof (cases i j rule: linorder_cases)
  case less
  with assms show ?thesis by (auto simp: name_table_def sorted_wrt_iff_nth_less)
next
  case greater
  with assms have "strcmp (names ! j) (names ! i) < 0" by (auto simp: name_table_def sorted_wrt_iff_nth_less)
  with greater show ?thesis using strcmp_neg_commute [of "names ! j" "names ! i"] by simp
qed simp

lemma name_loop_finds:
  assumes t: "name_table name_at names" and "start + n \<le> length names"
    and "\<And>i. i < length names \<Longrightarrow> names ! i = key \<Longrightarrow> start \<le> i \<and> i < start + n"
  shows "(\<exists>i < length names. names ! i = key \<and> name_loop name_at key start n = Some (Some i)) \<or>
     key \<notin> set names \<and> name_loop name_at key start n = Some None"
  using assms(2-)
proof (induction n arbitrary: start rule: less_induct)
  case (less n)
  have at: "name_at i = Some (names ! i)" if "i < length names" for i
    using t that by (simp add: name_table_def)
  consider (many) "1 < n" | (one) "n = 1" | (none) "n = 0" by linarith
  then show ?case
  proof cases
    case many
    define mid where "mid = start + n div 2"
    have mid: "mid < length names" "start \<le> mid" "mid < start + n" "mid - start < n"
      "start + n - (mid + 1) < n" "mid + 1 + (start + n - (mid + 1)) = start + n"
      using many less.prems(1) by (auto simp: mid_def)
    show ?thesis
    proof (cases "strcmp (names ! mid) key" "0 :: int" rule: linorder_cases)
      case equal
      with many mid(1) show ?thesis
        by (subst (1 2) name_loop.simps) (auto simp: at Let_def strcmp_eq simp flip: mid_def)
    next
      case lt: less
      have "mid + 1 \<le> i \<and> i < mid + 1 + (start + n - (mid + 1))"
        if "i < length names" "names ! i = key" for i
        using name_order [OF t mid(1) that(1)] that(2) lt less.prems(2) [OF that] mid by simp
      with less.IH [OF mid(5), of "mid + 1"] less.prems(1) mid lt many show ?thesis
        by (subst (1 2) name_loop.simps) (simp add: at Let_def flip: mid_def)
    next
      case gt: greater
      have "start \<le> i \<and> i < start + (mid - start)" if "i < length names" "names ! i = key" for i
        using name_order [OF t that(1) mid(1)] that(2) gt less.prems(2) [OF that] mid
          strcmp_neg_commute [of key "names ! mid"] by simp
      with less.IH [OF mid(4), of start] less.prems(1) mid gt many show ?thesis
        by (subst (1 2) name_loop.simps) (simp add: at Let_def flip: mid_def)
    qed
  next
    case one
    have start: "start < length names" using less.prems(1) one by simp
    show ?thesis
    proof (cases "names ! start = key")
      case True
      with one start show ?thesis
        by (subst (1 2) name_loop.simps) (auto simp: at)
    next
      case False
      have "key \<notin> set names"
      proof
        assume "key \<in> set names"
        then obtain i where i: "i < length names" "names ! i = key" by (auto simp: in_set_conv_nth)
        from less.prems(2) [OF i] one False i show False by (cases "i = start") auto
      qed
      with False one start show ?thesis
        by (subst (1 2) name_loop.simps) (simp add: at strcmp_eq)
    qed
  next
    case none
    have "key \<notin> set names"
    proof
      assume "key \<in> set names"
      then obtain i where i: "i < length names" "names ! i = key" by (auto simp: in_set_conv_nth)
      from less.prems(2) [OF i] none show False by auto
    qed
    with none show ?thesis by (subst (1 2) name_loop.simps) simp
  qed
qed


section \<open>The lookups find what a scan of the table would\<close>



lemma linear_search_find:
  "(if linear_search (map f xs) v < 0 then None else Some (xs ! nat (linear_search (map f xs) v))) =
   find (\<lambda>x. f x = v) xs"
proof (induction xs)
  case (Cons x xs)
  show ?case
  proof (cases "f x = v \<or> linear_search (map f xs) v < 0")
    case False
    then have "nat (linear_search (map f xs) v + 1) = Suc (nat (linear_search (map f xs) v))"
      by (simp only: de_Morgan_disj not_less) arith
    with False Cons show ?thesis by (simp add: Let_def)
  qed (use Cons in \<open>auto simp: Let_def\<close>)
qed simp

lemma find_unique:
  assumes "x \<in> set xs" and "P x" and "\<And>y. y \<in> set xs \<Longrightarrow> P y \<Longrightarrow> y = x"
  shows "find P xs = Some x"
  using assms
proof (induction xs)
  case (Cons a xs)
  show ?case
  proof (cases "P a")
    case True
    with Cons.prems(3) [of a] show ?thesis by simp
  next
    case False
    with Cons.prems(1,2) have "x \<in> set xs" by auto
    then have "find P xs = Some x" using Cons.prems by (intro Cons.IH) simp_all
    with False show ?thesis by simp
  qed
qed simp

lemma sint_eq_iff: "sint (v :: 'a::len word) = sint w \<longleftrightarrow> v = w"
  by (rule word_eq_iff_signed [symmetric])

definition field_table :: "message_desc \<Rightarrow> bool" where
  "field_table desc \<longleftrightarrow>
     range_table (map (\<lambda>f. sint (tid f)) (mfields desc)) (field_ranges desc)"

text \<open>\<open>fields_sorted_by_name\<close> lists every field once, by increasing name.\<close>

definition field_names_table :: "message_desc \<Rightarrow> bool" where
  "field_names_table desc \<longleftrightarrow>
     length (fields_sorted_by_name desc) = length (mfields desc) \<and>
     set (fields_sorted_by_name desc) = {..<length (mfields desc)} \<and>
     sorted_wrt (\<lambda>i j. strcmp (name (mfields desc ! i)) (name (mfields desc ! j)) < 0)
       (fields_sorted_by_name desc)"

lemma field_index_linear:
  "field_table desc \<Longrightarrow>
     field_index desc tag = Some (linear_search (map (\<lambda>f. sint (tid f)) (mfields desc)) (sint tag))"
  by (simp add: field_index_def field_table_def int_range_lookup_linear)

lemma field_name_at_table:
  assumes "field_names_table desc"
  shows "name_table (field_name_at desc)
           (map (\<lambda>i. name (mfields desc ! i)) (fields_sorted_by_name desc))"
proof -
  have "fields_sorted_by_name desc ! i < length (mfields desc)"
    if "i < length (fields_sorted_by_name desc)" for i
    using assms nth_mem [OF that] by (auto simp: field_names_table_def)
  then show ?thesis
    using assms by (simp add: field_names_table_def name_table_def field_name_at_def sorted_wrt_map)
qed

lemma get_field_by_name_finds:
  assumes t: "field_names_table desc"
  shows "protobuf_c_message_descriptor_get_field_by_name desc key =
     Some (find (\<lambda>f. name f = key) (mfields desc))"
proof -
  let ?ix = "fields_sorted_by_name desc"
  let ?names = "map (\<lambda>i. name (mfields desc ! i)) ?ix"
  have len: "length ?ix = length (mfields desc)" and set: "set ?ix = {..<length (mfields desc)}"
    using t by (simp_all add: field_names_table_def)
  note nt = field_name_at_table [OF t]
  have uniq: "i = j" if "i < length ?ix" "j < length ?ix" "?names ! i = ?names ! j" for i j
    using name_order [OF nt, of i j] name_order [OF nt, of j i] that
    by (cases i j rule: linorder_cases) auto
  have "(\<exists>i < length ?names. ?names ! i = key \<and>
      name_loop (field_name_at desc) key 0 (length ?names) = Some (Some i)) \<or>
     key \<notin> set ?names \<and> name_loop (field_name_at desc) key 0 (length ?names) = Some None"
    by (rule name_loop_finds [OF nt]) simp_all
  then show ?thesis
  proof (elim disjE exE conjE)
    fix i assume i: "i < length ?names" "?names ! i = key"
      and r: "name_loop (field_name_at desc) key 0 (length ?names) = Some (Some i)"
    have "find (\<lambda>f. name f = key) (mfields desc) = Some (mfields desc ! (?ix ! i))"
    proof (rule find_unique)
      show "mfields desc ! (?ix ! i) \<in> set (mfields desc)"
        using i set nth_mem [of i ?ix] by auto
      show "name (mfields desc ! (?ix ! i)) = key" using i by simp
      fix f assume "f \<in> set (mfields desc)" "name f = key"
      then obtain k where k: "k < length (mfields desc)" "f = mfields desc ! k" by (auto simp: in_set_conv_nth)
      then have "k \<in> set ?ix" using set by simp
      then obtain j where j: "j < length ?ix" "k = ?ix ! j" by (auto simp: in_set_conv_nth)
      then have "j = i" using i k \<open>name f = key\<close> by (intro uniq) auto
      with j k show "f = mfields desc ! (?ix ! i)" by simp
    qed
    with r len show ?thesis by (simp add: protobuf_c_message_descriptor_get_field_by_name_def)
  next
    assume no: "key \<notin> set ?names" and r: "name_loop (field_name_at desc) key 0 (length ?names) = Some None"
    have "name f \<noteq> key" if "f \<in> set (mfields desc)" for f
      using that no set by (force simp: in_set_conv_nth)
    then have "find (\<lambda>f. name f = key) (mfields desc) = None" by (simp add: find_None_iff)
    with r len show ?thesis by (simp add: protobuf_c_message_descriptor_get_field_by_name_def)
  qed
qed

text \<open>
  C29: The lookups in a descriptor never read outside its tables, and the binary searches over the
  generated tables (\<open>int_range_lookup\<close>, in 32-bit arithmetic, over the runs of field numbers, \<open>strcmp\<close> over the name
  index) find exactly what a scan of the field list would: the field with that number or name, or
  none.
\<close>

theorem descriptor_lookups_find_fields:
  assumes "field_table desc" and "field_names_table desc"
  shows "protobuf_c_message_descriptor_get_field desc tag = Some (find (\<lambda>f. tid f = tag) (mfields desc)) \<and>
     protobuf_c_message_descriptor_get_field_by_name desc key = Some (find (\<lambda>f. name f = key) (mfields desc))"
proof -
  show ?thesis
    using linear_search_find [of "\<lambda>f. sint (tid f)" "mfields desc" "sint tag"]
    by (simp add: sint_eq_iff protobuf_c_message_descriptor_get_field_def field_index_linear assms
        get_field_by_name_finds)
qed


text \<open>
  The bound on the numbers is needed: an enum value of \<open>INT_MAX\<close>, which the language allows, is not
  found, because the end of its run is computed as \<open>INT_MIN\<close>.
\<close>

definition int_max_enum :: enum_desc where
  "int_max_enum = \<lparr> enum_values = [\<lparr> ev_name = ''MAX'', ev_value = 0x7FFFFFFF \<rparr>],
     values_by_name = [(''MAX'', 0)],
     value_ranges = [\<lparr> start_value = 0x7FFFFFFF, orig_index = 0 \<rparr>, \<lparr> start_value = 0, orig_index = 1 \<rparr>] \<rparr>"

lemma enum_value_INT_MAX_not_found:
  "protobuf_c_enum_descriptor_get_value int_max_enum 0x7FFFFFFF = Some None \<and>
   map_option (map_option ev_value) (protobuf_c_enum_descriptor_get_value_by_name int_max_enum ''MAX'') =
     Some (Some 0x7FFFFFFF)"
  by code_simp

definition plain_field :: "string \<Rightarrow> u32 \<Rightarrow> field_desc" where
  "plain_field s t = \<lparr> name = s, tid = t, label = NONE, ftype = T_UINT32, quantifier_offset = 0,
     offset = 0, descriptor = 0, default_value = No_Default, flags = 0 \<rparr>"

definition lookup_desc :: message_desc where
  "lookup_desc = \<lparr> short_name = ''Lookup'', sizeof_message = 28,
     mfields = [plain_field ''ssid'' 1, plain_field ''bssid'' 2, plain_field ''channel'' 5],
     fields_sorted_by_name = [1, 2, 0],
     field_ranges = [\<lparr> start_value = 1, orig_index = 0 \<rparr>, \<lparr> start_value = 5, orig_index = 2 \<rparr>,
       \<lparr> start_value = 0, orig_index = 3 \<rparr>],
     n_quantifiers = 1, n_cells = 1 \<rparr>"

theorem descriptor_lookups_find_fields_witness:
  "map_option (map_option name) (protobuf_c_message_descriptor_get_field lookup_desc 5) = Some (Some ''channel'') \<and>
   map_option (map_option tid) (protobuf_c_message_descriptor_get_field_by_name lookup_desc ''ssid'') = Some (Some 1)"
proof -
  have "field_table lookup_desc"
    by (simp add: field_table_def range_table_def lookup_desc_def plain_field_def run_ok_def
        range_end_def) (auto simp: less_Suc_eq numeral_2_eq_2 numeral_3_eq_3)
  moreover have "field_names_table lookup_desc"
    by (auto simp: field_names_table_def lookup_desc_def plain_field_def of_char_def)
  ultimately show ?thesis
    using descriptor_lookups_find_fields [of lookup_desc 5 "''ssid''"]
    by (simp add: lookup_desc_def plain_field_def)
qed

end
