(* ===== verification/Pb_Scan.thy ===== *)
theory Pb_Scan
  imports Pb_Pack Pb_Lookup
begin

unbundle bit_operations_syntax

text \<open>
  The first pass of \<open>protobuf_c_message_unpack\<close>: cutting the received bytes into members.

  The pass keeps the last field found, the bitmap of required fields seen, the number of unknown
  members, how many elements every repeated field will have, and the members themselves in slabs
  that double in size.  A \<open>result\<close> is \<open>Fault\<close> when the code would read or write outside an object
  (or index a table outside its bounds), \<open>Fail\<close> when it reports an error, \<open>Ok\<close> otherwise.

  \<open>alloc\<close> is what the allocator answers.  It is asked with a place, which identifies one request
  of the call tree, and a size in bytes; so it stands for any sequence of answers.
\<close>

section \<open>Results\<close>

datatype 'a pb_result = Fault | Fail | Ok 'a

fun on_ok :: "'a pb_result \<Rightarrow> ('a \<Rightarrow> 'b pb_result) \<Rightarrow> 'b pb_result" where
  "on_ok Fault f = Fault"
| "on_ok Fail f = Fail"
| "on_ok (Ok a) f = f a"

fun checked :: "'a option \<Rightarrow> 'a pb_result" where
  "checked None = Fault"
| "checked (Some a) = Ok a"

lemma on_ok_cong [fundef_cong]:
  "r = r' \<Longrightarrow> (\<And>a. r' = Ok a \<Longrightarrow> f a = g a) \<Longrightarrow> on_ok r f = on_ok r' g"
  by (cases r') auto

lemma on_ok_eq_Ok: "on_ok r f = Ok b \<longleftrightarrow> (\<exists>a. r = Ok a \<and> f a = Ok b)"
  by (cases r) auto

lemma on_ok_eq_Fault: "on_ok r f = Fault \<longleftrightarrow> r = Fault \<or> (\<exists>a. r = Ok a \<and> f a = Fault)"
  by (cases r) auto

lemma checked_eq [simp]: "checked r = Ok a \<longleftrightarrow> r = Some a" "checked r = Fault \<longleftrightarrow> r = None" "checked r \<noteq> Fail"
  by (cases r; simp)+

type_synonym allocator = "nat list \<Rightarrow> nat \<Rightarrow> bool"

section \<open>Members and slabs\<close>

text \<open>
  A scanned member: \<open>data\<close> is the received buffer from the member's value on, so a parser that
  runs past \<open>len\<close> still reads the buffer.  \<open>field\<close> is the index of the field, \<open>None\<close> the \<open>NULL\<close> of an
  unknown one.
\<close>

record scanned_member =
  stag :: u32
  swire :: u8
  length_prefix_len :: nat
  sfield :: "nat option"
  slen :: nat
  sdata :: bytes

definition FIRST_SCANNED_MEMBER_SLAB_SIZE_LOG2 :: nat where
  "FIRST_SCANNED_MEMBER_SLAB_SIZE_LOG2 = 4"

definition BOUND_SIZEOF_SCANNED_MEMBER_LOG2 :: nat where
  "BOUND_SIZEOF_SCANNED_MEMBER_LOG2 = 5"

definition MAX_SCANNED_MEMBER_SLAB :: nat where
  "MAX_SCANNED_MEMBER_SLAB =
     4 * 8 - 1 - BOUND_SIZEOF_SCANNED_MEMBER_LOG2 - FIRST_SCANNED_MEMBER_SLAB_SIZE_LOG2"

definition slab_size :: "nat \<Rightarrow> nat" where
  "slab_size i = 2 ^ (i + FIRST_SCANNED_MEMBER_SLAB_SIZE_LOG2)"

definition sizeof_scanned_member :: nat where
  "sizeof_scanned_member = 20"

record scan_state =
  last_field_index :: nat
  required_fields_bitmap :: bytes
  n_unknown :: nat
  counts :: "u32 list"
  which_slab :: nat
  in_slab_index :: nat
  slabs :: "scanned_member list list"

text \<open>\<open>REQUIRED_FIELD_BITMAP_SET\<close> and \<open>REQUIRED_FIELD_BITMAP_IS_SET\<close>.\<close>

definition bitmap_set :: "bytes \<Rightarrow> nat \<Rightarrow> bytes pb_result" where
  "bitmap_set bm i =
     (if i div 8 < length bm then Ok (bm[i div 8 := bm ! (i div 8) OR push_bit (i mod 8) 1]) else Fault)"

definition bitmap_is_set :: "bytes \<Rightarrow> nat \<Rightarrow> bool pb_result" where
  "bitmap_is_set bm i =
     (if i div 8 < length bm then Ok (bm ! (i div 8) AND push_bit (i mod 8) 1 \<noteq> 0) else Fault)"

text \<open>
  Storing a member: a full slab is followed by one twice its size, up to the last; then the write
  at \<open>in_slab_index\<close> of the current slab, which holds \<open>slab_size which_slab\<close> members.
\<close>

definition next_slab :: "allocator \<Rightarrow> scan_state \<Rightarrow> scan_state pb_result" where
  "next_slab alloc st =
     (if in_slab_index st = slab_size (which_slab st) then
        if which_slab st = MAX_SCANNED_MEMBER_SLAB then Fail
        else
          let which = which_slab st + 1 in
          if alloc [2, which] (sizeof_scanned_member * slab_size which)
          then Ok (st\<lparr>in_slab_index := 0, which_slab := which, slabs := slabs st @ [[]]\<rparr>)
          else Fail
      else Ok st)"

definition store_member :: "scanned_member \<Rightarrow> scan_state \<Rightarrow> scan_state pb_result" where
  "store_member tmp st =
     (if which_slab st < length (slabs st) \<and> in_slab_index st < slab_size (which_slab st)
      then Ok (st\<lparr>in_slab_index := in_slab_index st + 1,
                 slabs := (slabs st)[which_slab st := slabs st ! which_slab st @ [tmp]]\<rparr>)
      else Fault)"

section \<open>Cutting out one member\<close>

text \<open>The switch on the wire type: the length of the value and of its length prefix.\<close>

definition scan_value :: "u8 \<Rightarrow> bytes \<Rightarrow> (nat \<times> nat) pb_result" where
  "scan_value wire at =
     (let rem = length at in
      if wire = of_nat WIRE_TYPE_VARINT then
        let max_len = (if rem < 10 then rem else 10) in
        on_ok (checked (scan_more 0 max_len at)) (\<lambda>i.
          if i = max_len then Fail else Ok (i + 1, 0))
      else if wire = of_nat WIRE_TYPE_64BIT then
        if rem < 8 then Fail else Ok (8, 0)
      else if wire = of_nat WIRE_TYPE_LENGTH_PREFIXED then
        on_ok (checked (scan_length_prefixed_data at)) (\<lambda>(len, pref_len).
          if len = 0 then Fail else Ok (len, pref_len))
      else if wire = of_nat WIRE_TYPE_32BIT then
        if rem < 4 then Fail else Ok (4, 0)
      else Fail)"

text \<open>
  The field of a tag: the last field again, or a lookup.  An unknown tag leaves the last field
  alone.  The result is the field index and the new last field index.
\<close>

definition find_field :: "message_desc \<Rightarrow> u32 \<Rightarrow> nat \<Rightarrow> (nat option \<times> nat) pb_result" where
  "find_field desc tag last_ix =
     (if mfields desc = [] \<or> tid (mfields desc ! last_ix) \<noteq> tag then
        on_ok (checked (field_index desc tag)) (\<lambda>ix.
          if ix < 0 then Ok (None, last_ix)
          else if nat ix < length (mfields desc) then Ok (Some (nat ix), nat ix) else Fault)
      else Ok (Some last_ix, last_ix))"

definition is_required :: "message_desc \<Rightarrow> nat option \<Rightarrow> bool" where
  "is_required desc fld =
     (case fld of None \<Rightarrow> False | Some i \<Rightarrow> label (mfields desc ! i) = REQUIRED)"

definition count_packed_elements :: "pb_type \<Rightarrow> nat \<Rightarrow> bytes \<Rightarrow> nat pb_result" where
  "count_packed_elements type len data =
     (if type = T_SFIXED32 \<or> type = T_FIXED32 \<or> type = T_FLOAT then
        if len mod 4 \<noteq> 0 then Fail else Ok (len div 4)
      else if type = T_SFIXED64 \<or> type = T_FIXED64 \<or> type = T_DOUBLE then
        if len mod 8 \<noteq> 0 then Fail else Ok (len div 8)
      else if type = T_ENUM \<or> type = T_INT32 \<or> type = T_SINT32 \<or> type = T_UINT32 \<or>
         type = T_INT64 \<or> type = T_SINT64 \<or> type = T_UINT64 then
        if len \<le> length data then Ok (max_b128_numbers (take len data)) else Fault
      else if type = T_BOOL then Ok len
      else Fail)"

text \<open>A member of a repeated field is a run of packed elements or one element.\<close>

definition holds_packed :: "field_desc \<Rightarrow> u8 \<Rightarrow> bool" where
  "holds_packed field wire \<longleftrightarrow>
     wire = of_nat WIRE_TYPE_LENGTH_PREFIXED \<and> (is_packed field \<or> is_packable_type (ftype field))"

definition member_count :: "field_desc \<Rightarrow> scanned_member \<Rightarrow> nat pb_result" where
  "member_count field tmp =
     (if holds_packed field (swire tmp) then
        count_packed_elements (ftype field) (slen tmp - length_prefix_len tmp)
          (drop (length_prefix_len tmp) (sdata tmp))
      else Ok 1)"

definition count_member :: "message_desc \<Rightarrow> scanned_member \<Rightarrow> scan_state \<Rightarrow> scan_state pb_result" where
  "count_member desc tmp st =
     (case sfield tmp of
        None \<Rightarrow> Ok st
      | Some i \<Rightarrow>
          let field = mfields desc ! i in
          if label field = REPEATED then
            on_ok (member_count field tmp) (\<lambda>n.
              Ok (st\<lparr>counts := (counts st)[quantifier_offset field :=
                    quantifier_at (counts st) (quantifier_offset field) + of_nat n]\<rparr>))
          else Ok st)"

text \<open>One turn of the scan loop at \<open>at\<close>: the bytes consumed and the new state.\<close>

definition scan_step ::
  "message_desc \<Rightarrow> allocator \<Rightarrow> bytes \<Rightarrow> scan_state \<Rightarrow> (nat \<times> scan_state) pb_result" where
  "scan_step desc alloc at st =
     on_ok (checked (parse_tag_and_wiretype at)) (\<lambda>(used, tag, wire).
     if used = 0 then Fail
     else on_ok (find_field desc tag (last_field_index st)) (\<lambda>(fld, last_ix).
     let st = st\<lparr>last_field_index := last_ix,
                 n_unknown := (if fld = None then n_unknown st + 1 else n_unknown st)\<rparr> in
     on_ok (if is_required desc fld then bitmap_set (required_fields_bitmap st) last_ix
            else Ok (required_fields_bitmap st)) (\<lambda>bm.
     let st = st\<lparr>required_fields_bitmap := bm\<rparr>;
         at = drop used at in
     on_ok (scan_value wire at) (\<lambda>(len, pref_len).
     let tmp = \<lparr>stag = tag, swire = wire, length_prefix_len = pref_len, sfield = fld,
                slen = len, sdata = at\<rparr> in
     on_ok (next_slab alloc st) (\<lambda>st.
     on_ok (store_member tmp st) (\<lambda>st.
     on_ok (count_member desc tmp st) (\<lambda>st. Ok (used + len, st))))))))"

lemma scan_step_consumes: "scan_step desc alloc at st = Ok (n, st') \<Longrightarrow> 0 < n"
  by (auto simp: scan_step_def on_ok_eq_Ok Let_def split: if_splits prod.splits)

function scan_loop :: "message_desc \<Rightarrow> allocator \<Rightarrow> bytes \<Rightarrow> scan_state \<Rightarrow> scan_state pb_result" where
  "scan_loop desc alloc at st =
     (if at = [] then Ok st
      else on_ok (scan_step desc alloc at st) (\<lambda>(n, st). scan_loop desc alloc (drop n at) st))"
  by auto
termination
  by (relation "measure (\<lambda>(_, _, at, _). length at)") (auto dest!: scan_step_consumes)

declare scan_loop.simps [simp del]

definition bitmap_len :: "message_desc \<Rightarrow> nat" where
  "bitmap_len desc = (length (mfields desc) + 7) div 8"

definition scan_init :: "message_desc \<Rightarrow> u32 list \<Rightarrow> scan_state" where
  "scan_init desc qs =
     \<lparr>last_field_index = 0, required_fields_bitmap = replicate (bitmap_len desc) 0, n_unknown = 0,
      counts = qs, which_slab = 0, in_slab_index = 0, slabs = [[]]\<rparr>"

end
