(* ===== verification/Pb_Merge.thy ===== *)
theory Pb_Merge
  imports Pb_Scan
begin

unbundle bit_operations_syntax

text \<open>
  Initial messages and \<open>merge_messages\<close>, the merge of two occurrences of one embedded message.

  Memory is seen at the type the descriptor declares.  Index 0 of the quantifier words is the first
  word of the message, the descriptor pointer: the code uses offset 0 for \<open>no quantifier\<close> and still
  reads it in the merge.  Only whether it is zero matters, so the model stores 1.
\<close>

section \<open>Initial messages\<close>

text \<open>All-zero memory at a member, read at its declared type; a union is read at its first word.\<close>

definition zero_val :: "field_desc \<Rightarrow> 'm pb_val" where
  "zero_val field =
     (if is_oneof field then V32 0
      else case ftype field of
        T_SINT64 \<Rightarrow> V64 0 | T_INT64 \<Rightarrow> V64 0 | T_UINT64 \<Rightarrow> V64 0
      | T_SFIXED64 \<Rightarrow> V64 0 | T_FIXED64 \<Rightarrow> V64 0 | T_DOUBLE \<Rightarrow> V64 0
      | T_BOOL \<Rightarrow> VBool 0 | T_STRING \<Rightarrow> VStr Null | T_BYTES \<Rightarrow> VBytes Null | T_MESSAGE \<Rightarrow> VMsg Null
      | _ \<Rightarrow> V32 0)"

definition zero_cell :: "field_desc \<Rightarrow> 'm cell" where
  "zero_cell field = (if label field = REPEATED then Many [] else One (zero_val field))"

text \<open>The switch of \<open>message_init_generic\<close>: what the default value leaves in the member.\<close>

definition default_val :: "field_desc \<Rightarrow> 'm pb_val" where
  "default_val field =
     (case default_value field of
        No_Default \<Rightarrow> zero_val field
      | D32 v \<Rightarrow> V32 v
      | D64 v \<Rightarrow> V64 v
      | DBool v \<Rightarrow> VBool v
      | DBytes bs \<Rightarrow> VBytes (Default bs)
      | DStr s \<Rightarrow> VStr (Default s))"

definition init_member :: "field_desc \<Rightarrow> 'm cell list \<Rightarrow> 'm cell list" where
  "init_member field cells =
     (if default_value field \<noteq> No_Default \<and> label field \<noteq> REPEATED
      then cells[offset field := One (default_val field)] else cells)"

definition zero_cells :: "message_desc \<Rightarrow> 'm cell list" where
  "zero_cells desc =
     map (\<lambda>off. case find (\<lambda>f. offset f = off) (mfields desc) of
                  None \<Rightarrow> One (V32 0) | Some f \<Rightarrow> zero_cell f) [0..<n_cells desc]"

definition message_init_cells :: "message_desc \<Rightarrow> 'm cell list" where
  "message_init_cells desc = fold init_member (mfields desc) (zero_cells desc)"

definition message_init_quantifiers :: "message_desc \<Rightarrow> u32 list" where
  "message_init_quantifiers desc = 1 # replicate (n_quantifiers desc - 1) 0"

definition message_init_generic :: "message_desc \<Rightarrow> pb_msg" where
  "message_init_generic desc = Msg desc (message_init_quantifiers desc) (message_init_cells desc) []"

section \<open>Merging\<close>

text \<open>
  \<open>merge_messages\<close> changes both messages: it moves into the latter what only the earlier one has.
  A sub-message of the earlier message comes with the function that merges it into another.
\<close>

type_synonym merger = "allocator \<Rightarrow> pb_msg \<Rightarrow> pb_msg pb_result"

record merge_state =
  e_quants :: "u32 list"
  e_cells :: "(pb_msg \<times> merger) cell list"
  l_quants :: "u32 list"
  l_cells :: "pb_msg cell list"

definition sizeof_elt_in_repeated_array :: "pb_type \<Rightarrow> nat" where
  "sizeof_elt_in_repeated_array type =
     (case type of
        T_SINT64 \<Rightarrow> 8 | T_INT64 \<Rightarrow> 8 | T_UINT64 \<Rightarrow> 8 | T_SFIXED64 \<Rightarrow> 8 | T_FIXED64 \<Rightarrow> 8 | T_DOUBLE \<Rightarrow> 8
      | T_BYTES \<Rightarrow> 8
      | _ \<Rightarrow> 4)"

text \<open>The number of elements in an array of \<open>siz * n\<close> bytes, the product computed in \<open>size_t\<close>.\<close>

definition array_capacity :: "pb_type \<Rightarrow> u32 \<Rightarrow> nat" where
  "array_capacity type n =
     unat (of_nat (sizeof_elt_in_repeated_array type) * n) div sizeof_elt_in_repeated_array type"

abbreviation moved :: "(pb_msg \<times> merger) pb_val \<Rightarrow> pb_msg pb_val" where
  "moved \<equiv> map_pb_val fst"

definition merge_repeated :: "allocator \<Rightarrow> nat \<Rightarrow> field_desc \<Rightarrow> merge_state \<Rightarrow> merge_state pb_result" where
  "merge_repeated alloc i field st =
     (let q = quantifier_offset field; off = offset field;
          n_earlier = quantifier_at (e_quants st) q;
          n_latter = quantifier_at (l_quants st) q;
          p_earlier = array_at (e_cells st) off n_earlier in
      if 0 < n_earlier then
        on_ok (if 0 < n_latter then
                 if \<not> alloc [i] (unat (of_nat (sizeof_elt_in_repeated_array (ftype field)) * (n_earlier + n_latter)))
                 then Fail
                 else if array_capacity (ftype field) (n_earlier + n_latter) < unat n_earlier + unat n_latter
                 then Fault
                 else Ok (st\<lparr>l_quants := (l_quants st)[q := n_earlier + n_latter],
                            l_cells := (l_cells st)[off :=
                              Many (map moved p_earlier @ array_at (l_cells st) off n_latter)]\<rparr>)
               else Ok (st\<lparr>l_quants := (l_quants st)[q := n_earlier],
                          l_cells := (l_cells st)[off := Many (map moved p_earlier)]\<rparr>)) (\<lambda>st.
        Ok (st\<lparr>e_quants := (e_quants st)[q := 0], e_cells := (e_cells st)[off := Many []]\<rparr>))
      else Ok st)"

text \<open>
  Pointers are compared with the default of the field: \<open>is_def p\<close> is \<open>p == def_val\<close>, where a field
  without default has the default \<open>NULL\<close>.
\<close>

definition is_def :: "field_desc \<Rightarrow> 'a ptr \<Rightarrow> bool" where
  "is_def field p =
     (if default_value field = No_Default then p = Null else (case p of Default _ \<Rightarrow> True | _ \<Rightarrow> False))"

text \<open>
  The switch on the type: whether the member moves as it is, and the latter message, whose own
  embedded message the earlier one is merged into.
\<close>

definition need_to_merge ::
  "allocator \<Rightarrow> nat \<Rightarrow> field_desc \<Rightarrow> u32 \<Rightarrow> u32 \<Rightarrow> merge_state \<Rightarrow> (bool \<times> merge_state) pb_result" where
  "need_to_merge alloc i field earlier_case latter_case st =
     (let earlier_elem = member_at (e_cells st) (offset field);
          latter_elem = member_at (l_cells st) (offset field) in
      case ftype field of
        T_MESSAGE \<Rightarrow>
          (case target (as_msg earlier_elem) of
             None \<Rightarrow> Ok (False, st)
           | Some (em, merge) \<Rightarrow>
              (case target (as_msg latter_elem) of
                 None \<Rightarrow> Ok (True, st)
               | Some lm \<Rightarrow>
                   on_ok (merge (\<lambda>place. alloc (i # place)) lm) (\<lambda>lm'.
                     Ok (False, st\<lparr>l_cells := (l_cells st)[offset field := One (VMsg (Heap lm'))]\<rparr>))))
      | T_BYTES \<Rightarrow>
          Ok (\<not> null_or_default (as_bytes earlier_elem) \<and> null_or_default (as_bytes latter_elem), st)
      | T_STRING \<Rightarrow>
          Ok (\<not> is_def field (as_str earlier_elem) \<and> is_def field (as_str latter_elem), st)
      | _ \<Rightarrow> Ok (earlier_case \<noteq> 0 \<and> latter_case = 0, st))"

text \<open>
  The member moves: its value, and the presence word or the case at \<open>case_off\<close> if the field has one.
  The earlier message keeps zeros.
\<close>

definition move_member :: "field_desc \<Rightarrow> nat \<Rightarrow> u32 \<Rightarrow> merge_state \<Rightarrow> merge_state" where
  "move_member field case_off earlier_case st =
     (let st = st\<lparr>l_cells := (l_cells st)[offset field := One (moved (member_at (e_cells st) (offset field)))],
                 e_cells := (e_cells st)[offset field := One (zero_val field)]\<rparr> in
      if quantifier_offset field \<noteq> 0
      then st\<lparr>l_quants := (l_quants st)[case_off := earlier_case],
              e_quants := (e_quants st)[case_off := 0]\<rparr>
      else st)"

text \<open>
  An optional or unlabelled member: for a oneof that the latter message has not set, the field is
  the one the earlier message has; a oneof set in the latter message is left alone.
\<close>

definition merge_optional :: "message_desc \<Rightarrow> allocator \<Rightarrow> nat \<Rightarrow> field_desc \<Rightarrow> merge_state \<Rightarrow> merge_state pb_result" where
  "merge_optional desc alloc i fi st =
     (let earlier_case = quantifier_at (e_quants st) (quantifier_offset fi);
          latter_case = quantifier_at (l_quants st) (quantifier_offset fi) in
      if is_oneof fi \<and> latter_case \<noteq> 0 then Ok st
      else
        on_ok (if is_oneof fi then
                 on_ok (checked (field_index desc earlier_case)) (\<lambda>ix.
                   if ix < 0 then Fail
                   else if nat ix < length (mfields desc) then Ok (mfields desc ! nat ix) else Fault)
               else Ok fi) (\<lambda>field.
        on_ok (need_to_merge alloc i field earlier_case latter_case st) (\<lambda>(need, st).
          Ok (if need then move_member field (quantifier_offset fi) earlier_case st else st))))"

definition merge_field :: "message_desc \<Rightarrow> allocator \<Rightarrow> nat \<Rightarrow> merge_state \<Rightarrow> merge_state pb_result" where
  "merge_field desc alloc i st =
     (let field = mfields desc ! i in
      if label field = REPEATED then merge_repeated alloc i field st
      else if label field = OPTIONAL \<or> label field = NONE then merge_optional desc alloc i field st
      else Ok st)"

text \<open>The loop over the fields, the first of \<open>is\<close> next.\<close>

primrec merge_fields :: "message_desc \<Rightarrow> allocator \<Rightarrow> nat list \<Rightarrow> merge_state \<Rightarrow> merge_state pb_result" where
  "merge_fields desc alloc [] st = Ok st"
| "merge_fields desc alloc (i # is) st = on_ok (merge_field desc alloc i st) (merge_fields desc alloc is)"

definition merge_into :: "u32 list \<Rightarrow> (pb_msg \<times> merger) cell list \<Rightarrow> merger" where
  "merge_into eqs ecells alloc latter_msg =
     (case latter_msg of Msg desc qs cells us \<Rightarrow>
        on_ok (merge_fields desc alloc [0..<length (mfields desc)]
                 \<lparr>e_quants = eqs, e_cells = ecells, l_quants = qs, l_cells = cells\<rparr>) (\<lambda>st.
          Ok (Msg desc (l_quants st) (l_cells st) us)))"

primrec merge_messages :: "pb_msg \<Rightarrow> merger" where
  "merge_messages (Msg desc qs cells us) =
     merge_into qs (map (map_cell (\<lambda>sub. (sub, merge_messages sub))) cells)"

end
