(* ===== verification/Pb_Unpack.thy ===== *)
theory Pb_Unpack
  imports Pb_Merge
begin

unbundle bit_operations_syntax

text \<open>
  The second pass of \<open>protobuf_c_message_unpack\<close>: arrays are allocated from the counts of the scan,
  then every member is parsed into the message; and the whole of the function.

  \<open>unpack\<close> stands for the recursive call on an embedded message.  The recursion is unbounded in the
  code; here it gets one level per received byte, which is enough because an embedded message is
  shorter than the message around it (\<open>unpack_depth_fine\<close> shows that the levels never run out).
\<close>

section \<open>One value\<close>

type_synonym unpacker = "allocator \<Rightarrow> nat \<Rightarrow> bytes \<Rightarrow> pb_msg pb_result"

text \<open>The \<open>len - pref_len\<close> bytes at \<open>data + pref_len\<close>.\<close>

definition member_body :: "scanned_member \<Rightarrow> bytes pb_result" where
  "member_body sm =
     (if length_prefix_len sm \<le> slen sm \<and> slen sm \<le> length (sdata sm)
      then Ok (take (slen sm - length_prefix_len sm) (drop (length_prefix_len sm) (sdata sm)))
      else Fault)"

text \<open>An object the message owns: neither \<open>NULL\<close> nor the default of the field.\<close>

fun owned :: "'a ptr \<Rightarrow> 'a option" where
  "owned (Heap a) = Some a"
| "owned _ = None"

definition parse_varint_member :: "scanned_member \<Rightarrow> 'a option \<Rightarrow> ('a \<Rightarrow> pb_msg pb_val) \<Rightarrow> pb_msg pb_val pb_result" where
  "parse_varint_member sm parsed val =
     (if swire sm \<noteq> of_nat WIRE_TYPE_VARINT then Fail else on_ok (checked parsed) (\<lambda>v. Ok (val v)))"

definition parse_fixed_member ::
  "scanned_member \<Rightarrow> nat \<Rightarrow> 'a option \<Rightarrow> ('a \<Rightarrow> pb_msg pb_val) \<Rightarrow> pb_msg pb_val pb_result" where
  "parse_fixed_member sm wt parsed val =
     (if swire sm \<noteq> of_nat wt then Fail else on_ok (checked parsed) (\<lambda>v. Ok (val v)))"

definition parse_string_member :: "allocator \<Rightarrow> scanned_member \<Rightarrow> pb_msg pb_val pb_result" where
  "parse_string_member alloc sm =
     (if swire sm \<noteq> of_nat WIRE_TYPE_LENGTH_PREFIXED then Fail
      else if \<not> alloc [0] (slen sm - length_prefix_len sm + 1) then Fail
      else on_ok (member_body sm) (\<lambda>s. Ok (VStr (Heap s))))"

definition parse_bytes_member :: "allocator \<Rightarrow> scanned_member \<Rightarrow> pb_msg pb_val pb_result" where
  "parse_bytes_member alloc sm =
     (if swire sm \<noteq> of_nat WIRE_TYPE_LENGTH_PREFIXED then Fail
      else if slen sm > length_prefix_len sm then
        if \<not> alloc [0] (slen sm - length_prefix_len sm) then Fail
        else on_ok (member_body sm) (\<lambda>bs. Ok (VBytes (Heap bs)))
      else Ok (VBytes Null))"

definition parse_message_member ::
  "unpacker \<Rightarrow> allocator \<Rightarrow> field_desc \<Rightarrow> scanned_member \<Rightarrow> pb_msg pb_val \<Rightarrow> bool \<Rightarrow> pb_msg pb_val pb_result" where
  "parse_message_member unpack alloc field sm member maybe_clear =
     (if swire sm \<noteq> of_nat WIRE_TYPE_LENGTH_PREFIXED then Fail
      else if slen sm < length_prefix_len sm then Fail
      else on_ok (member_body sm) (\<lambda>data.
           on_ok (unpack (\<lambda>place. alloc (0 # place)) (descriptor field) data) (\<lambda>subm.
           case (if maybe_clear then owned (as_msg member) else None) of
             None \<Rightarrow> Ok (VMsg (Heap subm))
           | Some old \<Rightarrow> on_ok (merge_messages old (\<lambda>place. alloc (1 # place)) subm) (\<lambda>merged.
               Ok (VMsg (Heap merged))))))"

text \<open>A boolean is parsed whatever the wire type, as in the code.\<close>

definition parse_required_member ::
  "unpacker \<Rightarrow> allocator \<Rightarrow> field_desc \<Rightarrow> scanned_member \<Rightarrow> pb_msg pb_val \<Rightarrow> bool \<Rightarrow> pb_msg pb_val pb_result" where
  "parse_required_member unpack alloc field sm member maybe_clear =
     (let len = slen sm; data = sdata sm in
      case ftype field of
        T_ENUM \<Rightarrow> parse_varint_member sm (parse_int32 len data) V32
      | T_INT32 \<Rightarrow> parse_varint_member sm (parse_int32 len data) V32
      | T_UINT32 \<Rightarrow> parse_varint_member sm (parse_uint32 len data) V32
      | T_SINT32 \<Rightarrow> parse_varint_member sm (parse_uint32 len data) (\<lambda>v. V32 (unzigzag32 v))
      | T_SFIXED32 \<Rightarrow> parse_fixed_member sm WIRE_TYPE_32BIT (parse_fixed_uint32 data) V32
      | T_FIXED32 \<Rightarrow> parse_fixed_member sm WIRE_TYPE_32BIT (parse_fixed_uint32 data) V32
      | T_FLOAT \<Rightarrow> parse_fixed_member sm WIRE_TYPE_32BIT (parse_fixed_uint32 data) V32
      | T_INT64 \<Rightarrow> parse_varint_member sm (parse_uint64 len data) V64
      | T_UINT64 \<Rightarrow> parse_varint_member sm (parse_uint64 len data) V64
      | T_SINT64 \<Rightarrow> parse_varint_member sm (parse_uint64 len data) (\<lambda>v. V64 (unzigzag64 v))
      | T_SFIXED64 \<Rightarrow> parse_fixed_member sm WIRE_TYPE_64BIT (parse_fixed_uint64 data) V64
      | T_FIXED64 \<Rightarrow> parse_fixed_member sm WIRE_TYPE_64BIT (parse_fixed_uint64 data) V64
      | T_DOUBLE \<Rightarrow> parse_fixed_member sm WIRE_TYPE_64BIT (parse_fixed_uint64 data) V64
      | T_BOOL \<Rightarrow> on_ok (checked (parse_boolean len data)) (\<lambda>b. Ok (VBool (if b then 1 else 0)))
      | T_STRING \<Rightarrow> parse_string_member alloc sm
      | T_BYTES \<Rightarrow> parse_bytes_member alloc sm
      | T_MESSAGE \<Rightarrow> parse_message_member unpack alloc field sm member maybe_clear)"

section \<open>Members by label\<close>

record msg_state =
  m_quants :: "u32 list"
  m_cells :: "pb_msg cell list"
  m_unknown :: "unknown_field list"

definition set_member :: "field_desc \<Rightarrow> pb_msg cell \<Rightarrow> msg_state \<Rightarrow> msg_state" where
  "set_member field c st = st\<lparr>m_cells := (m_cells st)[offset field := c]\<rparr>"

definition set_quantifier :: "field_desc \<Rightarrow> u32 \<Rightarrow> msg_state \<Rightarrow> msg_state" where
  "set_quantifier field q st = st\<lparr>m_quants := (m_quants st)[quantifier_offset field := q]\<rparr>"

text \<open>
  \<open>parse_oneof_member\<close> first drops the member the oneof holds; the memory of the union is zero then.
\<close>

definition clear_oneof :: "message_desc \<Rightarrow> field_desc \<Rightarrow> msg_state \<Rightarrow> msg_state pb_result" where
  "clear_oneof desc field st =
     (let oneof_case = quantifier_at (m_quants st) (quantifier_offset field) in
      if oneof_case \<noteq> 0 then
        on_ok (checked (field_index desc oneof_case)) (\<lambda>ix.
          if ix < 0 then Fail
          else if nat ix < length (mfields desc) then Ok (set_member field (One (V32 0)) st)
          else Fault)
      else Ok st)"

definition parse_oneof_member ::
  "unpacker \<Rightarrow> allocator \<Rightarrow> message_desc \<Rightarrow> field_desc \<Rightarrow> scanned_member \<Rightarrow> msg_state \<Rightarrow> msg_state pb_result" where
  "parse_oneof_member unpack alloc desc field sm st =
     on_ok (clear_oneof desc field st) (\<lambda>st.
     on_ok (parse_required_member unpack alloc field sm (member_at (m_cells st) (offset field)) True) (\<lambda>v.
       Ok (set_quantifier field (stag sm) (set_member field (One v) st))))"

definition parse_optional_member ::
  "unpacker \<Rightarrow> allocator \<Rightarrow> field_desc \<Rightarrow> scanned_member \<Rightarrow> msg_state \<Rightarrow> msg_state pb_result" where
  "parse_optional_member unpack alloc field sm st =
     on_ok (parse_required_member unpack alloc field sm (member_at (m_cells st) (offset field)) True) (\<lambda>v.
       let st = set_member field (One v) st in
       Ok (if quantifier_offset field \<noteq> 0 then set_quantifier field 1 st else st))"

text \<open>The array a repeated member points to; its length is what was allocated.\<close>

definition array_of :: "field_desc \<Rightarrow> msg_state \<Rightarrow> pb_msg pb_val list" where
  "array_of field st =
     (if offset field < length (m_cells st)
      then case m_cells st ! offset field of Many vs \<Rightarrow> vs | One _ \<Rightarrow> [] else [])"

definition array_elem :: "pb_msg pb_val list \<Rightarrow> nat \<Rightarrow> pb_msg pb_val" where
  "array_elem vs i = (if i < length vs then vs ! i else V32 0)"

definition array_store :: "pb_msg pb_val list \<Rightarrow> nat \<Rightarrow> pb_msg pb_val \<Rightarrow> pb_msg pb_val list pb_result" where
  "array_store vs i v = (if i < length vs then Ok (vs[i := v]) else Fault)"

definition parse_repeated_member ::
  "unpacker \<Rightarrow> allocator \<Rightarrow> field_desc \<Rightarrow> scanned_member \<Rightarrow> msg_state \<Rightarrow> msg_state pb_result" where
  "parse_repeated_member unpack alloc field sm st =
     (let p_n = quantifier_at (m_quants st) (quantifier_offset field);
          array = array_of field st in
      on_ok (parse_required_member unpack alloc field sm (array_elem array (unat p_n)) False) (\<lambda>v.
      on_ok (array_store array (unat p_n) v) (\<lambda>array.
        Ok (set_quantifier field (p_n + 1) (set_member field (Many array) st)))))"

text \<open>
  The loops over packed varints: \<open>conv s at\<close> is the element in the \<open>s\<close> bytes at \<open>at\<close>, stored at index
  \<open>i\<close>.  The result is the array and the index after the last element.
\<close>

fun packed_loop ::
  "(nat \<Rightarrow> bytes \<Rightarrow> pb_msg pb_val option) \<Rightarrow> nat \<Rightarrow> bytes \<Rightarrow> pb_msg pb_val list \<Rightarrow> nat \<Rightarrow>
   (pb_msg pb_val list \<times> nat) pb_result" where
  "packed_loop conv rem at array i =
     (if rem > 0 then
        case scan_varint rem at of None \<Rightarrow> Fault | Some s \<Rightarrow>
        if s = 0 then Fail
        else (case conv s at of None \<Rightarrow> Fault | Some v \<Rightarrow>
          if i < length array then packed_loop conv (rem - s) (drop s at) (array[i := v]) (i + 1)
          else Fault)
      else Ok (array, i))"

declare packed_loop.simps [simp del]

text \<open>The \<open>memcpy\<close> of \<open>n\<close> little-endian elements of \<open>siz\<close> bytes.\<close>

fun packed_copy ::
  "(bytes \<Rightarrow> pb_msg pb_val option) \<Rightarrow> nat \<Rightarrow> nat \<Rightarrow> bytes \<Rightarrow> pb_msg pb_val list \<Rightarrow> nat \<Rightarrow>
   (pb_msg pb_val list \<times> nat) pb_result" where
  "packed_copy conv siz 0 at array i = Ok (array, i)"
| "packed_copy conv siz (Suc n) at array i =
     on_ok (checked (conv at)) (\<lambda>v.
     on_ok (array_store array i v) (\<lambda>array. packed_copy conv siz n (drop siz at) array (i + 1)))"

definition packed_elements ::
  "pb_type \<Rightarrow> nat \<Rightarrow> bytes \<Rightarrow> pb_msg pb_val list \<Rightarrow> nat \<Rightarrow> (pb_msg pb_val list \<times> nat) pb_result" where
  "packed_elements type rem at array i =
     (let fixed32 = packed_copy (\<lambda>at. map_option V32 (parse_fixed_uint32 at)) 4 (rem div 4) at array i;
          fixed64 = packed_copy (\<lambda>at. map_option V64 (parse_fixed_uint64 at)) 8 (rem div 8) at array i;
          int32 = packed_loop (\<lambda>s at. map_option V32 (parse_int32 s at)) rem at array i;
          int64 = packed_loop (\<lambda>s at. map_option V64 (parse_uint64 s at)) rem at array i in
      case type of
        T_SFIXED32 \<Rightarrow> fixed32 | T_FIXED32 \<Rightarrow> fixed32 | T_FLOAT \<Rightarrow> fixed32
      | T_SFIXED64 \<Rightarrow> fixed64 | T_FIXED64 \<Rightarrow> fixed64 | T_DOUBLE \<Rightarrow> fixed64
      | T_ENUM \<Rightarrow> int32 | T_INT32 \<Rightarrow> int32
      | T_SINT32 \<Rightarrow> packed_loop (\<lambda>s at. map_option (\<lambda>v. V32 (unzigzag32 v)) (parse_uint32 s at)) rem at array i
      | T_UINT32 \<Rightarrow> packed_loop (\<lambda>s at. map_option V32 (parse_uint32 s at)) rem at array i
      | T_SINT64 \<Rightarrow> packed_loop (\<lambda>s at. map_option (\<lambda>v. V64 (unzigzag64 v)) (parse_uint64 s at)) rem at array i
      | T_INT64 \<Rightarrow> int64 | T_UINT64 \<Rightarrow> int64
      | T_BOOL \<Rightarrow> packed_loop (\<lambda>s at. map_option (\<lambda>b. VBool (if b then 1 else 0)) (parse_boolean s at)) rem at array i
      | _ \<Rightarrow> Fault)"

definition parse_packed_repeated_member ::
  "field_desc \<Rightarrow> scanned_member \<Rightarrow> msg_state \<Rightarrow> msg_state pb_result" where
  "parse_packed_repeated_member field sm st =
     (let p_n = quantifier_at (m_quants st) (quantifier_offset field);
          at = drop (length_prefix_len sm) (sdata sm);
          rem = slen sm - length_prefix_len sm in
      on_ok (packed_elements (ftype field) rem at (array_of field st) (unat p_n)) (\<lambda>(array, i).
        Ok (set_quantifier field (p_n + of_nat (i - unat p_n)) (set_member field (Many array) st))))"

text \<open>An unknown member is copied as it is; \<open>cap\<close> entries were allocated for them.\<close>

definition parse_unknown :: "allocator \<Rightarrow> nat \<Rightarrow> scanned_member \<Rightarrow> msg_state \<Rightarrow> msg_state pb_result" where
  "parse_unknown alloc cap sm st =
     (if length (m_unknown st) < cap then
        if \<not> alloc [0] (slen sm) then Fail
        else if slen sm \<le> length (sdata sm) then
          Ok (st\<lparr>m_unknown := m_unknown st @
                 [\<lparr>utag = stag sm, wire_type = swire sm, udata = take (slen sm) (sdata sm)\<rparr>]\<rparr>)
        else Fault
      else Fault)"

definition parse_member ::
  "unpacker \<Rightarrow> allocator \<Rightarrow> message_desc \<Rightarrow> nat \<Rightarrow> scanned_member \<Rightarrow> msg_state \<Rightarrow> msg_state pb_result" where
  "parse_member unpack alloc desc cap sm st =
     (case sfield sm of
        None \<Rightarrow> parse_unknown alloc cap sm st
      | Some i \<Rightarrow>
          let field = mfields desc ! i in
          if label field = REQUIRED then
            on_ok (parse_required_member unpack alloc field sm (member_at (m_cells st) (offset field)) True)
              (\<lambda>v. Ok (set_member field (One v) st))
          else if label field = OPTIONAL \<or> label field = NONE then
            if is_oneof field then parse_oneof_member unpack alloc desc field sm st
            else parse_optional_member unpack alloc field sm st
          else if holds_packed field (swire sm) then parse_packed_repeated_member field sm st
          else parse_repeated_member unpack alloc field sm st)"

section \<open>The whole function\<close>

text \<open>One turn of the loop that allocates the arrays and checks for missing required fields.\<close>

definition prepare_field ::
  "allocator \<Rightarrow> message_desc \<Rightarrow> bytes \<Rightarrow> nat \<Rightarrow> msg_state \<Rightarrow> msg_state pb_result" where
  "prepare_field alloc desc bm f st =
     (let field = mfields desc ! f in
      if label field = REPEATED then
        let n = quantifier_at (m_quants st) (quantifier_offset field) in
        if n \<noteq> 0 then
          if \<not> alloc [3, f] (unat (of_nat (sizeof_elt_in_repeated_array (ftype field)) * n)) then Fail
          else Ok (set_quantifier field 0
                 (set_member field (Many (replicate (array_capacity (ftype field) n) (V32 0))) st))
        else Ok st
      else if label field = REQUIRED then
        if default_value field = No_Default then
          on_ok (bitmap_is_set bm f) (\<lambda>present. if present then Ok st else Fail)
        else Ok st
      else Ok st)"

primrec prepare_fields ::
  "allocator \<Rightarrow> message_desc \<Rightarrow> bytes \<Rightarrow> nat list \<Rightarrow> msg_state \<Rightarrow> msg_state pb_result" where
  "prepare_fields alloc desc bm [] st = Ok st"
| "prepare_fields alloc desc bm (f # fs) st =
     on_ok (prepare_field alloc desc bm f st) (prepare_fields alloc desc bm fs)"

text \<open>The loop over the members of a slab, then over the slabs.\<close>

primrec parse_slab ::
  "unpacker \<Rightarrow> allocator \<Rightarrow> message_desc \<Rightarrow> nat \<Rightarrow> scanned_member list \<Rightarrow> nat list \<Rightarrow> msg_state \<Rightarrow>
   msg_state pb_result" where
  "parse_slab unpack alloc desc cap slab [] st = Ok st"
| "parse_slab unpack alloc desc cap slab (j # js) st =
     (if j < length slab then
        on_ok (parse_member unpack (\<lambda>place. alloc (j # place)) desc cap (slab ! j) st)
          (parse_slab unpack alloc desc cap slab js)
      else Fault)"

primrec parse_slabs ::
  "unpacker \<Rightarrow> allocator \<Rightarrow> message_desc \<Rightarrow> scan_state \<Rightarrow> nat list \<Rightarrow> msg_state \<Rightarrow> msg_state pb_result" where
  "parse_slabs unpack alloc desc scan [] st = Ok st"
| "parse_slabs unpack alloc desc scan (i_slab # is) st =
     (let max = (if i_slab = which_slab scan then in_slab_index scan else slab_size i_slab) in
      if i_slab < length (slabs scan) then
        on_ok (parse_slab unpack (\<lambda>place. alloc (5 # i_slab # place)) desc (n_unknown scan)
                 (slabs scan ! i_slab) [0..<max] st)
          (parse_slabs unpack alloc desc scan is)
      else Fault)"

definition sizeof_unknown_field :: nat where
  "sizeof_unknown_field = 16"

definition unpack_body :: "unpacker \<Rightarrow> allocator \<Rightarrow> message_desc \<Rightarrow> bytes \<Rightarrow> pb_msg pb_result" where
  "unpack_body unpack alloc desc data =
     (if \<not> alloc [0] (sizeof_message desc) then Fail
      else if bitmap_len desc > 16 \<and> \<not> alloc [1] (bitmap_len desc) then Fail
      else
        on_ok (scan_loop desc alloc data (scan_init desc (message_init_quantifiers desc))) (\<lambda>scan.
        on_ok (prepare_fields alloc desc (required_fields_bitmap scan) [0..<length (mfields desc)]
                 \<lparr>m_quants = counts scan, m_cells = message_init_cells desc, m_unknown = []\<rparr>) (\<lambda>st.
        if n_unknown scan \<noteq> 0 \<and> \<not> alloc [4] (n_unknown scan * sizeof_unknown_field) then Fail
        else
          on_ok (parse_slabs unpack alloc desc scan [0..<which_slab scan + 1] st) (\<lambda>st.
            Ok (Msg desc (m_quants st) (m_cells st) (m_unknown st))))))"

text \<open>\<open>descs\<close> is the table of message descriptors, \<open>d\<close> the index of the one to unpack.\<close>

primrec unpack_depth :: "message_desc list \<Rightarrow> nat \<Rightarrow> unpacker" where
  "unpack_depth descs 0 = (\<lambda>alloc d data. Fault)"
| "unpack_depth descs (Suc k) = (\<lambda>alloc d data.
     if d < length descs then unpack_body (unpack_depth descs k) alloc (descs ! d) data else Fault)"

definition protobuf_c_message_unpack :: "message_desc list \<Rightarrow> unpacker" where
  "protobuf_c_message_unpack descs alloc d data = unpack_depth descs (length data + 1) alloc d data"

end
