(* ===== verification/Pb_Scan_Ok.thy ===== *)
theory Pb_Scan_Ok
  imports Pb_Unpack
begin

unbundle bit_operations_syntax

text \<open>
  What the scan pass of the unpacker yields.  \<open>desc_ok\<close> is the shape of the descriptors and structs
  that the compiler for .proto files generates.  Under it the scan of any received bytes never
  leaves its buffers and tables, and what it collects is \<open>scanned\<close>: the members, in order, with
  their fields, the elements each repeated field will have, the unknown members and the required
  fields seen.
\<close>

section \<open>Generated descriptors\<close>

definition default_ok :: "field_desc \<Rightarrow> bool" where
  "default_ok f \<longleftrightarrow>
     (case default_value f of
        No_Default \<Rightarrow> True
      | D32 _ \<Rightarrow> ftype f \<in> {T_INT32, T_SINT32, T_SFIXED32, T_UINT32, T_FIXED32, T_FLOAT, T_ENUM}
      | D64 _ \<Rightarrow> ftype f \<in> {T_INT64, T_SINT64, T_SFIXED64, T_UINT64, T_FIXED64, T_DOUBLE}
      | DBool _ \<Rightarrow> ftype f = T_BOOL
      | DStr _ \<Rightarrow> ftype f = T_STRING
      | DBytes _ \<Rightarrow> ftype f = T_BYTES)"

text \<open>
  A field on its own: an index of the struct for its value, one for its count, presence word or
  oneof case where its label has one, and 0 where it has none.
\<close>

definition field_ok :: "nat \<Rightarrow> message_desc \<Rightarrow> field_desc \<Rightarrow> bool" where
  "field_ok n desc f \<longleftrightarrow>
     tid f \<noteq> 0 \<and> offset f < n_cells desc \<and> quantifier_offset f < n_quantifiers desc \<and>
     (ftype f = T_MESSAGE \<longrightarrow> descriptor f < n) \<and> default_ok f \<and>
     (is_oneof f \<longrightarrow> (label f = OPTIONAL \<or> label f = NONE) \<and> quantifier_offset f \<noteq> 0 \<and>
        default_value f = No_Default) \<and>
     (is_packed f \<longrightarrow> is_packable_type (ftype f)) \<and>
     (label f = REPEATED \<longrightarrow> quantifier_offset f \<noteq> 0) \<and>
     (label f = REQUIRED \<longrightarrow> quantifier_offset f = 0) \<and>
     (label f = OPTIONAL \<and> \<not> is_oneof f \<longrightarrow> (is_ptr_type f \<longleftrightarrow> quantifier_offset f = 0)) \<and>
     (label f = NONE \<and> \<not> is_oneof f \<longrightarrow> quantifier_offset f = 0)"

text \<open>Only the members of one oneof share a place in the struct, and they share both.\<close>

definition fields_apart :: "field_desc \<Rightarrow> field_desc \<Rightarrow> bool" where
  "fields_apart f g \<longleftrightarrow>
     (offset f = offset g \<longrightarrow> is_oneof f \<and> is_oneof g \<and> quantifier_offset f = quantifier_offset g) \<and>
     (quantifier_offset f = quantifier_offset g \<and> quantifier_offset f \<noteq> 0 \<longrightarrow>
        is_oneof f \<and> is_oneof g \<and> offset f = offset g)"

definition desc_ok :: "nat \<Rightarrow> message_desc \<Rightarrow> bool" where
  "desc_ok n desc \<longleftrightarrow>
     field_table desc \<and> 0 < n_quantifiers desc \<and>
     (\<forall>f \<in> set (mfields desc). field_ok n desc f) \<and>
     (\<forall>f \<in> set (mfields desc). \<forall>g \<in> set (mfields desc). f \<noteq> g \<longrightarrow> fields_apart f g) \<and>
     (\<forall>c < n_cells desc. \<exists>f \<in> set (mfields desc). offset f = c) \<and>
     (\<forall>q < n_quantifiers desc. 0 < q \<longrightarrow> (\<exists>f \<in> set (mfields desc). quantifier_offset f = q))"

lemma desc_okD:
  assumes "desc_ok n desc" and "f \<in> set (mfields desc)"
  shows "field_ok n desc f"
  using assms by (simp add: desc_ok_def)

lemma desc_ok_apart:
  assumes "desc_ok n desc" and "f \<in> set (mfields desc)" and "g \<in> set (mfields desc)" and "f \<noteq> g"
  shows "fields_apart f g"
  using assms by (simp add: desc_ok_def)

text \<open>A field outside of the oneofs has its cell, and its word, for itself.\<close>

lemma own_place:
  assumes "desc_ok n desc" and "f \<in> set (mfields desc)" and "g \<in> set (mfields desc)" and "f \<noteq> g"
    and "\<not> is_oneof f \<or> \<not> is_oneof g"
  shows "offset f \<noteq> offset g"
    and "quantifier_offset f = quantifier_offset g \<Longrightarrow> quantifier_offset g = 0"
  using desc_ok_apart [OF assms(1-4)] assms(5) unfolding fields_apart_def by metis+

text \<open>An allocator that never fails.\<close>

definition always_allocates :: "allocator \<Rightarrow> bool" where
  "always_allocates alloc \<longleftrightarrow> (\<forall>place bytes. alloc place bytes)"

text \<open>The field a tag belongs to, if any.\<close>

definition field_of :: "message_desc \<Rightarrow> u32 \<Rightarrow> nat option" where
  "field_of desc tag =
     (let r = linear_search (map (\<lambda>f. sint (tid f)) (mfields desc)) (sint tag) in
      if r < 0 then None else Some (nat r))"

lemma linear_search_range:
  "linear_search xs v = -1 \<and> v \<notin> set xs \<or>
   (\<exists>i < length xs. linear_search xs v = int i \<and> xs ! i = v)"
proof (induction xs)
  case (Cons x xs)
  show ?case
  proof (cases "x = v")
    case True
    then show ?thesis by (auto intro: exI [of _ 0])
  next
    case False
    from Cons show ?thesis
    proof (elim disjE exE conjE)
      fix i assume "i < length xs" "linear_search xs v = int i" "xs ! i = v"
      with False show ?thesis by (auto simp: Let_def intro!: exI [of _ "Suc i"])
    qed (use False in auto)
  qed
qed simp

lemma tids_distinct:
  assumes "field_table desc" "i < length (mfields desc)" "j < length (mfields desc)"
    "tid (mfields desc ! i) = tid (mfields desc ! j)"
  shows "i = j"
  using ids_distinct [of "map (\<lambda>f. sint (tid f)) (mfields desc)" "field_ranges desc" i j] assms
  by (simp add: field_table_def)

lemma field_of_cases:
  assumes "field_table desc"
  obtains (unknown) "field_of desc tag = None" "\<And>f. f \<in> set (mfields desc) \<Longrightarrow> tid f \<noteq> tag"
      "field_index desc tag = Some (-1)"
  | (known) i where "field_of desc tag = Some i" "i < length (mfields desc)" "tid (mfields desc ! i) = tag"
      "field_index desc tag = Some (int i)"
proof -
  let ?ids = "map (\<lambda>f. sint (tid f)) (mfields desc)"
  note ix = field_index_linear [OF assms, of tag]
  from linear_search_range [of ?ids "sint tag"] show thesis
  proof (elim disjE exE conjE)
    assume "linear_search ?ids (sint tag) = -1" "sint tag \<notin> set ?ids"
    with ix unknown show thesis by (auto simp: field_of_def sint_eq_iff)
  next
    fix i assume "i < length ?ids" "linear_search ?ids (sint tag) = int i" "?ids ! i = sint tag"
    with ix known [of i] show thesis by (simp add: field_of_def sint_eq_iff)
  qed
qed

lemma field_of_field:
  assumes "field_table desc" "i < length (mfields desc)"
  shows "field_of desc (tid (mfields desc ! i)) = Some i"
proof (rule field_of_cases [OF assms(1), of "tid (mfields desc ! i)"])
  assume "\<And>f. f \<in> set (mfields desc) \<Longrightarrow> tid f \<noteq> tid (mfields desc ! i)"
  with assms(2) show ?thesis using nth_mem by blast
next
  fix j assume "field_of desc (tid (mfields desc ! i)) = Some j" "j < length (mfields desc)"
    "tid (mfields desc ! j) = tid (mfields desc ! i)"
  with tids_distinct [OF assms(1), of j i] assms(2) show ?thesis by simp
qed

lemma field_of_lt: "field_table desc \<Longrightarrow> field_of desc tag = Some i \<Longrightarrow> i < length (mfields desc)"
  by (rule field_of_cases [of desc tag]) auto

text \<open>The cache of the last field never changes the field found.\<close>

lemma find_field_eq:
  assumes t: "field_table desc" and "mfields desc = [] \<or> last_ix < length (mfields desc)"
  shows "find_field desc tag last_ix =
     Ok (field_of desc tag, case field_of desc tag of None \<Rightarrow> last_ix | Some i \<Rightarrow> i)"
proof (cases "mfields desc = [] \<or> tid (mfields desc ! last_ix) \<noteq> tag")
  case True
  with t show ?thesis
    by (cases rule: field_of_cases [of desc tag]) (auto simp: find_field_def)
next
  case False
  with assms field_of_field [OF t, of last_ix] show ?thesis by (auto simp: find_field_def)
qed

section \<open>One member\<close>

definition member_ok :: "scanned_member \<Rightarrow> bool" where
  "member_ok sm \<longleftrightarrow>
     0 < slen sm \<and> slen sm \<le> length (sdata sm) \<and> length_prefix_len sm \<le> slen sm \<and>
     (swire sm = of_nat WIRE_TYPE_64BIT \<longrightarrow> slen sm = 8) \<and>
     (swire sm = of_nat WIRE_TYPE_32BIT \<longrightarrow> slen sm = 4)"

lemma scan_value_fine:
  shows "scan_value wire at \<noteq> Fault"
    and "scan_value wire at = Ok (len, pref) \<Longrightarrow>
      member_ok \<lparr>stag = t, swire = wire, length_prefix_len = pref, sfield = fld, slen = len, sdata = at\<rparr>"
proof -
  define k where "k = (if length at < 10 then length at else 10)"
  have "0 + k \<le> length at" by (simp add: k_def)
  then obtain i where i: "scan_more 0 k at = Some i" "i \<le> 0 + k" by (rule scan_more_total)
  have k: "k \<le> length at" by (simp add: k_def)
  obtain r where r: "scan_length_prefixed_data at = Some r"
    "fst r = 0 \<or> snd r \<le> fst r \<and> fst r \<le> length at"
    by (rule scan_length_prefixed_data_cases [of at]) auto
  show "scan_value wire at \<noteq> Fault"
    using i r by (auto simp: scan_value_def Let_def split: prod.splits simp flip: k_def)
  show "member_ok \<lparr>stag = t, swire = wire, length_prefix_len = pref, sfield = fld, slen = len, sdata = at\<rparr>"
    if "scan_value wire at = Ok (len, pref)"
    using that i k r
    by (auto simp: scan_value_def member_ok_def wire_types Let_def split: prod.splits if_splits simp flip: k_def)
qed

lemma max_b128_le: "max_b128_numbers xs \<le> length xs"
  by (induction xs) auto

lemma count_packed_fine:
  assumes "len \<le> length data"
  shows "count_packed_elements type len data \<noteq> Fault"
    and "count_packed_elements type len data = Ok n \<Longrightarrow> n \<le> len"
  using assms max_b128_le [of "take len data"]
  by (auto simp: count_packed_elements_def split: if_splits)

lemma member_count_fine:
  assumes "member_ok sm"
  shows "member_count field sm \<noteq> Fault" and "member_count field sm = Ok n \<Longrightarrow> n \<le> slen sm"
  using assms count_packed_fine [of "slen sm - length_prefix_len sm" "drop (length_prefix_len sm) (sdata sm)" "ftype field"]
  by (fastforce simp: member_count_def member_ok_def split: if_splits)+


section \<open>Bitmap and slabs\<close>



lemma bitmap_is_set_eq:
  "bitmap_is_set bm i = (if i div 8 < length bm then Ok (bit (bm ! (i div 8)) (i mod 8)) else Fault)"
  by (simp add: bitmap_is_set_def push_bit_eq_mult and_exp_eq_0_iff_not_bit)

lemma bitmap_set_fine:
  assumes "i div 8 < length bm"
  obtains bm' where "bitmap_set bm i = Ok bm'" "length bm' = length bm"
    "\<And>j. bitmap_is_set bm' j = (if j = i then Ok True else bitmap_is_set bm j)"
proof
  let ?bm = "bm[i div 8 := bm ! (i div 8) OR push_bit (i mod 8) 1]"
  show "bitmap_set bm i = Ok ?bm" using assms by (simp add: bitmap_set_def)
  have "i mod 8 < 8" by simp
  then show "bitmap_is_set ?bm j = (if j = i then Ok True else bitmap_is_set bm j)" for j
  proof (cases "j = i")
    case False
    then have "\<not> (i div 8 = j div 8 \<and> j mod 8 = i mod 8)" by (metis div_mult_mod_eq)
    with False assms show ?thesis by (auto simp: bitmap_is_set_eq nth_list_update bit_simps)
  qed (use assms \<open>i mod 8 < 8\<close> in \<open>simp add: bitmap_is_set_eq bit_simps\<close>)
qed simp

definition slabs_ok :: "scan_state \<Rightarrow> bool" where
  "slabs_ok st \<longleftrightarrow>
     length (slabs st) = which_slab st + 1 \<and> which_slab st \<le> MAX_SCANNED_MEMBER_SLAB \<and>
     (\<forall>i < which_slab st. length (slabs st ! i) = slab_size i) \<and>
     length (slabs st ! which_slab st) = in_slab_index st \<and>
     in_slab_index st \<le> slab_size (which_slab st)"

definition members_of :: "scan_state \<Rightarrow> scanned_member list" where
  "members_of st = concat (slabs st)"

text \<open>The rest of the state, which storing a member leaves alone.\<close>

definition same_rest :: "scan_state \<Rightarrow> scan_state \<Rightarrow> bool" where
  "same_rest st' st \<longleftrightarrow>
     last_field_index st' = last_field_index st \<and>
     required_fields_bitmap st' = required_fields_bitmap st \<and>
     n_unknown st' = n_unknown st \<and> counts st' = counts st"

text \<open>How many members the slabs hold before the scan gives up.\<close>

definition max_members :: nat where
  "max_members = 2 ^ (MAX_SCANNED_MEMBER_SLAB + 1 + FIRST_SCANNED_MEMBER_SLAB_SIZE_LOG2)
     - 2 ^ FIRST_SCANNED_MEMBER_SLAB_SIZE_LOG2"

lemma slab_size_pos: "0 < slab_size i"
  by (simp add: slab_size_def)

lemma next_slab_cases:
  assumes "slabs_ok st"
  obtains (full) "next_slab alloc st = Fail" "in_slab_index st = slab_size (which_slab st)"
      "which_slab st = MAX_SCANNED_MEMBER_SLAB \<or> (\<exists>p n. \<not> alloc p n)"
  | (room) st' where "next_slab alloc st = Ok st'" "slabs_ok st'" "members_of st' = members_of st"
      "in_slab_index st' < slab_size (which_slab st')"
      "same_rest st' st"
proof (cases "in_slab_index st = slab_size (which_slab st)")
  case True
  show thesis
  proof (cases "which_slab st = MAX_SCANNED_MEMBER_SLAB \<or>
      \<not> alloc [2, which_slab st + 1] (sizeof_scanned_member * slab_size (which_slab st + 1))")
    case fail: True
    with True show thesis by (intro full) (auto simp: next_slab_def)
  next
    case False
    with True assms show thesis
      by (intro room [of "st\<lparr>in_slab_index := 0, which_slab := which_slab st + 1, slabs := slabs st @ [[]]\<rparr>"])
         (auto simp: next_slab_def slabs_ok_def members_of_def nth_append less_Suc_eq slab_size_pos same_rest_def)
  qed
next
  case False
  with assms show thesis
    by (intro room [of st]) (auto simp: next_slab_def slabs_ok_def same_rest_def)
qed

lemma concat_snoc_last: "xss \<noteq> [] \<Longrightarrow> concat (xss[length xss - 1 := last xss @ [x]]) = concat xss @ [x]"
  by (cases xss rule: rev_cases) auto

lemma store_member_fine:
  assumes "slabs_ok st" and "in_slab_index st < slab_size (which_slab st)"
  obtains st' where "store_member sm st = Ok st'" "slabs_ok st'" "members_of st' = members_of st @ [sm]"
    "same_rest st' st"
proof
  let ?st = "st\<lparr>in_slab_index := in_slab_index st + 1,
      slabs := (slabs st)[which_slab st := slabs st ! which_slab st @ [sm]]\<rparr>"
  show "store_member sm st = Ok ?st" "slabs_ok ?st"
    using assms by (auto simp: store_member_def slabs_ok_def nth_list_update)
  have "slabs st \<noteq> []" "which_slab st = length (slabs st) - 1"
    using assms by (auto simp: slabs_ok_def)
  then show "members_of ?st = members_of st @ [sm]"
    using concat_snoc_last [of "slabs st" sm] by (simp add: members_of_def last_conv_nth)
qed (simp add: same_rest_def)

lemma slab_sizes: "(\<Sum>i<k. slab_size i) = 2 ^ (k + FIRST_SCANNED_MEMBER_SLAB_SIZE_LOG2) - 2 ^ FIRST_SCANNED_MEMBER_SLAB_SIZE_LOG2"
  by (induction k) (simp_all add: slab_size_def)

lemma length_members:
  assumes "slabs_ok st"
  shows "length (members_of st) = (\<Sum>i<which_slab st. slab_size i) + in_slab_index st"
proof -
  have "length (members_of st) = (\<Sum>i<length (slabs st). length (slabs st ! i))"
    by (simp add: members_of_def length_concat sum_list_sum_nth atLeast0LessThan)
  also have "\<dots> = (\<Sum>i<which_slab st. length (slabs st ! i)) + length (slabs st ! which_slab st)"
    using assms by (simp add: slabs_ok_def)
  also have "(\<Sum>i<which_slab st. length (slabs st ! i)) = (\<Sum>i<which_slab st. slab_size i)"
    using assms by (intro sum.cong) (auto simp: slabs_ok_def)
  finally show ?thesis using assms by (simp add: slabs_ok_def)
qed

lemma slabs_full:
  assumes "slabs_ok st" "in_slab_index st = slab_size (which_slab st)" "which_slab st = MAX_SCANNED_MEMBER_SLAB"
  shows "length (members_of st) = max_members"
proof -
  have "length (members_of st) = (\<Sum>i<Suc (which_slab st). slab_size i)"
    using length_members [OF assms(1)] assms(2) by simp
  then show ?thesis unfolding slab_sizes by (simp add: max_members_def assms(3))
qed


section \<open>The state after some members\<close>

definition mcount :: "message_desc \<Rightarrow> scanned_member \<Rightarrow> nat" where
  "mcount desc sm =
     (case sfield sm of
        None \<Rightarrow> 0
      | Some i \<Rightarrow> (case member_count (mfields desc ! i) sm of Ok n \<Rightarrow> n | _ \<Rightarrow> 0))"

text \<open>The elements the members hold for field \<open>i\<close>.\<close>

definition elements :: "message_desc \<Rightarrow> nat \<Rightarrow> scanned_member list \<Rightarrow> nat" where
  "elements desc i ms = (\<Sum>sm\<leftarrow>ms. if sfield sm = Some i then mcount desc sm else 0)"

definition countable :: "message_desc \<Rightarrow> scanned_member \<Rightarrow> bool" where
  "countable desc sm \<longleftrightarrow>
     (\<forall>i. sfield sm = Some i \<and> label (mfields desc ! i) = REPEATED \<longrightarrow>
        member_count (mfields desc ! i) sm = Ok (mcount desc sm))"

definition good_member :: "message_desc \<Rightarrow> scanned_member \<Rightarrow> bool" where
  "good_member desc sm \<longleftrightarrow> member_ok sm \<and> sfield sm = field_of desc (stag sm) \<and> countable desc sm"

definition unknowns :: "scanned_member list \<Rightarrow> nat" where
  "unknowns ms = length (filter (\<lambda>sm. sfield sm = None) ms)"

definition no_count :: "message_desc \<Rightarrow> nat \<Rightarrow> bool" where
  "no_count desc q \<longleftrightarrow> (\<forall>f \<in> set (mfields desc). label f = REPEATED \<longrightarrow> quantifier_offset f \<noteq> q)"

definition counted :: "message_desc \<Rightarrow> scanned_member list \<Rightarrow> u32 list \<Rightarrow> bool" where
  "counted desc ms qs \<longleftrightarrow>
     length qs = n_quantifiers desc \<and>
     (\<forall>i < length (mfields desc). label (mfields desc ! i) = REPEATED \<longrightarrow>
        quantifier_at qs (quantifier_offset (mfields desc ! i)) = of_nat (elements desc i ms)) \<and>
     (\<forall>q. no_count desc q \<longrightarrow> quantifier_at qs q = quantifier_at (message_init_quantifiers desc) q)"

definition seen :: "message_desc \<Rightarrow> scanned_member list \<Rightarrow> nat \<Rightarrow> bool" where
  "seen desc ms i \<longleftrightarrow> label (mfields desc ! i) = REQUIRED \<and> (\<exists>sm \<in> set ms. sfield sm = Some i)"

definition scanned :: "message_desc \<Rightarrow> scanned_member list \<Rightarrow> scan_state \<Rightarrow> bool" where
  "scanned desc ms st \<longleftrightarrow>
     slabs_ok st \<and> members_of st = ms \<and>
     (mfields desc = [] \<or> last_field_index st < length (mfields desc)) \<and>
     (\<forall>i < length (mfields desc). bitmap_is_set (required_fields_bitmap st) i = Ok (seen desc ms i)) \<and>
     n_unknown st = unknowns ms \<and> counted desc ms (counts st)"

lemma elements_snoc [simp]:
  "elements desc i (ms @ [sm]) = elements desc i ms + (if sfield sm = Some i then mcount desc sm else 0)"
  by (simp add: elements_def)

lemma quantifier_at_update:
  "quantifier_at (qs[q := v]) p = (if p = q \<and> q < length qs then v else quantifier_at qs p)"
  by (auto simp: quantifier_at_def nth_list_update)

lemma quantifier_at_init: "quantifier_at (message_init_quantifiers desc) q = (if q = 0 then 1 else 0)"
  by (auto simp: quantifier_at_def message_init_quantifiers_def nth_Cons split: nat.split)

lemma scan_init_scanned:
  assumes "desc_ok n desc"
  shows "scanned desc [] (scan_init desc (message_init_quantifiers desc))"
proof -
  have "i div 8 < bitmap_len desc" if "i < length (mfields desc)" for i
    using that by (simp add: bitmap_len_def)
  moreover have "\<forall>i < length (mfields desc). label (mfields desc ! i) = REPEATED \<longrightarrow>
      quantifier_offset (mfields desc ! i) \<noteq> 0"
    using desc_okD [OF assms nth_mem] by (auto simp: field_ok_def)
  moreover have "length (message_init_quantifiers desc) = n_quantifiers desc"
    using assms by (simp add: message_init_quantifiers_def desc_ok_def)
  ultimately show ?thesis
    by (auto simp: scanned_def scan_init_def slabs_ok_def members_of_def bitmap_is_set_eq unknowns_def
        counted_def elements_def seen_def quantifier_at_init slab_size_def)
qed

lemma repeated_quantifier:
  assumes "desc_ok n desc" "i < length (mfields desc)" "j < length (mfields desc)"
    "label (mfields desc ! i) = REPEATED" "label (mfields desc ! j) = REPEATED"
    "quantifier_offset (mfields desc ! i) = quantifier_offset (mfields desc ! j)"
  shows "i = j"
proof (rule ccontr)
  let ?f = "mfields desc ! i" and ?g = "mfields desc ! j"
  assume "i \<noteq> j"
  then have "?f \<noteq> ?g" using tids_distinct [of desc i j] assms(1-3) by (auto simp: desc_ok_def)
  then have "fields_apart ?f ?g" by (intro desc_ok_apart [OF assms(1)]) (simp_all add: assms)
  moreover have "field_ok n desc ?f" using assms by (intro desc_okD) simp_all
  ultimately show False using assms(4-) by (simp add: fields_apart_def field_ok_def)
qed

lemma count_member_counted:
  assumes ok: "desc_ok n desc" and c: "counted desc ms (counts st)"
    and sm: "member_ok sm" "sfield sm = field_of desc (stag sm)"
  shows "count_member desc sm st \<noteq> Fault"
    and "count_member desc sm st = Ok st' \<Longrightarrow>
      countable desc sm \<and> (\<exists>qs. st' = st\<lparr>counts := qs\<rparr> \<and> counted desc (ms @ [sm]) qs)"
    and "countable desc sm \<Longrightarrow> count_member desc sm st \<noteq> Fail"
proof -
  have t: "field_table desc" using ok by (simp add: desc_ok_def)
  note mc = member_count_fine [OF sm(1)]
  show "count_member desc sm st \<noteq> Fault"
    using mc by (auto simp: count_member_def Let_def on_ok_eq_Fault split: option.splits)
  show "count_member desc sm st \<noteq> Fail" if "countable desc sm"
    using that by (auto simp: count_member_def countable_def Let_def split: option.splits)
  show "countable desc sm \<and> (\<exists>qs. st' = st\<lparr>counts := qs\<rparr> \<and> counted desc (ms @ [sm]) qs)"
    if r: "count_member desc sm st = Ok st'"
  proof (cases "\<exists>i. sfield sm = Some i \<and> label (mfields desc ! i) = REPEATED")
    case False
    then have "st' = st" "countable desc sm"
      using r by (auto simp: count_member_def countable_def Let_def split: option.splits)
    moreover have "counted desc (ms @ [sm]) (counts st)"
      using c False by (auto simp: counted_def)
    ultimately show ?thesis by (intro conjI exI [of _ "counts st"]) simp_all
  next
    case True
    then obtain i where i: "sfield sm = Some i" "label (mfields desc ! i) = REPEATED" by blast
    let ?f = "mfields desc ! i"
    have lt: "i < length (mfields desc)" using field_of_lt [OF t] sm(2) i(1) by simp
    have f: "field_ok n desc ?f" using ok lt by (simp add: desc_okD)
    obtain k where k: "member_count ?f sm = Ok k"
      and st': "st' = st\<lparr>counts := (counts st)[quantifier_offset ?f := quantifier_at (counts st) (quantifier_offset ?f) + of_nat k]\<rparr>"
      using r i by (auto simp: count_member_def Let_def on_ok_eq_Ok)
    have "countable desc sm" and m: "mcount desc sm = k"
      using i k by (simp_all add: countable_def mcount_def)
    moreover have "counted desc (ms @ [sm])
       ((counts st)[quantifier_offset ?f := quantifier_at (counts st) (quantifier_offset ?f) + of_nat k])"
      using c i lt f m repeated_quantifier [OF ok lt _ i(2)]
      by (auto simp: counted_def quantifier_at_update field_ok_def no_count_def)
    ultimately show ?thesis using st' by blast
  qed
qed


section \<open>One turn of the scan, and all of them\<close>

text \<open>The state once the field of the member is known and marked.\<close>

lemma mark_required:
  assumes ok: "desc_ok n desc" and sc: "scanned desc ms st"
    and sm: "sfield sm = field_of desc tag"
    and ix: "ix = (case field_of desc tag of None \<Rightarrow> last_field_index st | Some i \<Rightarrow> i)"
  obtains bm where
    "(if is_required desc (field_of desc tag) then bitmap_set (required_fields_bitmap st) ix
      else Ok (required_fields_bitmap st)) = Ok bm"
    "\<forall>i < length (mfields desc). bitmap_is_set bm i = Ok (seen desc (ms @ [sm]) i)"
proof (cases "is_required desc (field_of desc tag)")
  case False
  then show ?thesis
    using sc sm that by (auto simp: scanned_def seen_def is_required_def split: option.splits)
next
  case True
  then obtain i where i: "field_of desc tag = Some i" "label (mfields desc ! i) = REQUIRED"
    by (auto simp: is_required_def split: option.splits)
  have lt: "i < length (mfields desc)" using field_of_lt [of desc tag] i ok by (simp add: desc_ok_def)
  have set: "bitmap_is_set (required_fields_bitmap st) j = Ok (seen desc ms j)" if "j < length (mfields desc)" for j
    using sc that by (simp add: scanned_def)
  then have "i div 8 < length (required_fields_bitmap st)"
    using lt by (force simp: bitmap_is_set_eq split: if_splits)
  then show ?thesis
  proof (rule bitmap_set_fine)
    fix bm assume "bitmap_set (required_fields_bitmap st) i = Ok bm"
      "\<And>j. bitmap_is_set bm j = (if j = i then Ok True else bitmap_is_set (required_fields_bitmap st) j)"
    then show ?thesis
      using True i ix set sm by (intro that [of bm]) (auto simp: seen_def)
  qed
qed

lemma scan_step_core:
  assumes ok: "desc_ok n desc" and sc: "scanned desc ms st"
    and tag: "parse_tag_and_wiretype at = Some (used, tag, wire)" and "used \<noteq> 0"
    and val: "scan_value wire (drop used at) = Ok (len, pref)"
    and sm: "sm = \<lparr>stag = tag, swire = wire, length_prefix_len = pref, sfield = field_of desc tag,
                slen = len, sdata = drop used at\<rparr>"
  shows "scan_step desc alloc at st \<noteq> Fault"
    and "scan_step desc alloc at st = Ok (k, st') \<Longrightarrow>
      k = used + len \<and> scanned desc (ms @ [sm]) st' \<and> good_member desc sm"
    and "\<lbrakk>always_allocates alloc; length ms < max_members; countable desc sm\<rbrakk> \<Longrightarrow> scan_step desc alloc at st \<noteq> Fail"
proof -
  define ix where "ix = (case field_of desc tag of None \<Rightarrow> last_field_index st | Some i \<Rightarrow> i)"
  have t: "field_table desc" using ok by (simp add: desc_ok_def)
  have last: "mfields desc = [] \<or> last_field_index st < length (mfields desc)"
    using sc by (simp add: scanned_def)
  have ix_lt: "mfields desc = [] \<or> ix < length (mfields desc)"
    using last field_of_lt [OF t, of tag] by (auto simp: ix_def split: option.splits)
  obtain bm where bm: "(if is_required desc (field_of desc tag) then bitmap_set (required_fields_bitmap st) ix
      else Ok (required_fields_bitmap st)) = Ok bm"
    "\<forall>i < length (mfields desc). bitmap_is_set bm i = Ok (seen desc (ms @ [sm]) i)"
    by (rule mark_required [OF ok sc _ ix_def, of sm]) (simp add: sm)
  define st1 where "st1 = st\<lparr>last_field_index := ix,
      n_unknown := (if field_of desc tag = None then n_unknown st + 1 else n_unknown st),
      required_fields_bitmap := bm\<rparr>"
  have step: "scan_step desc alloc at st =
      on_ok (next_slab alloc st1) (\<lambda>st. on_ok (store_member sm st) (\<lambda>st.
        on_ok (count_member desc sm st) (\<lambda>st. Ok (used + len, st))))"
    using assms(4) bm(1)
    by (cases "is_required desc (field_of desc tag)")
       (simp_all add: scan_step_def tag find_field_eq [OF t last] val sm st1_def Let_def flip: ix_def)
  have sl: "slabs_ok st1" "members_of st1 = ms"
    using sc by (simp_all add: scanned_def slabs_ok_def members_of_def st1_def)
  have cnt: "counts st1 = counts st" "counted desc ms (counts st)"
    using sc by (simp_all add: scanned_def st1_def)
  have mok: "member_ok sm" using scan_value_fine(2) [OF val] by (simp add: sm)
  have fld: "sfield sm = field_of desc (stag sm)" by (simp add: sm)
  { fix st2 st3
    assume st3: "slabs_ok st3" "members_of st3 = ms @ [sm]" "same_rest st3 st1"
    note c = count_member_counted [OF ok _ mok fld, of ms st3]
    have c3: "counted desc ms (counts st3)" using st3(3) cnt by (simp add: same_rest_def)
    have "scanned desc (ms @ [sm]) (st3\<lparr>counts := qs\<rparr>)" if "counted desc (ms @ [sm]) qs" for qs
      using that st3 bm(2) ix_lt sc
      by (auto simp: scanned_def same_rest_def st1_def slabs_ok_def members_of_def unknowns_def sm)
    with c [OF c3] have "count_member desc sm st3 \<noteq> Fault"
      "count_member desc sm st3 = Ok st4 \<Longrightarrow> scanned desc (ms @ [sm]) st4 \<and> good_member desc sm"
      "countable desc sm \<Longrightarrow> count_member desc sm st3 \<noteq> Fail" for st4
      using mok fld by (auto simp: good_member_def)
  } note count = this
  consider (full) "next_slab alloc st1 = Fail" "length ms = max_members \<or> (\<exists>p m. \<not> alloc p m)"
    | (go) st2 st3 where "next_slab alloc st1 = Ok st2" "store_member sm st2 = Ok st3"
        "slabs_ok st3" "members_of st3 = ms @ [sm]" "same_rest st3 st1"
  proof (rule next_slab_cases [OF sl(1), of alloc])
    assume "next_slab alloc st1 = Fail" "in_slab_index st1 = slab_size (which_slab st1)"
      "which_slab st1 = MAX_SCANNED_MEMBER_SLAB \<or> (\<exists>p n. \<not> alloc p n)"
    with slabs_full [OF sl(1)] sl(2) full show thesis by auto
  next
    fix st2 assume st2: "next_slab alloc st1 = Ok st2" "slabs_ok st2" "members_of st2 = members_of st1"
      "in_slab_index st2 < slab_size (which_slab st2)" "same_rest st2 st1"
    obtain st3 where "store_member sm st2 = Ok st3" "slabs_ok st3" "members_of st3 = members_of st2 @ [sm]"
      "same_rest st3 st2"
      by (rule store_member_fine [OF st2(2,4)])
    with st2 sl(2) show thesis by (intro go [of st2 st3]) (simp_all add: same_rest_def)
  qed
  note slab_cases = this
  show "scan_step desc alloc at st \<noteq> Fault"
    by (cases rule: slab_cases) (use count(1) in \<open>auto simp: step on_ok_eq_Fault\<close>)
  show "k = used + len \<and> scanned desc (ms @ [sm]) st' \<and> good_member desc sm"
    if "scan_step desc alloc at st = Ok (k, st')"
    using that by (cases rule: slab_cases) (use count(2) in \<open>auto simp: step on_ok_eq_Ok\<close>)
  show "scan_step desc alloc at st \<noteq> Fail"
    if "always_allocates alloc" "length ms < max_members" "countable desc sm"
  proof (cases rule: slab_cases)
    case (go st2 st3)
    with count(1,3) [OF go(3-5)] that(3) show ?thesis
      by (cases "count_member desc sm st3") (simp_all add: step)
  qed (use that in \<open>auto simp: always_allocates_def\<close>)
qed

lemma scan_step_fine:
  assumes ok: "desc_ok n desc" and sc: "scanned desc ms st" and at: "at \<noteq> []"
  shows "scan_step desc alloc at st \<noteq> Fault"
    and "scan_step desc alloc at st = Ok (k, st') \<Longrightarrow>
      \<exists>sm. scanned desc (ms @ [sm]) st' \<and> good_member desc sm \<and> slen sm < k \<and> k \<le> length at"
proof -
  obtain used tag wire where tag: "parse_tag_and_wiretype at = Some (used, tag, wire)" "used \<le> length at"
    by (rule parse_tag_and_wiretype_total [OF at])
  have t: "field_table desc" and last: "mfields desc = [] \<or> last_field_index st < length (mfields desc)"
    using ok sc by (simp_all add: desc_ok_def scanned_def)
  show "scan_step desc alloc at st \<noteq> Fault"
  proof (cases "scan_value wire (drop used at)")
    case (Ok r)
    then show ?thesis
      using scan_step_core(1) [OF ok sc tag(1) _ _ refl] by (cases r; cases "used = 0") (auto simp: scan_step_def tag)
  next
    case Fault
    with scan_value_fine(1) show ?thesis by blast
  next
    case Fail
    obtain bm where "(if is_required desc (field_of desc tag) then bitmap_set (required_fields_bitmap st)
        (case field_of desc tag of None \<Rightarrow> last_field_index st | Some i \<Rightarrow> i)
      else Ok (required_fields_bitmap st)) = Ok bm"
      by (rule mark_required [OF ok sc _ refl, of "\<lparr>stag = tag, swire = wire, length_prefix_len = 0,
            sfield = field_of desc tag, slen = 0, sdata = []\<rparr>"]) simp_all
    with Fail show ?thesis
      by (cases "is_required desc (field_of desc tag)"; cases "field_of desc tag")
         (simp_all add: scan_step_def tag find_field_eq [OF t last] Let_def)
  qed
  assume r: "scan_step desc alloc at st = Ok (k, st')"
  then obtain len pref where v: "used \<noteq> 0" "scan_value wire (drop used at) = Ok (len, pref)"
    by (auto simp: scan_step_def tag on_ok_eq_Ok Let_def split: if_splits prod.splits)
  define sm where "sm = \<lparr>stag = tag, swire = wire, length_prefix_len = pref, sfield = field_of desc tag,
      slen = len, sdata = drop used at\<rparr>"
  have "k = used + len" "scanned desc (ms @ [sm]) st'" "good_member desc sm"
    using scan_step_core(2) [OF ok sc tag(1) v sm_def r] by simp_all
  with v(1) tag(2) show "\<exists>sm. scanned desc (ms @ [sm]) st' \<and> good_member desc sm \<and> slen sm < k \<and> k \<le> length at"
    by (intro exI [of _ sm]) (auto simp: sm_def good_member_def member_ok_def)
qed

definition total_len :: "scanned_member list \<Rightarrow> nat" where
  "total_len ms = (\<Sum>sm\<leftarrow>ms. slen sm)"

lemma scan_loop_fine:
  assumes ok: "desc_ok n desc" and "scanned desc ms st" and "list_all (good_member desc) ms"
  shows "scan_loop desc alloc at st \<noteq> Fault"
    and "scan_loop desc alloc at st = Ok st' \<Longrightarrow>
      \<exists>ms'. scanned desc (ms @ ms') st' \<and> list_all (good_member desc) ms' \<and>
        total_len ms' \<le> length at \<and> (at \<noteq> [] \<longrightarrow> total_len ms' < length at)"
proof -
  have "scan_loop desc alloc at st \<noteq> Fault \<and>
    (scan_loop desc alloc at st = Ok st' \<longrightarrow>
      (\<exists>ms'. scanned desc (ms @ ms') st' \<and> list_all (good_member desc) ms' \<and>
        total_len ms' \<le> length at \<and> (at \<noteq> [] \<longrightarrow> total_len ms' < length at)))"
    using assms(2)
  proof (induction "length at" arbitrary: at ms st rule: less_induct)
    case less
    show ?case
    proof (cases "at = []")
      case True
      with less.prems show ?thesis
        by (subst (1 2) scan_loop.simps) (auto simp: total_len_def intro!: exI [of _ "[]"])
    next
      case False
      note f = scan_step_fine [OF ok less.prems False, of alloc]
      show ?thesis
      proof (cases "scan_step desc alloc at st")
        case (Ok r)
        obtain k st1 where r: "scan_step desc alloc at st = Ok (k, st1)" using Ok by (cases r) auto
        from f(2) [OF r] obtain sm where sm: "scanned desc (ms @ [sm]) st1" "good_member desc sm"
          "slen sm < k" "k \<le> length at" by blast
        have "length (drop k at) < length at" using sm False by simp
        note ih = less.hyps [OF this sm(1)]
        have eq: "scan_loop desc alloc at st = scan_loop desc alloc (drop k at) st1"
          using False r by (subst scan_loop.simps) simp
        show ?thesis
        proof (intro conjI impI)
          show "scan_loop desc alloc at st \<noteq> Fault" using ih eq by simp
          assume "scan_loop desc alloc at st = Ok st'"
          with ih eq obtain ms' where ms': "scanned desc ((ms @ [sm]) @ ms') st'"
            "list_all (good_member desc) ms'" "total_len ms' \<le> length (drop k at)" by auto
          with sm show "\<exists>ms'. scanned desc (ms @ ms') st' \<and> list_all (good_member desc) ms' \<and>
              total_len ms' \<le> length at \<and> (at \<noteq> [] \<longrightarrow> total_len ms' < length at)"
            by (intro exI [of _ "sm # ms'"]) (auto simp: total_len_def)
        qed
      qed (use False f(1) in \<open>subst (1 2) scan_loop.simps; simp\<close>)+
    qed
  qed
  then show "scan_loop desc alloc at st \<noteq> Fault"
    and "scan_loop desc alloc at st = Ok st' \<Longrightarrow>
      \<exists>ms'. scanned desc (ms @ ms') st' \<and> list_all (good_member desc) ms' \<and>
        total_len ms' \<le> length at \<and> (at \<noteq> [] \<longrightarrow> total_len ms' < length at)"
    by blast+
qed

end
