(* ===== verification/Pb_Merge_Ok.thy ===== *)
theory Pb_Merge_Ok
  imports Pb_Scan_Ok
begin

unbundle bit_operations_syntax

text \<open>
  Merging two embedded messages is safe.  A message is \<open>fine\<close> for a descriptor when its words and
  cells are laid out as the descriptor says, no array is longer than a bound (the bytes it was
  unpacked from), a oneof case names a member of its oneof, and embedded messages are fine in turn.
  Merging a message of at most \<open>K\<close> bytes into one of at most \<open>L\<close> never leaves an array or a table and
  gives a message of at most \<open>K + L\<close> bytes.
\<close>

section \<open>Messages laid out as their descriptor says\<close>

text \<open>A value of a message field points to nothing or to a message the field may hold.\<close>

definition holds :: "(nat \<Rightarrow> 'm \<Rightarrow> bool) \<Rightarrow> field_desc \<Rightarrow> 'm pb_val \<Rightarrow> bool" where
  "holds P f v \<longleftrightarrow> ftype f = T_MESSAGE \<longrightarrow>
     (case target (as_msg v) of None \<Rightarrow> True | Some m \<Rightarrow> P (descriptor f) m)"

definition field_fine ::
  "(nat \<Rightarrow> 'm \<Rightarrow> bool) \<Rightarrow> nat \<Rightarrow> u32 list \<Rightarrow> 'm cell list \<Rightarrow> field_desc \<Rightarrow> bool" where
  "field_fine P K qs cells f \<longleftrightarrow>
     (let q = quantifier_at qs (quantifier_offset f) in
      case cells ! offset f of
        Many vs \<Rightarrow> label f = REPEATED \<and> unat q \<le> length vs \<and> unat q \<le> K \<and> (\<forall>v \<in> set vs. holds P f v)
      | One v \<Rightarrow> label f \<noteq> REPEATED \<and>
          (if is_oneof f then (q = 0 \<longrightarrow> as_msg v = Null) \<and> (q = tid f \<longrightarrow> holds P f v) else holds P f v))"

definition cases_fine :: "message_desc \<Rightarrow> u32 list \<Rightarrow> bool" where
  "cases_fine desc qs \<longleftrightarrow>
     (\<forall>f \<in> set (mfields desc). is_oneof f \<longrightarrow>
        quantifier_at qs (quantifier_offset f) = 0 \<or>
        (\<exists>g \<in> set (mfields desc). is_oneof g \<and> quantifier_offset g = quantifier_offset f \<and>
           tid g = quantifier_at qs (quantifier_offset f)))"

definition layout_fine ::
  "(nat \<Rightarrow> 'm \<Rightarrow> bool) \<Rightarrow> nat \<Rightarrow> message_desc \<Rightarrow> u32 list \<Rightarrow> 'm cell list \<Rightarrow> bool" where
  "layout_fine P K desc qs cells \<longleftrightarrow>
     length qs = n_quantifiers desc \<and> length cells = n_cells desc \<and> cases_fine desc qs \<and>
     (\<forall>f \<in> set (mfields desc). field_fine P K qs cells f)"

lemma holds_mono: "holds P f v \<Longrightarrow> (\<And>d m. P d m \<Longrightarrow> Q d m) \<Longrightarrow> holds Q f v"
  by (auto simp: holds_def split: option.splits)

lemma field_fine_mono:
  "field_fine P K qs cells f \<Longrightarrow> (\<And>d m. P d m \<Longrightarrow> Q d m) \<Longrightarrow> K \<le> L \<Longrightarrow> field_fine Q L qs cells f"
  by (auto simp: field_fine_def Let_def intro: holds_mono split: cell.splits if_splits)

lemma layout_fine_mono:
  "layout_fine P K desc qs cells \<Longrightarrow> (\<And>d m. P d m \<Longrightarrow> Q d m) \<Longrightarrow> K \<le> L \<Longrightarrow> layout_fine Q L desc qs cells"
  by (auto simp: layout_fine_def intro: field_fine_mono)

lemma layout_fine_mono_rule [mono]:
  "P \<le> Q \<Longrightarrow> layout_fine P K desc qs cells \<longrightarrow> layout_fine Q K desc qs cells"
  by (auto intro: layout_fine_mono)

inductive fine :: "message_desc list \<Rightarrow> nat \<Rightarrow> nat \<Rightarrow> pb_msg \<Rightarrow> bool" for descs K where
  fine_Msg: "d < length descs \<Longrightarrow> layout_fine (fine descs K) K (descs ! d) qs cells \<Longrightarrow>
     fine descs K d (Msg (descs ! d) qs cells us)"

inductive_cases fine_MsgE: "fine descs K d (Msg desc qs cells us)"

lemma fine_mono: "fine descs K d m \<Longrightarrow> K \<le> L \<Longrightarrow> fine descs L d m"
proof (induction rule: fine.induct)
  case (fine_Msg d qs cells us)
  then show ?case by (intro fine.fine_Msg) (auto intro: layout_fine_mono)
qed

definition descs_ok :: "message_desc list \<Rightarrow> bool" where
  "descs_ok descs \<longleftrightarrow> (\<forall>desc \<in> set descs. desc_ok (length descs) desc)"

lemma descs_okD: "descs_ok descs \<Longrightarrow> d < length descs \<Longrightarrow> desc_ok (length descs) (descs ! d)"
  by (simp add: descs_ok_def)

lemma holds_map: "holds P f (map_pb_val h v) \<longleftrightarrow> holds (\<lambda>d m. P d (h m)) f v"
  by (auto simp: holds_def split: option.splits)

lemma as_msg_map_Null [simp]: "map_ptr h p = Null \<longleftrightarrow> p = Null"
  by (cases p) simp_all

lemma field_fine_map:
  "offset f < length cells \<Longrightarrow>
     field_fine P K qs (map (map_cell h) cells) f \<longleftrightarrow> field_fine (\<lambda>d m. P d (h m)) K qs cells f"
  by (auto simp: field_fine_def Let_def holds_map split: cell.splits)

section \<open>Updates that concern another field\<close>

lemma field_fine_cell_other:
  "offset g \<noteq> c \<Longrightarrow> field_fine P K qs (cells[c := x]) g = field_fine P K qs cells g"
  by (simp add: field_fine_def)

lemma field_fine_quant_other:
  "(label g = REPEATED \<or> is_oneof g \<Longrightarrow> quantifier_offset g \<noteq> q) \<Longrightarrow>
     field_fine P K (qs[q := x]) cells g = field_fine P K qs cells g"
  by (auto simp: field_fine_def Let_def quantifier_at_update split: cell.splits)

lemma fields_eqI:
  assumes "desc_ok n desc" "f \<in> set (mfields desc)" "g \<in> set (mfields desc)" "tid f = tid g"
  shows "f = g"
  using assms tids_distinct [of desc] by (auto simp: in_set_conv_nth desc_ok_def)

lemma cases_fine_other:
  assumes "\<And>f. f \<in> set (mfields desc) \<Longrightarrow> is_oneof f \<Longrightarrow> quantifier_offset f \<noteq> q" "cases_fine desc qs"
  shows "cases_fine desc (qs[q := x])"
  using assms by (simp add: cases_fine_def quantifier_at_update)

text \<open>The members of a oneof, and everything else, under an update of the oneof.\<close>

lemma layout_fine_oneof:
  assumes ok: "desc_ok n desc" and g: "g \<in> set (mfields desc)" "is_oneof g"
    and fine: "layout_fine P K desc qs cells"
    and val: "q = 0 \<Longrightarrow> as_msg v = Null" "q = tid g \<Longrightarrow> holds P g v" and q: "q = 0 \<or> q = tid g"
  shows "layout_fine P K desc (qs[quantifier_offset g := q]) (cells[offset g := One v])"
proof -
  have gok: "field_ok n desc g" using ok g by (simp add: desc_okD)
  have "field_fine P K (qs[quantifier_offset g := q]) (cells[offset g := One v]) f" if f: "f \<in> set (mfields desc)" for f
  proof (cases "is_oneof f \<and> quantifier_offset f = quantifier_offset g")
    case True
    then have "offset f = offset g"
      using desc_ok_apart [OF ok f g(1)] gok g by (cases "f = g") (auto simp: fields_apart_def field_ok_def)
    moreover have "label f \<noteq> REPEATED" "tid f \<noteq> 0" using desc_okD [OF ok f] True by (auto simp: field_ok_def)
    moreover have "tid f = tid g \<Longrightarrow> f = g" using fields_eqI [OF ok f g(1)] .
    ultimately show ?thesis
      using True fine gok val q
      by (auto simp: field_fine_def Let_def quantifier_at_update layout_fine_def field_ok_def)
  next
    case False
    then have "f \<noteq> g" using g by auto
    then have "offset f \<noteq> offset g" "quantifier_offset f \<noteq> quantifier_offset g"
      using desc_ok_apart [OF ok f g(1)] False gok g by (auto simp: fields_apart_def field_ok_def)
    with fine f show ?thesis
      by (simp add: field_fine_cell_other field_fine_quant_other layout_fine_def)
  qed
  moreover have "cases_fine desc (qs[quantifier_offset g := q])"
    using fine g q by (auto simp: layout_fine_def cases_fine_def quantifier_at_update)
  ultimately show ?thesis using fine by (simp add: layout_fine_def)
qed

text \<open>A field that is not in a oneof has its cell, and its word, for itself.\<close>

lemma layout_fine_own:
  assumes ok: "desc_ok n desc" and f: "f \<in> set (mfields desc)" "\<not> is_oneof f"
    and fine: "layout_fine P K desc qs cells"
    and qs': "qs' = qs \<or> quantifier_offset f \<noteq> 0 \<and> qs' = qs[quantifier_offset f := q]"
    and new: "field_fine P K qs' (cells[offset f := c]) f"
  shows "layout_fine P K desc qs' (cells[offset f := c])"
proof -
  have "field_fine P K qs' (cells[offset f := c]) g" if g: "g \<in> set (mfields desc)" for g
  proof (cases "g = f")
    case False
    then have "offset g \<noteq> offset f" "quantifier_offset g = quantifier_offset f \<Longrightarrow> quantifier_offset f = 0"
      using desc_ok_apart [OF ok g f(1)] f(2) by (auto simp: fields_apart_def)
    with fine g qs' show ?thesis
      by (auto simp: field_fine_cell_other layout_fine_def intro!: field_fine_quant_other [THEN iffD2])
  qed (use new in simp)
  moreover have "cases_fine desc qs'"
  proof -
    have "quantifier_offset g \<noteq> quantifier_offset f"
      if "g \<in> set (mfields desc)" "is_oneof g" "quantifier_offset f \<noteq> 0" for g
      using desc_ok_apart [OF ok that(1) f(1)] that f(2) by (cases "g = f") (auto simp: fields_apart_def)
    with fine qs' show ?thesis by (auto simp: layout_fine_def intro!: cases_fine_other)
  qed
  ultimately show ?thesis using fine qs' by (auto simp: layout_fine_def)
qed


section \<open>The loop over the fields\<close>

text \<open>A sub-message of the earlier message, with its merger, that can go into one of \<open>L\<close> bytes.\<close>

definition mergeable :: "message_desc list \<Rightarrow> nat \<Rightarrow> nat \<Rightarrow> nat \<Rightarrow> pb_msg \<times> merger \<Rightarrow> bool" where
  "mergeable descs K L d = (\<lambda>(em, merge). fine descs K d em \<and>
     (\<forall>alloc lm. fine descs L d lm \<longrightarrow> merge alloc lm \<noteq> Fault \<and>
        (\<forall>m. merge alloc lm = Ok m \<longrightarrow> fine descs (K + L) d m)))"

definition merging :: "message_desc list \<Rightarrow> nat \<Rightarrow> nat \<Rightarrow> message_desc \<Rightarrow> nat list \<Rightarrow> merge_state \<Rightarrow> bool" where
  "merging descs K L desc todo st \<longleftrightarrow>
     layout_fine (mergeable descs K L) K desc (e_quants st) (e_cells st) \<and>
     layout_fine (fine descs (K + L)) (K + L) desc (l_quants st) (l_cells st) \<and>
     (\<forall>i \<in> set todo. \<not> is_oneof (mfields desc ! i) \<longrightarrow>
        field_fine (fine descs L) L (l_quants st) (l_cells st) (mfields desc ! i))"

definition merged_ok :: "message_desc list \<Rightarrow> nat \<Rightarrow> nat \<Rightarrow> message_desc \<Rightarrow> nat list \<Rightarrow> merge_state pb_result \<Rightarrow> bool" where
  "merged_ok descs K L desc todo r \<longleftrightarrow> r \<noteq> Fault \<and> (\<forall>st. r = Ok st \<longrightarrow> merging descs K L desc todo st)"

lemma holds_moved: "holds (mergeable descs K L) f v \<Longrightarrow> holds (fine descs (K + L)) f (moved v)"
  unfolding holds_map
  by (erule holds_mono) (auto simp: mergeable_def split: prod.splits intro: fine_mono [of descs K])

lemma sizeof_elt: "sizeof_elt_in_repeated_array t = 4 \<or> sizeof_elt_in_repeated_array t = 8"
  by (cases t) (simp_all add: sizeof_elt_in_repeated_array_def)

lemma array_capacity_exact:
  assumes "8 * n < 4294967296"
  shows "array_capacity t (of_nat n) = n"
proof -
  obtain s where s: "sizeof_elt_in_repeated_array t = s" "s = 4 \<or> s = 8" using sizeof_elt by blast
  then have "s * n < 4294967296" using assms by auto
  then have "unat (of_nat s * of_nat n :: u32) = s * n"
    by (simp add: unat_of_nat flip: of_nat_mult)
  then show ?thesis using s by (auto simp: array_capacity_def)
qed

lemma unat_add_small: "unat (a :: u32) + unat b < 4294967296 \<Longrightarrow> unat (a + b) = unat a + unat b"
  by (simp add: unat_word_ariths)

lemma field_fine_repeated:
  assumes "field_fine P K qs cells f" and "label f = REPEATED" and "offset f < length cells"
  obtains vs where "cells ! offset f = Many vs" "unat (quantifier_at qs (quantifier_offset f)) \<le> length vs"
    "unat (quantifier_at qs (quantifier_offset f)) \<le> K" "\<And>v. v \<in> set vs \<Longrightarrow> holds P f v"
    "array_at cells (offset f) (quantifier_at qs (quantifier_offset f)) =
       take (unat (quantifier_at qs (quantifier_offset f))) vs"
proof -
  from assms obtain vs where "cells ! offset f = Many vs"
    by (cases "cells ! offset f") (simp_all add: field_fine_def)
  note c = this
  have ff: "unat (quantifier_at qs (quantifier_offset f)) \<le> length vs \<and>
      unat (quantifier_at qs (quantifier_offset f)) \<le> K \<and> (\<forall>v \<in> set vs. holds P f v)"
    using assms(1) unfolding field_fine_def c Let_def cell.case by blast
  have arr: "array_at cells (offset f) (quantifier_at qs (quantifier_offset f)) =
       take (unat (quantifier_at qs (quantifier_offset f))) vs"
    using assms(3) by (simp add: array_at_def c)
  show thesis
    by (rule that [OF c _ _ _ arr]) (use ff in simp_all)
qed

text \<open>The other fields still to do are untouched by a field outside of the oneofs.\<close>

lemma field_fine_untouched:
  assumes ok: "desc_ok n desc" and "f \<in> set (mfields desc)" "g \<in> set (mfields desc)" "f \<noteq> g"
    and "\<not> is_oneof f \<or> \<not> is_oneof g"
    and "qs' = qs \<or> quantifier_offset f \<noteq> 0 \<and> qs' = qs[quantifier_offset f := q]"
    and "cells' = cells \<or> cells' = cells[offset f := c]"
  shows "field_fine P K qs' cells' g = field_fine P K qs cells g"
proof -
  have "fields_apart f g" using ok assms(2-4) by (rule desc_ok_apart)
  then have "offset g \<noteq> offset f \<and> (quantifier_offset f \<noteq> 0 \<longrightarrow> quantifier_offset g \<noteq> quantifier_offset f)"
    using assms(5) unfolding fields_apart_def by metis
  with assms(6,7) show ?thesis
    by (auto simp: field_fine_cell_other field_fine_quant_other)
qed

lemma merge_repeated_ok:
  assumes ok: "desc_ok n desc" and lim: "8 * (K + L) < 4294967296"
    and m: "merging descs K L desc (i # todo) st" and d: "distinct (i # todo)"
    and i: "\<forall>j \<in> set (i # todo). j < length (mfields desc)" and rep: "label (mfields desc ! i) = REPEATED"
  shows "merged_ok descs K L desc todo (merge_repeated alloc i (mfields desc ! i) st)"
proof -
  define f where "f = mfields desc ! i"
  define ne nl where "ne = quantifier_at (e_quants st) (quantifier_offset f)"
    and "nl = quantifier_at (l_quants st) (quantifier_offset f)"
  have f: "f \<in> set (mfields desc)" "label f = REPEATED" using i rep by (auto simp: f_def)
  have fok: "field_ok n desc f" using ok f by (simp add: desc_okD)
  then have no: "\<not> is_oneof f" and q0: "quantifier_offset f \<noteq> 0" using f by (auto simp: field_ok_def)
  have le: "layout_fine (mergeable descs K L) K desc (e_quants st) (e_cells st)"
    and ll: "layout_fine (fine descs (K + L)) (K + L) desc (l_quants st) (l_cells st)"
    and fl: "field_fine (fine descs L) L (l_quants st) (l_cells st) f"
    using m no by (simp_all add: merging_def f_def)
  have len: "offset f < length (e_cells st)" "offset f < length (l_cells st)"
    "quantifier_offset f < length (e_quants st)" "quantifier_offset f < length (l_quants st)"
    using le ll fok by (simp_all add: layout_fine_def field_ok_def)
  obtain es where es: "e_cells st ! offset f = Many es" "unat ne \<le> length es" "unat ne \<le> K"
    "\<And>v. v \<in> set es \<Longrightarrow> holds (mergeable descs K L) f v"
    "array_at (e_cells st) (offset f) ne = take (unat ne) es"
    using le f(1) field_fine_repeated [OF _ f(2) len(1), of "mergeable descs K L" K "e_quants st"]
    unfolding ne_def layout_fine_def by metis
  obtain ls where ls: "l_cells st ! offset f = Many ls" "unat nl \<le> length ls" "unat nl \<le> L"
    "\<And>v. v \<in> set ls \<Longrightarrow> holds (fine descs L) f v"
    "array_at (l_cells st) (offset f) nl = take (unat nl) ls"
    using field_fine_repeated [OF fl f(2) len(2)] unfolding nl_def by metis
  have hl: "holds (fine descs (K + L)) f v" if "v \<in> set ls" for v
    using ls(4) [OF that] by (rule holds_mono) (auto intro: fine_mono)
  have sum: "unat (ne + nl) = unat ne + unat nl" using es(3) ls(3) lim by (intro unat_add_small) simp
  then have "ne + nl = of_nat (unat ne + unat nl)" by (simp flip: sum)
  then have cap: "array_capacity (ftype f) (ne + nl) = unat ne + unat nl"
    using es(3) ls(3) lim by (simp only:) (intro array_capacity_exact, simp)
  have fin: "merging descs K L desc todo
      (st\<lparr>l_quants := (l_quants st)[quantifier_offset f := q], l_cells := (l_cells st)[offset f := Many vs],
          e_quants := (e_quants st)[quantifier_offset f := 0], e_cells := (e_cells st)[offset f := Many []]\<rparr>)"
    if "unat q = length vs" "unat q \<le> K + L" "\<And>v. v \<in> set vs \<Longrightarrow> holds (fine descs (K + L)) f v" for q vs
  proof -
    have "layout_fine (mergeable descs K L) K desc ((e_quants st)[quantifier_offset f := 0])
        ((e_cells st)[offset f := Many []])"
      using len f q0 by (intro layout_fine_own [OF ok f(1) no le]) (auto simp: field_fine_def quantifier_at_update)
    moreover have "layout_fine (fine descs (K + L)) (K + L) desc ((l_quants st)[quantifier_offset f := q])
        ((l_cells st)[offset f := Many vs])"
      using len f q0 that
      by (intro layout_fine_own [OF ok f(1) no ll]) (auto simp: field_fine_def quantifier_at_update)
    moreover have "field_fine (fine descs L) L ((l_quants st)[quantifier_offset f := q])
        ((l_cells st)[offset f := Many vs]) (mfields desc ! j)"
      if j: "j \<in> set todo" "\<not> is_oneof (mfields desc ! j)" for j
    proof -
      have "f \<noteq> mfields desc ! j"
        using tids_distinct [of desc i j] ok d i j(1) by (auto simp: f_def desc_ok_def)
      then show ?thesis
        using m j i no q0
        by (subst field_fine_untouched [OF ok f(1), of _ _ "l_quants st" _ _ "l_cells st"]) (auto simp: merging_def)
    qed
    ultimately show ?thesis by (simp add: merging_def)
  qed
  have moved: "\<And>v. v \<in> set (map moved (take (unat ne) es)) \<Longrightarrow> holds (fine descs (K + L)) f v"
    using es(4) by (auto intro!: holds_moved dest: in_set_takeD)
  show ?thesis
  proof (cases "ne = 0")
    case True
    then show ?thesis using m by (simp add: merged_ok_def merge_repeated_def merging_def ne_def f_def)
  next
    case ne: False
    then have pos: "0 < ne" by (simp add: word_neq_0_conv)
    show ?thesis
    proof (cases "nl = 0")
      case True
      have "merging descs K L desc todo
        (st\<lparr>l_quants := (l_quants st)[quantifier_offset f := ne],
            l_cells := (l_cells st)[offset f := Many (map moved (take (unat ne) es))],
            e_quants := (e_quants st)[quantifier_offset f := 0], e_cells := (e_cells st)[offset f := Many []]\<rparr>)"
        using es(2,3) moved by (intro fin) simp_all
      with True pos show ?thesis
        by (simp add: merged_ok_def merge_repeated_def Let_def es(5) flip: f_def ne_def nl_def)
    next
      case False
      then have "0 < nl" by (simp add: word_neq_0_conv)
      moreover have "merging descs K L desc todo
        (st\<lparr>l_quants := (l_quants st)[quantifier_offset f := ne + nl],
            l_cells := (l_cells st)[offset f := Many (map moved (take (unat ne) es) @ take (unat nl) ls)],
            e_quants := (e_quants st)[quantifier_offset f := 0], e_cells := (e_cells st)[offset f := Many []]\<rparr>)"
        using es(2,3) ls(2,3) moved sum hl by (intro fin) (auto dest: in_set_takeD)
      ultimately show ?thesis
        using pos cap
        by (simp add: merged_ok_def merge_repeated_def Let_def es(5) ls(5) flip: f_def ne_def nl_def)
    qed
  qed
qed


lemma field_fine_single:
  assumes "field_fine P K qs cells f" and "label f \<noteq> REPEATED" and "offset f < length cells"
  shows "cells ! offset f = One (member_at cells (offset f))"
    and "\<not> is_oneof f \<Longrightarrow> holds P f (member_at cells (offset f))"
    and "is_oneof f \<Longrightarrow> quantifier_at qs (quantifier_offset f) = 0 \<Longrightarrow> as_msg (member_at cells (offset f)) = Null"
    and "is_oneof f \<Longrightarrow> quantifier_at qs (quantifier_offset f) = tid f \<Longrightarrow> holds P f (member_at cells (offset f))"
  using assms by (auto simp: field_fine_def Let_def member_at_def split: cell.splits)

lemma need_to_merge_ok:
  assumes "holds (mergeable descs K L) f (member_at (e_cells st) (offset f))"
    and "as_msg (member_at (l_cells st) (offset f)) \<noteq> Null \<Longrightarrow>
      holds (fine descs L) f (member_at (l_cells st) (offset f))"
  shows "need_to_merge alloc i f ec lc st \<noteq> Fault"
    and "need_to_merge alloc i f ec lc st = Ok (need, st') \<Longrightarrow> st' = st \<or>
      \<not> need \<and> as_msg (member_at (l_cells st) (offset f)) \<noteq> Null \<and>
      (\<exists>v. holds (fine descs (K + L)) f v \<and> st' = st\<lparr>l_cells := (l_cells st)[offset f := One v]\<rparr>)"
proof -
  define em lm where "em = target (as_msg (member_at (e_cells st) (offset f)))"
    and "lm = target (as_msg (member_at (l_cells st) (offset f)))"
  show "need_to_merge alloc i f ec lc st \<noteq> Fault"
    and "need_to_merge alloc i f ec lc st = Ok (need, st') \<Longrightarrow> st' = st \<or>
      \<not> need \<and> as_msg (member_at (l_cells st) (offset f)) \<noteq> Null \<and>
      (\<exists>v. holds (fine descs (K + L)) f v \<and> st' = st\<lparr>l_cells := (l_cells st)[offset f := One v]\<rparr>)"
  proof (atomize (full), cases "ftype f = T_MESSAGE \<and> em \<noteq> None \<and> lm \<noteq> None")
    case False
    then show "need_to_merge alloc i f ec lc st \<noteq> Fault \<and>
      (need_to_merge alloc i f ec lc st = Ok (need, st') \<longrightarrow> st' = st \<or>
      \<not> need \<and> as_msg (member_at (l_cells st) (offset f)) \<noteq> Null \<and>
      (\<exists>v. holds (fine descs (K + L)) f v \<and> st' = st\<lparr>l_cells := (l_cells st)[offset f := One v]\<rparr>))"
      by (cases "ftype f") (auto simp: need_to_merge_def Let_def em_def lm_def split: option.splits prod.splits)
  next
    case True
    then obtain e merge l where e: "em = Some (e, merge)" "lm = Some l" and t: "ftype f = T_MESSAGE" by auto
    have l: "as_msg (member_at (l_cells st) (offset f)) \<noteq> Null" using e(2) by (auto simp: lm_def)
    then have "fine descs L (descriptor f) l"
      using assms(2) e(2) t by (simp add: holds_def lm_def)
    moreover have "mergeable descs K L (descriptor f) (e, merge)"
      using assms(1) e(1) t by (simp add: holds_def em_def)
    ultimately have m: "merge a l \<noteq> Fault" "merge a l = Ok m \<Longrightarrow> fine descs (K + L) (descriptor f) m" for a m
      by (auto simp: mergeable_def)
    show "need_to_merge alloc i f ec lc st \<noteq> Fault \<and>
      (need_to_merge alloc i f ec lc st = Ok (need, st') \<longrightarrow> st' = st \<or>
      \<not> need \<and> as_msg (member_at (l_cells st) (offset f)) \<noteq> Null \<and>
      (\<exists>v. holds (fine descs (K + L)) f v \<and> st' = st\<lparr>l_cells := (l_cells st)[offset f := One v]\<rparr>))"
    proof (cases "merge (\<lambda>place. alloc (i # place)) l")
      case (Ok lm')
      with m(2) have "holds (fine descs (K + L)) f (VMsg (Heap lm'))" by (simp add: holds_def)
      then show ?thesis
        using e t l Ok by (auto simp: need_to_merge_def Let_def em_def lm_def)
    qed (use e t m(1) in \<open>auto simp: need_to_merge_def Let_def em_def lm_def\<close>)
  qed
qed

lemma zero_val_Null [simp]: "as_msg (zero_val f) = Null" "holds P f (zero_val f)"
  by (auto simp: zero_val_def holds_def split: pb_type.splits)

lemma merging_own:
  assumes ok: "desc_ok n desc" and m: "merging descs K L desc (i # todo) st" and d: "distinct (i # todo)"
    and i: "\<forall>j \<in> set (i # todo). j < length (mfields desc)"
    and f: "f = mfields desc ! i" "\<not> is_oneof f" "label f \<noteq> REPEATED" and v: "holds (fine descs (K + L)) f v"
    and st': "e_quants st' = e_quants st \<and> l_quants st' = l_quants st \<or>
      quantifier_offset f \<noteq> 0 \<and> e_quants st' = (e_quants st)[quantifier_offset f := 0] \<and>
        l_quants st' = (l_quants st)[quantifier_offset f := q]"
      "e_cells st' = e_cells st \<or> e_cells st' = (e_cells st)[offset f := One (zero_val f)]"
      "l_cells st' = (l_cells st)[offset f := One v]"
  shows "merging descs K L desc todo st'"
proof -
  have mem: "f \<in> set (mfields desc)" using f(1) i by simp
  have fok: "field_ok n desc f" using ok mem by (simp add: desc_okD)
  have le: "layout_fine (mergeable descs K L) K desc (e_quants st) (e_cells st)"
    and ll: "layout_fine (fine descs (K + L)) (K + L) desc (l_quants st) (l_cells st)"
    using m by (simp_all add: merging_def)
  have len: "offset f < length (e_cells st)" "offset f < length (l_cells st)"
    using le ll fok by (simp_all add: layout_fine_def field_ok_def)
  have ef: "e_cells st ! offset f = One (member_at (e_cells st) (offset f))"
    "holds (mergeable descs K L) f (member_at (e_cells st) (offset f))"
    using le mem f len field_fine_single(1,2) [of "mergeable descs K L" K "e_quants st" "e_cells st" f]
    by (simp_all add: layout_fine_def)
  have eff: "field_fine (mergeable descs K L) K qs (e_cells st) f" for qs
    using ef f by (simp add: field_fine_def Let_def)
  have "layout_fine (mergeable descs K L) K desc (e_quants st') ((e_cells st)[offset f := One w])"
    if "holds (mergeable descs K L) f w" for w
    using st'(1) that f len by (intro layout_fine_own [OF ok mem f(2) le]) (auto simp: field_fine_def Let_def)
  from this [OF ef(2)] this [OF zero_val_Null(2)]
  have "layout_fine (mergeable descs K L) K desc (e_quants st') (e_cells st')"
    using st'(2) ef(1) by (metis list_update_id)
  moreover have "layout_fine (fine descs (K + L)) (K + L) desc (l_quants st') (l_cells st')"
    unfolding st'(3)
    using st'(1) v f len by (intro layout_fine_own [OF ok mem f(2) ll]) (auto simp: field_fine_def Let_def)
  moreover have "field_fine (fine descs L) L (l_quants st') (l_cells st') (mfields desc ! j)"
    if j: "j \<in> set todo" "\<not> is_oneof (mfields desc ! j)" for j
  proof -
    have "f \<noteq> mfields desc ! j"
      using tids_distinct [of desc i j] ok d i j(1) f(1) by (auto simp: desc_ok_def)
    then have "field_fine (fine descs L) L (l_quants st') (l_cells st') (mfields desc ! j) =
        field_fine (fine descs L) L (l_quants st) (l_cells st) (mfields desc ! j)"
      using i j st' f by (intro field_fine_untouched [OF ok mem]) auto
    with m j show ?thesis by (simp add: merging_def)
  qed
  ultimately show ?thesis by (simp add: merging_def)
qed


lemma merging_tail: "merging descs K L desc (i # todo) st \<Longrightarrow> merging descs K L desc todo st"
  by (simp add: merging_def)

lemma merge_plain_ok:
  assumes ok: "desc_ok n desc" and m: "merging descs K L desc (i # todo) st" and d: "distinct (i # todo)"
    and i: "\<forall>j \<in> set (i # todo). j < length (mfields desc)"
    and f: "f = mfields desc ! i" "\<not> is_oneof f" "label f \<noteq> REPEATED"
  shows "merged_ok descs K L desc todo (merge_optional desc alloc i f st)"
proof -
  have mem: "f \<in> set (mfields desc)" using f(1) i by simp
  have fok: "field_ok n desc f" using ok mem by (simp add: desc_okD)
  have le: "layout_fine (mergeable descs K L) K desc (e_quants st) (e_cells st)"
    and ll: "layout_fine (fine descs (K + L)) (K + L) desc (l_quants st) (l_cells st)"
    and fl: "field_fine (fine descs L) L (l_quants st) (l_cells st) f"
    using m f by (simp_all add: merging_def)
  have len: "offset f < length (e_cells st)" "offset f < length (l_cells st)"
    using le ll fok by (simp_all add: layout_fine_def field_ok_def)
  have ef: "field_fine (mergeable descs K L) K (e_quants st) (e_cells st) f"
    using le mem by (simp add: layout_fine_def)
  have he: "holds (mergeable descs K L) f (member_at (e_cells st) (offset f))"
    using field_fine_single(2) [OF ef f(3) len(1) f(2)] .
  have hl: "holds (fine descs L) f (member_at (l_cells st) (offset f))"
    using field_fine_single(2) [OF fl f(3) len(2) f(2)] .
  define ec lc where "ec = quantifier_at (e_quants st) (quantifier_offset f)"
    and "lc = quantifier_at (l_quants st) (quantifier_offset f)"
  note nd = need_to_merge_ok [of descs K L f st alloc i ec lc, OF he hl]
  note own = merging_own [OF ok m d i f]
  have eq: "merge_optional desc alloc i f st =
      on_ok (need_to_merge alloc i f ec lc st) (\<lambda>(need, st).
        Ok (if need then move_member f (quantifier_offset f) ec st else st))"
    using f(2) by (simp add: merge_optional_def Let_def flip: ec_def lc_def)
  show ?thesis
  proof (cases "need_to_merge alloc i f ec lc st")
    case Fault
    with nd(1) show ?thesis by blast
  next
    case Fail
    then show ?thesis by (simp add: eq merged_ok_def)
  next
    case (Ok r)
    obtain need st1 where r: "need_to_merge alloc i f ec lc st = Ok (need, st1)" using Ok by (cases r) auto
    from nd(2) [OF r] show ?thesis
    proof (elim disjE conjE exE)
      assume st1: "st1 = st"
      show ?thesis
      proof (cases need)
        case False
        with r st1 merging_tail [OF m] show ?thesis by (simp add: eq merged_ok_def)
      next
        case True
        have "merging descs K L desc todo (move_member f (quantifier_offset f) ec st)"
          by (rule own [OF holds_moved [OF he], where q = ec]) (simp_all add: move_member_def Let_def)
        with r st1 True show ?thesis by (simp add: eq merged_ok_def)
      qed
    next
      fix v assume "\<not> need" "holds (fine descs (K + L)) f v"
        and st1: "st1 = st\<lparr>l_cells := (l_cells st)[offset f := One v]\<rparr>"
      then have "merging descs K L desc todo st1" by (intro own [of v]) simp_all
      with r \<open>\<not> need\<close> show ?thesis by (simp add: eq merged_ok_def)
    qed
  qed
qed

lemma merge_oneof_ok:
  assumes ok: "desc_ok n desc" and m: "merging descs K L desc (i # todo) st" and d: "distinct (i # todo)"
    and i: "\<forall>j \<in> set (i # todo). j < length (mfields desc)"
    and f: "f = mfields desc ! i" "is_oneof f"
  shows "merged_ok descs K L desc todo (merge_optional desc alloc i f st)"
proof -
  have t: "field_table desc" using ok by (simp add: desc_ok_def)
  have mem: "f \<in> set (mfields desc)" using f(1) i by simp
  have fok: "field_ok n desc f" using ok mem by (simp add: desc_okD)
  have le: "layout_fine (mergeable descs K L) K desc (e_quants st) (e_cells st)"
    and ll: "layout_fine (fine descs (K + L)) (K + L) desc (l_quants st) (l_cells st)"
    using m by (simp_all add: merging_def)
  define ec lc where "ec = quantifier_at (e_quants st) (quantifier_offset f)"
    and "lc = quantifier_at (l_quants st) (quantifier_offset f)"
  show ?thesis
  proof (cases "lc = 0")
    case False
    with f(2) merging_tail [OF m] show ?thesis by (simp add: merged_ok_def merge_optional_def Let_def lc_def)
  next
    case lc: True
    show ?thesis
    proof (rule field_of_cases [OF t, of ec])
      assume "field_index desc ec = Some (-1)"
      with f(2) lc show ?thesis by (simp add: merged_ok_def merge_optional_def Let_def flip: ec_def lc_def)
    next
      fix j assume j: "field_of desc ec = Some j" "j < length (mfields desc)" "tid (mfields desc ! j) = ec"
        "field_index desc ec = Some (int j)"
      define g where "g = mfields desc ! j"
      have g: "g \<in> set (mfields desc)" "tid g = ec" using j by (simp_all add: g_def)
      have gok: "field_ok n desc g" using ok g(1) by (simp add: desc_okD)
      have ec0: "ec \<noteq> 0" using gok g(2) by (auto simp: field_ok_def)
      obtain h where h: "h \<in> set (mfields desc)" "is_oneof h" "quantifier_offset h = quantifier_offset f" "tid h = ec"
        using le mem f(2) ec0 by (auto simp: layout_fine_def cases_fine_def ec_def)
      have "h = g" using fields_eqI [OF ok h(1) g(1)] h(4) g(2) by simp
      with h have go: "is_oneof g" "quantifier_offset g = quantifier_offset f" by simp_all
      have gr: "label g \<noteq> REPEATED" "quantifier_offset g \<noteq> 0" using gok go by (auto simp: field_ok_def)
      have len: "offset g < length (e_cells st)" "offset g < length (l_cells st)"
        using le ll gok by (simp_all add: layout_fine_def field_ok_def)
      have ef: "field_fine (mergeable descs K L) K (e_quants st) (e_cells st) g"
        and lf: "field_fine (fine descs (K + L)) (K + L) (l_quants st) (l_cells st) g"
        using le ll g by (simp_all add: layout_fine_def)
      have he: "holds (mergeable descs K L) g (member_at (e_cells st) (offset g))"
        using field_fine_single(4) [OF ef gr(1) len(1) go(1)] g(2) go(2) by (simp add: ec_def)
      have hl: "as_msg (member_at (l_cells st) (offset g)) = Null"
        using field_fine_single(3) [OF lf gr(1) len(2) go(1)] go(2) lc by (simp add: lc_def)
      note nd = need_to_merge_ok [of descs K L g st alloc i ec 0, OF he, simplified hl, simplified]
      have eq: "merge_optional desc alloc i f st =
          on_ok (need_to_merge alloc i g ec 0 st) (\<lambda>(need, st).
            Ok (if need then move_member g (quantifier_offset f) ec st else st))"
        using f(2) j lc by (simp add: merge_optional_def Let_def flip: ec_def lc_def g_def)
      define st2 where "st2 = move_member g (quantifier_offset f) ec st"
      have st2_eq: "e_quants st2 = (e_quants st)[quantifier_offset g := 0]"
        "l_quants st2 = (l_quants st)[quantifier_offset g := ec]"
        "e_cells st2 = (e_cells st)[offset g := One (zero_val g)]"
        "l_cells st2 = (l_cells st)[offset g := One (moved (member_at (e_cells st) (offset g)))]"
        using gr(2) go(2) by (simp_all add: st2_def move_member_def Let_def)
      have "layout_fine (mergeable descs K L) K desc (e_quants st2) (e_cells st2)"
        using gok by (auto simp: st2_eq field_ok_def intro!: layout_fine_oneof [OF ok g(1) go(1) le])
      moreover have "layout_fine (fine descs (K + L)) (K + L) desc (l_quants st2) (l_cells st2)"
        using ec0 g(2) holds_moved [OF he] by (auto simp: st2_eq intro!: layout_fine_oneof [OF ok g(1) go(1) ll])
      moreover have "field_fine (fine descs L) L (l_quants st2) (l_cells st2) (mfields desc ! k)"
        if k: "k \<in> set todo" "\<not> is_oneof (mfields desc ! k)" for k
      proof -
        have "field_fine (fine descs L) L (l_quants st2) (l_cells st2) (mfields desc ! k) =
            field_fine (fine descs L) L (l_quants st) (l_cells st) (mfields desc ! k)"
          using i k go gr by (intro field_fine_untouched [OF ok g(1)]) (auto simp: st2_eq)
        with m k show ?thesis by (simp add: merging_def)
      qed
      ultimately have st2: "merging descs K L desc todo st2" by (simp add: merging_def)
      show ?thesis
      proof (cases "need_to_merge alloc i g ec 0 st")
        case Fault
        with nd(1) show ?thesis by blast
      next
        case Fail
        then show ?thesis by (simp add: eq merged_ok_def)
      next
        case (Ok r)
        obtain need st1 where r: "need_to_merge alloc i g ec 0 st = Ok (need, st1)" using Ok by (cases r) auto
        with nd(2) have "st1 = st" by blast
        with r st2 merging_tail [OF m] show ?thesis by (simp add: eq merged_ok_def flip: st2_def)
      qed
    qed
  qed
qed

lemma merge_field_ok:
  assumes "desc_ok n desc" "8 * (K + L) < 4294967296" "merging descs K L desc (i # todo) st"
    "distinct (i # todo)" "\<forall>j \<in> set (i # todo). j < length (mfields desc)"
  shows "merged_ok descs K L desc todo (merge_field desc alloc i st)"
proof (cases "label (mfields desc ! i)")
  case REPEATED
  with merge_repeated_ok [OF assms] show ?thesis by (simp add: merge_field_def Let_def)
next
  case REQUIRED
  with merging_tail [OF assms(3)] show ?thesis by (simp add: merge_field_def Let_def merged_ok_def)
qed (use merge_plain_ok [OF assms(1,3-5) refl] merge_oneof_ok [OF assms(1,3-5) refl] in
      \<open>cases "is_oneof (mfields desc ! i)"; simp add: merge_field_def Let_def\<close>)+

lemma merge_fields_ok:
  assumes "desc_ok n desc" "8 * (K + L) < 4294967296" "merging descs K L desc is st"
    "distinct is" "\<forall>j \<in> set is. j < length (mfields desc)"
  shows "merged_ok descs K L desc [] (merge_fields desc alloc is st)"
  using assms(3-)
proof (induction "is" arbitrary: st)
  case (Cons i todo)
  note f = merge_field_ok [OF assms(1,2) Cons.prems, of alloc]
  show ?case
  proof (cases "merge_field desc alloc i st")
    case (Ok st1)
    with f Cons show ?thesis by (auto simp: merged_ok_def)
  qed (use f in \<open>simp_all add: merged_ok_def\<close>)
qed (simp add: merged_ok_def)

text \<open>Merging never faults, and the size of the arrays of the result is bounded by both messages.\<close>

lemma merge_messages_ok:
  assumes "fine descs K d em" and ok: "descs_ok descs" and lim: "8 * (K + L) < 4294967296"
    and "fine descs L d lm"
  shows "merge_messages em alloc lm \<noteq> Fault \<and>
     (\<forall>m. merge_messages em alloc lm = Ok m \<longrightarrow> fine descs (K + L) d m)"
  using assms(1,4)
proof (induction arbitrary: alloc lm rule: fine.induct)
  case (fine_Msg d qs cells us)
  let ?desc = "descs ! d"
  let ?sub = "\<lambda>sub. (sub, merge_messages sub)"
  have dok: "desc_ok (length descs) ?desc" using ok fine_Msg.hyps by (rule descs_okD)
  obtain lqs lcells lus where lm: "lm = Msg ?desc lqs lcells lus"
    and ll: "layout_fine (fine descs L) L ?desc lqs lcells"
    using fine_Msg.prems by (cases rule: fine.cases) auto
  have len: "offset f < length cells" if "f \<in> set (mfields ?desc)" for f
    using desc_okD [OF dok that] fine_Msg.IH by (simp add: layout_fine_def field_ok_def)
  have "layout_fine (mergeable descs K L) K ?desc qs (map (map_cell ?sub) cells)"
    unfolding layout_fine_def
  proof (intro conjI ballI)
    fix f assume f: "f \<in> set (mfields ?desc)"
    have "field_fine (\<lambda>d m. fine descs K d m \<and> (\<forall>alloc lm. fine descs L d lm \<longrightarrow>
        merge_messages m alloc lm \<noteq> Fault \<and>
        (\<forall>m'. merge_messages m alloc lm = Ok m' \<longrightarrow> fine descs (K + L) d m'))) K qs cells f"
      using fine_Msg.IH f unfolding layout_fine_def by (auto elim: field_fine_mono)
    then show "field_fine (mergeable descs K L) K qs (map (map_cell ?sub) cells) f"
      by (simp add: field_fine_map [OF len [OF f]] mergeable_def)
  qed (use fine_Msg.IH in \<open>simp_all add: layout_fine_def\<close>)
  then have m: "merging descs K L ?desc [0..<length (mfields ?desc)]
      \<lparr>e_quants = qs, e_cells = map (map_cell ?sub) cells, l_quants = lqs, l_cells = lcells\<rparr>"
    using ll layout_fine_mono [OF ll, of "fine descs (K + L)" "K + L"] fine_mono [of descs L]
    by (auto simp: merging_def layout_fine_def)
  have "merged_ok descs K L ?desc [] (merge_fields ?desc alloc [0..<length (mfields ?desc)]
      \<lparr>e_quants = qs, e_cells = map (map_cell ?sub) cells, l_quants = lqs, l_cells = lcells\<rparr>)"
    by (rule merge_fields_ok [OF dok lim m]) simp_all
  then show ?case
    using fine_Msg.hyps(1)
    by (auto simp: lm merge_into_def merged_ok_def merging_def on_ok_eq_Ok on_ok_eq_Fault intro!: fine.fine_Msg)
qed

end
