(* ===== verification/Pb_Unpack_Ok.thy ===== *)
theory Pb_Unpack_Ok
  imports Pb_Merge_Ok
begin

unbundle bit_operations_syntax

text \<open>
  Unpacking is safe: whatever bytes arrive, and whatever the allocator answers, unpacking ends, no
  read leaves the bytes, no write leaves an array, a slab or the table of unknown members, and a
  message that is returned is laid out as its descriptor says.

  The heart is the agreement of the two passes: the arrays are as long as the scan counted, and
  \<open>parsing\<close> says that what is left to parse still fits.
\<close>

section \<open>Parsing one value\<close>

definition unpacks_fine :: "message_desc list \<Rightarrow> nat \<Rightarrow> unpacker \<Rightarrow> bool" where
  "unpacks_fine descs B unpack \<longleftrightarrow>
     (\<forall>alloc d data. d < length descs \<and> length data \<le> B \<longrightarrow>
        unpack alloc d data \<noteq> Fault \<and>
        (\<forall>m. unpack alloc d data = Ok m \<longrightarrow> fine descs (length data) d m))"

definition value_fine :: "message_desc list \<Rightarrow> nat \<Rightarrow> field_desc \<Rightarrow> pb_msg pb_val pb_result \<Rightarrow> bool" where
  "value_fine descs K f r \<longleftrightarrow> r \<noteq> Fault \<and> (\<forall>v. r = Ok v \<longrightarrow> holds (fine descs K) f v)"

lemma value_fine_plain:
  assumes "ftype f \<noteq> T_MESSAGE" and "r \<noteq> Fault"
  shows "value_fine descs K f r"
  using assms by (simp add: value_fine_def holds_def)

lemma member_body_ok:
  "member_ok sm \<Longrightarrow> member_body sm =
     Ok (take (slen sm - length_prefix_len sm) (drop (length_prefix_len sm) (sdata sm)))"
  by (simp add: member_body_def member_ok_def)

lemma parse_fixed_uint32_total: "4 \<le> length data \<Longrightarrow> parse_fixed_uint32 data \<noteq> None"
  by (auto simp: parse_fixed_uint32_def rd_def)

lemma parse_fixed_uint64_total:
  assumes "8 \<le> length data"
  shows "parse_fixed_uint64 data \<noteq> None"
proof -
  have "4 \<le> length data" "4 \<le> length (drop 4 data)" using assms by simp_all
  from this [THEN parse_fixed_uint32_total] show ?thesis by (auto simp: parse_fixed_uint64_def)
qed

lemma parse_boolean_some: "len \<le> length data \<Longrightarrow> parse_boolean len data \<noteq> None"
  unfolding parse_boolean_def by (rule parse_boolean_total [of 0 len data]) auto

lemma owned_target: "owned p = Some a \<Longrightarrow> target p = Some a"
  by (cases p) simp_all

lemma parse_message_fine:
  assumes ok: "descs_ok descs" and un: "unpacks_fine descs B unpack"
    and sm: "member_ok sm" "slen sm \<le> B"
    and f: "ftype f = T_MESSAGE" "descriptor f < length descs"
    and old: "maybe_clear \<Longrightarrow> holds (fine descs K) f member" and lim: "8 * (K + slen sm) < 4294967296"
  shows "value_fine descs (K + slen sm) f (parse_message_member unpack alloc f sm member maybe_clear)"
proof -
  define body where "body = take (slen sm - length_prefix_len sm) (drop (length_prefix_len sm) (sdata sm))"
  have len: "length body \<le> slen sm" by (simp add: body_def)
  have u: "unpack a (descriptor f) body \<noteq> Fault"
    "unpack a (descriptor f) body = Ok m \<Longrightarrow> fine descs (slen sm) (descriptor f) m" for a m
    using un f(2) sm(2) len fine_mono [of descs "length body" "descriptor f" m "slen sm"]
    by (auto simp: unpacks_fine_def)
  define old_msg where "old_msg = (if maybe_clear then owned (as_msg member) else None)"
  have fo: "fine descs K (descriptor f) o_msg" if "old_msg = Some o_msg" for o_msg
    using that old f(1) owned_target [of "as_msg member"] by (auto simp: old_msg_def holds_def split: if_splits)
  have eq: "parse_message_member unpack alloc f sm member maybe_clear =
      (if swire sm \<noteq> of_nat WIRE_TYPE_LENGTH_PREFIXED then Fail
       else on_ok (unpack (\<lambda>place. alloc (0 # place)) (descriptor f) body) (\<lambda>subm.
         case old_msg of
           None \<Rightarrow> Ok (VMsg (Heap subm))
         | Some old \<Rightarrow> on_ok (merge_messages old (\<lambda>place. alloc (1 # place)) subm) (\<lambda>merged.
             Ok (VMsg (Heap merged)))))"
    using sm(1) by (simp add: parse_message_member_def member_body_ok old_msg_def flip: body_def)
       (simp add: member_ok_def)
  show ?thesis
  proof (cases "swire sm = of_nat WIRE_TYPE_LENGTH_PREFIXED")
    case False
    then show ?thesis by (simp add: eq value_fine_def)
  next
    case True
    show ?thesis
    proof (cases "unpack (\<lambda>place. alloc (0 # place)) (descriptor f) body")
      case (Ok subm)
      note s = u(2) [OF Ok]
      show ?thesis
      proof (cases old_msg)
        case None
        with True Ok s show ?thesis
          by (auto simp: eq value_fine_def holds_def intro: fine_mono)
      next
        case (Some o_msg)
        with True Ok merge_messages_ok [OF fo [OF Some] ok lim s, of "\<lambda>place. alloc (1 # place)"] show ?thesis
          by (auto simp: eq value_fine_def holds_def on_ok_eq_Ok on_ok_eq_Fault)
      qed
    qed (use True u(1) in \<open>simp_all add: eq value_fine_def\<close>)
  qed
qed

lemma parse_required_fine:
  assumes "descs_ok descs" and "unpacks_fine descs B unpack" and "member_ok sm" and "slen sm \<le> B"
    and "ftype f = T_MESSAGE \<Longrightarrow> descriptor f < length descs"
    and "maybe_clear \<Longrightarrow> holds (fine descs K) f member" and "8 * (K + slen sm) < 4294967296"
  shows "value_fine descs (K + slen sm) f (parse_required_member unpack alloc f sm member maybe_clear)"
proof (cases "ftype f = T_MESSAGE")
  case True
  with parse_message_fine [OF assms(1-4) True] assms(4-) show ?thesis
    by (simp add: parse_required_member_def)
next
  case False
  have len: "0 < slen sm" "slen sm \<le> length (sdata sm)"
    "swire sm = of_nat WIRE_TYPE_64BIT \<Longrightarrow> 8 \<le> length (sdata sm)"
    "swire sm = of_nat WIRE_TYPE_32BIT \<Longrightarrow> 4 \<le> length (sdata sm)"
    using assms(3) by (auto simp: member_ok_def)
  note v = parse_uint32_val [OF len(1,2)] parse_uint64_val [OF len(1,2)]
  note fixed = parse_fixed_uint32_total [of "sdata sm"] parse_fixed_uint64_total [of "sdata sm"]
    parse_boolean_some [OF len(2)]
  have "parse_required_member unpack alloc f sm member maybe_clear \<noteq> Fault"
    using False len(3,4) fixed assms(3)
    by (cases "ftype f")
       (auto simp: parse_required_member_def parse_varint_member_def parse_fixed_member_def v parse_int32_def
          parse_string_member_def parse_bytes_member_def member_body_ok on_ok_eq_Fault)
  with False show ?thesis by (rule value_fine_plain)
qed


section \<open>Packed elements\<close>

lemma max_b128_append: "max_b128_numbers (xs @ ys) = max_b128_numbers xs + max_b128_numbers ys"
  by (induction xs) simp_all

lemma max_b128_pos: "b \<in> set xs \<Longrightarrow> \<not> more_bit b \<Longrightarrow> 0 < max_b128_numbers xs"
  by (induction xs) auto

lemma scan_more_stops:
  "scan_more i k data = Some j \<Longrightarrow> j < i + k \<Longrightarrow> i + k \<le> length data \<Longrightarrow> i \<le> j \<and> \<not> more_bit (data ! j)"
  by (induction i k data rule: scan_more.induct) (auto split: if_splits)

text \<open>Every varint the loop finds ends in a byte the count has counted.\<close>

lemma scan_varint_counts:
  assumes "scan_varint rem at = Some s" and "s \<noteq> 0" and "rem \<le> length at"
  shows "s \<le> rem" and "max_b128_numbers (take (rem - s) (drop s at)) < max_b128_numbers (take rem at)"
proof -
  define k where "k = (if rem > 10 then 10 else rem)"
  obtain j where j: "scan_more 0 k at = Some j" "s = j + 1" "j \<noteq> k"
    using assms(1,2) by (auto simp: scan_varint_def Let_def bind_eq_Some_conv simp flip: k_def split: if_splits)
  have k: "0 + k \<le> length at" "k \<le> rem" using assms(3) by (simp_all add: k_def)
  obtain j' where "scan_more 0 k at = Some j'" "j' \<le> 0 + k" by (rule scan_more_total [OF k(1)])
  with j have jk: "j < 0 + k" by simp
  have stop: "\<not> more_bit (at ! j)" using scan_more_stops [OF j(1) jk k(1)] by simp
  show "s \<le> rem" using j(2) jk k(2) by simp
  then have split: "take rem at = take s at @ take (rem - s) (drop s at)"
    by (simp flip: take_add)
  have "at ! j \<in> set (take s at)"
    using jk k assms(3) j(2) by (auto simp: in_set_conv_nth intro!: exI [of _ j])
  then have "0 < max_b128_numbers (take s at)" using stop by (rule max_b128_pos)
  then show "max_b128_numbers (take (rem - s) (drop s at)) < max_b128_numbers (take rem at)"
    unfolding split max_b128_append by simp
qed

definition stored_within :: "pb_msg pb_val list \<Rightarrow> nat \<Rightarrow> nat \<Rightarrow> (pb_msg pb_val list \<times> nat) pb_result \<Rightarrow> bool" where
  "stored_within array i n r \<longleftrightarrow> r \<noteq> Fault \<and>
     (\<forall>array' i'. r = Ok (array', i') \<longrightarrow> length array' = length array \<and> i \<le> i' \<and> i' \<le> i + n)"

lemma packed_loop_within:
  assumes "\<And>s at. 0 < s \<Longrightarrow> s \<le> length at \<Longrightarrow> conv s at \<noteq> None"
    and "rem \<le> length at" and "i + max_b128_numbers (take rem at) \<le> length array"
  shows "stored_within array i (max_b128_numbers (take rem at)) (packed_loop conv rem at array i)"
  using assms(2,3)
proof (induction rem arbitrary: at array i rule: less_induct)
  case (less rem)
  show ?case
  proof (cases "rem = 0")
    case True
    then show ?thesis by (subst packed_loop.simps) (simp add: stored_within_def)
  next
    case False
    obtain s where s: "scan_varint rem at = Some s" by (rule scan_varint_total [OF less.prems(1)])
    show ?thesis
    proof (cases "s = 0")
      case True
      with False s show ?thesis by (subst packed_loop.simps) (simp add: stored_within_def)
    next
      case s0: False
      note c = scan_varint_counts [OF s s0 less.prems(1)]
      obtain v where v: "conv s at = Some v" using assms(1) [of s at] s0 c(1) less.prems(1) by fastforce
      have "stored_within (array[i := v]) (i + 1) (max_b128_numbers (take (rem - s) (drop s at)))
          (packed_loop conv (rem - s) (drop s at) (array[i := v]) (i + 1))"
        using False s0 less.prems c by (intro less.IH) auto
      with False s s0 v c less.prems show ?thesis
        by (subst packed_loop.simps) (fastforce simp: stored_within_def)
    qed
  qed
qed

lemma packed_copy_within:
  assumes "\<And>at. siz \<le> length at \<Longrightarrow> conv at \<noteq> None"
    and "siz * n \<le> length at" and "i + n \<le> length array"
  shows "stored_within array i n (packed_copy conv siz n at array i)"
  using assms(2,3)
proof (induction n arbitrary: at array i)
  case (Suc n)
  obtain v where v: "conv at = Some v" using assms(1) [of at] Suc.prems by fastforce
  have "stored_within (array[i := v]) (i + 1) n (packed_copy conv siz n (drop siz at) (array[i := v]) (i + 1))"
    using Suc.prems by (intro Suc.IH) auto
  with v Suc.prems show ?case by (auto simp: array_store_def stored_within_def)
qed (simp add: stored_within_def)

lemma stored_within_mono:
  "stored_within array i m r \<Longrightarrow> m \<le> n \<Longrightarrow> stored_within array i n r"
  by (fastforce simp: stored_within_def)

lemma packed_elements_within:
  assumes count: "count_packed_elements t rem at = Ok n" and rem: "rem \<le> length at"
    and room: "i + n \<le> length array"
  shows "stored_within array i n (packed_elements t rem at array i)"
proof -
  have u: "parse_uint32 s at \<noteq> None" "parse_uint64 s at \<noteq> None" "parse_boolean s at \<noteq> None"
    if "0 < s" "s \<le> length at" for s and at :: bytes
    using parse_uint32_val [OF that] parse_uint64_val [OF that] parse_boolean_some [OF that(2)] by auto
  note loop = packed_loop_within [OF _ rem]
  note copy = packed_copy_within
  have b: "max_b128_numbers (take rem at) \<le> rem" using max_b128_le [of "take rem at"] by simp
  have bool: "stored_within array i rem (packed_loop (\<lambda>s at. map_option (\<lambda>b. VBool (if b then 1 else 0)) (parse_boolean s at)) rem at array i)"
    if "i + rem \<le> length array"
    by (rule stored_within_mono [OF loop b]) (use u(3) that b in \<open>auto simp del: not_None_eq\<close>)
  show ?thesis
  proof (cases "t = T_BOOL")
    case True
    then have "n = rem" using count by (simp add: count_packed_elements_def)
    with True bool room show ?thesis by (simp add: packed_elements_def Let_def)
  qed (use count room rem in \<open>cases t\<close>,
       auto simp: packed_elements_def Let_def count_packed_elements_def parse_int32_def
          split: if_splits intro!: loop copy u [unfolded not_None_eq]
          parse_fixed_uint32_total [unfolded not_None_eq] parse_fixed_uint64_total [unfolded not_None_eq])
qed


section \<open>Parsing one member\<close>

text \<open>
  The state of the second pass after \<open>K\<close> bytes, with the members \<open>rs\<close> still to parse: the message is
  laid out as it should, and there is room for every element and every unknown member left.
\<close>

definition parsing ::
  "message_desc list \<Rightarrow> message_desc \<Rightarrow> nat \<Rightarrow> nat \<Rightarrow> scanned_member list \<Rightarrow> msg_state \<Rightarrow> bool" where
  "parsing descs desc K cap rs st \<longleftrightarrow>
     layout_fine (fine descs K) K desc (m_quants st) (m_cells st) \<and>
     (\<forall>i < length (mfields desc). label (mfields desc ! i) = REPEATED \<longrightarrow>
        unat (quantifier_at (m_quants st) (quantifier_offset (mfields desc ! i))) + elements desc i rs
          \<le> length (array_of (mfields desc ! i) st)) \<and>
     length (m_unknown st) + unknowns rs \<le> cap"

definition parsed_ok ::
  "message_desc list \<Rightarrow> message_desc \<Rightarrow> nat \<Rightarrow> nat \<Rightarrow> scanned_member list \<Rightarrow> msg_state pb_result \<Rightarrow> bool" where
  "parsed_ok descs desc K cap rs r \<longleftrightarrow> r \<noteq> Fault \<and> (\<forall>st. r = Ok st \<longrightarrow> parsing descs desc K cap rs st)"

lemma elements_Cons [simp]:
  "elements desc i (sm # ms) = (if sfield sm = Some i then mcount desc sm else 0) + elements desc i ms"
  by (simp add: elements_def)

lemma unknowns_Cons [simp]: "unknowns (sm # ms) = (if sfield sm = None then 1 else 0) + unknowns ms"
  by (simp add: unknowns_def)

lemma layout_fine_later:
  assumes "layout_fine (fine descs K) K desc qs cells" and "K \<le> L"
  shows "layout_fine (fine descs L) L desc qs cells"
  using assms by (auto intro: layout_fine_mono fine_mono)

lemma parsing_layout:
  "parsing descs desc K cap rs st \<Longrightarrow> K \<le> L \<Longrightarrow>
     layout_fine (fine descs L) L desc (m_quants st) (m_cells st)"
  by (auto simp: parsing_def intro: layout_fine_later)

lemma array_of_Many:
  "m_cells st ! offset f = Many vs \<Longrightarrow> offset f < length (m_cells st) \<Longrightarrow> array_of f st = vs"
  by (simp add: array_of_def)

text \<open>
  A step that touches only field \<open>i\<close>: its new cell and word, and what is left of its elements.
\<close>

lemma parsing_own:
  assumes ok: "desc_ok n desc" and p: "parsing descs desc K cap (sm # rs) st" and KL: "K \<le> L"
    and i: "sfield sm = Some i" "i < length (mfields desc)" and f: "f = mfields desc ! i" "\<not> is_oneof f"
    and st': "m_cells st' = (m_cells st)[offset f := c]" "m_unknown st' = m_unknown st"
      "m_quants st' = m_quants st \<or> quantifier_offset f \<noteq> 0 \<and> m_quants st' = (m_quants st)[quantifier_offset f := q]"
    and new: "field_fine (fine descs L) L (m_quants st') (m_cells st') f"
    and rep: "label f = REPEATED \<Longrightarrow>
      unat (quantifier_at (m_quants st') (quantifier_offset f)) + elements desc i rs \<le> length (array_of f st')"
  shows "parsing descs desc L cap rs st'"
proof -
  have mem: "f \<in> set (mfields desc)" using f(1) i(2) by simp
  have lay: "layout_fine (fine descs L) L desc (m_quants st) (m_cells st)"
    using p KL by (rule parsing_layout)
  have "layout_fine (fine descs L) L desc (m_quants st') (m_cells st')"
    using new st'(3) unfolding st'(1) by (rule layout_fine_own [OF ok mem f(2) lay, rotated])
  moreover have "unat (quantifier_at (m_quants st') (quantifier_offset g)) + elements desc j rs
      \<le> length (array_of g st')"
    if j: "j < length (mfields desc)" "g = mfields desc ! j" "label g = REPEATED" for j g
  proof (cases "j = i")
    case False
    then have "f \<noteq> g" using tids_distinct [of desc i j] ok i(2) j f(1) by (auto simp: desc_ok_def)
    then have ap: "offset g \<noteq> offset f" "quantifier_offset g = quantifier_offset f \<Longrightarrow> quantifier_offset f = 0"
      using own_place [OF ok _ mem, of g] j f(2) nth_mem by metis+
    then have "array_of g st' = array_of g st" using st'(1) by (simp add: array_of_def)
    moreover have "quantifier_at (m_quants st') (quantifier_offset g) = quantifier_at (m_quants st) (quantifier_offset g)"
      using st'(3) ap(2) by (auto simp: quantifier_at_update)
    ultimately show ?thesis using p j i(1) False by (auto simp: parsing_def)
  qed (use rep j f(1) in simp)
  ultimately show ?thesis using p st'(2) i(1) by (auto simp: parsing_def)
qed

lemma parsing_field:
  assumes "desc_ok n desc" "parsing descs desc K cap rs st" "f \<in> set (mfields desc)"
  shows "field_fine (fine descs K) K (m_quants st) (m_cells st) f" "offset f < length (m_cells st)"
    "quantifier_offset f < length (m_quants st)"
  using assms desc_okD [OF assms(1,3)] by (auto simp: parsing_def layout_fine_def field_ok_def)

lemma update_same_cell: "member_at cells off = v \<Longrightarrow> cells ! off = One w \<Longrightarrow> off < length cells \<Longrightarrow> v = w"
  by (simp add: member_at_def)

lemma parse_required_member_step:
  assumes ok: "desc_ok (length descs) desc" and dok: "descs_ok descs" and un: "unpacks_fine descs B unpack"
    and p: "parsing descs desc K cap (sm # rs) st" and sm: "member_ok sm" "slen sm \<le> B"
    and i: "sfield sm = Some i" "i < length (mfields desc)" and f: "f = mfields desc ! i" "\<not> is_oneof f"
      "label f \<noteq> REPEATED"
    and lim: "8 * (K + slen sm) < 4294967296"
    and q: "qn = m_quants st \<or> quantifier_offset f \<noteq> 0 \<and> qn = (m_quants st)[quantifier_offset f := q]"
  shows "parsed_ok descs desc (K + slen sm) cap rs
     (on_ok (parse_required_member unpack alloc f sm (member_at (m_cells st) (offset f)) True) (\<lambda>v.
        Ok (st\<lparr>m_cells := (m_cells st)[offset f := One v], m_quants := qn\<rparr>)))"
proof -
  have mem: "f \<in> set (mfields desc)" using f(1) i(2) by simp
  note pf = parsing_field [OF ok p mem]
  have "holds (fine descs K) f (member_at (m_cells st) (offset f))"
    using field_fine_single(2) [OF pf(1) f(3) pf(2) f(2)] .
  moreover have "ftype f = T_MESSAGE \<Longrightarrow> descriptor f < length descs"
    using desc_okD [OF ok mem] by (simp add: field_ok_def)
  ultimately have v: "value_fine descs (K + slen sm) f
      (parse_required_member unpack alloc f sm (member_at (m_cells st) (offset f)) True)"
    using parse_required_fine [OF dok un sm] lim by simp
  show ?thesis
  proof (cases "parse_required_member unpack alloc f sm (member_at (m_cells st) (offset f)) True")
    case (Ok w)
    have "parsing descs desc (K + slen sm) cap rs (st\<lparr>m_cells := (m_cells st)[offset f := One w], m_quants := qn\<rparr>)"
    proof (rule parsing_own [OF ok p _ i f(1,2), where c = "One w" and q = q])
      show "field_fine (fine descs (K + slen sm)) (K + slen sm)
          (m_quants (st\<lparr>m_cells := (m_cells st)[offset f := One w], m_quants := qn\<rparr>))
          (m_cells (st\<lparr>m_cells := (m_cells st)[offset f := One w], m_quants := qn\<rparr>)) f"
        using v Ok f pf by (simp add: field_fine_def Let_def value_fine_def)
    qed (use q f in auto)
    with Ok show ?thesis by (simp add: parsed_ok_def)
  qed (use v in \<open>simp_all add: parsed_ok_def value_fine_def\<close>)
qed

lemma parse_oneof_step:
  assumes ok: "desc_ok (length descs) desc" and dok: "descs_ok descs" and un: "unpacks_fine descs B unpack"
    and p: "parsing descs desc K cap (sm # rs) st" and sm: "member_ok sm" "slen sm \<le> B"
    and i: "sfield sm = Some i" "i < length (mfields desc)" and f: "f = mfields desc ! i" "is_oneof f"
      "stag sm = tid f"
    and lim: "8 * (K + slen sm) < 4294967296"
  shows "parsed_ok descs desc (K + slen sm) cap rs (parse_oneof_member unpack alloc desc f sm st)"
proof -
  have t: "field_table desc" using ok by (simp add: desc_ok_def)
  have mem: "f \<in> set (mfields desc)" using f(1) i(2) by simp
  have fok: "field_ok (length descs) desc f" using ok mem by (simp add: desc_okD)
  have single: "label f \<noteq> REPEATED" using fok f(2) by (auto simp: field_ok_def)
  note pf = parsing_field [OF ok p mem]
  define case_word where "case_word = quantifier_at (m_quants st) (quantifier_offset f)"
  define st1 where "st1 = (if case_word = 0 then st else set_member f (One (V32 0)) st)"
  have clear: "clear_oneof desc f st = Fail \<or> clear_oneof desc f st = Ok st1"
    by (rule field_of_cases [OF t, of case_word])
       (auto simp: clear_oneof_def Let_def st1_def simp flip: case_word_def)
  have hold: "holds (fine descs K) f (member_at (m_cells st1) (offset f))"
  proof (cases "case_word = 0")
    case True
    with field_fine_single(3) [OF pf(1) single pf(2) f(2)] show ?thesis
      by (simp add: st1_def holds_def case_word_def)
  qed (use pf(2) in \<open>simp add: st1_def set_member_def member_at_def holds_def\<close>)
  have "ftype f = T_MESSAGE \<Longrightarrow> descriptor f < length descs" using fok by (simp add: field_ok_def)
  with hold lim have v: "value_fine descs (K + slen sm) f
      (parse_required_member unpack alloc f sm (member_at (m_cells st1) (offset f)) True)"
    using parse_required_fine [OF dok un sm] by simp
  have lay: "layout_fine (fine descs (K + slen sm)) (K + slen sm) desc (m_quants st) (m_cells st)"
    using p by (rule parsing_layout) simp
  have last: "parsing descs desc (K + slen sm) cap rs (set_quantifier f (tid f) (set_member f (One w) st1))"
    if "holds (fine descs (K + slen sm)) f w" for w
  proof -
    let ?st = "set_quantifier f (tid f) (set_member f (One w) st1)"
    have st: "m_cells ?st = (m_cells st)[offset f := One w]"
      "m_quants ?st = (m_quants st)[quantifier_offset f := tid f]" "m_unknown ?st = m_unknown st"
      by (simp_all add: st1_def set_quantifier_def set_member_def)
    have "layout_fine (fine descs (K + slen sm)) (K + slen sm) desc (m_quants ?st) (m_cells ?st)"
      unfolding st using that fok by (intro layout_fine_oneof [OF ok mem f(2) lay]) (auto simp: field_ok_def)
    moreover have "array_of g ?st = array_of g st \<and>
        quantifier_at (m_quants ?st) (quantifier_offset g) = quantifier_at (m_quants st) (quantifier_offset g)"
      if g: "g \<in> set (mfields desc)" "label g = REPEATED" for g
    proof -
      have gok: "field_ok (length descs) desc g" using ok g(1) by (simp add: desc_okD)
      then have "\<not> is_oneof g" "quantifier_offset g \<noteq> 0" using g(2) by (auto simp: field_ok_def)
      then have "offset g \<noteq> offset f \<and> quantifier_offset g \<noteq> quantifier_offset f"
        using own_place [OF ok g(1) mem] g(2) single by metis
      then show ?thesis unfolding st by (simp add: array_of_def st quantifier_at_update)
    qed
    ultimately show ?thesis using p st(3) i(1) by (auto simp: parsing_def)
  qed
  from clear show ?thesis
  proof
    assume "clear_oneof desc f st = Ok st1"
    with v last f(3) show ?thesis
      by (cases "parse_required_member unpack alloc f sm (member_at (m_cells st1) (offset f)) True")
         (simp_all add: parse_oneof_member_def parsed_ok_def value_fine_def)
  qed (simp add: parse_oneof_member_def parsed_ok_def)
qed


lemmas msg_state_upd = set_quantifier_def set_member_def

text \<open>A run of elements stored in the array of a repeated field.\<close>

lemma repeated_step:
  assumes ok: "desc_ok (length descs) desc" and p: "parsing descs desc K cap (sm # rs) st"
    and i: "sfield sm = Some i" "i < length (mfields desc)" and f: "f = mfields desc ! i" "label f = REPEATED"
    and new: "length vs' = length (array_of f st)" "\<And>v. v \<in> set vs' \<Longrightarrow> holds (fine descs (K + slen sm)) f v"
    and k: "k \<le> mcount desc sm" "k \<le> slen sm" and lim: "8 * (K + slen sm) < 4294967296"
  shows "parsing descs desc (K + slen sm) cap rs (st\<lparr>m_cells := (m_cells st)[offset f := Many vs'],
     m_quants := (m_quants st)[quantifier_offset f :=
       quantifier_at (m_quants st) (quantifier_offset f) + of_nat k]\<rparr>)"
proof -
  have mem: "f \<in> set (mfields desc)" using f(1) i(2) by simp
  have fok: "field_ok (length descs) desc f" using ok mem by (simp add: desc_okD)
  then have no: "\<not> is_oneof f" and q0: "quantifier_offset f \<noteq> 0" using f(2) by (auto simp: field_ok_def)
  note pf = parsing_field [OF ok p mem]
  obtain vs where vs: "m_cells st ! offset f = Many vs"
    "unat (quantifier_at (m_quants st) (quantifier_offset f)) \<le> K"
    by (rule field_fine_repeated [OF pf(1) f(2) pf(2)]) blast
  define q where "q = quantifier_at (m_quants st) (quantifier_offset f) + of_nat k"
  have small: "unat (of_nat k :: u32) = k" using k lim by (simp add: unat_of_nat)
  have q: "unat q = unat (quantifier_at (m_quants st) (quantifier_offset f)) + k"
    unfolding q_def using vs(2) k lim by (subst unat_add_small) (simp_all add: small)
  have room: "unat (quantifier_at (m_quants st) (quantifier_offset f)) + mcount desc sm + elements desc i rs
      \<le> length (array_of f st)"
    using p i f by (force simp: parsing_def)
  show ?thesis
    unfolding q_def [symmetric]
  proof (rule parsing_own [OF ok p _ i f(1) no, where c = "Many vs'" and q = q])
    show "field_fine (fine descs (K + slen sm)) (K + slen sm)
        (m_quants (st\<lparr>m_cells := (m_cells st)[offset f := Many vs'], m_quants := (m_quants st)[quantifier_offset f := q]\<rparr>))
        (m_cells (st\<lparr>m_cells := (m_cells st)[offset f := Many vs'], m_quants := (m_quants st)[quantifier_offset f := q]\<rparr>)) f"
      using pf(2,3) f(2) new q room vs(2) k by (simp add: field_fine_def Let_def quantifier_at_update)
  qed (use pf(2,3) q0 room new(1) q k in \<open>simp_all add: quantifier_at_update array_of_def\<close>)
qed

lemma parse_repeated_step:
  assumes ok: "desc_ok (length descs) desc" and dok: "descs_ok descs" and un: "unpacks_fine descs B unpack"
    and p: "parsing descs desc K cap (sm # rs) st" and sm: "member_ok sm" "slen sm \<le> B"
    and i: "sfield sm = Some i" "i < length (mfields desc)" and f: "f = mfields desc ! i" "label f = REPEATED"
      "\<not> holds_packed f (swire sm)"
    and lim: "8 * (K + slen sm) < 4294967296"
  shows "parsed_ok descs desc (K + slen sm) cap rs (parse_repeated_member unpack alloc f sm st)"
proof -
  have mem: "f \<in> set (mfields desc)" using f(1) i(2) by simp
  have fok: "field_ok (length descs) desc f" using ok mem by (simp add: desc_okD)
  note pf = parsing_field [OF ok p mem]
  define n where "n = unat (quantifier_at (m_quants st) (quantifier_offset f))"
  have one: "mcount desc sm = 1" "1 \<le> slen sm"
    using i f sm(1) by (simp_all add: mcount_def member_count_def member_ok_def)
  have n: "n < length (array_of f st)" using p i f one by (force simp: parsing_def n_def)
  have old: "holds (fine descs (K + slen sm)) f v" if "v \<in> set (array_of f st)" for v
  proof -
    obtain vs where "m_cells st ! offset f = Many vs" "\<And>v. v \<in> set vs \<Longrightarrow> holds (fine descs K) f v"
      by (rule field_fine_repeated [OF pf(1) f(2) pf(2)]) blast
    with that pf(2) have "holds (fine descs K) f v" by (simp add: array_of_def)
    then show ?thesis by (rule holds_mono) (rule fine_mono, auto)
  qed
  have "value_fine descs (K + slen sm) f
      (parse_required_member unpack alloc f sm (array_elem (array_of f st) n) False)"
    using fok lim by (intro parse_required_fine [OF dok un sm]) (auto simp: field_ok_def)
  then consider (fail) "parse_required_member unpack alloc f sm (array_elem (array_of f st) n) False = Fail"
    | (ok) v where "parse_required_member unpack alloc f sm (array_elem (array_of f st) n) False = Ok v"
        "holds (fine descs (K + slen sm)) f v"
    by (cases "parse_required_member unpack alloc f sm (array_elem (array_of f st) n) False")
       (auto simp: value_fine_def)
  then show ?thesis
  proof cases
    case ok: (ok v)
    have "parsing descs desc (K + slen sm) cap rs (st\<lparr>m_cells := (m_cells st)[offset f := Many ((array_of f st)[n := v])],
       m_quants := (m_quants st)[quantifier_offset f :=
         quantifier_at (m_quants st) (quantifier_offset f) + of_nat 1]\<rparr>)"
      using one old ok(2)
      by (intro repeated_step [OF assms(1) p i f(1,2) _ _ _ _ lim]) (auto dest: set_update_subset_insert [THEN subsetD])
    with ok(1) n show ?thesis
      by (simp add: parse_repeated_member_def parsed_ok_def array_store_def msg_state_upd Let_def flip: n_def)
  qed (simp add: parse_repeated_member_def parsed_ok_def Let_def flip: n_def)
qed

lemma parse_packed_step:
  assumes ok: "desc_ok (length descs) desc"
    and p: "parsing descs desc K cap (sm # rs) st" and sm: "member_ok sm" "countable desc sm"
    and i: "sfield sm = Some i" "i < length (mfields desc)" and f: "f = mfields desc ! i" "label f = REPEATED"
      "holds_packed f (swire sm)"
    and lim: "8 * (K + slen sm) < 4294967296"
  shows "parsed_ok descs desc (K + slen sm) cap rs (parse_packed_repeated_member f sm st)"
proof -
  define at rem where "at = drop (length_prefix_len sm) (sdata sm)" and "rem = slen sm - length_prefix_len sm"
  define n where "n = unat (quantifier_at (m_quants st) (quantifier_offset f))"
  have cnt: "count_packed_elements (ftype f) rem at = Ok (mcount desc sm)"
    using sm(2) i f by (simp add: countable_def member_count_def at_def rem_def)
  then have t: "ftype f \<noteq> T_MESSAGE" by (auto simp: count_packed_elements_def split: if_splits)
  have "rem \<le> length at" "rem \<le> slen sm" using sm(1) by (auto simp: member_ok_def at_def rem_def)
  then have rem: "rem \<le> length at" "mcount desc sm \<le> slen sm"
    using count_packed_fine(2) [OF _ cnt] by simp_all
  have "n + mcount desc sm \<le> length (array_of f st)"
    using p i f by (force simp: parsing_def n_def)
  note w = packed_elements_within [OF cnt rem(1) this]
  show ?thesis
  proof (cases "packed_elements (ftype f) rem at (array_of f st) n")
    case (Ok r)
    obtain vs' n' where r: "packed_elements (ftype f) rem at (array_of f st) n = Ok (vs', n')"
      using Ok by (cases r) auto
    with w have "length vs' = length (array_of f st)" "n \<le> n'" "n' \<le> n + mcount desc sm"
      by (auto simp: stored_within_def)
    then have "parsing descs desc (K + slen sm) cap rs (st\<lparr>m_cells := (m_cells st)[offset f := Many vs'],
       m_quants := (m_quants st)[quantifier_offset f :=
         quantifier_at (m_quants st) (quantifier_offset f) + of_nat (n' - n)]\<rparr>)"
      using t rem(2) by (intro repeated_step [OF ok p i f(1,2) _ _ _ _ lim]) (auto simp: holds_def)
    with r show ?thesis
      by (simp add: parse_packed_repeated_member_def parsed_ok_def msg_state_upd Let_def flip: n_def at_def rem_def)
  qed (use w in \<open>simp_all add: parse_packed_repeated_member_def parsed_ok_def stored_within_def Let_def
         flip: n_def at_def rem_def\<close>)
qed

lemma parse_member_step:
  assumes ok: "desc_ok (length descs) desc" and dok: "descs_ok descs" and un: "unpacks_fine descs B unpack"
    and p: "parsing descs desc K cap (sm # rs) st" and sm: "good_member desc sm" "slen sm \<le> B"
    and lim: "8 * (K + slen sm) < 4294967296"
  shows "parsed_ok descs desc (K + slen sm) cap rs (parse_member unpack alloc desc cap sm st)"
proof (cases "sfield sm")
  case None
  then have "length (m_unknown st) + 1 + unknowns rs \<le> cap" using p by (simp add: parsing_def)
  moreover have "layout_fine (fine descs (K + slen sm)) (K + slen sm) desc (m_quants st) (m_cells st)"
    using p by (rule parsing_layout) simp
  ultimately have "parsing descs desc (K + slen sm) cap rs (st\<lparr>m_unknown := m_unknown st @ [u]\<rparr>)" for u
    using p None by (auto simp: parsing_def array_of_def)
  with None p sm(1) show ?thesis
    by (auto simp: parse_member_def parse_unknown_def parsed_ok_def parsing_def good_member_def member_ok_def)
next
  case (Some i)
  have t: "field_table desc" using ok by (simp add: desc_ok_def)
  have mok: "member_ok sm" "field_of desc (stag sm) = Some i" "countable desc sm"
    using sm(1) Some by (simp_all add: good_member_def)
  have i: "i < length (mfields desc)" using field_of_lt [OF t mok(2)] .
  have tag: "stag sm = tid (mfields desc ! i)" using mok(2) by (cases rule: field_of_cases [OF t, of "stag sm"]) auto
  define f where "f = mfields desc ! i"
  have fok: "field_ok (length descs) desc f" using desc_okD [OF ok nth_mem [OF i]] by (simp add: f_def)
  note one = parse_required_member_step [OF ok dok un p mok(1) sm(2) Some i f_def _ _ lim]
  show ?thesis
  proof (cases "label f")
    case REQUIRED
    then have "\<not> is_oneof f" using fok by (auto simp: field_ok_def)
    with REQUIRED one [of "m_quants st" 0 alloc] Some show ?thesis
      by (simp add: parse_member_def msg_state_upd flip: f_def)
  next
    case REPEATED
    with parse_repeated_step [OF ok dok un p mok(1) sm(2) Some i f_def _ _ lim, of alloc]
      parse_packed_step [OF ok p mok(1,3) Some i f_def _ _ lim] Some show ?thesis
      by (simp add: parse_member_def flip: f_def)
  next
    case OPTIONAL
    with parse_oneof_step [OF ok dok un p mok(1) sm(2) Some i f_def _ _ lim, of alloc] tag Some
      one [of "m_quants st" 0 alloc] one [of "(m_quants st)[quantifier_offset f := 1]" 1 alloc]
    show ?thesis
      by (cases "quantifier_offset f = 0")
         (auto simp: parse_member_def parse_optional_member_def msg_state_upd Let_def simp flip: f_def)
  next
    case NONE
    with parse_oneof_step [OF ok dok un p mok(1) sm(2) Some i f_def _ _ lim, of alloc] tag Some
      one [of "m_quants st" 0 alloc] one [of "(m_quants st)[quantifier_offset f := 1]" 1 alloc]
    show ?thesis
      by (cases "quantifier_offset f = 0")
         (auto simp: parse_member_def parse_optional_member_def msg_state_upd Let_def simp flip: f_def)
  qed
qed


section \<open>Between the passes\<close>

definition init_cell :: "field_desc \<Rightarrow> 'm cell" where
  "init_cell f = (if label f = REPEATED then Many [] else One (default_val f))"

lemma default_val_Null [simp]: "as_msg (default_val f) = Null"
  by (simp add: default_val_def split: pb_default.split)

lemma oneof_label: "field_ok n desc f \<Longrightarrow> is_oneof f \<Longrightarrow> label f \<noteq> REPEATED"
  by (auto simp: field_ok_def)

lemma zero_cells_nth:
  assumes ok: "desc_ok n desc" and f: "f \<in> set (mfields desc)"
  shows "zero_cells desc ! offset f = zero_cell f"
proof -
  have fok: "field_ok n desc f" using ok f by (rule desc_okD)
  obtain g where g: "find (\<lambda>g. offset g = offset f) (mfields desc) = Some g"
    using f find_None_iff [of "\<lambda>g. offset g = offset f" "mfields desc"] by fastforce
  then have g': "g \<in> set (mfields desc)" "offset g = offset f" by (auto simp: find_Some_iff)
  have "zero_cell g = (zero_cell f :: 'a cell)"
  proof (cases "g = f")
    case False
    then have "is_oneof g" "is_oneof f" using own_place(1) [OF ok g'(1) f False] g'(2) by blast+
    moreover from this have "label g \<noteq> REPEATED" "label f \<noteq> REPEATED"
      using oneof_label [OF desc_okD [OF ok g'(1)]] oneof_label [OF fok] by simp_all
    ultimately show ?thesis by (simp add: zero_cell_def zero_val_def)
  qed simp
  with g fok show ?thesis by (simp add: zero_cells_def field_ok_def)
qed

lemma length_init_cells [simp]: "length (message_init_cells desc) = n_cells desc"
proof -
  have "length (fold init_member fs cells) = length cells" for fs and cells :: "'a cell list"
    by (induction fs arbitrary: cells) (simp_all add: init_member_def)
  then show ?thesis by (simp add: message_init_cells_def zero_cells_def)
qed

lemma init_members_nth:
  assumes ok: "desc_ok n desc" and f: "f \<in> set (mfields desc)" and "set fs \<subseteq> set (mfields desc)"
    and "offset f < length cells"
  shows "fold init_member fs cells ! offset f =
     (if f \<in> set fs \<and> default_value f \<noteq> No_Default \<and> label f \<noteq> REPEATED then One (default_val f)
      else cells ! offset f)"
  using assms(3,4)
proof (induction fs arbitrary: cells)
  case (Cons g fs)
  have "init_member g cells ! offset f = cells ! offset f" if "g \<noteq> f"
    using own_place(1) [OF ok _ f that] desc_okD [OF ok, of g] Cons.prems
    by (cases "offset g = offset f") (auto simp: init_member_def field_ok_def)
  moreover have "init_member f cells ! offset f =
      (if default_value f \<noteq> No_Default \<and> label f \<noteq> REPEATED then One (default_val f) else cells ! offset f)"
    using Cons.prems(2) by (simp add: init_member_def)
  ultimately show ?case
    using Cons.IH [of "init_member g cells"] Cons.prems
    by (cases "g = f") (simp_all add: init_member_def split: if_splits)
qed simp

lemma init_cells_nth:
  assumes ok: "desc_ok n desc" and f: "f \<in> set (mfields desc)"
  shows "message_init_cells desc ! offset f = init_cell f"
proof -
  have "offset f < length (zero_cells desc)"
    using desc_okD [OF ok f] by (simp add: zero_cells_def field_ok_def)
  from init_members_nth [OF ok f order_refl this, where ?'a = 'a] f show ?thesis
    by (auto simp: message_init_cells_def zero_cells_nth [OF ok f] init_cell_def zero_cell_def default_val_def)
qed

text \<open>The arrays are allocated for every field but those still to do.\<close>

definition preparing :: "message_desc \<Rightarrow> scanned_member list \<Rightarrow> nat list \<Rightarrow> msg_state \<Rightarrow> bool" where
  "preparing desc ms todo st \<longleftrightarrow>
     m_unknown st = [] \<and> length (m_quants st) = n_quantifiers desc \<and> length (m_cells st) = n_cells desc \<and>
     (\<forall>i < length (mfields desc). label (mfields desc ! i) = REPEATED \<longrightarrow>
        (if i \<in> set todo
         then m_cells st ! offset (mfields desc ! i) = Many [] \<and>
              quantifier_at (m_quants st) (quantifier_offset (mfields desc ! i)) = of_nat (elements desc i ms)
         else m_cells st ! offset (mfields desc ! i) = Many (replicate (elements desc i ms) (V32 0)) \<and>
              quantifier_at (m_quants st) (quantifier_offset (mfields desc ! i)) = 0)) \<and>
     (\<forall>f \<in> set (mfields desc). label f \<noteq> REPEATED \<longrightarrow> m_cells st ! offset f = One (default_val f)) \<and>
     (\<forall>q. no_count desc q \<longrightarrow>
        quantifier_at (m_quants st) q = quantifier_at (message_init_quantifiers desc) q)"

lemma preparing_start:
  assumes ok: "desc_ok n desc" and "counted desc ms qs"
  shows "preparing desc ms [0..<length (mfields desc)]
     \<lparr>m_quants = qs, m_cells = message_init_cells desc, m_unknown = []\<rparr>"
  using assms(2) init_cells_nth [OF ok, where ?'a = pb_msg]
  by (auto simp: preparing_def counted_def init_cell_def)

definition required_seen :: "message_desc \<Rightarrow> scanned_member list \<Rightarrow> bool" where
  "required_seen desc ms \<longleftrightarrow>
     (\<forall>i < length (mfields desc). label (mfields desc ! i) = REQUIRED \<and>
        default_value (mfields desc ! i) = No_Default \<longrightarrow> seen desc ms i)"

lemma prepare_field_step:
  assumes ok: "desc_ok n desc" and p: "preparing desc ms (i # todo) st" and i: "i < length (mfields desc)"
    and d: "i \<notin> set todo" and lim: "8 * elements desc i ms < 4294967296"
    and bm: "bitmap_is_set bm i = Ok (seen desc ms i)"
  shows "prepare_field alloc desc bm i st \<noteq> Fault"
    and "prepare_field alloc desc bm i st = Ok st' \<Longrightarrow> preparing desc ms todo st'"
    and "always_allocates alloc \<Longrightarrow> required_seen desc ms \<Longrightarrow> prepare_field alloc desc bm i st \<noteq> Fail"
proof -
  define f where "f = mfields desc ! i"
  have mem: "f \<in> set (mfields desc)" using i by (simp add: f_def)
  have fok: "field_ok n desc f" using ok mem by (rule desc_okD)
  have same: "preparing desc ms todo st" if "label f \<noteq> REPEATED \<or> elements desc i ms = 0"
    using p that i d by (auto simp: preparing_def f_def split: if_splits)
  define k where "k = elements desc i ms"
  have small: "of_nat k = (0 :: u32) \<longleftrightarrow> k = 0"
    using array_capacity_exact [of k T_INT32] array_capacity_exact [of 0 T_INT32] lim by (auto simp: k_def)
  show "prepare_field alloc desc bm i st \<noteq> Fault"
    using bm by (auto simp: prepare_field_def Let_def)
  show "prepare_field alloc desc bm i st \<noteq> Fail" if "always_allocates alloc" "required_seen desc ms"
    using bm that i by (auto simp: prepare_field_def Let_def required_seen_def always_allocates_def)
  assume r: "prepare_field alloc desc bm i st = Ok st'"
  show "preparing desc ms todo st'"
  proof (cases "label f = REPEATED \<and> k \<noteq> 0")
    case False
    have "st' = st"
    proof (cases "label f = REPEATED")
      case True
      with False p i have "quantifier_at (m_quants st) (quantifier_offset f) = 0"
        by (auto simp: preparing_def f_def k_def split: if_splits)
      with r True show ?thesis by (simp add: prepare_field_def Let_def flip: f_def)
    next
      case False
      with r bm show ?thesis
        by (auto simp: prepare_field_def Let_def on_ok_eq_Ok split: if_splits simp flip: f_def)
    qed
    with same False show ?thesis by (auto simp: k_def)
  next
    case True
    then have q0: "quantifier_offset f \<noteq> 0" and no: "\<not> is_oneof f" using fok by (auto simp: field_ok_def)
    have q: "quantifier_at (m_quants st) (quantifier_offset f) = of_nat k"
      using p i True by (auto simp: preparing_def f_def k_def split: if_splits)
    then have st': "st' = st\<lparr>m_cells := (m_cells st)[offset f := Many (replicate k (V32 0))],
        m_quants := (m_quants st)[quantifier_offset f := 0]\<rparr>"
      using r True lim small
      by (simp add: prepare_field_def Let_def msg_state_upd array_capacity_exact k_def split: if_splits flip: f_def)
    have len: "offset f < length (m_cells st)" "quantifier_offset f < length (m_quants st)"
      using p fok by (auto simp: preparing_def field_ok_def)
    have other: "offset g \<noteq> offset f \<and> (quantifier_offset g = quantifier_offset f \<longrightarrow> quantifier_offset f = 0)"
      if "g \<in> set (mfields desc)" "g \<noteq> f" for g
      using own_place [OF ok that(1) mem that(2)] no by metis
    have j: "mfields desc ! j \<noteq> f" if "j < length (mfields desc)" "j \<noteq> i" for j
      using tids_distinct [of desc j i] ok that i by (auto simp: f_def desc_ok_def)
    show ?thesis
      unfolding preparing_def
    proof (intro conjI allI impI ballI)
      fix j assume jl: "j < length (mfields desc)" and jr: "label (mfields desc ! j) = REPEATED"
      show "if j \<in> set todo
         then m_cells st' ! offset (mfields desc ! j) = Many [] \<and>
              quantifier_at (m_quants st') (quantifier_offset (mfields desc ! j)) = of_nat (elements desc j ms)
         else m_cells st' ! offset (mfields desc ! j) = Many (replicate (elements desc j ms) (V32 0)) \<and>
              quantifier_at (m_quants st') (quantifier_offset (mfields desc ! j)) = 0"
      proof (cases "j = i")
        case True
        with d len show ?thesis by (simp add: st' quantifier_at_update k_def flip: f_def)
      next
        case False
        then have "offset (mfields desc ! j) \<noteq> offset f"
          "quantifier_offset (mfields desc ! j) \<noteq> quantifier_offset f"
          using other [OF nth_mem [OF jl] j [OF jl False]] q0 by auto
        with False p jl jr show ?thesis by (auto simp: st' quantifier_at_update preparing_def)
      qed
    next
      fix g assume g: "g \<in> set (mfields desc)" "label g \<noteq> REPEATED"
      then have "offset g \<noteq> offset f" using other True by blast
      with g p show "m_cells st' ! offset g = One (default_val g)" by (simp add: st' preparing_def)
    next
      fix q assume nc: "no_count desc q"
      then have "q \<noteq> quantifier_offset f" using mem True by (auto simp: no_count_def)
      with nc p show "quantifier_at (m_quants st') q = quantifier_at (message_init_quantifiers desc) q"
        by (simp add: st' quantifier_at_update preparing_def)
    qed (use p in \<open>simp_all add: st' preparing_def\<close>)
  qed
qed

lemma prepare_fields_fine:
  assumes ok: "desc_ok n desc" and "preparing desc ms fs st" and "distinct fs"
    and "\<forall>i \<in> set fs. i < length (mfields desc)" and lim: "\<And>i. 8 * elements desc i ms < 4294967296"
    and bm: "\<forall>i < length (mfields desc). bitmap_is_set bm i = Ok (seen desc ms i)"
  shows "prepare_fields alloc desc bm fs st \<noteq> Fault"
    and "prepare_fields alloc desc bm fs st = Ok st' \<Longrightarrow> preparing desc ms [] st'"
    and "always_allocates alloc \<Longrightarrow> required_seen desc ms \<Longrightarrow> prepare_fields alloc desc bm fs st \<noteq> Fail"
proof -
  have "prepare_fields alloc desc bm fs st \<noteq> Fault \<and>
      (\<forall>st'. prepare_fields alloc desc bm fs st = Ok st' \<longrightarrow> preparing desc ms [] st') \<and>
      (always_allocates alloc \<longrightarrow> required_seen desc ms \<longrightarrow> prepare_fields alloc desc bm fs st \<noteq> Fail)"
    using assms(2-4)
  proof (induction fs arbitrary: st)
    case (Cons i fs)
    note s = prepare_field_step [OF ok Cons.prems(1) _ _ lim, of bm alloc]
    show ?case
    proof (cases "prepare_field alloc desc bm i st")
      case (Ok st1)
      with s(2) [of st1] Cons bm show ?thesis by auto
    qed (use s(1,3) Cons.prems bm in auto)
  qed simp
  then show "prepare_fields alloc desc bm fs st \<noteq> Fault"
    and "prepare_fields alloc desc bm fs st = Ok st' \<Longrightarrow> preparing desc ms [] st'"
    and "always_allocates alloc \<Longrightarrow> required_seen desc ms \<Longrightarrow> prepare_fields alloc desc bm fs st \<noteq> Fail"
    by blast+
qed

lemma prepared_parsing:
  assumes ok: "desc_ok n desc" and p: "preparing desc ms [] st" and "cap = unknowns ms"
  shows "parsing descs desc 0 cap ms st"
proof -
  have q0: "quantifier_at (m_quants st) (quantifier_offset f) = 0" if "f \<in> set (mfields desc)" "is_oneof f" for f
  proof -
    have fok: "field_ok n desc f" using ok that(1) by (rule desc_okD)
    have "no_count desc (quantifier_offset f)"
      unfolding no_count_def
    proof (intro ballI impI)
      fix g assume g: "g \<in> set (mfields desc)" "label g = REPEATED"
      then have "\<not> is_oneof g" using desc_okD [OF ok g(1)] by (auto simp: field_ok_def)
      then show "quantifier_offset g \<noteq> quantifier_offset f"
        using own_place(2) [OF ok g(1) that(1)] that(2) fok unfolding field_ok_def by metis
    qed
    then show ?thesis using p fok that(2) by (simp add: preparing_def quantifier_at_init field_ok_def)
  qed
  have "field_fine (fine descs 0) 0 (m_quants st) (m_cells st) f" if f: "f \<in> set (mfields desc)" for f
  proof (cases "label f = REPEATED")
    case True
    obtain i where "i < length (mfields desc)" "f = mfields desc ! i" using f by (auto simp: in_set_conv_nth)
    with p True show ?thesis by (auto simp: preparing_def field_fine_def Let_def holds_def)
  next
    case False
    with p f q0 [OF f] show ?thesis by (auto simp: preparing_def field_fine_def Let_def holds_def)
  qed
  moreover have "cases_fine desc (m_quants st)" using q0 by (simp add: cases_fine_def)
  moreover have "offset (mfields desc ! i) < n_cells desc" if "i < length (mfields desc)" for i
    using desc_okD [OF ok nth_mem [OF that]] by (simp add: field_ok_def)
  ultimately show ?thesis
    using p assms(3) by (auto simp: parsing_def layout_fine_def preparing_def array_of_def)
qed


section \<open>All members, all levels\<close>

text \<open>The members of a slab from index \<open>j\<close> on, then the slabs from index \<open>i\<close> on.\<close>

definition ready :: "message_desc list \<Rightarrow> message_desc \<Rightarrow> unpacker \<Rightarrow> nat \<Rightarrow> scanned_member list \<Rightarrow> bool" where
  "ready descs desc unpack K ms \<longleftrightarrow>
     (\<forall>sm \<in> set ms. good_member desc sm \<and> unpacks_fine descs (slen sm) unpack) \<and>
     8 * (K + total_len ms) < 4294967296"

lemma ready_append:
  "ready descs desc unpack K (ms @ rs) \<Longrightarrow>
     ready descs desc unpack K ms \<and> ready descs desc unpack (K + total_len ms) rs"
  by (auto simp: ready_def total_len_def)

lemma total_len_Cons [simp]: "total_len (sm # ms) = slen sm + total_len ms"
  by (simp add: total_len_def)

lemma total_len_append [simp]: "total_len (ms @ rs) = total_len ms + total_len rs"
  by (simp add: total_len_def)

lemma parse_slab_fine:
  assumes ok: "desc_ok (length descs) desc" and dok: "descs_ok descs"
    and "parsing descs desc K cap (drop j slab @ rs) st" and "ready descs desc unpack K (drop j slab)"
    and "j \<le> length slab"
  shows "parsed_ok descs desc (K + total_len (drop j slab)) cap rs
     (parse_slab unpack alloc desc cap slab [j..<length slab] st)"
  using assms(3-)
proof (induction "length slab - j" arbitrary: j K st)
  case 0
  then have "j = length slab" by simp
  with 0 show ?case by (simp add: parsed_ok_def total_len_def)
next
  case (Suc k)
  have j: "j < length slab" using Suc.hyps(2) by simp
  then have split: "drop j slab = slab ! j # drop (Suc j) slab" and upt: "[j..<length slab] = j # [Suc j..<length slab]"
    by (simp_all add: Cons_nth_drop_Suc upt_conv_Cons)
  have p: "parsing descs desc K cap (slab ! j # drop (Suc j) slab @ rs) st" using Suc.prems(1) split by simp
  have r: "good_member desc (slab ! j)" "unpacks_fine descs (slen (slab ! j)) unpack"
    "8 * (K + slen (slab ! j)) < 4294967296" "ready descs desc unpack (K + slen (slab ! j)) (drop (Suc j) slab)"
    using Suc.prems(2) split by (auto simp: ready_def)
  have step: "parsed_ok descs desc (K + slen (slab ! j)) cap (drop (Suc j) slab @ rs)
      (parse_member unpack (\<lambda>place. alloc (j # place)) desc cap (slab ! j) st)"
    using parse_member_step [OF ok dok r(2) p r(1) _ r(3)] by simp
  show ?case
  proof (cases "parse_member unpack (\<lambda>place. alloc (j # place)) desc cap (slab ! j) st")
    case (Ok st1)
    have "parsed_ok descs desc (K + slen (slab ! j) + total_len (drop (Suc j) slab)) cap rs
        (parse_slab unpack alloc desc cap slab [Suc j..<length slab] st1)"
      using step Ok Suc.hyps(2) j r(4) by (intro Suc.hyps(1)) (auto simp: parsed_ok_def)
    with Ok j show ?thesis by (simp add: upt split add.assoc)
  qed (use step j in \<open>simp_all add: upt parsed_ok_def\<close>)
qed

lemma parse_slabs_fine:
  assumes ok: "desc_ok (length descs) desc" and dok: "descs_ok descs" and sl: "slabs_ok scan"
    and cap: "n_unknown scan = cap"
    and "parsing descs desc K cap (concat (drop i (slabs scan))) st"
    and "ready descs desc unpack K (concat (drop i (slabs scan)))" and "i \<le> length (slabs scan)"
  shows "parsed_ok descs desc (K + total_len (concat (drop i (slabs scan)))) cap []
     (parse_slabs unpack alloc desc scan [i..<length (slabs scan)] st)"
  using assms(5-)
proof (induction "length (slabs scan) - i" arbitrary: i K st)
  case 0
  then have "i = length (slabs scan)" by simp
  with 0 show ?case by (simp add: parsed_ok_def total_len_def)
next
  case (Suc k)
  define slab rs where "slab = slabs scan ! i" and "rs = concat (drop (Suc i) (slabs scan))"
  have i: "i < length (slabs scan)" using Suc.hyps(2) by simp
  then have split: "concat (drop i (slabs scan)) = slab @ rs"
    and upt: "[i..<length (slabs scan)] = i # [Suc i..<length (slabs scan)]"
    by (simp_all add: Cons_nth_drop_Suc [symmetric] upt_conv_Cons slab_def rs_def)
  have max: "(if i = which_slab scan then in_slab_index scan else slab_size i) = length slab"
    using sl i by (auto simp: slabs_ok_def slab_def)
  have r: "ready descs desc unpack K slab" "ready descs desc unpack (K + total_len slab) rs"
    using Suc.prems(2) unfolding split by (simp_all add: ready_append)
  have p: "parsing descs desc K cap (slab @ rs) st" using Suc.prems(1) split by simp
  have step: "parsed_ok descs desc (K + total_len slab) cap rs
      (parse_slab unpack (\<lambda>place. alloc (5 # i # place)) desc cap slab [0..<length slab] st)"
    using parse_slab_fine [OF ok dok, of K cap 0 slab rs st unpack "\<lambda>place. alloc (5 # i # place)"] p r(1) by simp
  show ?case
  proof (cases "parse_slab unpack (\<lambda>place. alloc (5 # i # place)) desc cap slab [0..<length slab] st")
    case (Ok st1)
    have "parsed_ok descs desc (K + total_len slab + total_len rs) cap []
        (parse_slabs unpack alloc desc scan [Suc i..<length (slabs scan)] st1)"
      unfolding rs_def
      using step Ok Suc.hyps(2) i r(2) by (intro Suc.hyps(1)) (auto simp: parsed_ok_def rs_def)
    with Ok i max cap show ?thesis by (simp add: upt split add.assoc Let_def flip: slab_def)
  qed (use step i max cap in \<open>simp_all add: upt parsed_ok_def Let_def flip: slab_def\<close>)
qed

lemma mcount_le: "member_ok sm \<Longrightarrow> mcount desc sm \<le> slen sm"
  using member_count_fine(2) [of sm]
  by (auto simp: mcount_def split: option.splits pb_result.splits)

lemma elements_le: "list_all (good_member desc) ms \<Longrightarrow> elements desc i ms \<le> total_len ms"
proof (induction ms)
  case (Cons sm ms)
  then have "mcount desc sm \<le> slen sm" by (intro mcount_le) (simp add: good_member_def)
  with Cons show ?case by simp
qed (simp add: elements_def total_len_def)

lemma slen_le_total: "sm \<in> set ms \<Longrightarrow> slen sm \<le> total_len ms"
  by (induction ms) auto

lemma unpack_body_fine:
  assumes dok: "descs_ok descs" and d: "d < length descs" and lim: "8 * length data < 4294967296"
    and un: "\<And>n. n < length data \<Longrightarrow> unpacks_fine descs n unpack"
  shows "unpack_body unpack alloc (descs ! d) data \<noteq> Fault"
    and "unpack_body unpack alloc (descs ! d) data = Ok m \<Longrightarrow> fine descs (length data) d m"
proof -
  define desc where "desc = descs ! d"
  have ok: "desc_ok (length descs) desc" unfolding desc_def using dok d by (rule descs_okD)
  note init = scan_init_scanned [OF ok]
  note loop = scan_loop_fine [OF ok init, simplified]
  define scan1 where "scan1 = scan_loop desc alloc data (scan_init desc (message_init_quantifiers desc))"
  define prep where "prep scan = prepare_fields alloc desc (required_fields_bitmap scan) [0..<length (mfields desc)]
        \<lparr>m_quants = counts scan, m_cells = message_init_cells desc, m_unknown = []\<rparr>" for scan :: scan_state
  define parse where "parse scan st = parse_slabs unpack alloc desc scan [0..<which_slab scan + 1] st" for scan :: scan_state and st
  have scan: "scan1 \<noteq> Fault" using loop(1) by (simp add: scan1_def)
  have main: "prep scan \<noteq> Fault \<and> (\<forall>st. prep scan = Ok st \<longrightarrow> parse scan st \<noteq> Fault \<and>
      (\<forall>st'. parse scan st = Ok st' \<longrightarrow>
        fine descs (length data) d (Msg desc (m_quants st') (m_cells st') (m_unknown st'))))"
    if s: "scan1 = Ok scan" for scan
  proof -
    obtain ms where ms: "scanned desc ms scan" "list_all (good_member desc) ms" "total_len ms \<le> length data"
      "data \<noteq> [] \<longrightarrow> total_len ms < length data"
      using loop(2) [OF s [unfolded scan1_def]] by blast
    have sl: "slabs_ok scan" "concat (slabs scan) = ms" "n_unknown scan = unknowns ms"
      using ms(1) by (simp_all add: scanned_def members_of_def)
    have el: "8 * elements desc i ms < 4294967296" for i
      using elements_le [OF ms(2), of i] ms(3) lim by simp
    have bm: "\<forall>i < length (mfields desc). bitmap_is_set (required_fields_bitmap scan) i = Ok (seen desc ms i)"
      and cnt: "counted desc ms (counts scan)" using ms(1) by (simp_all add: scanned_def)
    note p = prepare_fields_fine [OF ok preparing_start [OF ok cnt] _ _ el bm, simplified]
    have r: "ready descs desc unpack 0 ms"
      unfolding ready_def
    proof (intro conjI ballI)
      fix sm assume sm: "sm \<in> set ms"
      then show g: "good_member desc sm" using ms(2) by (simp add: list_all_iff)
      have "data \<noteq> []" using slen_le_total [OF sm] g ms(3) by (auto simp: good_member_def member_ok_def)
      then show "unpacks_fine descs (slen sm) unpack"
        using ms(4) slen_le_total [OF sm] by (intro un) simp
    qed (use ms(3) lim in simp)
    have "which_slab scan + 1 = length (slabs scan)" using sl(1) by (simp add: slabs_ok_def)
    then have "parsed_ok descs desc (total_len ms) (unknowns ms) [] (parse scan st)" if "prep scan = Ok st" for st
      using parse_slabs_fine [OF ok dok sl(1,3), of 0 0 st unpack alloc] sl(2) r
        prepared_parsing [OF ok p(2) refl, of alloc st descs] that
      by (simp add: parse_def prep_def)
    then show ?thesis
      using p(1) [of alloc] ms(3) d
      by (fastforce simp: parsed_ok_def prep_def desc_def dest: parsing_layout intro!: fine.fine_Msg)
  qed
  have eq: "unpack_body unpack alloc (descs ! d) data =
     (if \<not> alloc [0] (sizeof_message desc) then Fail
      else if bitmap_len desc > 16 \<and> \<not> alloc [1] (bitmap_len desc) then Fail
      else on_ok scan1 (\<lambda>scan. on_ok (prep scan) (\<lambda>st.
        if n_unknown scan \<noteq> 0 \<and> \<not> alloc [4] (n_unknown scan * sizeof_unknown_field) then Fail
        else on_ok (parse scan st) (\<lambda>st. Ok (Msg desc (m_quants st) (m_cells st) (m_unknown st))))))"
    unfolding unpack_body_def scan1_def prep_def parse_def desc_def by (rule refl)
  show "unpack_body unpack alloc (descs ! d) data \<noteq> Fault"
    unfolding eq using scan main by (auto simp: on_ok_eq_Fault)
  show "fine descs (length data) d m" if "unpack_body unpack alloc (descs ! d) data = Ok m"
    using that main unfolding eq by (auto simp: on_ok_eq_Ok split: if_splits)
qed

lemma unpack_depth_fine:
  assumes dok: "descs_ok descs"
  shows "8 * B < 4294967296 \<Longrightarrow> unpacks_fine descs B (unpack_depth descs (B + 1))"
proof -
  have "\<forall>n < k. 8 * n < 4294967296 \<longrightarrow> unpacks_fine descs n (unpack_depth descs k)" for k
  proof (induction k)
    case (Suc k)
    show ?case
    proof (intro allI impI)
      fix n assume n: "n < Suc k" "8 * n < (4294967296 :: nat)"
      have "unpack_depth descs (Suc k) alloc d data \<noteq> Fault \<and>
          (\<forall>m. unpack_depth descs (Suc k) alloc d data = Ok m \<longrightarrow> fine descs (length data) d m)"
        if d: "d < length descs" and len: "length data \<le> n" for alloc d data
        using unpack_body_fine [OF dok d, of data "unpack_depth descs k" alloc] Suc.IH n len d by auto
      then show "unpacks_fine descs n (unpack_depth descs (Suc k))" by (simp add: unpacks_fine_def)
    qed
  qed simp
  then show "8 * B < 4294967296 \<Longrightarrow> unpacks_fine descs B (unpack_depth descs (B + 1))"
    by (simp del: unpack_depth.simps)
qed

text \<open>
  C3: \<open>protobuf_c_message_unpack\<close> is safe on any bytes, with any answers of the allocator: it ends
  (one level of recursion per byte is enough), never reads outside the bytes, never writes outside
  an array, a slab or the unknown members it allocated from the counts of its first pass, and a
  message it returns is laid out as its descriptor says, embedded messages included.
\<close>

theorem unpack_safe:
  assumes "descs_ok descs" and "d < length descs" and "8 * length data < 2 ^ 32"
  shows "case protobuf_c_message_unpack descs alloc d data of
     Fault \<Rightarrow> False
   | Fail \<Rightarrow> True
   | Ok m \<Rightarrow> fine descs (length data) d m"
proof -
  have "unpacks_fine descs (length data) (unpack_depth descs (length data + 1))"
    using assms by (intro unpack_depth_fine) simp_all
  with assms(2) have "unpack_depth descs (length data + 1) alloc d data \<noteq> Fault"
    "unpack_depth descs (length data + 1) alloc d data = Ok m \<Longrightarrow> fine descs (length data) d m" for m
    by (auto simp: unpacks_fine_def simp del: unpack_depth.simps)
  then show ?thesis
    unfolding protobuf_c_message_unpack_def by (auto split: pb_result.split simp del: unpack_depth.simps)
qed


text \<open>
  A descriptor of a recursive type: packed numbers, a message of the same type, and a oneof of a
  string and a number.
\<close>

definition sample_field :: "string \<Rightarrow> u32 \<Rightarrow> pb_label \<Rightarrow> pb_type \<Rightarrow> nat \<Rightarrow> nat \<Rightarrow> u32 \<Rightarrow> field_desc" where
  "sample_field nm tag lab type q off flg =
     \<lparr> name = nm, tid = tag, label = lab, ftype = type, quantifier_offset = q, offset = off,
       descriptor = 0, default_value = No_Default, flags = flg \<rparr>"

definition sample_desc :: message_desc where
  "sample_desc = \<lparr> short_name = ''Sample'', sizeof_message = 32,
     mfields = [sample_field ''vals'' 5 REPEATED T_INT32 1 0 FLAG_PACKED,
       sample_field ''sub'' 6 NONE T_MESSAGE 0 1 0,
       sample_field ''text'' 9 NONE T_STRING 2 2 FLAG_ONEOF,
       sample_field ''num'' 10 NONE T_UINT32 2 2 FLAG_ONEOF],
     fields_sorted_by_name = [3, 1, 2, 0],
     field_ranges = [\<lparr> start_value = 5, orig_index = 0 \<rparr>, \<lparr> start_value = 9, orig_index = 2 \<rparr>,
       \<lparr> start_value = 0, orig_index = 4 \<rparr>],
     n_quantifiers = 3, n_cells = 3 \<rparr>"

lemma less_small: "(i :: nat) < 2 \<longleftrightarrow> i = 0 \<or> i = 1" "(i :: nat) < 3 \<longleftrightarrow> i = 0 \<or> i = 1 \<or> i = 2" "(i :: nat) < 4 \<longleftrightarrow> i = 0 \<or> i = 1 \<or> i = 2 \<or> i = 3"
  by auto

lemma sample_descs_ok: "descs_ok [sample_desc]"
proof -
  have table: "field_table sample_desc"
    by (auto simp: field_table_def range_table_def sample_desc_def sample_field_def run_ok_def
        range_end_def less_small less_Suc_eq)
  have apart: "\<forall>f \<in> set (mfields sample_desc). \<forall>g \<in> set (mfields sample_desc). f \<noteq> g \<longrightarrow> fields_apart f g"
    by (simp add: sample_desc_def sample_field_def fields_apart_def is_oneof_def FLAG_ONEOF_def)
  have each: "\<forall>f \<in> set (mfields sample_desc). field_ok 1 sample_desc f"
    by (simp add: sample_desc_def sample_field_def field_ok_def default_ok_def is_oneof_def is_packed_def
        FLAG_ONEOF_def FLAG_PACKED_def is_packable_type_def is_ptr_type_def)
  have "\<forall>c < n_cells sample_desc. \<exists>f \<in> set (mfields sample_desc). offset f = c"
    "\<forall>q < n_quantifiers sample_desc. 0 < q \<longrightarrow> (\<exists>f \<in> set (mfields sample_desc). quantifier_offset f = q)"
    by (auto simp: sample_desc_def sample_field_def less_small)
  with table apart each show ?thesis
    by (simp add: descs_ok_def desc_ok_def) (simp add: sample_desc_def)
qed

definition sample_bytes :: bytes where
  "sample_bytes = [0x2a, 3, 1, 0xac, 2, 0x32, 2, 0x50, 7]"

theorem unpack_safe_witness:
  "descs_ok [sample_desc] \<and>
   (case protobuf_c_message_unpack [sample_desc] (\<lambda>_ _. True) 0 sample_bytes of
      Fault \<Rightarrow> False
    | Fail \<Rightarrow> True
    | Ok m \<Rightarrow> fine [sample_desc] (length sample_bytes) 0 m)"
proof -
  have "8 * length sample_bytes < 2 ^ 32" by (simp add: sample_bytes_def)
  with unpack_safe [OF sample_descs_ok, of 0 sample_bytes "\<lambda>_ _. True"] sample_descs_ok show ?thesis
    by simp
qed

end
