(* ===== verification/Pb_Roundtrip.thy ===== *)
theory Pb_Roundtrip
  imports Pb_Unpack_Ok
begin

unbundle bit_operations_syntax

text \<open>
  Unpacking inverts packing.  The encoding of a message is a list of items (key, length prefix, body);
  the scan cuts received items into members, and parsing them in turn rebuilds the message.

  A message comes back as it was when it is \<open>canonical\<close>: laid out as its descriptor says, its
  pointers are to objects of its own, booleans are 0 or 1, an optional member that is absent and an
  unlabelled one that is zero hold their default, and no array has room to spare.
\<close>

section \<open>Items\<close>

record item =
  itag :: u32
  iwire :: u8
  iprefix :: bytes
  ibody :: bytes

definition item_bytes :: "item \<Rightarrow> bytes" where
  "item_bytes it = tag_key (itag it) (iwire it) @ iprefix it @ ibody it"

definition items_bytes :: "item list \<Rightarrow> bytes" where
  "items_bytes its = concat (map item_bytes its)"

text \<open>The bytes of one varint, shortest or not.\<close>

definition varint_shape :: "bytes \<Rightarrow> bool" where
  "varint_shape bs \<longleftrightarrow>
     bs \<noteq> [] \<and> length bs \<le> 10 \<and> list_all more_bit (butlast bs) \<and> \<not> more_bit (last bs)"

definition item_ok :: "item \<Rightarrow> bool" where
  "item_ok it \<longleftrightarrow> itag it \<noteq> 0 \<and>
     (if iwire it = of_nat WIRE_TYPE_VARINT then iprefix it = [] \<and> varint_shape (ibody it)
      else if iwire it = of_nat WIRE_TYPE_64BIT then iprefix it = [] \<and> length (ibody it) = 8
      else if iwire it = of_nat WIRE_TYPE_LENGTH_PREFIXED
      then iprefix it = varint (length (ibody it)) \<and> length (ibody it) < 2 ^ 31
      else iwire it = of_nat WIRE_TYPE_32BIT \<and> iprefix it = [] \<and> length (ibody it) = 4)"

lemma items_bytes_simps [simp]:
  "items_bytes [] = []"
  "items_bytes (it # its) = item_bytes it @ items_bytes its"
  "items_bytes (its @ its') = items_bytes its @ items_bytes its'"
  by (simp_all add: items_bytes_def)

lemma scan_more_shape:
  "\<lbrakk>drop i data = bs @ rest; bs \<noteq> []; list_all more_bit (butlast bs); \<not> more_bit (last bs); length bs \<le> k\<rbrakk>
     \<Longrightarrow> scan_more i k data = Some (i + length bs - 1)"
proof (induction i k data arbitrary: bs rule: scan_more.induct)
  case (2 i k data)
  obtain b bs' where bs: "bs = b # bs'" using 2 by (cases bs) auto
  have i: "i < length data" using 2 bs by (metis drop_eq_Nil append_Cons list.distinct(1) not_le)
  then have b: "data ! i = b" "drop (Suc i) data = bs' @ rest"
    using "2.prems"(1) bs by (simp_all add: Cons_nth_drop_Suc [symmetric])
  show ?case
  proof (cases "bs' = []")
    case True
    with 2 bs b i show ?thesis by (simp add: rd_in)
  next
    case False
    with "2.prems" bs have "more_bit b" by simp
    with "2.IH" [OF _ _ b(2)] False "2.prems" bs b i show ?thesis by (simp add: rd_in)
  qed
qed simp

lemma varint_shape_varint: "n < 18446744073709551616 \<Longrightarrow> varint_shape (varint n)"
  unfolding varint_shape_def
  using varint_more_bits [of _ n] length_varint_u64 [of n]
  by (auto simp: list_all_length nth_butlast last_conv_nth simp del: more_bit_iff)

lemma tag_key_bytes: "w < 8 \<Longrightarrow> tag_key t (of_nat w) = varint (8 * unat t + w)"
  by (simp add: tag_key_def key_bytes_tag [unfolded key_bytes_def])

lemma item_ok_wire: "item_ok it \<Longrightarrow> \<exists>w < 8. iwire it = of_nat w"
  by (auto simp: item_ok_def wire_types split: if_splits intro: exI [of _ 0] exI [of _ 1] exI [of _ 2] exI [of _ 5])

lemma item_key:
  assumes "item_ok it"
  shows "parse_tag_and_wiretype (item_bytes it @ rest) =
     Some (length (tag_key (itag it) (iwire it)), itag it, iwire it)"
proof -
  obtain w where w: "w < 8" "iwire it = of_nat w" using item_ok_wire [OF assms] by blast
  then have "item_bytes it @ rest = varint (8 * unat (itag it) + w) @ iprefix it @ ibody it @ rest"
    by (simp add: item_bytes_def tag_key_bytes)
  from parse_tag_and_wiretype_key [OF this] assms w show ?thesis
    by (simp add: item_ok_def tag_key_bytes)
qed

lemma item_value:
  assumes "item_ok it"
  shows "scan_value (iwire it) (iprefix it @ ibody it @ rest) =
     Ok (length (iprefix it) + length (ibody it), length (iprefix it))"
proof (cases "iwire it = of_nat WIRE_TYPE_VARINT")
  case True
  define k where "k = (if length (ibody it @ rest) < 10 then length (ibody it @ rest) else 10)"
  have b: "ibody it \<noteq> []" "length (ibody it) \<le> 10" "list_all more_bit (butlast (ibody it))"
    "\<not> more_bit (last (ibody it))" "iprefix it = []"
    using True assms by (simp_all add: item_ok_def varint_shape_def del: more_bit_iff)
  then have "length (ibody it) \<le> k" "0 < length (ibody it)" by (auto simp: k_def)
  with scan_more_shape [of 0 "ibody it @ rest" "ibody it" rest k] b True show ?thesis
    unfolding b(5) append_Nil scan_value_def Let_def k_def [symmetric]
    by (cases "ibody it") auto
next
  case False
  have "iprefix it = varint (length (ibody it)) \<Longrightarrow> length (ibody it) < 2147483648 \<Longrightarrow>
      scan_length_prefixed_data (iprefix it @ ibody it @ rest) =
        Some (length (iprefix it) + length (ibody it), length (iprefix it))"
    by (subst scan_length_prefixed_data_inverse [of _ "ibody it" rest]) simp_all
  then show ?thesis
    using assms False by (auto simp: item_ok_def scan_value_def wire_types split: if_splits)
qed

text \<open>What the scan makes of an item that is followed by \<open>rest\<close>, and of items in a row.\<close>

definition member_of :: "message_desc \<Rightarrow> item \<Rightarrow> bytes \<Rightarrow> scanned_member" where
  "member_of desc it rest =
     \<lparr>stag = itag it, swire = iwire it, length_prefix_len = length (iprefix it),
      sfield = field_of desc (itag it), slen = length (iprefix it) + length (ibody it),
      sdata = iprefix it @ ibody it @ rest\<rparr>"

fun cut_items :: "message_desc \<Rightarrow> bytes \<Rightarrow> item list \<Rightarrow> scanned_member list" where
  "cut_items desc rest [] = []"
| "cut_items desc rest (it # its) = member_of desc it (items_bytes its @ rest) # cut_items desc rest its"

lemma cut_append [simp]: "cut_items desc rest (its @ its') = cut_items desc (items_bytes its' @ rest) its @ cut_items desc rest its'"
  by (induction its) simp_all

lemma length_cut [simp]: "length (cut_items desc rest its) = length its"
  by (induction its) simp_all

definition item_countable :: "message_desc \<Rightarrow> item \<Rightarrow> bool" where
  "item_countable desc it \<longleftrightarrow> (\<forall>rest. countable desc (member_of desc it rest))"

lemma scan_items:
  assumes ok: "desc_ok n desc" and al: "always_allocates alloc"
    and "scanned desc ms st" and "length ms + length its \<le> max_members"
    and "list_all (\<lambda>it. item_ok it \<and> item_countable desc it) its"
  obtains st' where "scan_loop desc alloc (items_bytes its) st = Ok st'"
    "scanned desc (ms @ cut_items desc [] its) st'"
  using assms(3-)
proof (induction its arbitrary: ms st thesis)
  case Nil
  then show ?case by (simp add: scan_loop.simps)
next
  case (Cons it its)
  let ?at = "items_bytes (it # its)" and ?sm = "member_of desc it (items_bytes its)"
  let ?key = "tag_key (itag it) (iwire it)"
  have it: "item_ok it" "item_countable desc it" using Cons.prems by simp_all
  have tag: "parse_tag_and_wiretype ?at = Some (length ?key, itag it, iwire it)"
    using item_key [OF it(1)] by simp
  have used: "length ?key \<noteq> 0" by (simp add: tag_key_def)
  have drop: "drop (length ?key) ?at = iprefix it @ ibody it @ items_bytes its"
    by (simp add: item_bytes_def)
  have val: "scan_value (iwire it) (drop (length ?key) ?at) =
      Ok (length (iprefix it) + length (ibody it), length (iprefix it))"
    unfolding drop by (rule item_value [OF it(1)])
  have sm: "?sm = \<lparr>stag = itag it, swire = iwire it, length_prefix_len = length (iprefix it),
      sfield = field_of desc (itag it), slen = length (iprefix it) + length (ibody it),
      sdata = drop (length ?key) ?at\<rparr>"
    by (simp only: member_of_def drop)
  note core = scan_step_core [OF ok Cons.prems(2) tag used val sm, where alloc = alloc]
  have "length ms < max_members" "countable desc ?sm"
    using Cons.prems(3) it(2) by (simp_all add: item_countable_def)
  with core(1,3) al obtain r where "scan_step desc alloc ?at st = Ok r"
    by (cases "scan_step desc alloc ?at st") auto
  then obtain k st1 where r: "scan_step desc alloc ?at st = Ok (k, st1)" by (cases r) auto
  note c = core(2) [OF r]
  have k: "drop k ?at = items_bytes its" using c by (simp add: item_bytes_def)
  have sc: "scanned desc (ms @ [?sm]) st1" using c by simp
  obtain st' where st': "scan_loop desc alloc (items_bytes its) st1 = Ok st'"
    "scanned desc ((ms @ [?sm]) @ cut_items desc [] its) st'"
    by (rule Cons.IH [OF _ sc]) (use Cons.prems(3,4) in auto)
  have "?at \<noteq> []" using used by (auto simp: item_bytes_def)
  then have "scan_loop desc alloc ?at st = Ok st'"
    using st'(1) r k by (subst scan_loop.simps) (simp del: items_bytes_simps)
  with st'(2) Cons.prems(1) show ?case by simp
qed


section \<open>Canonical messages and their items\<close>

fun val_canonical :: "(nat \<Rightarrow> pb_msg \<Rightarrow> bool) \<Rightarrow> field_desc \<Rightarrow> pb_msg pb_val \<Rightarrow> bool" where
  "val_canonical P f (V32 v) \<longleftrightarrow>
     ftype f \<in> {T_INT32, T_SINT32, T_SFIXED32, T_UINT32, T_FIXED32, T_FLOAT, T_ENUM}"
| "val_canonical P f (V64 v) \<longleftrightarrow>
     ftype f \<in> {T_INT64, T_SINT64, T_SFIXED64, T_UINT64, T_FIXED64, T_DOUBLE}"
| "val_canonical P f (VBool b) \<longleftrightarrow> ftype f = T_BOOL \<and> (b = 0 \<or> b = 1)"
| "val_canonical P f (VStr p) \<longleftrightarrow> ftype f = T_STRING \<and> (case p of Heap s \<Rightarrow> 0 \<notin> set s | _ \<Rightarrow> False)"
| "val_canonical P f (VBytes p) \<longleftrightarrow>
     ftype f = T_BYTES \<and> (case p of Heap bs \<Rightarrow> bs \<noteq> [] | Null \<Rightarrow> True | Default _ \<Rightarrow> False)"
| "val_canonical P f (VMsg p) \<longleftrightarrow>
     ftype f = T_MESSAGE \<and> (case p of Heap m \<Rightarrow> P (descriptor f) m | _ \<Rightarrow> False)"

text \<open>
  One member.  A member of a oneof counts only when the case word names it; one whose case word is 0
  has the zero memory of the union.
\<close>

definition single_canonical ::
  "(nat \<Rightarrow> pb_msg \<Rightarrow> bool) \<Rightarrow> field_desc \<Rightarrow> u32 \<Rightarrow> pb_msg pb_val \<Rightarrow> bool" where
  "single_canonical P f q v \<longleftrightarrow>
     (if label f = REQUIRED then val_canonical P f v
      else if is_oneof f then (q = tid f \<longrightarrow> val_canonical P f v) \<and> (q = 0 \<longrightarrow> v = default_val f)
      else if label f = OPTIONAL then
        (if is_ptr_type f then v = default_val f \<or> val_canonical P f v
         else q = 0 \<and> v = default_val f \<or> q = 1 \<and> val_canonical P f v)
      else if field_is_zeroish f v then v = default_val f
      else val_canonical P f v)"

definition field_canonical ::
  "(nat \<Rightarrow> pb_msg \<Rightarrow> bool) \<Rightarrow> u32 list \<Rightarrow> pb_msg cell list \<Rightarrow> field_desc \<Rightarrow> bool" where
  "field_canonical P qs cells f \<longleftrightarrow>
     (let q = quantifier_at qs (quantifier_offset f) in
      case cells ! offset f of
        Many vs \<Rightarrow> label f = REPEATED \<and> unat q = length vs \<and> (\<forall>v \<in> set vs. val_canonical P f v)
      | One v \<Rightarrow> label f \<noteq> REPEATED \<and> single_canonical P f q v)"

definition unknown_item :: "unknown_field \<Rightarrow> item" where
  "unknown_item u =
     (let pre = (if wire_type u = of_nat WIRE_TYPE_LENGTH_PREFIXED
                 then (case scan_varint (length (udata u)) (udata u) of Some n \<Rightarrow> n | None \<Rightarrow> 0) else 0) in
      \<lparr>itag = utag u, iwire = wire_type u, iprefix = take pre (udata u), ibody = drop pre (udata u)\<rparr>)"

definition unknown_canonical :: "message_desc \<Rightarrow> unknown_field \<Rightarrow> bool" where
  "unknown_canonical desc u \<longleftrightarrow> field_of desc (utag u) = None \<and> item_ok (unknown_item u)"

definition message_canonical ::
  "(nat \<Rightarrow> pb_msg \<Rightarrow> bool) \<Rightarrow> message_desc \<Rightarrow> u32 list \<Rightarrow> pb_msg cell list \<Rightarrow> unknown_field list \<Rightarrow> bool" where
  "message_canonical P desc qs cells us \<longleftrightarrow>
     length qs = n_quantifiers desc \<and> length cells = n_cells desc \<and> qs ! 0 = 1 \<and> cases_fine desc qs \<and>
     (\<forall>f \<in> set (mfields desc). field_canonical P qs cells f) \<and> (\<forall>u \<in> set us. unknown_canonical desc u)"

lemma val_canonical_mono: "val_canonical P f v \<Longrightarrow> (\<And>d m. P d m \<Longrightarrow> Q d m) \<Longrightarrow> val_canonical Q f v"
  by (cases v) (auto split: ptr.splits)

lemma field_canonical_mono:
  assumes "field_canonical P qs cells f" and "\<And>d m. P d m \<Longrightarrow> Q d m"
  shows "field_canonical Q qs cells f"
  using assms val_canonical_mono [OF _ assms(2)]
  by (auto simp: field_canonical_def single_canonical_def Let_def split: cell.splits if_splits)

lemma message_canonical_mono [mono]:
  "P \<le> Q \<Longrightarrow> message_canonical P desc qs cells us \<longrightarrow> message_canonical Q desc qs cells us"
  by (auto simp: message_canonical_def intro: field_canonical_mono)

inductive canonical :: "message_desc list \<Rightarrow> nat \<Rightarrow> pb_msg \<Rightarrow> bool" for descs where
  canonical_Msg: "d < length descs \<Longrightarrow> message_canonical (canonical descs) (descs ! d) qs cells us \<Longrightarrow>
     canonical descs d (Msg (descs ! d) qs cells us)"

text \<open>The values of a field that are on the wire, and the items they make.\<close>

definition emitted :: "u32 list \<Rightarrow> 'm cell list \<Rightarrow> field_desc \<Rightarrow> 'm pb_val list" where
  "emitted =
     field_dispatch (\<lambda>f v. [v])
       (\<lambda>f q v. if q = tid f \<and> \<not> (is_ptr_type f \<and> ptr_absent f v) then [v] else [])
       (\<lambda>f q v. if (if is_ptr_type f then \<not> ptr_absent f v else q \<noteq> 0) then [v] else [])
       (\<lambda>f v. if field_is_zeroish f v then [] else [v])
       (\<lambda>f vs. vs)"

definition content :: "pb_type \<Rightarrow> bytes pb_val \<Rightarrow> bytes" where
  "content t v =
     (case t of T_STRING \<Rightarrow> str_text (as_str v) | T_BYTES \<Rightarrow> bin_data (as_bytes v)
      | T_MESSAGE \<Rightarrow> (case target (as_msg v) of None \<Rightarrow> [] | Some bs \<Rightarrow> bs)
      | _ \<Rightarrow> val_bytes t v)"

definition val_item :: "field_desc \<Rightarrow> bytes pb_val \<Rightarrow> item" where
  "val_item f v =
     \<lparr>itag = tid f, iwire = of_nat (wire_type_of (ftype f)),
      iprefix = (if is_packable_type (ftype f) then [] else varint (length (content (ftype f) v))),
      ibody = content (ftype f) v\<rparr>"

definition packed_item :: "field_desc \<Rightarrow> bytes pb_val list \<Rightarrow> item" where
  "packed_item f vs =
     (let body = concat (map (val_bytes (ftype f)) vs) in
      \<lparr>itag = tid f, iwire = of_nat WIRE_TYPE_LENGTH_PREFIXED, iprefix = varint (length body), ibody = body\<rparr>)"

definition field_items :: "field_desc \<Rightarrow> bytes pb_val list \<Rightarrow> item list" where
  "field_items f vs =
     (if label f = REPEATED \<and> is_packed f then (if vs = [] then [] else [packed_item f vs])
      else map (val_item f) vs)"

lemma content_le: "length (content t v) \<le> length (val_bytes t v)"
  by (cases t) (simp_all add: content_def prefixed_def)

lemma enc_value_item:
  assumes "length (enc_value f v) < 2 ^ 31"
  shows "enc_value f v = item_bytes (val_item f v)"
proof -
  have "length (content (ftype f) v) < 4294967296"
    using assms content_le [of "ftype f" v] by (simp add: enc_value_def)
  then have "unat (of_nat (length (content (ftype f) v)) :: u32) = length (content (ftype f) v)"
    by (simp add: unat_of_nat)
  then show ?thesis
    by (cases "ftype f")
       (simp_all add: enc_value_def item_bytes_def val_item_def is_packable_type_def content_def prefixed_def)
qed

lemma enc_values_items:
  "length (concat (map (enc_value f) vs)) < 2 ^ 31 \<Longrightarrow>
     concat (map (enc_value f) vs) = items_bytes (map (val_item f) vs)"
proof (induction vs)
  case (Cons v vs)
  then show ?case using enc_value_item [of f v] by simp
qed simp

lemma enc_repeated_items:
  assumes "length (enc_repeated f vs) < 2 ^ 31" "label f = REPEATED"
  shows "enc_repeated f vs = items_bytes (field_items f vs)"
proof (cases "is_packed f")
  case False
  with assms enc_values_items show ?thesis by (simp add: enc_repeated_def field_items_def)
next
  case True
  define pl where "pl = concat (map (val_bytes (ftype f)) vs)"
  have "vs \<noteq> [] \<Longrightarrow> length pl < 4294967296"
    using assms(1) True by (simp add: enc_repeated_def prefixed_def flip: pl_def)
  then have "vs \<noteq> [] \<Longrightarrow> unat (of_nat (length pl) :: u32) = length pl" by (simp add: unat_of_nat)
  with True assms(2) show ?thesis
    by (simp add: enc_repeated_def field_items_def packed_item_def Let_def item_bytes_def prefixed_def flip: pl_def)
qed

lemma enc_field_items:
  assumes "length (enc_field qs cells f) < 2 ^ 31"
  shows "enc_field qs cells f = items_bytes (field_items f (emitted qs cells f))"
proof (cases "label f = REPEATED")
  case True
  then have "enc_field qs cells f = enc_repeated f (emitted qs cells f)"
    by (simp add: enc_field_def emitted_def field_dispatch_def Let_def)
  with enc_repeated_items True assms show ?thesis by simp
next
  case False
  then have "enc_field qs cells f = concat (map (enc_value f) (emitted qs cells f))"
    by (cases "label f"; cases "is_oneof f") (auto simp: enc_field_def emitted_def field_dispatch_def Let_def)
  with enc_values_items [of f "emitted qs cells f"] False assms show ?thesis by (simp add: field_items_def)
qed

lemma emitted_map [simp]: "emitted qs (map (map_cell h) cells) f = map (map_pb_val h) (emitted qs cells f)"
  unfolding emitted_def by (intro field_dispatch_map) simp_all

definition message_items :: "message_desc \<Rightarrow> u32 list \<Rightarrow> bytes cell list \<Rightarrow> unknown_field list \<Rightarrow> item list" where
  "message_items desc qs cells us =
     concat (map (\<lambda>f. field_items f (emitted qs cells f)) (mfields desc)) @ map unknown_item us"

lemma unknown_item_bytes: "item_bytes (unknown_item u) = enc_unknown u"
  by (simp add: unknown_item_def item_bytes_def enc_unknown_def Let_def)

lemma enc_message_items:
  assumes "length (enc_message desc qs cells us) < 2 ^ 31"
  shows "enc_message desc qs cells us = items_bytes (message_items desc qs cells us)"
proof -
  have "concat (map (enc_field qs cells) fs) = items_bytes (concat (map (\<lambda>f. field_items f (emitted qs cells f)) fs))"
    if "length (concat (map (enc_field qs cells) fs)) < 2 ^ 31" for fs
    using that
  proof (induction fs)
    case (Cons f fs)
    then show ?case using enc_field_items [of qs cells f] by simp
  qed simp
  moreover have "concat (map enc_unknown us) = items_bytes (map unknown_item us)"
    by (induction us) (simp_all add: unknown_item_bytes)
  ultimately show ?thesis using assms by (simp add: enc_message_def message_items_def)
qed


section \<open>Parsing a member that was packed\<close>

definition inverts :: "message_desc list \<Rightarrow> nat \<Rightarrow> unpacker \<Rightarrow> bool" where
  "inverts descs B unpack \<longleftrightarrow>
     (\<forall>alloc d m. always_allocates alloc \<and> canonical descs d m \<and> length (enc m) < B \<longrightarrow>
        unpack alloc d (enc m) = Ok m)"

lemma always_place [simp]: "always_allocates alloc \<Longrightarrow> always_allocates (\<lambda>place. alloc (c # place))"
  by (simp add: always_allocates_def)

lemma always_yes [simp]: "always_allocates alloc \<Longrightarrow> alloc place bytes"
  by (simp add: always_allocates_def)

lemma member_of_sel [simp]:
  "stag (member_of desc it rest) = itag it"
  "swire (member_of desc it rest) = iwire it"
  "length_prefix_len (member_of desc it rest) = length (iprefix it)"
  "sfield (member_of desc it rest) = field_of desc (itag it)"
  "slen (member_of desc it rest) = length (iprefix it) + length (ibody it)"
  "sdata (member_of desc it rest) = iprefix it @ ibody it @ rest"
  by (simp_all add: member_of_def)

lemma member_body_of [simp]: "member_body (member_of desc it rest) = Ok (ibody it)"
  by (simp add: member_body_def)

lemma cstr_nonzero: "0 \<notin> set s \<Longrightarrow> cstr s = s"
  by (simp add: cstr_def takeWhile_eq_all_conv) metis

lemma parse_varint_at:
  "parse_uint32 (length (varint n)) (varint n @ rest) = Some (of_nat n)"
  "parse_uint64 (length (varint n)) (varint n @ rest) = Some (of_nat n)"
  using parse_uint32_val [of "length (varint n)" "varint n @ rest"]
    parse_uint64_val [of "length (varint n)" "varint n @ rest"] by simp_all

lemma parse_value:
  assumes inv: "inverts descs B unpack" and al: "always_allocates alloc"
    and v: "val_canonical (canonical descs) f v"
    and len: "length (content (ftype f) (map_pb_val enc v)) < B"
    and old: "mc \<Longrightarrow> owned (as_msg old) = None"
  shows "parse_required_member unpack alloc f (member_of desc (val_item f (map_pb_val enc v)) rest) old mc = Ok v"
proof -
  note simps = parse_required_member_def val_item_def content_def is_packable_type_def parse_varint_member_def
    parse_fixed_member_def parse_varint_at parse_int32_def unat_sign_ext_mod parse_fixed_uint32_le32
    parse_fixed_uint64_le64
  show ?thesis
  proof (cases v)
    case (VStr p)
    then obtain s where "p = Heap s" "0 \<notin> set s" "ftype f = T_STRING" using v by (auto split: ptr.splits)
    with VStr al show ?thesis
      by (simp add: simps parse_string_member_def str_text_def cstr_nonzero)
  next
    case (VBytes p)
    with v al show ?thesis
      by (auto simp: simps parse_bytes_member_def bin_data_def split: ptr.splits)
  next
    case (VMsg p)
    then obtain m where m: "p = Heap m" "canonical descs (descriptor f) m" "ftype f = T_MESSAGE"
      using v by (auto split: ptr.splits)
    then have "length (enc m) < B" using len VMsg by (simp add: content_def)
    then have "unpack (\<lambda>place. alloc (0 # place)) (descriptor f) (enc m) = Ok m"
      using inv m(2) al by (simp add: inverts_def)
    with m VMsg old show ?thesis
      by (cases mc) (simp_all add: simps parse_message_member_def)
  next
    case (VBool b)
    then have "ftype f = T_BOOL" "b = 0 \<or> b = 1" using v by auto
    with VBool show ?thesis by (auto simp: simps parse_boolean_def)
  qed (use v in \<open>auto simp: simps\<close>)
qed


section \<open>The scan of packed items\<close>

lemma wire_neq: "of_nat WIRE_TYPE_VARINT \<noteq> (of_nat WIRE_TYPE_LENGTH_PREFIXED :: u8)"
  "of_nat WIRE_TYPE_64BIT \<noteq> (of_nat WIRE_TYPE_LENGTH_PREFIXED :: u8)"
  "of_nat WIRE_TYPE_32BIT \<noteq> (of_nat WIRE_TYPE_LENGTH_PREFIXED :: u8)"
  "of_nat WIRE_TYPE_64BIT \<noteq> (of_nat WIRE_TYPE_VARINT :: u8)"
  "of_nat WIRE_TYPE_32BIT \<noteq> (of_nat WIRE_TYPE_VARINT :: u8)"
  "of_nat WIRE_TYPE_32BIT \<noteq> (of_nat WIRE_TYPE_64BIT :: u8)"
  by (simp_all add: wire_types)

lemma varint_shapes:
  "varint_shape (varint (unat (w :: u32)))" "varint_shape (varint (unat (x :: u64)))"
  "varint_shape (varint (sign_ext w))" "varint_shape [if b then 1 else 0 :: u8]"
  using u32_bound [of w] u64_bound [of x] sign_ext_bound [of w]
  by (simp_all add: varint_shape_varint) (simp add: varint_shape_def)

lemma item_ok_val:
  assumes "tid f \<noteq> 0" and "length (content (ftype f) v) < 2 ^ 31"
  shows "item_ok (val_item f v)"
  using assms wire_neq wire_neq [symmetric] varint_shapes(1,2,3) varint_shapes(4) [of "as32 v \<noteq> 0"]
  by (cases "ftype f") (simp_all add: item_ok_def val_item_def content_def is_packable_type_def)

lemma item_ok_packed:
  assumes "tid f \<noteq> 0" and "length (ibody (packed_item f vs)) < 2 ^ 31"
  shows "item_ok (packed_item f vs)"
  using assms wire_neq wire_neq [symmetric] by (simp add: item_ok_def packed_item_def Let_def)

lemma val_count:
  assumes "\<not> is_packed f"
  shows "member_count f (member_of desc (val_item f v) rest) = Ok 1"
  using assms wire_neq
  by (cases "ftype f") (auto simp: member_count_def holds_packed_def val_item_def is_packable_type_def)

lemma max_b128_varint [simp]: "max_b128_numbers (varint n) = 1"
proof (induction n rule: varint.induct)
  case (1 n)
  have "n mod 128 + 128 < (256::nat)" by simp
  with 1 show ?case
    by (cases "n < 128") (simp_all add: varint_small varint_big unat_of_nat_u8 del: of_nat_add)
qed

lemma packed_count_elements:
  assumes "is_packable_type t"
  shows "count_packed_elements t (length (concat (map (val_bytes t) vs))) (concat (map (val_bytes t) vs) @ rest) =
     Ok (length vs)"
proof -
  have fixed: "length (concat (map (\<lambda>v. le32 (g v)) vs)) = 4 * length vs"
    "length (concat (map (\<lambda>v. le64 (h v)) vs)) = 8 * length vs"
    "length (concat (map (\<lambda>v. [k v :: u8]) vs)) = length vs" for g h k
    by (induction vs) simp_all
  have var: "max_b128_numbers (concat (map (\<lambda>v. varint (g v)) vs)) = length vs" for g
    by (induction vs) (simp_all add: max_b128_append)
  show ?thesis
    using assms fixed var
    by (cases t) (simp_all add: is_packable_type_def count_packed_elements_def val_bytes.simps [abs_def])
qed

lemma packed_count:
  assumes "is_packed f" "is_packable_type (ftype f)"
  shows "member_count f (member_of desc (packed_item f vs) rest) = Ok (length vs)"
  using assms packed_count_elements [OF assms(2), of vs rest]
  by (simp add: member_count_def holds_packed_def packed_item_def Let_def)

text \<open>All items of a message that is not too long are in order.\<close>

lemma field_items_fine:
  assumes ok: "desc_ok n desc" and i: "i < length (mfields desc)" "f = mfields desc ! i"
    and len: "length (items_bytes (field_items f vs)) < 2 ^ 31"
  shows "list_all (\<lambda>it. item_ok it \<and> item_countable desc it) (field_items f vs)"
    and "label f = REPEATED \<Longrightarrow> elements desc i (cut_items desc rest (field_items f vs)) = length vs"
    and "j \<noteq> i \<Longrightarrow> elements desc j (cut_items desc rest (field_items f vs)) = 0"
proof -
  have fok: "field_ok n desc f" using i ok by (simp add: desc_okD)
  have t: "field_table desc" using ok by (simp add: desc_ok_def)
  have tag: "tid f \<noteq> 0" "is_packed f \<Longrightarrow> is_packable_type (ftype f)" using fok by (simp_all add: field_ok_def)
  have fld: "field_of desc (tid f) = Some i" using field_of_field [OF t i(1)] i(2) by simp
  have tags: "itag it = tid f" if "it \<in> set (field_items f vs)" for it
    using that by (auto simp: field_items_def val_item_def packed_item_def Let_def split: if_splits)
  have short: "length (ibody it) < 2 ^ 31" if "it \<in> set (field_items f vs)" for it
  proof -
    have "length (item_bytes it) \<le> length (items_bytes (field_items f vs))"
      using that by (induction "field_items f vs") (auto simp: items_bytes_def length_concat intro: member_le_sum_list)
    with len show ?thesis by (simp add: item_bytes_def)
  qed
  have item: "item_ok it" if "it \<in> set (field_items f vs)" for it
    using that short [OF that] item_ok_val [OF tag(1)] item_ok_packed [OF tag(1)]
    by (auto simp: field_items_def val_item_def split: if_splits)
  show all: "list_all (\<lambda>it. item_ok it \<and> item_countable desc it) (field_items f vs)"
    unfolding list_all_iff
  proof (intro ballI conjI item)
    fix it assume it: "it \<in> set (field_items f vs)"
    have cnt: "\<exists>k. member_count f (member_of desc it rest) = Ok k" if "label f = REPEATED" for rest
      using that it packed_count [OF _ tag(2)] val_count [of f] by (auto simp: field_items_def split: if_splits)
    have "countable desc (member_of desc it rest)" for rest
      using cnt [of rest] tags [OF it] fld i(2) by (cases "label f = REPEATED") (auto simp: countable_def mcount_def)
    then show "item_countable desc it" by (simp add: item_countable_def)
  qed
  show "elements desc i (cut_items desc rest (field_items f vs)) = length vs" if "label f = REPEATED"
  proof (cases "is_packed f")
    case True
    with that packed_count [OF True tag(2) [OF True]] fld i(2) show ?thesis
      by (simp add: field_items_def elements_def mcount_def packed_item_def Let_def)
  next
    case False
    have "elements desc i (cut_items desc rest (map (val_item f) ws)) = length ws" for ws
      using val_count [OF False] fld i(2)
      by (induction ws) (simp_all add: elements_def mcount_def, simp add: val_item_def)
    with False show ?thesis by (simp add: field_items_def)
  qed
  show "elements desc j (cut_items desc rest (field_items f vs)) = 0" if "j \<noteq> i"
  proof -
    have "elements desc j (cut_items desc rest its) = 0" if "\<forall>it \<in> set its. itag it = tid f" for its
      using that fld \<open>j \<noteq> i\<close> by (induction its) (simp_all add: elements_def)
    with tags show ?thesis by blast
  qed
qed


section \<open>Parsing the elements of an array\<close>

lemma scan_varint_at:
  assumes "length (varint q) \<le> len" and "length (varint q) \<le> 10"
  shows "scan_varint len (varint q @ rest) = Some (length (varint q))"
proof -
  define k where "k = (if len > 10 then 10 else len)"
  have k: "length (varint q) \<le> k" using assms by (simp add: k_def)
  have "scan_more 0 k (varint q @ rest) = Some (length (varint q) - 1)"
    using scan_more_varint [of 0 "varint q @ rest" q rest k] k by simp
  moreover have "0 < length (varint q)" by simp
  ultimately show ?thesis using k unfolding scan_varint_def k_def [symmetric] by (cases "varint q") auto
qed

lemma packed_loop_values:
  assumes "\<And>v. v \<in> set vs \<Longrightarrow> length (varint (g v)) \<le> 10"
    and "\<And>v x. v \<in> set vs \<Longrightarrow> conv (length (varint (g v))) (varint (g v) @ x) = Some v"
  shows "packed_loop conv (length (concat (map (\<lambda>v. varint (g v)) vs))) (concat (map (\<lambda>v. varint (g v)) vs) @ rest)
      (dn @ replicate (length vs) z) (length dn) = Ok (dn @ vs, length dn + length vs)"
  using assms
proof (induction vs arbitrary: dn)
  case Nil
  then show ?case by (simp add: packed_loop.simps)
next
  case (Cons v vs)
  let ?body = "concat (map (\<lambda>v. varint (g v)) vs)"
  define q where "q = g v"
  have q: "length (varint q) \<le> 10" using Cons.prems(1) [of v] by (simp add: q_def)
  have "packed_loop conv (length ?body) (?body @ rest) ((dn @ [v]) @ replicate (length vs) z) (length (dn @ [v])) =
      Ok ((dn @ [v]) @ vs, length (dn @ [v]) + length vs)"
    using Cons.prems by (intro Cons.IH) auto
  moreover have "(dn @ z # replicate (length vs) z)[length dn := v] = dn @ v # replicate (length vs) z" by simp
  moreover have "scan_varint (length (varint q) + length ?body) (varint q @ ?body @ rest) = Some (length (varint q))"
    using q by (intro scan_varint_at) simp_all
  moreover have "conv (length (varint q)) (varint q @ ?body @ rest) = Some v"
    using Cons.prems(2) [of v "?body @ rest"] by (simp add: q_def)
  ultimately show ?case by (subst packed_loop.simps) (simp flip: q_def)
qed

lemma packed_copy_values:
  assumes "\<And>v. v \<in> set vs \<Longrightarrow> length (bs v) = siz"
    and "\<And>v x. v \<in> set vs \<Longrightarrow> conv (bs v @ x) = Some v"
  shows "packed_copy conv siz (length vs) (concat (map bs vs) @ rest)
      (dn @ replicate (length vs) z) (length dn) = Ok (dn @ vs, length dn + length vs)"
  using assms
proof (induction vs arbitrary: dn)
  case (Cons v vs)
  let ?body = "concat (map bs vs)"
  have "packed_copy conv siz (length vs) (?body @ rest) ((dn @ [v]) @ replicate (length vs) z) (length (dn @ [v])) =
      Ok ((dn @ [v]) @ vs, length (dn @ [v]) + length vs)"
    using Cons.prems by (intro Cons.IH) auto
  with Cons.prems(1) [of v] Cons.prems(2) [of v "?body @ rest"] show ?case by (simp add: array_store_def)
qed simp

lemma length_concat_const: "(\<And>v. v \<in> set vs \<Longrightarrow> length (bs v) = k) \<Longrightarrow> length (concat (map bs vs)) = k * length vs"
  by (induction vs) simp_all

lemma packed_elements_values:
  fixes vs :: "pb_msg pb_val list"
  assumes t: "is_packable_type t" and f: "ftype f = t"
    and v: "\<And>v. v \<in> set vs \<Longrightarrow> val_canonical P f v"
  shows "packed_elements t (length (concat (map (\<lambda>v. val_bytes t (map_pb_val enc v)) vs)))
      (concat (map (\<lambda>v. val_bytes t (map_pb_val enc v)) vs) @ rest) (replicate (length vs) z) 0 = Ok (vs, length vs)"
proof -
  have len10: "length (varint (unat (w :: u32))) \<le> 10" "length (varint (unat (x :: u64))) \<le> 10"
    "length (varint (sign_ext w)) \<le> 10" for w x
    using varint_shapes(1,3) [of w] varint_shapes(2) [of x] by (simp_all add: varint_shape_def)
  note loop = packed_loop_values [where dn = "[]", simplified]
  note copy = packed_copy_values [where dn = "[]", simplified]
  note simps = packed_elements_def Let_def parse_int32_def loop copy len10 parse_varint_at unat_sign_ext_mod
    parse_fixed_uint32_le32 parse_fixed_uint64_le64 length_concat_const
  consider (w32) "t \<in> {T_INT32, T_SINT32, T_SFIXED32, T_UINT32, T_FIXED32, T_FLOAT, T_ENUM}"
    | (w64) "t \<in> {T_INT64, T_UINT64, T_SINT64, T_SFIXED64, T_FIXED64, T_DOUBLE}" | (bool) "t = T_BOOL"
    using t by (cases t) (auto simp: is_packable_type_def)
  then show ?thesis
  proof cases
    case w32
    have e: "V32 (as32 v) = v" if "v \<in> set vs" for v
      using v [OF that] w32 f by (cases v) auto
    show ?thesis using w32 by (auto simp: simps e)
  next
    case w64
    have e: "V64 (as64 v) = v" if "v \<in> set vs" for v
      using v [OF that] w64 f by (cases v) auto
    show ?thesis using w64 by (auto simp: simps e)
  next
    case bool
    have e: "v = VBool 0 \<or> v = VBool 1" if "v \<in> set vs" for v
      using v [OF that] bool f by (cases v) auto
    define g :: "pb_msg pb_val \<Rightarrow> nat" where "g v = (if as32 v \<noteq> 0 then 1 else 0)" for v
    have g: "(\<lambda>v. val_bytes t (map_pb_val enc v)) = (\<lambda>v. varint (g v))"
      by (simp add: fun_eq_iff bool g_def varint_small)
    have "length (varint (g v)) \<le> 10" for v by (simp add: g_def varint_small)
    moreover have "map_option (\<lambda>b. VBool (if b then 1 else 0)) (parse_boolean (length (varint (g v))) (varint (g v) @ x)) = Some v"
      if "v \<in> set vs" for v x
    proof -
      have "parse_boolean (length (varint 0)) (varint 0 @ x) = Some False"
        "parse_boolean (length (varint 1)) (varint 1 @ x) = Some True"
        by (simp_all add: parse_boolean_def varint_small)
      with e [OF that] show ?thesis by (elim disjE) (simp_all only: g_def, simp_all)
    qed
    ultimately have "packed_loop (\<lambda>s at. map_option (\<lambda>b. VBool (if b then 1 else 0)) (parse_boolean s at))
        (length (concat (map (\<lambda>v. varint (g v)) vs))) (concat (map (\<lambda>v. varint (g v)) vs) @ rest)
        (replicate (length vs) z) 0 = Ok (vs, length vs)"
      by (intro loop)
    then show ?thesis unfolding g by (simp add: packed_elements_def Let_def bool)
  qed
qed


section \<open>Parsing members in turn\<close>

text \<open>With an allocator that never fails, parsing the members one after the other leads from \<open>st\<close> to \<open>st'\<close>.\<close>

fun runs :: "unpacker \<Rightarrow> message_desc \<Rightarrow> nat \<Rightarrow> scanned_member list \<Rightarrow> msg_state \<Rightarrow> msg_state \<Rightarrow> bool" where
  "runs unpack desc cap [] st st' \<longleftrightarrow> st' = st"
| "runs unpack desc cap (sm # ms) st st' \<longleftrightarrow>
     (\<exists>st1. (\<forall>alloc. always_allocates alloc \<longrightarrow> parse_member unpack alloc desc cap sm st = Ok st1) \<and>
        runs unpack desc cap ms st1 st')"

lemma runs_append:
  "runs unpack desc cap (ms @ ms') st st' \<longleftrightarrow>
     (\<exists>st1. runs unpack desc cap ms st st1 \<and> runs unpack desc cap ms' st1 st')"
  by (induction ms arbitrary: st) auto

lemma parse_slab_runs:
  assumes "runs unpack desc cap (drop j slab) st st'" and "always_allocates alloc" and "j \<le> length slab"
  shows "parse_slab unpack alloc desc cap slab [j..<length slab] st = Ok st'"
  using assms
proof (induction "length slab - j" arbitrary: j st)
  case (Suc k)
  then have "j < length slab" "drop j slab = slab ! j # drop (Suc j) slab" "[j..<length slab] = j # [Suc j..<length slab]"
    by (simp_all add: Cons_nth_drop_Suc upt_conv_Cons)
  with Suc show ?case by auto
qed simp

lemma parse_slabs_runs:
  assumes sl: "slabs_ok scan" and "runs unpack desc (n_unknown scan) (concat (drop i (slabs scan))) st st'"
    and "always_allocates alloc" and "i \<le> length (slabs scan)"
  shows "parse_slabs unpack alloc desc scan [i..<length (slabs scan)] st = Ok st'"
  using assms(2-)
proof (induction "length (slabs scan) - i" arbitrary: i st)
  case (Suc k)
  define slab where "slab = slabs scan ! i"
  have i: "i < length (slabs scan)" using Suc.hyps(2) by simp
  then have "concat (drop i (slabs scan)) = slab @ concat (drop (Suc i) (slabs scan))"
    and upt: "[i..<length (slabs scan)] = i # [Suc i..<length (slabs scan)]"
    by (simp_all add: Cons_nth_drop_Suc [symmetric] upt_conv_Cons slab_def)
  then obtain st1 where st1: "runs unpack desc (n_unknown scan) slab st st1"
    "runs unpack desc (n_unknown scan) (concat (drop (Suc i) (slabs scan))) st1 st'"
    using Suc.prems(1) by (auto simp: runs_append)
  have max: "(if i = which_slab scan then in_slab_index scan else slab_size i) = length slab"
    using sl i by (auto simp: slabs_ok_def slab_def)
  have "parse_slab unpack (\<lambda>place. alloc (5 # i # place)) desc (n_unknown scan) slab [0..<length slab] st = Ok st1"
    using parse_slab_runs [of unpack desc "n_unknown scan" 0 slab st st1 "\<lambda>place. alloc (5 # i # place)"]
      st1(1) always_place [OF always_place [OF Suc.prems(2)], of 5 i] by simp
  moreover have "parse_slabs unpack alloc desc scan [Suc i..<length (slabs scan)] st1 = Ok st'"
    using Suc.hyps(2) i by (intro Suc.hyps(1) st1(2) Suc.prems(2)) auto
  ultimately show ?case
    using i by (simp add: upt Let_def max flip: slab_def)
qed simp

text \<open>The elements of a repeated field, one by one and packed.\<close>

definition fill :: "field_desc \<Rightarrow> pb_msg pb_val list \<Rightarrow> msg_state \<Rightarrow> msg_state" where
  "fill f vs st = st\<lparr>m_cells := (m_cells st)[offset f := Many vs],
     m_quants := (m_quants st)[quantifier_offset f := of_nat (length vs)]\<rparr>"

definition has_array :: "field_desc \<Rightarrow> msg_state \<Rightarrow> pb_msg pb_val list \<Rightarrow> nat \<Rightarrow> bool" where
  "has_array f st vs k \<longleftrightarrow>
     offset f < length (m_cells st) \<and> quantifier_offset f < length (m_quants st) \<and>
     m_cells st ! offset f = Many vs \<and> m_quants st ! quantifier_offset f = of_nat k"

lemma fill_same: "has_array f st vs (length vs) \<Longrightarrow> fill f vs st = st"
proof -
  assume "has_array f st vs (length vs)"
  then have "(m_cells st)[offset f := Many vs] = m_cells st"
    "(m_quants st)[quantifier_offset f := of_nat (length vs)] = m_quants st"
    by (metis has_array_def list_update_id)+
  then show ?thesis by (simp add: fill_def)
qed

lemma val_item_wire:
  assumes "\<not> is_packed f"
  shows "\<not> holds_packed f (iwire (val_item f v))"
  using assms wire_neq by (cases "ftype f") (simp_all add: holds_packed_def val_item_def is_packable_type_def)

lemma runs_values:
  assumes inv: "inverts descs B unpack" and f: "field_of desc (tid f) = Some i" "f = mfields desc ! i"
      "label f = REPEATED" "\<not> is_packed f"
    and "\<And>v. v \<in> set vs \<Longrightarrow> val_canonical (canonical descs) f v \<and> length (content (ftype f) (map_pb_val enc v)) < B"
    and "has_array f st (dn @ replicate (length vs) z) (length dn)" and "length dn + length vs < 2 ^ 32"
  shows "runs unpack desc cap (cut_items desc rest (map (val_item f) (map (map_pb_val enc) vs))) st (fill f (dn @ vs) st)"
  using assms(6-)
proof (induction vs arbitrary: dn st)
  case Nil
  then show ?case by (simp add: fill_same)
next
  case (Cons v vs)
  define array where "array = dn @ v # replicate (length vs) z"
  define st1 where "st1 = st\<lparr>m_cells := (m_cells st)[offset f := Many array],
      m_quants := (m_quants st)[quantifier_offset f := of_nat (Suc (length dn))]\<rparr>"
  let ?at = "items_bytes (map (val_item f) (map (map_pb_val enc) vs)) @ rest"
  have ha: "has_array f st (dn @ z # replicate (length vs) z) (length dn)" using Cons.prems(2) by simp
  have pos: "unat (of_nat (length dn) :: u32) = length dn" using Cons.prems(3) by (simp add: unat_of_nat)
  have step: "parse_member unpack alloc desc cap (member_of desc (val_item f (map_pb_val enc v)) ?at) st = Ok st1"
    if al: "always_allocates alloc" for alloc
  proof -
    have "parse_required_member unpack alloc f (member_of desc (val_item f (map_pb_val enc v)) ?at) old False = Ok v" for old
      using parse_value [OF inv al, of f v] Cons.prems(1) by simp
    then show ?thesis
      using ha f val_item_wire [OF f(4)]
      by (simp add: parse_member_def parse_repeated_member_def has_array_def quantifier_at_def array_of_def pos
          array_store_def st1_def array_def msg_state_upd val_item_def Let_def add.commute)
  qed
  have "has_array f st1 ((dn @ [v]) @ replicate (length vs) z) (length (dn @ [v]))"
    using ha by (simp add: has_array_def st1_def array_def)
  then have "runs unpack desc cap (cut_items desc rest (map (val_item f) (map (map_pb_val enc) vs))) st1 (fill f ((dn @ [v]) @ vs) st1)"
    using Cons.prems by (intro Cons.IH) auto
  moreover have "fill f ((dn @ [v]) @ vs) st1 = fill f (dn @ v # vs) st"
    by (simp add: fill_def st1_def)
  ultimately show ?case using step by auto
qed


lemma runs_packed:
  assumes f: "field_of desc (tid f) = Some i" "f = mfields desc ! i" "label f = REPEATED" "is_packed f"
      "is_packable_type (ftype f)"
    and v: "\<And>v. v \<in> set vs \<Longrightarrow> val_canonical P f v"
    and ha: "has_array f st (replicate (length vs) z) 0"
  shows "runs unpack desc cap (cut_items desc rest [packed_item f (map (map_pb_val enc) vs)]) st (fill f vs st)"
proof -
  let ?it = "packed_item f (map (map_pb_val enc) vs)"
  have body: "ibody ?it = concat (map (\<lambda>v. val_bytes (ftype f) (map_pb_val enc v)) vs)"
    "iwire ?it = of_nat WIRE_TYPE_LENGTH_PREFIXED" "itag ?it = tid f"
    by (simp_all add: packed_item_def Let_def o_def)
  have "packed_elements (ftype f) (length (ibody ?it)) (ibody ?it @ rest) (replicate (length vs) z) 0 = Ok (vs, length vs)"
    unfolding body by (rule packed_elements_values [OF f(5) refl v])
  then have "parse_packed_repeated_member f (member_of desc ?it rest) st = Ok (fill f vs st)"
    using ha by (simp add: parse_packed_repeated_member_def has_array_def quantifier_at_def array_of_def Let_def
        fill_def msg_state_upd)
  then show ?thesis
    using f body by (simp add: parse_member_def holds_packed_def)
qed

section \<open>The message between two fields\<close>

text \<open>
  A field is active when the message has a value for it: always, except for the members of a oneof
  that its case word does not name.  Once an active field is parsed, its place in the message is as
  it was in the original; the places of the fields to come are as they were prepared.
\<close>

definition active :: "u32 list \<Rightarrow> field_desc \<Rightarrow> bool" where
  "active qs f \<longleftrightarrow> (is_oneof f \<longrightarrow> quantifier_at qs (quantifier_offset f) = tid f)"

definition before :: "u32 list \<Rightarrow> pb_msg cell list \<Rightarrow> field_desc \<Rightarrow> msg_state \<Rightarrow> bool" where
  "before qs cells f st \<longleftrightarrow>
     m_cells st ! offset f =
       (if label f = REPEATED then Many (replicate (length (emitted qs cells f)) (V32 0)) else One (default_val f)) \<and>
     (quantifier_offset f \<noteq> 0 \<longrightarrow> quantifier_at (m_quants st) (quantifier_offset f) = 0)"

definition after :: "u32 list \<Rightarrow> pb_msg cell list \<Rightarrow> field_desc \<Rightarrow> msg_state \<Rightarrow> bool" where
  "after qs cells f st \<longleftrightarrow>
     m_cells st ! offset f = cells ! offset f \<and>
     (quantifier_offset f \<noteq> 0 \<longrightarrow>
        quantifier_at (m_quants st) (quantifier_offset f) = quantifier_at qs (quantifier_offset f))"

definition settled :: "u32 list \<Rightarrow> field_desc set \<Rightarrow> field_desc \<Rightarrow> bool" where
  "settled qs F f \<longleftrightarrow> (\<exists>g \<in> F. active qs g \<and> offset g = offset f)"

definition stage ::
  "message_desc \<Rightarrow> u32 list \<Rightarrow> pb_msg cell list \<Rightarrow> field_desc set \<Rightarrow> msg_state \<Rightarrow> bool" where
  "stage desc qs cells F st \<longleftrightarrow>
     length (m_quants st) = n_quantifiers desc \<and> length (m_cells st) = n_cells desc \<and>
     m_unknown st = [] \<and> quantifier_at (m_quants st) 0 = 1 \<and> F \<subseteq> set (mfields desc) \<and>
     (\<forall>f \<in> set (mfields desc). if settled qs F f then after qs cells f st else before qs cells f st)"

definition place :: "u32 list \<Rightarrow> pb_msg cell list \<Rightarrow> field_desc \<Rightarrow> msg_state \<Rightarrow> msg_state" where
  "place qs cells f st = st\<lparr>m_cells := (m_cells st)[offset f := cells ! offset f],
     m_quants := (if quantifier_offset f = 0 then m_quants st
                  else (m_quants st)[quantifier_offset f := quantifier_at qs (quantifier_offset f)])\<rparr>"

lemma settled_insert: "settled qs (insert g F) f \<longleftrightarrow> active qs g \<and> offset g = offset f \<or> settled qs F f"
  by (auto simp: settled_def)

lemma same_offset:
  assumes "desc_ok n desc" "f \<in> set (mfields desc)" "g \<in> set (mfields desc)" "offset f = offset g"
  shows "f = g \<or> is_oneof f \<and> is_oneof g \<and> quantifier_offset f = quantifier_offset g"
  using desc_ok_apart [OF assms(1-3)] assms(4) by (auto simp: fields_apart_def)

lemma same_quantifier:
  assumes "desc_ok n desc" "f \<in> set (mfields desc)" "g \<in> set (mfields desc)"
    "quantifier_offset f = quantifier_offset g" "quantifier_offset f \<noteq> 0"
  shows "offset f = offset g"
proof (cases "f = g")
  case False
  with desc_ok_apart [OF assms(1-3)] assms(4,5) show ?thesis by (auto simp: fields_apart_def)
qed simp

lemma stage_place:
  assumes ok: "desc_ok n desc" and st: "stage desc qs cells F st" and g: "g \<in> set (mfields desc)" "active qs g"
  shows "stage desc qs cells (insert g F) (place qs cells g st)"
proof -
  have gok: "field_ok n desc g" using ok g(1) by (rule desc_okD)
  have len: "offset g < length (m_cells st)" "quantifier_offset g < length (m_quants st)"
    using st gok by (simp_all add: stage_def field_ok_def)
  have "if settled qs (insert g F) f then after qs cells f (place qs cells g st) else before qs cells f (place qs cells g st)"
    if f: "f \<in> set (mfields desc)" for f
  proof (cases "offset f = offset g")
    case True
    then have "quantifier_offset f = quantifier_offset g" using same_offset [OF ok f g(1)] by auto
    with True g len show ?thesis
      by (simp add: settled_insert after_def place_def quantifier_at_update)
  next
    case False
    then have "quantifier_offset f \<noteq> quantifier_offset g \<or> quantifier_offset f = 0"
      using same_quantifier [OF ok f g(1)] by blast
    with False f st show ?thesis
      by (auto simp: settled_insert after_def before_def place_def quantifier_at_update stage_def)
  qed
  moreover have "length (m_quants (place qs cells g st)) = n_quantifiers desc \<and>
      length (m_cells (place qs cells g st)) = n_cells desc \<and> m_unknown (place qs cells g st) = [] \<and>
      quantifier_at (m_quants (place qs cells g st)) 0 = 1"
    using st by (simp add: stage_def place_def quantifier_at_update)
  ultimately show ?thesis using st g(1) by (simp add: stage_def)
qed

lemma stage_skip:
  assumes ok: "desc_ok n desc" and st: "stage desc qs cells F st" and g: "g \<in> set (mfields desc)"
    and same: "active qs g \<Longrightarrow> \<not> is_oneof g \<and> (before qs cells g st \<longrightarrow> after qs cells g st)"
  shows "stage desc qs cells (insert g F) st"
proof -
  have "if settled qs (insert g F) f then after qs cells f st else before qs cells f st"
    if f: "f \<in> set (mfields desc)" for f
  proof (cases "active qs g \<and> offset g = offset f")
    case True
    with same have "f = g" using same_offset [OF ok f g] by auto
    with True same st g show ?thesis by (auto simp: stage_def settled_insert split: if_splits)
  next
    case False
    with f st show ?thesis by (simp only: settled_insert) (simp add: stage_def)
  qed
  with st g show ?thesis by (simp add: stage_def)
qed

lemma stage_before:
  assumes ok: "desc_ok n desc" and st: "stage desc qs cells F st" and f: "f \<in> set (mfields desc)" "f \<notin> F" "active qs f"
  shows "before qs cells f st"
proof -
  have "\<not> settled qs F f"
    unfolding settled_def
  proof
    assume "\<exists>g \<in> F. active qs g \<and> offset g = offset f"
    then obtain g where g: "g \<in> F" "active qs g" "offset g = offset f" by blast
    then have gm: "g \<in> set (mfields desc)" using st by (auto simp: stage_def)
    have "tid g = tid f" using same_offset [OF ok gm f(1) g(3)] g(2) f(3) by (auto simp: active_def)
    with fields_eqI [OF ok gm f(1)] g(1) f(2) show False by blast
  qed
  with st f(1) show ?thesis by (auto simp: stage_def split: if_splits)
qed


section \<open>One field\<close>

lemma owned_default [simp]: "owned (as_msg (default_val f)) = None"
  by (auto simp: default_val_def zero_val_def split: pb_default.split pb_type.split)

lemma default_absent:
  assumes "is_ptr_type f" "\<not> is_oneof f" "default_ok f"
  shows "ptr_absent f (default_val f)"
  using assms
  by (auto simp: ptr_absent_def default_val_def zero_val_def is_ptr_type_def default_ok_def split: pb_default.splits)

lemma canonical_present: "val_canonical P f v \<Longrightarrow> is_ptr_type f \<Longrightarrow> \<not> ptr_absent f v"
  by (cases v) (auto simp: ptr_absent_def is_ptr_type_def split: ptr.splits)

text \<open>What a field outside of the repeated ones has on the wire: one value, or none.\<close>

lemma emitted_single:
  assumes fok: "field_ok n desc f" and can: "field_canonical P qs cells f" and rep: "label f \<noteq> REPEATED"
    and len: "offset f < length cells"
  obtains (given) v where "cells ! offset f = One v" "emitted qs cells f = [v]" "active qs f" "val_canonical P f v"
      "quantifier_offset f \<noteq> 0 \<Longrightarrow> quantifier_at qs (quantifier_offset f) = (if is_oneof f then tid f else 1)"
  | (absent) v where "cells ! offset f = One v" "emitted qs cells f = []"
      "active qs f \<longrightarrow> \<not> is_oneof f \<and> v = default_val f \<and>
         (quantifier_offset f \<noteq> 0 \<longrightarrow> quantifier_at qs (quantifier_offset f) = 0)"
proof -
  define q where "q = quantifier_at qs (quantifier_offset f)"
  obtain v where v: "cells ! offset f = One v" "single_canonical P f q v"
    using can rep by (auto simp: field_canonical_def q_def Let_def split: cell.splits)
  have mem: "member_at cells (offset f) = v" using v(1) len by (simp add: member_at_def)
  have e: "emitted qs cells f =
      (if label f = REQUIRED then [v]
       else if is_oneof f then (if q = tid f \<and> \<not> (is_ptr_type f \<and> ptr_absent f v) then [v] else [])
       else if label f = OPTIONAL then (if (if is_ptr_type f then \<not> ptr_absent f v else q \<noteq> 0) then [v] else [])
       else if field_is_zeroish f v then [] else [v])"
    using rep by (cases "label f") (simp_all add: emitted_def field_dispatch_def mem q_def Let_def)
  note can_present = canonical_present [of P f v]
  note q_simps = q_def [symmetric]
  have single: "label f = REQUIRED \<or> label f = OPTIONAL \<or> label f = NONE" using rep by (cases "label f") auto
  show thesis
  proof (cases "is_oneof f")
    case True
    then have l: "label f \<noteq> REQUIRED" using fok by (auto simp: field_ok_def)
    show thesis
    proof (cases "q = tid f")
      case at: True
      with True l v(2) e can_present show thesis
        by (intro given [OF v(1)]) (auto simp: single_canonical_def active_def q_simps)
    next
      case other: False
      show thesis by (rule absent [OF v(1)]) (use True l e other in \<open>auto simp: active_def q_simps\<close>)
    qed
  next
    case False
    then have act: "active qs f" by (simp add: active_def)
    from single show thesis
    proof (elim disjE)
      assume "label f = REQUIRED"
      with False act v(2) e fok show thesis by (intro given [OF v(1)]) (auto simp: single_canonical_def field_ok_def)
    next
      assume l: "label f = OPTIONAL"
      show thesis
      proof (cases "is_ptr_type f")
        case True
        with l False fok have "quantifier_offset f = 0" "ptr_absent f (default_val f)"
          by (auto simp: field_ok_def intro: default_absent)
        with l False True act v(2) e can_present show thesis
          by (auto simp: single_canonical_def intro: given [OF v(1)] absent [OF v(1)])
      next
        case np: False
        with l False act v(2) e show thesis
          by (auto simp: single_canonical_def q_simps intro: given [OF v(1)] absent [OF v(1)])
      qed
    next
      assume l: "label f = NONE"
      with False fok have "quantifier_offset f = 0" by (auto simp: field_ok_def)
      with l False act v(2) e show thesis
        by (auto simp: single_canonical_def intro: given [OF v(1)] absent [OF v(1)] split: if_splits)
    qed
  qed
qed

lemma runs_single:
  assumes fok: "field_ok n desc f" and rep: "label f \<noteq> REPEATED" and inv: "inverts descs B unpack"
    and fld: "field_of desc (tid f) = Some i" "f = mfields desc ! i"
    and v: "cells ! offset f = One v" "val_canonical (canonical descs) f v"
      "length (content (ftype f) (map_pb_val enc v)) < B"
    and q: "quantifier_offset f \<noteq> 0 \<Longrightarrow> quantifier_at qs (quantifier_offset f) = (if is_oneof f then tid f else 1)"
    and st: "before qs cells f st" "offset f < length (m_cells st)"
  shows "runs unpack desc cap (cut_items desc rest [val_item f (map_pb_val enc v)]) st (place qs cells f st)"
proof -
  let ?sm = "member_of desc (val_item f (map_pb_val enc v)) rest"
  have old: "member_at (m_cells st) (offset f) = default_val f"
    using st rep by (simp add: before_def member_at_def)
  have q0: "is_oneof f \<Longrightarrow> quantifier_offset f \<noteq> 0" "label f = REQUIRED \<Longrightarrow> quantifier_offset f = 0 \<and> \<not> is_oneof f"
    using fok by (auto simp: field_ok_def)
  have single: "label f = REQUIRED \<or> label f = OPTIONAL \<or> label f = NONE" using rep by (cases "label f") auto
  have "parse_member unpack alloc desc cap ?sm st = Ok (place qs cells f st)" if al: "always_allocates alloc" for alloc
  proof -
    have p: "parse_required_member unpack alloc f ?sm (default_val f) True = Ok v"
      by (rule parse_value [OF inv al v(2,3)]) simp
    have tag: "stag ?sm = tid f" "sfield ?sm = Some i" using fld by (simp_all add: val_item_def)
    show ?thesis
    proof (cases "is_oneof f")
      case True
      then have "clear_oneof desc f st = Ok st" using q0 st(1) by (simp add: clear_oneof_def before_def)
      with True single q0 p tag q v(1) old show ?thesis
        by (auto simp: parse_member_def parse_oneof_member_def place_def msg_state_upd simp flip: fld(2))
    next
      case False
      with single q0 p tag q v(1) old show ?thesis
        by (auto simp: parse_member_def parse_optional_member_def place_def msg_state_upd Let_def simp flip: fld(2))
    qed
  qed
  then show ?thesis by simp
qed


text \<open>A value is shorter than the items of its field.\<close>

lemma content_in_item: "length (content (ftype f) v) < length (item_bytes (val_item f v))"
  by (simp add: item_bytes_def val_item_def tag_key_def)

lemma length_items_le: "it \<in> set its \<Longrightarrow> length (item_bytes it) \<le> length (items_bytes its)"
  by (induction its) auto

lemma field_runs:
  assumes ok: "desc_ok n desc" and inv: "inverts descs B unpack"
    and i: "i < length (mfields desc)" "f = mfields desc ! i"
    and can: "field_canonical (canonical descs) qs cells f" and lens: "length cells = n_cells desc"
    and len: "length (items_bytes (field_items f (map (map_pb_val enc) (emitted qs cells f)))) \<le> B"
    and st: "stage desc qs cells F st" "f \<notin> F"
  obtains st' where
    "runs unpack desc cap (cut_items desc rest (field_items f (map (map_pb_val enc) (emitted qs cells f)))) st st'"
    "stage desc qs cells (insert f F) st'"
proof -
  have mem: "f \<in> set (mfields desc)" using i by simp
  have fok: "field_ok n desc f" using ok mem by (rule desc_okD)
  have t: "field_table desc" using ok by (simp add: desc_ok_def)
  have fld: "field_of desc (tid f) = Some i" using field_of_field [OF t i(1)] i(2) by simp
  have off: "offset f < length cells" "offset f < length (m_cells st)" "quantifier_offset f < length (m_quants st)"
    using fok lens st(1) by (simp_all add: field_ok_def stage_def)
  have packable: "is_packed f \<Longrightarrow> is_packable_type (ftype f)" using fok by (simp add: field_ok_def)
  have short: "length (content (ftype f) (map_pb_val enc v)) < B"
    if "v \<in> set (emitted qs cells f)" "\<not> (label f = REPEATED \<and> is_packed f)" for v
  proof -
    have "val_item f (map_pb_val enc v) \<in> set (field_items f (map (map_pb_val enc) (emitted qs cells f)))"
      using that by (auto simp: field_items_def)
    from length_items_le [OF this] content_in_item [of f "map_pb_val enc v"] len show ?thesis by simp
  qed
  show thesis
  proof (cases "label f = REPEATED")
    case True
    obtain vs where vs: "cells ! offset f = Many vs"
      "unat (quantifier_at qs (quantifier_offset f)) = length vs" "\<forall>v \<in> set vs. val_canonical (canonical descs) f v"
      using can True by (auto simp: field_canonical_def Let_def split: cell.splits)
    have em: "emitted qs cells f = vs"
      using True vs off by (simp add: emitted_def field_dispatch_def Let_def array_at_def)
    have q0: "quantifier_offset f \<noteq> 0" and act: "active qs f"
      using fok True by (auto simp: field_ok_def active_def)
    have b: "before qs cells f st" using stage_before [OF ok st(1) mem st(2) act] .
    then have ha: "has_array f st (replicate (length vs) (V32 0)) 0"
      using True em q0 off by (simp add: before_def has_array_def quantifier_at_def)
    have qv: "of_nat (length vs) = quantifier_at qs (quantifier_offset f)"
      by (simp flip: vs(2))
    have "length vs < 4294967296" unfolding vs(2) [symmetric] using u32_bound [of "quantifier_at qs (quantifier_offset f)"] by simp
    then have run: "runs unpack desc cap (cut_items desc rest (field_items f (map (map_pb_val enc) vs))) st (fill f vs st)"
    proof (cases "is_packed f")
      case True
      have "vs = [] \<Longrightarrow> fill f vs st = st" using fill_same [of f st vs] ha by simp
      with True \<open>label f = REPEATED\<close> runs_packed [OF fld i(2) _ True packable [OF True] _ ha, of "canonical descs" unpack cap rest] vs(3)
      show ?thesis by (simp add: field_items_def)
    next
      case False
      with True runs_values [OF inv fld i(2) True False, of vs st "[]" "V32 0" cap rest] vs(3) short em ha
        \<open>length vs < 4294967296\<close>
      show ?thesis by (simp add: field_items_def)
    qed
    have "fill f vs st = place qs cells f st" using vs(1) q0 by (simp add: fill_def place_def qv)
    with run that stage_place [OF ok st(1) mem act] show thesis by (simp add: em)
  next
    case False
    show thesis
    proof (rule emitted_single [OF fok can False off(1)])
      fix v assume v: "cells ! offset f = One v" "emitted qs cells f = [v]" "active qs f"
        "val_canonical (canonical descs) f v"
        "quantifier_offset f \<noteq> 0 \<Longrightarrow> quantifier_at qs (quantifier_offset f) = (if is_oneof f then tid f else 1)"
      have "runs unpack desc cap (cut_items desc rest [val_item f (map_pb_val enc v)]) st (place qs cells f st)"
        using short [of v] False v
        by (intro runs_single [OF fok False inv fld i(2) v(1,4) _ v(5) stage_before [OF ok st(1) mem st(2) v(3)] off(2)]) auto
      then show thesis
        by (intro that [of "place qs cells f st"] stage_place [OF ok st(1) mem v(3)])
           (simp only: v(2) field_items_def False list.map simp_thms if_False)
    next
      fix v assume v: "cells ! offset f = One v" "emitted qs cells f = []"
        "active qs f \<longrightarrow> \<not> is_oneof f \<and> v = default_val f \<and>
           (quantifier_offset f \<noteq> 0 \<longrightarrow> quantifier_at qs (quantifier_offset f) = 0)"
      have "stage desc qs cells (insert f F) st"
        by (rule stage_skip [OF ok st(1) mem]) (use v False in \<open>auto simp: before_def after_def\<close>)
      then show thesis using v(2) by (intro that [of st]) (simp add: field_items_def)
    qed
  qed
qed


section \<open>All fields, then the unknown members\<close>

definition fields_items :: "u32 list \<Rightarrow> pb_msg cell list \<Rightarrow> field_desc list \<Rightarrow> item list" where
  "fields_items qs cells fs = concat (map (\<lambda>f. field_items f (map (map_pb_val enc) (emitted qs cells f))) fs)"

lemma fields_items_Cons [simp]:
  "fields_items qs cells (f # fs) = field_items f (map (map_pb_val enc) (emitted qs cells f)) @ fields_items qs cells fs"
  "fields_items qs cells [] = []"
  by (simp_all add: fields_items_def)

lemma message_items_fields:
  "message_items desc qs (map (map_cell enc) cells) us = fields_items qs cells (mfields desc) @ map unknown_item us"
  by (simp add: message_items_def fields_items_def)

lemma fields_distinct: "field_table desc \<Longrightarrow> distinct (mfields desc)"
  unfolding distinct_conv_nth using tids_distinct [of desc] by auto

lemma fields_runs:
  assumes ok: "desc_ok n desc" and inv: "inverts descs B unpack"
    and can: "\<forall>f \<in> set (mfields desc). field_canonical (canonical descs) qs cells f" and lens: "length cells = n_cells desc"
    and "mfields desc = done_fs @ fs" and "length (items_bytes (fields_items qs cells fs)) \<le> B"
    and "stage desc qs cells (set done_fs) st"
  obtains st' where "runs unpack desc cap (cut_items desc rest (fields_items qs cells fs)) st st'"
    "stage desc qs cells (set (mfields desc)) st'"
  using assms(5-)
proof (induction fs arbitrary: done_fs st thesis)
  case Nil
  then show ?case by simp
next
  case (Cons f fs)
  have i: "length done_fs < length (mfields desc)" "f = mfields desc ! length done_fs"
    using Cons.prems(2) by (simp_all add: nth_append)
  have mem: "f \<in> set (mfields desc)" using i by simp
  have "distinct (done_fs @ f # fs)" using ok fields_distinct [of desc] Cons.prems(2) by (simp add: desc_ok_def)
  then have new: "f \<notin> set done_fs" by auto
  obtain st1 where st1: "runs unpack desc cap (cut_items desc (items_bytes (fields_items qs cells fs) @ rest)
        (field_items f (map (map_pb_val enc) (emitted qs cells f)))) st st1"
    "stage desc qs cells (insert f (set done_fs)) st1"
    by (rule field_runs [OF ok inv i bspec [OF can mem] lens _ Cons.prems(4) new]) (use Cons.prems(3) in auto)
  obtain st' where st': "runs unpack desc cap (cut_items desc rest (fields_items qs cells fs)) st1 st'"
    "stage desc qs cells (set (mfields desc)) st'"
    by (rule Cons.IH [where done_fs = "done_fs @ [f]" and st = st1]) (use Cons.prems st1(2) in auto)
  show ?case
    by (rule Cons.prems(1) [OF _ st'(2)]) (use st1(1) st'(1) in \<open>auto simp: runs_append\<close>)
qed

lemma unknowns_run:
  assumes "\<forall>u \<in> set us. unknown_canonical desc u" and "length (m_unknown st) + length us \<le> cap"
  shows "runs unpack desc cap (cut_items desc rest (map unknown_item us)) st (st\<lparr>m_unknown := m_unknown st @ us\<rparr>)"
  using assms
proof (induction us arbitrary: st)
  case (Cons u us)
  let ?at = "items_bytes (map unknown_item us) @ rest"
  have u: "iprefix (unknown_item u) @ ibody (unknown_item u) = udata u" "itag (unknown_item u) = utag u"
    "iwire (unknown_item u) = wire_type u"
    by (simp_all add: unknown_item_def Let_def)
  then have len: "length (iprefix (unknown_item u)) + length (ibody (unknown_item u)) = length (udata u)"
    by (metis length_append)
  have data: "iprefix (unknown_item u) @ ibody (unknown_item u) @ ?at = udata u @ ?at"
    using u(1) by (metis append_assoc)
  have "sfield (member_of desc (unknown_item u) ?at) = None" using Cons.prems(1) u(2) by (simp add: unknown_canonical_def)
  then have "parse_member unpack alloc desc cap (member_of desc (unknown_item u) ?at) st =
      Ok (st\<lparr>m_unknown := m_unknown st @ [u]\<rparr>)" if "always_allocates alloc" for alloc
    using that Cons.prems(2) unfolding parse_member_def parse_unknown_def
    by (simp add: len u(2,3) data del: append_assoc)
  moreover have "runs unpack desc cap (cut_items desc rest (map unknown_item us)) (st\<lparr>m_unknown := m_unknown st @ [u]\<rparr>)
      (st\<lparr>m_unknown := m_unknown st @ u # us\<rparr>)"
    using Cons.IH [of "st\<lparr>m_unknown := m_unknown st @ [u]\<rparr>"] Cons.prems by simp
  ultimately show ?case by auto
qed simp

text \<open>At the end the message is the original.\<close>

lemma stage_end:
  assumes ok: "desc_ok n desc" and can: "message_canonical P desc qs cells us"
    and st: "stage desc qs cells (set (mfields desc)) st"
  shows "m_cells st = cells \<and> m_quants st = qs"
proof -
  have lens: "length (m_quants st) = length qs" "length (m_cells st) = length cells"
    using st can by (simp_all add: stage_def message_canonical_def)
  have here: "m_cells st ! offset f = cells ! offset f \<and>
      (quantifier_offset f \<noteq> 0 \<longrightarrow> quantifier_at (m_quants st) (quantifier_offset f) = quantifier_at qs (quantifier_offset f))"
    if f: "f \<in> set (mfields desc)" for f
  proof (cases "settled qs (set (mfields desc)) f")
    case True
    with st f show ?thesis by (auto simp: stage_def after_def)
  next
    case False
    then have inactive: "is_oneof f" "quantifier_at qs (quantifier_offset f) \<noteq> tid f"
      using f by (auto simp: settled_def active_def)
    have fok: "field_ok n desc f" using ok f by (rule desc_okD)
    have q0: "quantifier_offset f \<noteq> 0" and single: "label f \<noteq> REPEATED" "label f \<noteq> REQUIRED"
      using fok inactive(1) by (auto simp: field_ok_def)
    have zero: "quantifier_at qs (quantifier_offset f) = 0"
    proof (rule ccontr)
      assume "quantifier_at qs (quantifier_offset f) \<noteq> 0"
      then obtain g where g: "g \<in> set (mfields desc)" "is_oneof g" "quantifier_offset g = quantifier_offset f"
        "tid g = quantifier_at qs (quantifier_offset f)"
        using can f inactive(1) by (auto simp: message_canonical_def cases_fine_def)
      then have "offset g = offset f" using same_quantifier [OF ok g(1) f g(3)] q0 by simp
      with g False show False by (auto simp: settled_def active_def)
    qed
    have "field_canonical P qs cells f" using can f by (simp add: message_canonical_def)
    then have "cells ! offset f = One (default_val f)"
      using single inactive(1) zero by (auto simp: field_canonical_def single_canonical_def Let_def split: cell.splits)
    moreover have "before qs cells f st" using st f False by (auto simp: stage_def)
    ultimately show ?thesis using single(1) zero by (simp add: before_def)
  qed
  have "m_cells st ! c = cells ! c" if "c < length cells" for c
  proof -
    have "c < n_cells desc" using that can by (simp add: message_canonical_def)
    then obtain f where "f \<in> set (mfields desc)" "offset f = c" using ok unfolding desc_ok_def by blast
    with here show ?thesis by blast
  qed
  moreover have "m_quants st ! q = qs ! q" if q: "q < length qs" for q
  proof (cases "q = 0")
    case True
    have "quantifier_at (m_quants st) 0 = 1" "qs ! 0 = 1" using st can by (simp_all add: stage_def message_canonical_def)
    with True q lens show ?thesis by (simp add: quantifier_at_def split: if_splits)
  next
    case False
    moreover have "q < n_quantifiers desc" using q can by (simp add: message_canonical_def)
    ultimately obtain f where "f \<in> set (mfields desc)" "quantifier_offset f = q"
      using ok unfolding desc_ok_def by blast
    with here [of f] False q lens show ?thesis by (simp add: quantifier_at_def)
  qed
  ultimately show ?thesis using lens by (simp add: list_eq_iff_nth_eq)
qed


section \<open>The whole message\<close>

lemma elements_append [simp]: "elements desc i (ms @ ms') = elements desc i ms + elements desc i ms'"
  by (simp add: elements_def)

lemma unknowns_append [simp]: "unknowns (ms @ ms') = unknowns ms + unknowns ms'"
  by (simp add: unknowns_def)

lemma unknown_items_fine:
  assumes "\<forall>u \<in> set us. unknown_canonical desc u"
  shows "list_all (\<lambda>it. item_ok it \<and> item_countable desc it) (map unknown_item us)"
    and "elements desc i (cut_items desc rest (map unknown_item us)) = 0"
    and "unknowns (cut_items desc rest (map unknown_item us)) = length us"
proof -
  have tag: "itag (unknown_item u) = utag u" for u by (simp add: unknown_item_def Let_def)
  show "list_all (\<lambda>it. item_ok it \<and> item_countable desc it) (map unknown_item us)"
    using assms by (simp add: list_all_iff unknown_canonical_def item_countable_def countable_def tag)
  show "elements desc i (cut_items desc rest (map unknown_item us)) = 0"
    "unknowns (cut_items desc rest (map unknown_item us)) = length us"
    using assms by (induction us) (simp_all add: elements_def unknowns_def unknown_canonical_def tag)
qed

lemma fields_items_fine:
  assumes ok: "desc_ok n desc" and "set fs \<subseteq> set (mfields desc)" and "distinct fs"
    and "length (items_bytes (fields_items qs cells fs)) < 2 ^ 31"
  shows "list_all (\<lambda>it. item_ok it \<and> item_countable desc it) (fields_items qs cells fs)"
    and "i < length (mfields desc) \<Longrightarrow> label (mfields desc ! i) = REPEATED \<Longrightarrow>
      elements desc i (cut_items desc rest (fields_items qs cells fs)) =
        (if mfields desc ! i \<in> set fs then length (emitted qs cells (mfields desc ! i)) else 0)"
proof -
  have t: "field_table desc" using ok by (simp add: desc_ok_def)
  have "list_all (\<lambda>it. item_ok it \<and> item_countable desc it) (fields_items qs cells fs) \<and>
      (i < length (mfields desc) \<longrightarrow> label (mfields desc ! i) = REPEATED \<longrightarrow>
      elements desc i (cut_items desc rest (fields_items qs cells fs)) =
        (if mfields desc ! i \<in> set fs then length (emitted qs cells (mfields desc ! i)) else 0))"
    using assms(2-)
  proof (induction fs)
    case (Cons f fs)
    obtain j where j: "j < length (mfields desc)" "f = mfields desc ! j"
      using Cons.prems(1) by (auto simp: in_set_conv_nth)
    have "length (items_bytes (field_items f (map (map_pb_val enc) (emitted qs cells f)))) < 2 ^ 31"
      using Cons.prems(3) by simp
    note fi = field_items_fine [OF ok j this]
    have ih: "list_all (\<lambda>it. item_ok it \<and> item_countable desc it) (fields_items qs cells fs) \<and>
      (i < length (mfields desc) \<longrightarrow> label (mfields desc ! i) = REPEATED \<longrightarrow>
      elements desc i (cut_items desc rest (fields_items qs cells fs)) =
        (if mfields desc ! i \<in> set fs then length (emitted qs cells (mfields desc ! i)) else 0))"
      using Cons by simp
    show ?case
    proof (cases "i = j")
      case True
      with ih fi(1,2) j Cons.prems(2) show ?thesis by auto
    next
      case False
      then have "i < length (mfields desc) \<Longrightarrow> mfields desc ! i \<noteq> f"
        using tids_distinct [OF t, of i j] j by auto
      with ih fi(1) fi(3) [of i] False show ?thesis by auto
    qed
  qed (simp add: elements_def)
  then show "list_all (\<lambda>it. item_ok it \<and> item_countable desc it) (fields_items qs cells fs)"
    and "i < length (mfields desc) \<Longrightarrow> label (mfields desc ! i) = REPEATED \<Longrightarrow>
      elements desc i (cut_items desc rest (fields_items qs cells fs)) =
        (if mfields desc ! i \<in> set fs then length (emitted qs cells (mfields desc ! i)) else 0)"
    by blast+
qed

lemma cut_seen:
  assumes "it \<in> set its" "field_of desc (itag it) = Some i" "label (mfields desc ! i) = REQUIRED"
  shows "seen desc (cut_items desc rest its) i"
proof -
  have "\<exists>sm \<in> set (cut_items desc rest its). sfield sm = Some i" using assms(1,2) by (induction its) auto
  with assms(3) show ?thesis by (simp add: seen_def)
qed

lemma val_item_tag: "itag (val_item f v) = tid f"
  by (simp add: val_item_def)

lemma fields_required:
  assumes t: "field_table desc"
  shows "required_seen desc (cut_items desc rest (fields_items qs cells (mfields desc) @ its))"
  unfolding required_seen_def
proof (intro allI impI)
  fix i assume i: "i < length (mfields desc)"
    and req: "label (mfields desc ! i) = REQUIRED \<and> default_value (mfields desc ! i) = No_Default"
  let ?f = "mfields desc ! i"
  obtain v where "emitted qs cells ?f = [v]" using req by (auto simp: emitted_def field_dispatch_def Let_def)
  then have "val_item ?f (map_pb_val enc v) \<in> set (fields_items qs cells (mfields desc) @ its)"
    using i req by (auto simp: fields_items_def field_items_def intro!: bexI [of _ ?f])
  then show "seen desc (cut_items desc rest (fields_items qs cells (mfields desc) @ its)) i"
    by (rule cut_seen) (use req field_of_field [OF t i] in \<open>simp_all add: val_item_tag\<close>)
qed

lemma stage_start:
  assumes ok: "desc_ok n desc" and p: "preparing desc ms [] st"
    and el: "\<And>i. i < length (mfields desc) \<Longrightarrow> label (mfields desc ! i) = REPEATED \<Longrightarrow>
      elements desc i ms = length (emitted qs cells (mfields desc ! i))"
  shows "stage desc qs cells {} st"
proof -
  have nc: "no_count desc q" if "\<forall>f \<in> set (mfields desc). label f = REPEATED \<longrightarrow> quantifier_offset f \<noteq> q" for q
    using that by (simp add: no_count_def)
  have "quantifier_at (m_quants st) 0 = 1"
  proof -
    have "no_count desc 0" using desc_okD [OF ok] by (intro nc) (auto simp: field_ok_def)
    with p show ?thesis by (simp add: preparing_def quantifier_at_init)
  qed
  moreover have "before qs cells f st" if f: "f \<in> set (mfields desc)" for f
  proof (cases "label f = REPEATED")
    case True
    obtain i where "i < length (mfields desc)" "f = mfields desc ! i" using f by (auto simp: in_set_conv_nth)
    with True p el [of i] show ?thesis by (auto simp: before_def preparing_def)
  next
    case False
    have "no_count desc (quantifier_offset f)" if "quantifier_offset f \<noteq> 0"
    proof (intro nc ballI impI)
      fix g assume g: "g \<in> set (mfields desc)" "label g = REPEATED"
      have "\<not> is_oneof g" using desc_okD [OF ok g(1)] g(2) by (auto simp: field_ok_def)
      moreover have "f \<noteq> g" using g(2) False by auto
      ultimately show "quantifier_offset g \<noteq> quantifier_offset f"
        using same_quantifier [OF ok g(1) f] same_offset [OF ok g(1) f] that by metis
    qed
    with False f p show ?thesis by (simp add: before_def preparing_def quantifier_at_init)
  qed
  ultimately show ?thesis using p by (simp add: stage_def settled_def preparing_def)
qed


lemma length_items: "length its \<le> length (items_bytes its)"
proof (induction its)
  case (Cons it its)
  have "1 \<le> length (item_bytes it)" by (simp add: item_bytes_def tag_key_def)
  with Cons show ?case by simp
qed simp

lemma unpack_body_inverts:
  assumes ok: "desc_ok n desc" and can: "message_canonical (canonical descs) desc qs cells us"
    and inv: "inverts descs B unpack" and al: "always_allocates alloc"
    and len: "length (enc (Msg desc qs cells us)) \<le> B" "length (enc (Msg desc qs cells us)) < 2 ^ 26"
  shows "unpack_body unpack alloc desc (enc (Msg desc qs cells us)) = Ok (Msg desc qs cells us)"
proof -
  define its where "its = fields_items qs cells (mfields desc) @ map unknown_item us"
  define ms where "ms = cut_items desc [] its"
  have t: "field_table desc" using ok by (simp add: desc_ok_def)
  have bytes: "enc (Msg desc qs cells us) = items_bytes its"
    using enc_message_items [of desc qs "map (map_cell enc) cells" us] len(2)
    by (simp add: message_items_fields its_def)
  have unk: "\<forall>u \<in> set us. unknown_canonical desc u" using can by (simp add: message_canonical_def)
  have short: "length (items_bytes its) < 67108864" using len(2) bytes by simp
  then have "length (items_bytes (fields_items qs cells (mfields desc))) < 2 ^ 31" by (simp add: its_def)
  note fine = fields_items_fine [OF ok order_refl fields_distinct [OF t] this]
  have all: "list_all (\<lambda>it. item_ok it \<and> item_countable desc it) its"
    using fine(1) unknown_items_fine(1) [OF unk] by (simp add: its_def)
  have el: "elements desc i ms = length (emitted qs cells (mfields desc ! i))"
    if "i < length (mfields desc)" "label (mfields desc ! i) = REPEATED" for i
    using fine(2) [OF that] unknown_items_fine(2) [OF unk] that(1) by (simp add: ms_def its_def)
  note init = scan_init_scanned [OF ok]
  have "length its \<le> max_members"
    using length_items [of its] short
    by (simp add: max_members_def MAX_SCANNED_MEMBER_SLAB_def BOUND_SIZEOF_SCANNED_MEMBER_LOG2_def
        FIRST_SCANNED_MEMBER_SLAB_SIZE_LOG2_def)
  then obtain scan where scan: "scan_loop desc alloc (items_bytes its) (scan_init desc (message_init_quantifiers desc)) = Ok scan"
    "scanned desc ms scan"
    using scan_items [OF ok al init _ all] by (auto simp: ms_def)
  have sl: "slabs_ok scan" "concat (slabs scan) = ms" "n_unknown scan = unknowns ms"
    using scan(2) by (simp_all add: scanned_def members_of_def)
  obtain ms' where "scanned desc ms' scan" "list_all (good_member desc) ms'" "total_len ms' \<le> length (items_bytes its)"
    using scan_loop_fine(2) [OF ok init, simplified, OF scan(1)] by blast
  then have good: "list_all (good_member desc) ms" "total_len ms \<le> length (items_bytes its)"
    using sl(2) by (simp_all add: scanned_def members_of_def)
  have lim: "8 * elements desc i ms < 4294967296" for i
    using elements_le [OF good(1), of i] good(2) short by simp
  have bm: "\<forall>i < length (mfields desc). bitmap_is_set (required_fields_bitmap scan) i = Ok (seen desc ms i)"
    and cnt: "counted desc ms (counts scan)" using scan(2) by (simp_all add: scanned_def)
  note p = prepare_fields_fine [OF ok preparing_start [OF ok cnt] _ _ lim bm, simplified]
  define prep where "prep = prepare_fields alloc desc (required_fields_bitmap scan) [0..<length (mfields desc)]
        \<lparr>m_quants = counts scan, m_cells = message_init_cells desc, m_unknown = []\<rparr>"
  have "required_seen desc ms" using fields_required [OF t, of "[]" qs cells "map unknown_item us"] by (simp add: ms_def its_def)
  with p(1,3) al obtain st where st: "prep = Ok st" by (cases prep) (auto simp: prep_def)
  have start: "stage desc qs cells {} st"
    using p(2) [of alloc st] st el by (intro stage_start [OF ok, of ms]) (auto simp: prep_def)
  obtain st1 where st1: "runs unpack desc (n_unknown scan)
      (cut_items desc (items_bytes (map unknown_item us)) (fields_items qs cells (mfields desc))) st st1"
    "stage desc qs cells (set (mfields desc)) st1"
  proof (rule fields_runs [OF ok inv])
    show "\<forall>f \<in> set (mfields desc). field_canonical (canonical descs) qs cells f" "length cells = n_cells desc"
      using can by (simp_all add: message_canonical_def)
    show "length (items_bytes (fields_items qs cells (mfields desc))) \<le> B" using len(1) bytes by (simp add: its_def)
    show "mfields desc = [] @ mfields desc" "stage desc qs cells (set []) st" using start by simp_all
  qed
  have nil: "m_unknown st1 = []" using st1(2) by (simp add: stage_def)
  have "length us \<le> n_unknown scan" using sl(3) unknown_items_fine(3) [OF unk] by (simp add: ms_def its_def)
  then have "runs unpack desc (n_unknown scan) (cut_items desc [] (map unknown_item us)) st1 (st1\<lparr>m_unknown := us\<rparr>)"
    using unknowns_run [OF unk, of st1] nil by simp
  with st1(1) have "runs unpack desc (n_unknown scan) ms st (st1\<lparr>m_unknown := us\<rparr>)"
    by (auto simp: ms_def its_def runs_append)
  then have "parse_slabs unpack alloc desc scan [0..<length (slabs scan)] st = Ok (st1\<lparr>m_unknown := us\<rparr>)"
    using sl(2) by (intro parse_slabs_runs [OF sl(1) _ al]) simp_all
  moreover have "which_slab scan + 1 = length (slabs scan)" using sl(1) by (simp add: slabs_ok_def)
  moreover have "m_cells st1 = cells \<and> m_quants st1 = qs" using stage_end [OF ok can st1(2)] .
  ultimately show ?thesis
    using scan(1) st al unfolding bytes by (simp add: unpack_body_def prep_def del: upt_Suc)
qed

inductive_cases canonicalE: "canonical descs d m"

lemma unpack_depth_inverts:
  assumes dok: "descs_ok descs"
  shows "B \<le> 2 ^ 26 \<Longrightarrow> inverts descs B (unpack_depth descs B)"
proof (induction B)
  case (Suc B)
  have "unpack_depth descs (Suc B) alloc d m' = Ok m"
    if al: "always_allocates alloc" and can: "canonical descs d m" and len: "length (enc m) < Suc B" and "m' = enc m" for alloc d m m'
  proof -
    obtain qs cells us where m: "m = Msg (descs ! d) qs cells us" "d < length descs"
      "message_canonical (canonical descs) (descs ! d) qs cells us"
      using can by (auto elim: canonicalE)
    have "inverts descs B (unpack_depth descs B)" using Suc by simp
    from unpack_body_inverts [OF descs_okD [OF dok m(2)] m(3) this al] m(1,2) Suc.prems len \<open>m' = enc m\<close>
    show ?thesis by simp
  qed
  then show ?case unfolding inverts_def by blast
qed (simp add: inverts_def)


text \<open>
  C1: What \<open>protobuf_c_message_pack\<close> wrote, \<open>protobuf_c_message_unpack\<close> reads back, when no allocation
  fails: the same message, with its repeated fields, oneofs, embedded messages and unknown members.
  The message is canonical: everything that has no meaning on the wire (which object a pointer
  leads to, a value that is absent) is as the unpacker leaves it.  Its encoding is below 64 MiB, so
  that the slabs hold its members.
\<close>

theorem unpack_inverts_pack:
  assumes "descs_ok descs" and "canonical descs d msg" and "msg_ok msg"
    and "protobuf_c_message_pack msg m out = (m', n)" and "n < 2 ^ 26" and "always_allocates alloc"
  shows "protobuf_c_message_unpack descs alloc d (read_bytes m' out n) = Ok msg"
proof -
  have m': "m' = write_bytes m out (enc msg)" "n = length (enc msg)"
    using assms(3,4) by (simp_all add: message_pack_enc emit_def)
  then have "inverts descs (n + 1) (unpack_depth descs (n + 1))"
    using assms(5) by (intro unpack_depth_inverts [OF assms(1)]) simp
  then show ?thesis
    using assms(2,6) m' by (simp add: inverts_def protobuf_c_message_unpack_def del: unpack_depth.simps)
qed

definition sample_sub :: pb_msg where
  "sample_sub = Msg sample_desc [1, 0, 0] [Many [], One (VMsg Null), One (V32 0)]
     [\<lparr>utag = 20, wire_type = 0, udata = [200, 1]\<rparr>]"

definition sample_msg :: pb_msg where
  "sample_msg = Msg sample_desc [1, 2, 9]
     [Many [V32 1, V32 300], One (VMsg (Heap sample_sub)), One (VStr (Heap [65, 66]))] []"

lemma sample_canonical_sub: "canonical [sample_desc] 0 sample_sub"
proof -
  have "message_canonical P sample_desc [1, 0, 0] [Many [], One (VMsg Null), One (V32 0)]
      [\<lparr>utag = 20, wire_type = 0, udata = [200, 1]\<rparr>]" for P
    by (simp add: message_canonical_def cases_fine_def field_canonical_def single_canonical_def
        quantifier_at_def sample_desc_def sample_field_def is_oneof_def FLAG_ONEOF_def FLAG_PACKED_def
        field_is_zeroish_def default_val_def zero_val_def unknown_canonical_def field_of_def
        item_ok_def unknown_item_def wire_types varint_shape_def)
  then show ?thesis
    using canonical_Msg [of 0 "[sample_desc]"] by (simp add: sample_sub_def)
qed

lemma sample_canonical: "canonical [sample_desc] 0 sample_msg"
proof -
  have "message_canonical (canonical [sample_desc]) sample_desc [1, 2, 9]
     [Many [V32 1, V32 300], One (VMsg (Heap sample_sub)), One (VStr (Heap [65, 66]))] []"
    using sample_canonical_sub
    by (simp add: message_canonical_def cases_fine_def field_canonical_def single_canonical_def
        quantifier_at_def sample_desc_def sample_field_def is_oneof_def FLAG_ONEOF_def FLAG_PACKED_def
        field_is_zeroish_def)
  then show ?thesis
    using canonical_Msg [of 0 "[sample_desc]"] by (simp add: sample_msg_def)
qed

lemma sample_msg_ok: "msg_ok sample_msg"
  by (simp add: sample_msg_def sample_sub_def fields_ok_def sample_desc_def sample_field_def repeated_ok_def
      array_at_def quantifier_at_def is_packable_type_def get_type_min_size_def)

lemma enc_sample_msg:
  "enc sample_msg = [42, 3, 1, 172, 2, 50, 4, 160, 1, 200, 1, 74, 2, 65, 66]"
  by (simp add: sample_msg_def sample_sub_def sample_desc_def sample_field_def enc_message_def enc_field_def
      field_dispatch_def enc_repeated_def is_packed_def is_oneof_def FLAG_PACKED_def FLAG_ONEOF_def array_at_def
      quantifier_at_def member_at_def tag_key_def prefixed_def varint_small varint_big sign_ext_def wire_types
      is_ptr_type_def ptr_absent_def field_is_zeroish_def enc_value_def enc_unknown_def str_text_def cstr_def Let_def)

theorem unpack_inverts_pack_witness:
  "let (m, n) = protobuf_c_message_pack sample_msg (\<lambda>_. 0) 3 in
   n < 2 ^ 26 \<and> protobuf_c_message_unpack [sample_desc] (\<lambda>_ _. True) 0 (read_bytes m 3 n) = Ok sample_msg"
proof -
  obtain m n where p: "protobuf_c_message_pack sample_msg (\<lambda>_. 0) 3 = (m, n)" by fastforce
  have "n < 2 ^ 26" using p by (simp add: message_pack_enc [OF sample_msg_ok] emit_def enc_sample_msg)
  moreover have "always_allocates (\<lambda>_ _. True)" by (simp add: always_allocates_def)
  ultimately show ?thesis
    using unpack_inverts_pack [OF sample_descs_ok sample_canonical sample_msg_ok p] p by simp
qed

end
