(* ===== verification/Pb_Merge_Oneof.thy ===== *)
theory Pb_Merge_Oneof
  imports Pb_Unpack_Ok
begin

text \<open>
  A defect of \<open>merge_messages\<close>: an embedded message that is received twice is rejected when its type
  has a oneof that neither of the two sets.
\<close>

section \<open>Oneofs that nobody set\<close>

definition unset :: "nat \<Rightarrow> merge_state \<Rightarrow> bool" where
  "unset q st \<longleftrightarrow> quantifier_at (e_quants st) q = 0 \<and> quantifier_at (l_quants st) q = 0"

lemma unset_field_index:
  assumes "desc_ok n desc"
  shows "field_index desc 0 = Some (-1)"
proof -
  have t: "field_table desc" using assms by (simp add: desc_ok_def)
  show ?thesis
  proof (rule field_of_cases [OF t, of 0])
    fix i assume "i < length (mfields desc)" "tid (mfields desc ! i) = 0"
    with desc_okD [OF assms nth_mem, of i] show ?thesis by (simp add: field_ok_def)
  qed
qed

lemma need_to_merge_quants:
  "need_to_merge alloc i field ec lc st = Ok (b, st') \<Longrightarrow> e_quants st' = e_quants st \<and> l_quants st' = l_quants st"
  by (cases "ftype field") (auto simp: need_to_merge_def Let_def on_ok_eq_Ok split: option.splits)

lemma move_member_unset:
  "unset q st \<Longrightarrow> case_off \<noteq> q \<Longrightarrow> unset q (move_member field case_off ec st)"
  by (simp add: unset_def move_member_def Let_def quantifier_at_update)

lemma merge_repeated_unset:
  "merge_repeated alloc i field st = Ok st' \<Longrightarrow> unset q st \<Longrightarrow> quantifier_offset field \<noteq> q \<Longrightarrow> unset q st'"
  by (auto simp: merge_repeated_def Let_def on_ok_eq_Ok unset_def quantifier_at_update split: if_splits)

lemma merge_optional_unset:
  assumes "merge_optional desc alloc i field st = Ok st'" "unset q st" "quantifier_offset field \<noteq> q"
  shows "unset q st'"
proof (cases "st' = st")
  case False
  then obtain g ec lc b st1 where "need_to_merge alloc i g ec lc st = Ok (b, st1)"
    "st' = (if b then move_member g (quantifier_offset field) ec st1 else st1)"
    using assms(1) by (fastforce simp: merge_optional_def Let_def on_ok_eq_Ok split: if_splits)
  with need_to_merge_quants [OF this(1)] assms(2,3) move_member_unset [of q st1 "quantifier_offset field"]
  show ?thesis by (auto simp: unset_def)
qed (use assms in simp)

lemma merge_field_unset:
  assumes ok: "desc_ok n desc" and f: "f \<in> set (mfields desc)" "is_oneof f" and i: "i < length (mfields desc)"
    and st: "unset (quantifier_offset f) st" and r: "merge_field desc alloc i st = Ok st'"
  shows "mfields desc ! i \<noteq> f \<and> unset (quantifier_offset f) st'"
proof -
  let ?g = "mfields desc ! i"
  have gm: "?g \<in> set (mfields desc)" using i by simp
  have fok: "field_ok n desc f" and gok: "field_ok n desc ?g" using ok f(1) gm by (simp_all add: desc_okD)
  have q0: "quantifier_offset f \<noteq> 0" using fok f(2) by (simp add: field_ok_def)
  show ?thesis
  proof (cases "quantifier_offset ?g = quantifier_offset f")
    case True
    then have g: "is_oneof ?g" using desc_ok_apart [OF ok gm f(1)] f(2) q0 by (auto simp: fields_apart_def)
    then have "label ?g = OPTIONAL \<or> label ?g = NONE" using gok by (auto simp: field_ok_def)
    then have "merge_field desc alloc i st = Fail"
      using g st True unset_field_index [OF ok]
      by (auto simp: merge_field_def merge_optional_def Let_def unset_def)
    with r show ?thesis by simp
  next
    case False
    then have "unset (quantifier_offset f) st'"
      using r st merge_repeated_unset merge_optional_unset
      by (auto simp: merge_field_def Let_def split: if_splits)
    with False show ?thesis by auto
  qed
qed

text \<open>
  C34: Merging two messages that both leave some oneof unset never succeeds: the case word 0 of the
  earlier one is looked up as a field number, and the failed lookup ends the merge.  So a message
  whose embedded field arrives twice cannot be unpacked although it is valid protobuf.
\<close>

theorem merge_fails_on_unset_oneof:
  assumes "desc_ok n desc" and "f \<in> set (mfields desc)" and "is_oneof f"
    and "quantifier_at eqs (quantifier_offset f) = 0" and "quantifier_at lqs (quantifier_offset f) = 0"
  shows "merge_messages (Msg desc eqs ecells eus) alloc (Msg desc lqs lcells lus) \<noteq> Ok m"
proof -
  have step: "f \<notin> set (map ((!) (mfields desc)) is)"
    if "merge_fields desc alloc is st = Ok st'" "unset (quantifier_offset f) st" "\<forall>i \<in> set is. i < length (mfields desc)"
    for "is" st st'
    using that
  proof (induction "is" arbitrary: st)
    case (Cons i "is")
    then obtain st1 where st1: "merge_field desc alloc i st = Ok st1" "merge_fields desc alloc is st1 = Ok st'"
      by (auto simp: on_ok_eq_Ok)
    with merge_field_unset [OF assms(1-3) _ Cons.prems(2) st1(1)] Cons show ?case by auto
  qed simp
  have "f \<in> set (map ((!) (mfields desc)) [0..<length (mfields desc)])" using assms(2) by (simp only: map_nth)
  then have fails: "merge_fields desc alloc [0..<length (mfields desc)] st \<noteq> Ok st'" if "unset (quantifier_offset f) st" for st st'
    using step [OF _ that] by (metis atLeastLessThan_iff set_upt)
  have "unset (quantifier_offset f) \<lparr>e_quants = eqs, e_cells = cells, l_quants = lqs, l_cells = lcells\<rparr>" for cells
    using assms(4,5) by (simp add: unset_def)
  with fails show ?thesis by (simp add: merge_into_def on_ok_eq_Ok)
qed

theorem merge_fails_on_unset_oneof_witness:
  "\<forall>m. merge_messages (Msg sample_desc [1, 0, 0] [Many [], One (VMsg Null), One (V32 0)] []) (\<lambda>_ _. True)
     (Msg sample_desc [1, 0, 0] [Many [], One (VMsg Null), One (V32 0)] []) \<noteq> Ok m"
proof
  fix m
  let ?f = "sample_field ''num'' 10 NONE T_UINT32 2 2 FLAG_ONEOF"
  have "desc_ok 1 sample_desc" using sample_descs_ok by (simp add: descs_ok_def)
  moreover have "?f \<in> set (mfields sample_desc)" by (simp add: sample_desc_def)
  moreover have "is_oneof ?f" by (simp add: sample_field_def is_oneof_def FLAG_ONEOF_def)
  moreover have "quantifier_at [1, 0, 0] (quantifier_offset ?f) = 0" by (simp add: sample_field_def quantifier_at_def)
  ultimately show "merge_messages (Msg sample_desc [1, 0, 0] [Many [], One (VMsg Null), One (V32 0)] []) (\<lambda>_ _. True)
     (Msg sample_desc [1, 0, 0] [Many [], One (VMsg Null), One (V32 0)] []) \<noteq> Ok m"
    by (intro merge_fails_on_unset_oneof)
qed

end
