(* ===== verification/Png_Checksum.thy ===== *)
theory Png_Checksum
  imports Prelude
begin

unbundle bit_operations_syntax

text \<open>
  The checksums of the screenshot encoder \<open>main/png_uncompressed.c\<close>: the table-driven CRC-32 of
  PNG chunks and the Adler-32 of the zlib stream with its deferred reduction.  The table is shown
  to be the one of the bitwise definition, and the 32-bit sums to stay below the word size, so
  both compute the standard's checksum.
\<close>

section \<open>Checksums\<close>

definition crc32_table :: "u32 list" where
  "crc32_table =
    [
     0x00000000, 0x77073096, 0xEE0E612C, 0x990951BA, 0x076DC419, 0x706AF48F, 0xE963A535, 0x9E6495A3,
     0x0EDB8832, 0x79DCB8A4, 0xE0D5E91E, 0x97D2D988, 0x09B64C2B, 0x7EB17CBD, 0xE7B82D07, 0x90BF1D91,
     0x1DB71064, 0x6AB020F2, 0xF3B97148, 0x84BE41DE, 0x1ADAD47D, 0x6DDDE4EB, 0xF4D4B551, 0x83D385C7,
     0x136C9856, 0x646BA8C0, 0xFD62F97A, 0x8A65C9EC, 0x14015C4F, 0x63066CD9, 0xFA0F3D63, 0x8D080DF5,
     0x3B6E20C8, 0x4C69105E, 0xD56041E4, 0xA2677172, 0x3C03E4D1, 0x4B04D447, 0xD20D85FD, 0xA50AB56B,
     0x35B5A8FA, 0x42B2986C, 0xDBBBC9D6, 0xACBCF940, 0x32D86CE3, 0x45DF5C75, 0xDCD60DCF, 0xABD13D59,
     0x26D930AC, 0x51DE003A, 0xC8D75180, 0xBFD06116, 0x21B4F4B5, 0x56B3C423, 0xCFBA9599, 0xB8BDA50F,
     0x2802B89E, 0x5F058808, 0xC60CD9B2, 0xB10BE924, 0x2F6F7C87, 0x58684C11, 0xC1611DAB, 0xB6662D3D,
     0x76DC4190, 0x01DB7106, 0x98D220BC, 0xEFD5102A, 0x71B18589, 0x06B6B51F, 0x9FBFE4A5, 0xE8B8D433,
     0x7807C9A2, 0x0F00F934, 0x9609A88E, 0xE10E9818, 0x7F6A0DBB, 0x086D3D2D, 0x91646C97, 0xE6635C01,
     0x6B6B51F4, 0x1C6C6162, 0x856530D8, 0xF262004E, 0x6C0695ED, 0x1B01A57B, 0x8208F4C1, 0xF50FC457,
     0x65B0D9C6, 0x12B7E950, 0x8BBEB8EA, 0xFCB9887C, 0x62DD1DDF, 0x15DA2D49, 0x8CD37CF3, 0xFBD44C65,
     0x4DB26158, 0x3AB551CE, 0xA3BC0074, 0xD4BB30E2, 0x4ADFA541, 0x3DD895D7, 0xA4D1C46D, 0xD3D6F4FB,
     0x4369E96A, 0x346ED9FC, 0xAD678846, 0xDA60B8D0, 0x44042D73, 0x33031DE5, 0xAA0A4C5F, 0xDD0D7CC9,
     0x5005713C, 0x270241AA, 0xBE0B1010, 0xC90C2086, 0x5768B525, 0x206F85B3, 0xB966D409, 0xCE61E49F,
     0x5EDEF90E, 0x29D9C998, 0xB0D09822, 0xC7D7A8B4, 0x59B33D17, 0x2EB40D81, 0xB7BD5C3B, 0xC0BA6CAD,
     0xEDB88320, 0x9ABFB3B6, 0x03B6E20C, 0x74B1D29A, 0xEAD54739, 0x9DD277AF, 0x04DB2615, 0x73DC1683,
     0xE3630B12, 0x94643B84, 0x0D6D6A3E, 0x7A6A5AA8, 0xE40ECF0B, 0x9309FF9D, 0x0A00AE27, 0x7D079EB1,
     0xF00F9344, 0x8708A3D2, 0x1E01F268, 0x6906C2FE, 0xF762575D, 0x806567CB, 0x196C3671, 0x6E6B06E7,
     0xFED41B76, 0x89D32BE0, 0x10DA7A5A, 0x67DD4ACC, 0xF9B9DF6F, 0x8EBEEFF9, 0x17B7BE43, 0x60B08ED5,
     0xD6D6A3E8, 0xA1D1937E, 0x38D8C2C4, 0x4FDFF252, 0xD1BB67F1, 0xA6BC5767, 0x3FB506DD, 0x48B2364B,
     0xD80D2BDA, 0xAF0A1B4C, 0x36034AF6, 0x41047A60, 0xDF60EFC3, 0xA867DF55, 0x316E8EEF, 0x4669BE79,
     0xCB61B38C, 0xBC66831A, 0x256FD2A0, 0x5268E236, 0xCC0C7795, 0xBB0B4703, 0x220216B9, 0x5505262F,
     0xC5BA3BBE, 0xB2BD0B28, 0x2BB45A92, 0x5CB36A04, 0xC2D7FFA7, 0xB5D0CF31, 0x2CD99E8B, 0x5BDEAE1D,
     0x9B64C2B0, 0xEC63F226, 0x756AA39C, 0x026D930A, 0x9C0906A9, 0xEB0E363F, 0x72076785, 0x05005713,
     0x95BF4A82, 0xE2B87A14, 0x7BB12BAE, 0x0CB61B38, 0x92D28E9B, 0xE5D5BE0D, 0x7CDCEFB7, 0x0BDBDF21,
     0x86D3D2D4, 0xF1D4E242, 0x68DDB3F8, 0x1FDA836E, 0x81BE16CD, 0xF6B9265B, 0x6FB077E1, 0x18B74777,
     0x88085AE6, 0xFF0F6A70, 0x66063BCA, 0x11010B5C, 0x8F659EFF, 0xF862AE69, 0x616BFFD3, 0x166CCF45,
     0xA00AE278, 0xD70DD2EE, 0x4E048354, 0x3903B3C2, 0xA7672661, 0xD06016F7, 0x4969474D, 0x3E6E77DB,
     0xAED16A4A, 0xD9D65ADC, 0x40DF0B66, 0x37D83BF0, 0xA9BCAE53, 0xDEBB9EC5, 0x47B2CF7F, 0x30B5FFE9,
     0xBDBDF21C, 0xCABAC28A, 0x53B39330, 0x24B4A3A6, 0xBAD03605, 0xCDD70693, 0x54DE5729, 0x23D967BF,
     0xB3667A2E, 0xC4614AB8, 0x5D681B02, 0x2A6F2B94, 0xB40BBE37, 0xC30C8EA1, 0x5A05DF1B, 0x2D02EF8D
    ]"

definition crc32_update :: "u32 \<Rightarrow> bytes \<Rightarrow> u32" where
  "crc32_update crc buf =
     foldl (\<lambda>crc b. crc32_table ! unat ((crc XOR ucast b) AND 0xFF) XOR drop_bit 8 crc) crc buf"

text \<open>The inner loop of \<open>adler32_update\<close>, in 32-bit arithmetic.\<close>

fun adler_sum :: "u32 \<Rightarrow> u32 \<Rightarrow> bytes \<Rightarrow> u32 \<times> u32" where
  "adler_sum s1 s2 [] = (s1, s2)"
| "adler_sum s1 s2 (b # bs) = (let s1 = s1 + ucast b; s2 = s2 + s1 in adler_sum s1 s2 bs)"

function adler_chunks :: "u32 \<Rightarrow> u32 \<Rightarrow> bytes \<Rightarrow> u32 \<times> u32" where
  "adler_chunks s1 s2 buf =
     (if length buf > 0 then
        let n = (if length buf < 5552 then length buf else 5552);
            (s1, s2) = adler_sum s1 s2 (take n buf)
        in adler_chunks (s1 mod 65521) (s2 mod 65521) (drop n buf)
      else (s1, s2))"
  by pat_completeness auto

termination by (relation "measure (\<lambda>(s1, s2, buf). length buf)") auto

declare adler_chunks.simps [simp del]

definition adler32_update :: "u32 \<Rightarrow> bytes \<Rightarrow> u32" where
  "adler32_update adler buf =
     (let s1 = adler AND 0xFFFF;
          s2 = drop_bit 16 adler AND 0xFFFF;
          (s1, s2) = adler_chunks s1 s2 buf
      in push_bit 16 s2 OR s1)"

section \<open>CRC-32\<close>

text \<open>
  The definition of the standard: one bit at a time with the reflected polynomial.
\<close>

definition crc_bit :: "u32 \<Rightarrow> u32" where
  "crc_bit c = (if bit c 0 then drop_bit 1 c XOR 0xEDB88320 else drop_bit 1 c)"

definition crc_byte :: "u32 \<Rightarrow> u8 \<Rightarrow> u32" where
  "crc_byte crc b = (crc_bit ^^ 8) (crc XOR ucast b)"

lemma crc_bit_xor: "crc_bit (x XOR y) = crc_bit x XOR crc_bit y"
  by (auto simp: crc_bit_def bit_xor_iff drop_bit_xor xor.assoc xor.left_commute xor.commute)

lemma crc_bits_xor: "(crc_bit ^^ n) (x XOR y) = (crc_bit ^^ n) x XOR (crc_bit ^^ n) y"
  by (induction n) (simp_all add: crc_bit_xor)

text \<open>
  The remainder map is linear, so the table is determined by its entries at the powers of two;
  \<open>double_table\<close> builds twice the table from one more of them.
\<close>

definition double_table :: "u32 list \<Rightarrow> u32 \<Rightarrow> u32 list" where
  "double_table T t = T @ map (\<lambda>x. x XOR t) T"

lemma of_nat_split_bit: "j < 2 ^ k \<Longrightarrow> (of_nat (2 ^ k + j) :: 'a::len word) = of_nat j XOR 2 ^ k"
proof -
  assume j: "j < 2 ^ k"
  have "take_bit k j = j" using j by (simp add: take_bit_nat_eq_self_iff)
  then have "\<not> bit j i" if "k \<le> i" for i using that by (metis bit_take_bit_iff not_le)
  then have "(of_nat j :: 'a word) AND 2 ^ k = 0"
    by (intro bit_word_eqI) (auto simp: bit_simps)
  then show ?thesis
    by (simp add: disjunctive_add_eq_xor [symmetric] add.commute)
qed

lemma double_table_ok:
  "double_table (map (\<lambda>i. (crc_bit ^^ n) (of_nat i)) [0..<2 ^ k]) ((crc_bit ^^ n) (2 ^ k)) =
     map (\<lambda>i. (crc_bit ^^ n) (of_nat i)) [0..<2 ^ Suc k]"
proof -
  have "[0..<2 ^ Suc k] = [0..<2 ^ k] @ map ((+) (2 ^ k)) [0..<(2::nat) ^ k]"
    by (rule nth_equalityI) (auto simp: nth_append)
  then show ?thesis
    by (simp add: double_table_def of_nat_split_bit crc_bits_xor del: of_nat_add power_Suc)
qed

lemma funpow_8: "(f ^^ 8) x = f (f (f (f (f (f (f (f x)))))))"
  by (simp add: eval_nat_numeral)

lemma crc_powers:
  "(crc_bit ^^ 8) 1 = 0x77073096" "(crc_bit ^^ 8) 2 = 0xEE0E612C" "(crc_bit ^^ 8) 4 = 0x076DC419"
  "(crc_bit ^^ 8) 8 = 0x0EDB8832" "(crc_bit ^^ 8) 16 = 0x1DB71064" "(crc_bit ^^ 8) 32 = 0x3B6E20C8"
  "(crc_bit ^^ 8) 64 = 0x76DC4190" "(crc_bit ^^ 8) 128 = 0xEDB88320"
  by (simp_all add: funpow_8 crc_bit_def)

lemma crc32_table_doubled:
  "crc32_table = double_table (double_table (double_table (double_table (double_table (double_table
     (double_table (double_table [0] 0x77073096) 0xEE0E612C) 0x076DC419) 0x0EDB8832) 0x1DB71064)
     0x3B6E20C8) 0x76DC4190) 0xEDB88320"
  by (simp add: double_table_def crc32_table_def)

lemma crc32_table_ok: "crc32_table = map (\<lambda>i. (crc_bit ^^ 8) (of_nat i)) [0..<256]"
proof -
  define T where "T k = map (\<lambda>i. (crc_bit ^^ 8) (of_nat i)) [0..<2 ^ k]" for k
  have step: "T (Suc k) = double_table (T k) ((crc_bit ^^ 8) (2 ^ k))" for k
    unfolding T_def by (rule double_table_ok [symmetric])
  have "T 0 = [0]" by (simp add: T_def funpow_8 crc_bit_def)
  then have "T 8 = crc32_table"
    unfolding crc32_table_doubled by (simp add: numeral_eq_Suc step crc_powers [unfolded funpow_8])
  then show ?thesis by (simp add: T_def)
qed

lemma crc_bits_high: "(\<And>i. i < n \<Longrightarrow> \<not> bit x i) \<Longrightarrow> (crc_bit ^^ n) x = drop_bit n x"
proof (induction n)
  case (Suc n)
  then have "(crc_bit ^^ Suc n) x = crc_bit (drop_bit n x)" by simp
  also have "\<dots> = drop_bit (Suc n) x"
    using Suc.prems [of n] by (simp add: crc_bit_def bit_drop_bit_eq drop_bit_drop_bit)
  finally show ?case .
qed simp

lemma crc_table_lookup:
  "crc32_table ! unat (c AND 0xFF) XOR drop_bit 8 c = (crc_bit ^^ 8) c"
proof -
  have m: "(0xFF :: u32) = mask 8" by (simp add: mask_eq_exp_minus_1)
  have "unat (c AND 0xFF) < 256"
    using take_bit_nat_less_exp [of 8 "unat c"]
    unfolding m by (simp flip: take_bit_eq_mask add: unsigned_take_bit_eq)
  then have "crc32_table ! unat (c AND 0xFF) = (crc_bit ^^ 8) (c AND 0xFF)"
    by (simp add: crc32_table_ok)
  moreover have "(crc_bit ^^ 8) (c AND NOT (mask 8)) = drop_bit 8 (c AND NOT (mask 8))"
    by (rule crc_bits_high) (simp add: bit_simps)
  moreover have "drop_bit 8 (c AND NOT (mask 8)) = drop_bit 8 c"
    by (rule bit_word_eqI) (auto simp: bit_simps dest: bit_imp_le_length)
  moreover have "(c AND 0xFF) XOR (c AND NOT (mask 8)) = c"
    unfolding m by (rule bit_word_eqI) (auto simp: bit_simps)
  ultimately show ?thesis by (metis crc_bits_xor)
qed

lemma crc32_update_bitwise: "crc32_update crc buf = foldl crc_byte crc buf"
proof -
  have "crc32_table ! unat ((crc XOR ucast b) AND 0xFF) XOR drop_bit 8 crc = crc_byte crc b" for crc b
  proof -
    have "drop_bit 8 (ucast b :: u32) = 0"
      by (rule bit_word_eqI) (auto simp: bit_simps dest: bit_imp_le_length)
    then have "drop_bit 8 crc = drop_bit 8 (crc XOR ucast b)" by (simp add: drop_bit_xor)
    then show ?thesis by (simp only: crc_table_lookup crc_byte_def)
  qed
  then show ?thesis by (simp add: crc32_update_def)
qed

lemma crc32_update_append: "crc32_update crc (xs @ ys) = crc32_update (crc32_update crc xs) ys"
  by (simp add: crc32_update_def)

section \<open>Adler-32\<close>

definition adler_step :: "nat \<times> nat \<Rightarrow> u8 \<Rightarrow> nat \<times> nat" where
  "adler_step = (\<lambda>(a, b) x. let a = (a + unat x) mod 65521 in (a, (b + a) mod 65521))"

definition adler_word :: "nat \<times> nat \<Rightarrow> u32" where
  "adler_word = (\<lambda>(a, b). of_nat (b * 65536 + a))"

text \<open>The same sums without reduction, over the natural numbers.\<close>

fun adler_sum_nat :: "nat \<Rightarrow> nat \<Rightarrow> bytes \<Rightarrow> nat \<times> nat" where
  "adler_sum_nat a b [] = (a, b)"
| "adler_sum_nat a b (x # xs) = adler_sum_nat (a + unat x) (b + (a + unat x)) xs"

lemma adler_sum_no_overflow:
  assumes "2 * unat s2 + 2 * length bs * unat s1 + 255 * length bs * (length bs + 1) < 8589934592"
    and "unat s1 + 255 * length bs < 4294967296"
  shows "(\<lambda>(x, y). (unat x, unat y)) (adler_sum s1 s2 bs) = adler_sum_nat (unat s1) (unat s2) bs"
  using assms
proof (induction bs arbitrary: s1 s2)
  case (Cons x xs)
  define n where "n = length xs"
  have x: "unat x < 256" by (rule u8_bound)
  have s1: "unat (s1 + ucast x) = unat s1 + unat x"
    using Cons.prems(2) x by (simp add: unat_word_ariths unat_ucast_word mod_less)
  have B: "2 * unat s2 + 2 * (n + 1) * (unat s1 + 255) + 255 * n * (n + 1) < 8589934592"
    using Cons.prems(1) by (simp add: n_def algebra_simps)
  have "2 * (n + 1) * (unat s1 + unat x) \<le> 2 * (n + 1) * (unat s1 + 255)"
    using x by (intro mult_le_mono) simp_all
  with B have B': "2 * (unat s2 + (unat s1 + unat x)) + 2 * n * (unat s1 + unat x) + 255 * n * (n + 1) < 8589934592"
    by (simp add: algebra_simps)
  then have s2: "unat (s2 + (s1 + ucast x)) = unat s2 + (unat s1 + unat x)"
    using s1 by (simp add: unat_word_ariths(1) [of s2] mod_less)
  show ?case
    using Cons.IH [of "s2 + (s1 + ucast x)" "s1 + ucast x"] B' Cons.prems(2) x
    by (simp add: s1 s2 Let_def flip: n_def)
qed simp

lemma adler_step_mod:
  "adler_step (a mod 65521, b mod 65521) x = ((a + unat x) mod 65521, (b + (a + unat x)) mod 65521)"
proof -
  have "(b mod 65521 + (a mod 65521 + unat x) mod 65521) mod 65521 = (b + (a + unat x)) mod 65521"
  proof -
    have "(b mod 65521 + (a mod 65521 + unat x) mod 65521) mod 65521 = (b + (a mod 65521 + unat x)) mod 65521"
      by (rule mod_add_eq)
    also have "\<dots> = (a mod 65521 + (b + unat x)) mod 65521" by (simp only: ac_simps)
    also have "\<dots> = (a + (b + unat x)) mod 65521" by (rule mod_add_left_eq)
    finally show ?thesis by (simp only: ac_simps)
  qed
  then show ?thesis by (simp add: adler_step_def Let_def mod_add_left_eq)
qed

lemma adler_sum_nat_mod:
  "(\<lambda>(x, y). (x mod 65521, y mod 65521)) (adler_sum_nat a b bs) =
     foldl adler_step (a mod 65521, b mod 65521) bs"
proof (induction bs arbitrary: a b)
  case (Cons x xs)
  show ?case
    using Cons [of "a + unat x" "b + (a + unat x)"]
    by (simp add: adler_step_mod)
qed simp

lemma adler_sum_bound: "fst (adler_sum_nat a b bs) \<le> a + 255 * length bs"
proof (induction bs arbitrary: a b)
  case (Cons x xs)
  show ?case using Cons [of "a + unat x" "b + (a + unat x)"] u8_bound [of x] by simp
qed simp

lemma adler_step_less:
  "foldl adler_step (a, b) bs = (c, d) \<Longrightarrow> a < 65521 \<Longrightarrow> b < 65521 \<Longrightarrow> c < 65521 \<and> d < 65521"
  by (induction bs arbitrary: a b) (auto simp: adler_step_def Let_def)

lemma adler_chunks_ref:
  assumes "unat s1 < 65521" and "unat s2 < 65521"
  shows "(\<lambda>(x, y). (unat x, unat y)) (adler_chunks s1 s2 buf) = foldl adler_step (unat s1, unat s2) buf"
  using assms
proof (induction s1 s2 buf rule: adler_chunks.induct)
  case (1 s1 s2 buf)
  show ?case
  proof (cases "buf = []")
    case True
    then show ?thesis by (subst adler_chunks.simps) simp
  next
    case False
    define n where "n = (if length buf < 5552 then length buf else 5552)"
    obtain t1 t2 where t: "adler_sum s1 s2 (take n buf) = (t1, t2)" by fastforce
    have n: "length (take n buf) \<le> 5552" by (simp add: n_def)
    define k where "k = length (take n buf)"
    have "2 * k * unat s1 \<le> 2 * 5552 * 65520" using n "1.prems" by (intro mult_le_mono) (simp_all add: k_def)
    moreover have "255 * k * (k + 1) \<le> 255 * 5552 * 5553" using n by (intro mult_le_mono) (simp_all add: k_def)
    ultimately have "2 * unat s2 + 2 * k * unat s1 + 255 * k * (k + 1) < 8589934592"
      "unat s1 + 255 * k < 4294967296"
      using "1.prems" n unfolding k_def [symmetric] by linarith+
    then have sum: "(\<lambda>(x, y). (unat x, unat y)) (t1, t2) = adler_sum_nat (unat s1) (unat s2) (take n buf)"
      unfolding t [symmetric] k_def by (rule adler_sum_no_overflow)
    have r: "(unat t1 mod 65521, unat t2 mod 65521) = foldl adler_step (unat s1, unat s2) (take n buf)"
      using adler_sum_nat_mod [of "unat s1" "unat s2" "take n buf"] "1.prems"
      by (simp add: sum [simplified, symmetric])
    have m: "unat (t1 mod 65521) = unat t1 mod 65521" "unat (t2 mod 65521) = unat t2 mod 65521"
      by (simp_all add: unat_mod)
    have "adler_chunks s1 s2 buf = adler_chunks (t1 mod 65521) (t2 mod 65521) (drop n buf)"
      using False by (subst adler_chunks.simps) (simp add: t Let_def flip: n_def)
    moreover have "(\<lambda>(x, y). (unat x, unat y)) (adler_chunks (t1 mod 65521) (t2 mod 65521) (drop n buf)) =
        foldl adler_step (unat (t1 mod 65521), unat (t2 mod 65521)) (drop n buf)"
      using False by (intro "1.IH" [OF _ n_def t [symmetric]]) (simp_all add: m)
    ultimately show ?thesis
      using r by (simp add: m flip: foldl_append)
  qed
qed

lemma adler32_update_ref:
  assumes "a < 65521" and "b < 65521"
  shows "adler32_update (adler_word (a, b)) buf = adler_word (foldl adler_step (a, b) buf)"
proof -
  have w: "unat (adler_word (a, b)) = b * 65536 + a"
    using assms by (simp add: adler_word_def unat_of_nat del: of_nat_add of_nat_mult)
  have f: "(0xFFFF :: u32) = mask 16" by (simp add: mask_eq_exp_minus_1)
  have "unat (adler_word (a, b) AND 0xFFFF) = a"
    unfolding f using assms
    by (simp flip: take_bit_eq_mask add: take_bit_eq_mod unat_mod w)
  moreover have "unat (drop_bit 16 (adler_word (a, b)) AND 0xFFFF) = b"
    unfolding f using assms
    by (simp flip: take_bit_eq_mask add: take_bit_eq_mod unat_mod unat_drop_bit_word w)
  moreover obtain x y where xy: "adler_chunks (adler_word (a, b) AND 0xFFFF)
      (drop_bit 16 (adler_word (a, b)) AND 0xFFFF) buf = (x, y)" by fastforce
  ultimately have r: "(unat x, unat y) = foldl adler_step (a, b) buf"
    using adler_chunks_ref [of "adler_word (a, b) AND 0xFFFF" "drop_bit 16 (adler_word (a, b)) AND 0xFFFF" buf] assms
    by simp
  then have "unat x < 65521" "unat y < 65521"
    using adler_step_less [OF r [symmetric]] assms by simp_all
  then have "unat (push_bit 16 y OR x) = unat y * 65536 + unat x"
    using nat_or_disjoint [of "unat x" 16 "unat y"]
    by (simp add: unsigned_or_eq unat_push_bit_word)
  then have "push_bit 16 y OR x = adler_word (unat x, unat y)"
    using \<open>unat x < 65521\<close> \<open>unat y < 65521\<close>
    by (simp add: word_unat_eq_iff adler_word_def unat_of_nat del: of_nat_add of_nat_mult)
  then show ?thesis by (simp add: adler32_update_def xy Let_def r)
qed

section \<open>The claims\<close>

text \<open>
  C22: The table-driven CRC of any buffer from any starting value is the bit-by-bit CRC-32 of the
  standard (reflected polynomial EDB88320), so all 256 table entries are right and no index leaves
  the table.
\<close>

theorem crc32_update_standard: "crc32_update crc buf = foldl crc_byte crc buf \<and> length crc32_table = 256"
  by (simp add: crc32_update_bitwise crc32_table_ok)

text \<open>
  C23: Reducing only every 5552 bytes never overflows: from any well-formed checksum the 32-bit
  routine gives the Adler-32 obtained by reducing both sums modulo 65521 at every byte.
\<close>

theorem adler32_update_standard:
  assumes "a < 65521" and "b < 65521"
  shows "adler32_update (adler_word (a, b)) buf = adler_word (foldl adler_step (a, b) buf)"
  using assms by (rule adler32_update_ref)

theorem adler32_update_standard_witness:
  "adler32_update (adler_word (1, 0)) (replicate 6000 255) = adler_word (foldl adler_step (1, 0) (replicate 6000 255))"
  by (rule adler32_update_standard) simp_all

end
