(* ===== verification/Png_Encoder.thy ===== *)
theory Png_Encoder
  imports Png_Checksum "HOL-Library.Sublist"
begin

unbundle bit_operations_syntax

text \<open>
  The streaming screenshot encoder \<open>main/png_uncompressed.c\<close>: CRC-32, Adler-32, the staging
  buffer that coalesces output and \<open>png_encode_uncompressed_rgb888\<close>.

  The write callback is an arbitrary function of the chunks it has been given so far and the new
  chunk, returning an error code; \<open>sent\<close> is the list of chunks of the calls made.  A writing
  step is a function on the writer state; \<open>None\<close> is a read outside the pixel buffer or a loop
  that does not end.  The lemmas show that buffering does not change the byte stream, that the
  table and the deferred modulo compute the checksums of the two standards, and that the stream
  is a PNG whose image data inflates to the scanlines.
\<close>

section \<open>Byte order\<close>

definition put_be32 :: "u32 \<Rightarrow> bytes" where
  "put_be32 v = [ucast (drop_bit 24 v), ucast (drop_bit 16 v), ucast (drop_bit 8 v), ucast v]"

definition put_le16 :: "u16 \<Rightarrow> bytes" where
  "put_le16 v = [ucast v, ucast (drop_bit 8 v)]"

section \<open>Buffered output\<close>

type_synonym write_fn = "bytes list \<Rightarrow> bytes \<Rightarrow> nat"

definition ESP_OK :: nat where "ESP_OK = 0"
definition ESP_ERR_INVALID_ARG :: nat where "ESP_ERR_INVALID_ARG = 0x102"
definition PNG_OUT_BUF_SIZE :: nat where "PNG_OUT_BUF_SIZE = 16384"

text \<open>
  \<open>png_buf_writer_t\<close>: the callback with its history, and the staging buffer up to \<open>len\<close>
  (\<open>None\<close> when it could not be allocated).  \<open>cap\<close> is \<open>PNG_OUT_BUF_SIZE\<close> throughout.
\<close>

record png_writer =
  fn :: write_fn
  sent :: "bytes list"
  stage :: "bytes option"

type_synonym wr = "png_writer \<Rightarrow> (nat \<times> png_writer) option"

definition call_fn :: "png_writer \<Rightarrow> bytes \<Rightarrow> nat \<times> png_writer" where
  "call_fn bw chunk = (fn bw (sent bw) chunk, bw\<lparr> sent := sent bw @ [chunk] \<rparr>)"

definition bw_flush :: wr where
  "bw_flush bw =
     (case stage bw of
        None \<Rightarrow> Some (ESP_OK, bw)
      | Some buf \<Rightarrow>
          if length buf = 0 then Some (ESP_OK, bw)
          else let (ret, bw) = call_fn bw buf in Some (ret, bw\<lparr> stage := Some [] \<rparr>))"

text \<open>The loop of \<open>bw_write\<close>; every round stores at least one byte, so \<open>length data\<close> rounds suffice.\<close>

fun bw_write_loop :: "nat \<Rightarrow> bytes \<Rightarrow> wr" where
  "bw_write_loop fuel data bw =
     (if data = [] then Some (ESP_OK, bw)
      else case fuel of
        0 \<Rightarrow> None
      | Suc fuel \<Rightarrow> do {
          (ret, bw) \<leftarrow> (if map_option length (stage bw) = Some PNG_OUT_BUF_SIZE then bw_flush bw
                        else Some (ESP_OK, bw));
          if ret \<noteq> ESP_OK then Some (ret, bw)
          else do {
            buf \<leftarrow> stage bw;
            let n = PNG_OUT_BUF_SIZE - length buf;
            let n = (if n > length data then length data else n);
            bw_write_loop fuel (drop n data) (bw\<lparr> stage := Some (buf @ take n data) \<rparr>)
          }
        })"

definition bw_write :: "bytes \<Rightarrow> wr" where
  "bw_write data bw =
     (if stage bw = None then Some (call_fn bw data) else bw_write_loop (length data) data bw)"

text \<open>\<open>a; if (ret != ESP_OK) return ret; b\<close>\<close>

definition and_then :: "wr \<Rightarrow> wr \<Rightarrow> wr" where
  "and_then a b bw = do {
     (ret, bw) \<leftarrow> a bw;
     if ret \<noteq> ESP_OK then Some (ret, bw) else b bw
   }"

definition ascii :: "string \<Rightarrow> bytes" where
  "ascii s = map (\<lambda>c. of_nat (of_char c)) s"

definition write_chunk :: "string \<Rightarrow> bytes \<Rightarrow> wr" where
  "write_chunk type data =
     (let crc = crc32_update 0xFFFFFFFF (ascii type);
          crc = (if length data > 0 then crc32_update crc data else crc)
      in and_then (bw_write (put_be32 (of_nat (length data)) @ ascii type))
         (and_then (if length data > 0 then bw_write data else (\<lambda>bw. Some (ESP_OK, bw)))
            (bw_write (put_be32 (NOT crc)))))"

section \<open>The encoder\<close>

definition png_sig :: bytes where
  "png_sig = [0x89, 0x50, 0x4E, 0x47, 0x0D, 0x0A, 0x1A, 0x0A]"

definition read_row :: "bytes \<Rightarrow> nat \<Rightarrow> nat \<Rightarrow> bytes option" where
  "read_row pixels off n = (if off + n \<le> length pixels then Some (take n (drop off pixels)) else None)"

definition blk_header :: "bool \<Rightarrow> u32 \<Rightarrow> bytes" where
  "blk_header final scanline =
     (if final then 0x01 else 0x00) # put_le16 (ucast scanline) @ put_le16 (ucast (NOT scanline))"

text \<open>
  The loop over the rows, \<open>k\<close> of them left: the running CRC and Adler values are passed on to
  \<open>finish\<close>, the rest of the function.
\<close>

fun png_rows :: "bytes \<Rightarrow> u32 \<Rightarrow> u32 \<Rightarrow> (u32 \<Rightarrow> u32 \<Rightarrow> wr) \<Rightarrow> nat \<Rightarrow> nat \<Rightarrow> u32 \<Rightarrow> u32 \<Rightarrow> wr" where
  "png_rows pixels w h finish y 0 idat_crc adler = finish idat_crc adler"
| "png_rows pixels w h finish y (Suc k) idat_crc adler =
     (let scanline = 1 + w * 3;
          blk = blk_header (of_nat y = h - 1) scanline;
          idat_crc = crc32_update idat_crc blk
      in and_then (bw_write blk)
         (let idat_crc = crc32_update idat_crc [0];
              adler = adler32_update adler [0]
          in and_then (bw_write [0])
             (\<lambda>bw. do {
               row \<leftarrow> read_row pixels (y * unat w * 3) (unat (w * 3));
               let idat_crc = crc32_update idat_crc row;
               let adler = adler32_update adler row;
               and_then (bw_write row) (png_rows pixels w h finish (y + 1) k idat_crc adler) bw
             })))"

definition png_finish :: "u32 \<Rightarrow> u32 \<Rightarrow> wr" where
  "png_finish idat_crc adler =
     (let adler_buf = put_be32 adler;
          idat_crc = crc32_update idat_crc adler_buf
      in and_then (bw_write adler_buf)
         (and_then (bw_write (put_be32 (NOT idat_crc)))
            (and_then (write_chunk ''IEND'' []) bw_flush)))"

text \<open>\<open>alloc\<close> tells whether the staging buffer could be allocated.\<close>

definition png_encode_uncompressed_rgb888 ::
  "bool \<Rightarrow> bytes option \<Rightarrow> u32 \<Rightarrow> u32 \<Rightarrow> write_fn option \<Rightarrow> (nat \<times> bytes list) option" where
  "png_encode_uncompressed_rgb888 alloc pixels w h write_fn =
     (case (pixels, write_fn) of
        (Some pixels, Some write_fn) \<Rightarrow>
          if w = 0 \<or> h = 0 then Some (ESP_ERR_INVALID_ARG, [])
          else
            let bw = \<lparr> fn = write_fn, sent = [], stage = (if alloc then Some [] else None) \<rparr>;
                ihdr = put_be32 w @ put_be32 h @ [8, 2, 0, 0, 0];
                scanline = 1 + w * 3;
                idat_data_size = 2 + ucast h * ucast (5 + scanline) + 4 :: u64;
                idat_hdr = put_be32 (ucast idat_data_size) @ ascii ''IDAT'';
                idat_crc = crc32_update 0xFFFFFFFF (ascii ''IDAT'');
                zlib_hdr = [0x78, 0x01];
                idat_crc = crc32_update idat_crc zlib_hdr
            in map_option (\<lambda>(ret, bw). (ret, sent bw))
                 (and_then (bw_write png_sig)
                   (and_then (write_chunk ''IHDR'' ihdr)
                     (and_then (bw_write idat_hdr)
                       (and_then (bw_write zlib_hdr)
                         (png_rows pixels w h png_finish 0 (unat h) idat_crc 1)))) bw)
      | _ \<Rightarrow> Some (ESP_ERR_INVALID_ARG, []))"

section \<open>Buffering is invisible\<close>

definition calls_ok :: "write_fn \<Rightarrow> bytes list \<Rightarrow> bool" where
  "calls_ok f cs \<longleftrightarrow> (\<forall>i < length cs. f (take i cs) (cs ! i) = ESP_OK)"

text \<open>With a staging buffer every call carries at least one byte and at most the buffer size.\<close>

definition sizes_ok :: "png_writer \<Rightarrow> bool" where
  "sizes_ok bw \<longleftrightarrow> (stage bw \<noteq> None \<longrightarrow>
     (\<forall>c \<in> set (sent bw). 0 < length c \<and> length c \<le> PNG_OUT_BUF_SIZE))"

definition bw_ok :: "png_writer \<Rightarrow> bool" where
  "bw_ok bw \<longleftrightarrow> calls_ok (fn bw) (sent bw) \<and> sizes_ok bw \<and>
     (\<forall>buf. stage bw = Some buf \<longrightarrow> length buf \<le> PNG_OUT_BUF_SIZE)"

definition stream_of :: "png_writer \<Rightarrow> bytes" where
  "stream_of bw = concat (sent bw) @ (case stage bw of None \<Rightarrow> [] | Some buf \<Rightarrow> buf)"

text \<open>
  The outcome of writing up to the stream \<open>S\<close>: all of it with every call accepted, or the code of
  the first rejected call, with nothing but a prefix of \<open>S\<close> handed to the callback.
\<close>

definition outcome :: "png_writer \<Rightarrow> bytes \<Rightarrow> nat \<Rightarrow> png_writer \<Rightarrow> bool" where
  "outcome bw S ret bw' \<longleftrightarrow> fn bw' = fn bw \<and> (stage bw' = None \<longleftrightarrow> stage bw = None) \<and> sizes_ok bw' \<and>
     (if ret = ESP_OK then bw_ok bw' \<and> stream_of bw' = S
      else prefix (concat (sent bw')) S \<and>
           (\<exists>cs c. sent bw' = cs @ [c] \<and> calls_ok (fn bw) cs \<and> fn bw cs c = ret))"

definition writes :: "wr \<Rightarrow> bytes \<Rightarrow> bool" where
  "writes a bs \<longleftrightarrow>
     (\<forall>bw. bw_ok bw \<longrightarrow> (\<exists>ret bw'. a bw = Some (ret, bw') \<and> outcome bw (stream_of bw @ bs) ret bw'))"

lemma writesE:
  assumes "writes a bs" and "bw_ok bw"
  obtains ret bw' where "a bw = Some (ret, bw')" "outcome bw (stream_of bw @ bs) ret bw'"
  using assms unfolding writes_def by blast

lemma outcome_refl: "bw_ok bw \<Longrightarrow> outcome bw (stream_of bw) ESP_OK bw"
  by (simp add: outcome_def bw_ok_def)

lemma outcome_trans:
  assumes "outcome bw S ESP_OK bw1" and "outcome bw1 (S @ T) ret bw2"
  shows "outcome bw (S @ T) ret bw2"
  using assms by (auto simp: outcome_def)

lemma outcome_extend: "outcome bw S ret bw' \<Longrightarrow> ret \<noteq> ESP_OK \<Longrightarrow> outcome bw (S @ T) ret bw'"
  by (auto simp: outcome_def)

lemma writes_nothing: "writes (\<lambda>bw. Some (ESP_OK, bw)) []"
  by (simp add: writes_def outcome_refl)

lemma writes_and_then:
  assumes "writes a xs" and "writes b ys"
  shows "writes (and_then a b) (xs @ ys)"
  unfolding writes_def
proof (intro allI impI)
  fix bw assume "bw_ok bw"
  with assms(1) obtain ret bw1 where a: "a bw = Some (ret, bw1)" "outcome bw (stream_of bw @ xs) ret bw1"
    by (rule writesE)
  show "\<exists>ret bw'. and_then a b bw = Some (ret, bw') \<and> outcome bw (stream_of bw @ xs @ ys) ret bw'"
  proof (cases "ret = ESP_OK")
    case True
    then have 1: "bw_ok bw1" "stream_of bw1 = stream_of bw @ xs" using a by (simp_all add: outcome_def)
    from assms(2) 1(1) obtain ret2 bw2 where "b bw1 = Some (ret2, bw2)" "outcome bw1 (stream_of bw1 @ ys) ret2 bw2"
      by (rule writesE)
    with a True 1 show ?thesis
      using outcome_trans [of bw "stream_of bw @ xs" bw1 ys ret2 bw2] by (simp add: and_then_def)
  next
    case False
    with a show ?thesis
      using outcome_extend [OF a(2) False, of ys] by (simp add: and_then_def)
  qed
qed

lemma calls_ok_snoc: "calls_ok f (cs @ [c]) \<longleftrightarrow> calls_ok f cs \<and> f cs c = ESP_OK"
  by (auto simp: calls_ok_def nth_append less_Suc_eq)

lemma call_fn_outcome:
  assumes "bw_ok bw" and "stage bw \<noteq> None \<longrightarrow> 0 < length chunk \<and> length chunk \<le> PNG_OUT_BUF_SIZE"
    and "call_fn bw chunk = (ret, bw')" and "bw'' = bw'\<lparr> stage := map_option (\<lambda>_. []) (stage bw) \<rparr>"
    and "S = concat (sent bw) @ chunk"
  shows "outcome bw S ret bw''"
proof -
  have c: "fn bw'' = fn bw" "sent bw'' = sent bw @ [chunk]" "ret = fn bw (sent bw) chunk"
    "stage bw'' = map_option (\<lambda>_. []) (stage bw)"
    using assms(3,4) by (auto simp: call_fn_def)
  have sizes: "sizes_ok bw''"
    using assms(1,2) c by (simp add: sizes_ok_def bw_ok_def ball_Un)
  have "bw_ok bw''" if "ret = ESP_OK"
    using assms(1) that c sizes by (simp add: bw_ok_def calls_ok_snoc)
  moreover have "stream_of bw'' = S"
    using assms(5) c by (simp add: stream_of_def split: option.split)
  ultimately show ?thesis
    using assms(1,5) c sizes by (simp add: outcome_def bw_ok_def)
qed

lemma bw_flush_writes: "writes bw_flush []"
  unfolding writes_def
proof (intro allI impI)
  fix bw assume ok: "bw_ok bw"
  show "\<exists>ret bw'. bw_flush bw = Some (ret, bw') \<and> outcome bw (stream_of bw @ []) ret bw'"
  proof (cases "stage bw = None \<or> stage bw = Some []")
    case True
    with ok show ?thesis by (auto simp: bw_flush_def outcome_refl)
  next
    case False
    then obtain buf where buf: "stage bw = Some buf" "buf \<noteq> []" by auto
    obtain ret bw' where c: "call_fn bw buf = (ret, bw')" by fastforce
    have "outcome bw (stream_of bw) ret (bw'\<lparr> stage := Some [] \<rparr>)"
      using ok buf by (intro call_fn_outcome [OF ok _ c]) (auto simp: bw_ok_def stream_of_def)
    with buf c show ?thesis by (simp add: bw_flush_def)
  qed
qed

lemma cap_pos: "0 < PNG_OUT_BUF_SIZE"
  by (simp add: PNG_OUT_BUF_SIZE_def)

text \<open>The start of a round of \<open>bw_write\<close>: afterwards there is room for at least one byte.\<close>

lemma make_room:
  assumes ok: "bw_ok bw" and st: "stage bw \<noteq> None"
  obtains ret bw1 where
    "(if map_option length (stage bw) = Some PNG_OUT_BUF_SIZE then bw_flush bw else Some (ESP_OK, bw)) =
       Some (ret, bw1)"
    "outcome bw (stream_of bw) ret bw1"
    "ret = ESP_OK \<Longrightarrow> \<exists>buf. stage bw1 = Some buf \<and> length buf < PNG_OUT_BUF_SIZE"
proof (cases "map_option length (stage bw) = Some PNG_OUT_BUF_SIZE")
  case True
  obtain ret bw1 where f: "bw_flush bw = Some (ret, bw1)" "outcome bw (stream_of bw @ []) ret bw1"
    using bw_flush_writes ok by (rule writesE)
  then have "stage bw1 = Some []"
    using True cap_pos by (auto simp: bw_flush_def split: if_splits prod.splits)
  with f True cap_pos show thesis by (intro that [of ret bw1]) simp_all
next
  case False
  obtain buf where buf: "stage bw = Some buf" using st by auto
  have "length buf \<le> PNG_OUT_BUF_SIZE" using ok buf by (simp add: bw_ok_def)
  with False ok buf show thesis by (intro that [of ESP_OK bw]) (simp_all add: outcome_refl)
qed

lemma bw_store_outcome:
  assumes "bw_ok bw" and "stage bw = Some buf" and "length buf + length xs \<le> PNG_OUT_BUF_SIZE"
  shows "outcome bw (stream_of bw @ xs) ESP_OK (bw\<lparr> stage := Some (buf @ xs) \<rparr>)"
  using assms by (auto simp: outcome_def bw_ok_def sizes_ok_def stream_of_def)

declare bw_write_loop.simps [simp del]

lemma bw_write_loop_outcome:
  "length data \<le> fuel \<Longrightarrow> bw_ok bw \<Longrightarrow> stage bw \<noteq> None \<Longrightarrow>
     \<exists>ret bw'. bw_write_loop fuel data bw = Some (ret, bw') \<and> outcome bw (stream_of bw @ data) ret bw'"
proof (induction fuel arbitrary: data bw)
  case 0
  then show ?case by (simp add: bw_write_loop.simps outcome_refl)
next
  case (Suc fuel)
  show ?case
  proof (cases "data = []")
    case True
    with Suc.prems show ?thesis by (simp add: bw_write_loop.simps outcome_refl)
  next
    case data: False
    obtain ret bw1 where room:
      "(if map_option length (stage bw) = Some PNG_OUT_BUF_SIZE then bw_flush bw else Some (ESP_OK, bw)) =
         Some (ret, bw1)"
      "outcome bw (stream_of bw) ret bw1"
      "ret = ESP_OK \<Longrightarrow> \<exists>buf. stage bw1 = Some buf \<and> length buf < PNG_OUT_BUF_SIZE"
      using make_room [OF Suc.prems(2,3)] by blast
    show ?thesis
    proof (cases "ret = ESP_OK")
      case False
      with data room show ?thesis
        using outcome_extend [OF room(2) False, of data]
        by (subst bw_write_loop.simps) (simp del: split_paired_Ex)
    next
      case True
      with room(3) obtain buf where buf: "stage bw1 = Some buf" "length buf < PNG_OUT_BUF_SIZE" by blast
      have 1: "bw_ok bw1" "stream_of bw1 = stream_of bw" using room(2) True by (simp_all add: outcome_def)
      define n where "n = (if PNG_OUT_BUF_SIZE - length buf > length data then length data
                           else PNG_OUT_BUF_SIZE - length buf)"
      define bw2 where "bw2 = bw1\<lparr> stage := Some (buf @ take n data) \<rparr>"
      have n: "0 < n" "n \<le> length data" "length buf + n \<le> PNG_OUT_BUF_SIZE"
        using data buf(2) by (auto simp: n_def)
      then have 2: "outcome bw1 (stream_of bw1 @ take n data) ESP_OK bw2"
        unfolding bw2_def using 1 buf by (intro bw_store_outcome) simp_all
      then have ok2: "bw_ok bw2" "stream_of bw2 = stream_of bw @ take n data" "stage bw2 \<noteq> None"
        using 1 by (simp_all add: outcome_def bw2_def)
      have "length (drop n data) \<le> fuel" using Suc.prems(1) n by simp
      then obtain ret' bw' where 3: "bw_write_loop fuel (drop n data) bw2 = Some (ret', bw')"
        "outcome bw2 (stream_of bw2 @ drop n data) ret' bw'"
        using Suc.IH [OF _ ok2(1,3)] by blast
      have "outcome bw (stream_of bw @ take n data) ESP_OK bw2"
        using outcome_trans [of bw "stream_of bw" bw1] room(2) True 1 2 by simp
      then have "outcome bw (stream_of bw @ data) ret' bw'"
        using outcome_trans [of bw "stream_of bw @ take n data" bw2 "drop n data"] 3(2) ok2(2) by simp
      moreover have "bw_write_loop (Suc fuel) data bw = bw_write_loop fuel (drop n data) bw2"
        using data room(1) True buf
        by (subst bw_write_loop.simps) (simp add: Let_def bw2_def flip: n_def)
      ultimately show ?thesis using 3(1) by simp
    qed
  qed
qed

lemma bw_write_writes: "0 < length data \<Longrightarrow> writes (bw_write data) data"
  unfolding writes_def
proof (intro allI impI)
  fix bw assume d: "0 < length data" and ok: "bw_ok bw"
  show "\<exists>ret bw'. bw_write data bw = Some (ret, bw') \<and> outcome bw (stream_of bw @ data) ret bw'"
  proof (cases "stage bw")
    case None
    obtain ret bw' where c: "call_fn bw data = (ret, bw')" by fastforce
    then have "stage bw' = None" using None by (auto simp: call_fn_def)
    then have "outcome bw (stream_of bw @ data) ret bw'"
      using None by (intro call_fn_outcome [OF ok _ c]) (simp_all add: stream_of_def)
    with None c show ?thesis by (simp add: bw_write_def)
  next
    case (Some buf)
    then show ?thesis
      using bw_write_loop_outcome [OF order_refl ok, of data] by (simp add: bw_write_def)
  qed
qed

section \<open>The image\<close>

definition chunk_crc :: "bytes \<Rightarrow> u32" where
  "chunk_crc bs = NOT (foldl crc_byte 0xFFFFFFFF bs)"

definition png_chunk :: "string \<Rightarrow> bytes \<Rightarrow> bytes" where
  "png_chunk type data =
     put_be32 (of_nat (length data)) @ ascii type @ data @ put_be32 (chunk_crc (ascii type @ data))"

definition image_row :: "bytes \<Rightarrow> u32 \<Rightarrow> nat \<Rightarrow> bytes" where
  "image_row pixels w y = take (unat w * 3) (drop (y * unat w * 3) pixels)"

definition stored_block :: "bytes \<Rightarrow> u32 \<Rightarrow> u32 \<Rightarrow> nat \<Rightarrow> bytes" where
  "stored_block pixels w h y = blk_header (y = unat h - 1) (1 + w * 3) @ 0 # image_row pixels w y"

definition scanlines :: "bytes \<Rightarrow> u32 \<Rightarrow> u32 \<Rightarrow> bytes" where
  "scanlines pixels w h = concat (map (\<lambda>y. 0 # image_row pixels w y) [0..<unat h])"

definition zlib_stream :: "bytes \<Rightarrow> u32 \<Rightarrow> u32 \<Rightarrow> bytes" where
  "zlib_stream pixels w h =
     [0x78, 0x01] @ concat (map (stored_block pixels w h) [0..<unat h]) @
     put_be32 (adler_word (foldl adler_step (1, 0) (scanlines pixels w h)))"

definition png_image :: "bytes \<Rightarrow> u32 \<Rightarrow> u32 \<Rightarrow> bytes" where
  "png_image pixels w h =
     png_sig @ png_chunk ''IHDR'' (put_be32 w @ put_be32 h @ [8, 2, 0, 0, 0]) @
     png_chunk ''IDAT'' (zlib_stream pixels w h) @ png_chunk ''IEND'' []"

lemma length_put [simp]: "length (put_be32 v) = 4" "length (put_le16 u) = 2" "length (blk_header f n) = 5"
  by (simp_all add: put_be32_def put_le16_def blk_header_def)

lemma length_ascii [simp]: "length (ascii s) = length s"
  by (simp add: ascii_def)

lemma write_chunk_writes: "writes (write_chunk type data) (png_chunk type data)"
proof -
  let ?crc = "put_be32 (chunk_crc (ascii type @ data))"
  have head: "writes (bw_write (put_be32 (of_nat (length data)) @ ascii type))
      (put_be32 (of_nat (length data)) @ ascii type)" by (rule bw_write_writes) simp
  have body: "writes (if length data > 0 then bw_write data else (\<lambda>bw. Some (ESP_OK, bw))) data"
    using bw_write_writes writes_nothing by auto
  have tail: "writes (bw_write ?crc) ?crc" by (rule bw_write_writes) simp
  have crc: "NOT (if length data > 0 then crc32_update (crc32_update 0xFFFFFFFF (ascii type)) data
      else crc32_update 0xFFFFFFFF (ascii type)) = chunk_crc (ascii type @ data)"
    by (simp add: chunk_crc_def crc32_update_bitwise)
  from writes_and_then [OF head writes_and_then [OF body tail]] show ?thesis
    unfolding write_chunk_def Let_def crc png_chunk_def by (simp only: append_assoc)
qed

lemma adler_start: "(1 :: u32) = adler_word (1, 0)"
  by (simp add: adler_word_def)

text \<open>
  The rows: the block stream, then whatever \<open>finish\<close> writes with the two checksums run over it.
\<close>

lemma png_rows_writes:
  assumes fin: "\<And>c a b. a < 65521 \<Longrightarrow> b < 65521 \<Longrightarrow> writes (finish c (adler_word (a, b))) (fin c (a, b))"
    and "y + k = unat h" and "length pixels = unat w * unat h * 3" and w: "unat (w * 3) = unat w * 3" "w \<noteq> 0"
    and "a < 65521" and "b < 65521"
  shows "writes (png_rows pixels w h finish y k crc (adler_word (a, b)))
     (concat (map (stored_block pixels w h) [y..<unat h]) @
      fin (crc32_update crc (concat (map (stored_block pixels w h) [y..<unat h])))
          (foldl adler_step (a, b) (concat (map (\<lambda>y. 0 # image_row pixels w y) [y..<unat h]))))"
  using assms(2,6,7)
proof (induction k arbitrary: y crc a b)
  case 0
  then show ?case using fin [of a b crc] by (simp add: crc32_update_def)
next
  case (Suc k)
  let ?row = "image_row pixels w y" and ?blk = "blk_header (of_nat y = h - 1) (1 + w * 3)"
  have y: "y < unat h" using Suc.prems(1) by simp
  then have up: "[y..<unat h] = y # [Suc y..<unat h]" by (rule upt_conv_Cons)
  have "y * unat w * 3 + unat w * 3 \<le> length pixels"
  proof -
    have "(y + 1) * (unat w * 3) \<le> unat h * (unat w * 3)" using y by (intro mult_right_mono) simp_all
    then show ?thesis using assms(3) by (simp add: algebra_simps)
  qed
  then have rd: "read_row pixels (y * unat w * 3) (unat (w * 3)) = Some ?row"
    and row: "0 < length ?row"
    using w by (simp_all add: read_row_def image_row_def word_unat_eq_iff)
  have "of_nat y = h - 1 \<longleftrightarrow> y = unat h - 1"
  proof -
    have "unat (h - 1) = unat h - 1" using y by (intro unat_minus_one) auto
    moreover have "unat (of_nat y :: u32) = y" using y u32_bound [of h] by (simp add: unat_of_nat)
    ultimately show ?thesis by (simp add: word_unat_eq_iff)
  qed
  then have blk: "stored_block pixels w h y = ?blk @ [0] @ ?row" by (simp add: stored_block_def)
  obtain a' b' where ab: "foldl adler_step (a, b) (0 # ?row) = (a', b')" by fastforce
  then have ab': "a' < 65521" "b' < 65521" using adler_step_less [OF ab] Suc.prems by simp_all
  obtain a0 b0 where ab0: "adler_step (a, b) 0 = (a0, b0)" by fastforce
  then have "a0 < 65521" "b0 < 65521" by (auto simp: adler_step_def Let_def)
  then have ad: "adler32_update (adler32_update (adler_word (a, b)) [0]) ?row = adler_word (a', b')"
    using Suc.prems ab ab0 by (simp add: adler32_update_ref)
  let ?crc = "crc32_update crc (stored_block pixels w h y)"
  have crc: "crc32_update (crc32_update (crc32_update crc ?blk) [0]) ?row = ?crc"
    by (simp only: blk crc32_update_append)
  have eq: "png_rows pixels w h finish y (Suc k) crc (adler_word (a, b)) =
      and_then (bw_write ?blk) (and_then (bw_write [0]) (and_then (bw_write ?row)
        (png_rows pixels w h finish (y + 1) k ?crc (adler_word (a', b')))))"
    by (simp add: Let_def rd crc ad)
  have fold: "?blk @ [0] @ ?row @ X = stored_block pixels w h y @ X" for X by (simp add: blk)
  have "writes (png_rows pixels w h finish y (Suc k) crc (adler_word (a, b)))
     (?blk @ [0] @ ?row @ concat (map (stored_block pixels w h) [y + 1..<unat h]) @
      fin (crc32_update ?crc (concat (map (stored_block pixels w h) [y + 1..<unat h])))
          (foldl adler_step (a', b') (concat (map (\<lambda>y. 0 # image_row pixels w y) [y + 1..<unat h]))))"
    unfolding eq using Suc.prems(1) ab' row
    by (intro writes_and_then bw_write_writes Suc.IH) simp_all
  then show ?case
    unfolding fold up using ab by (simp add: crc32_update_append)
qed

lemma writes_then_flush: "writes a xs \<Longrightarrow> writes (and_then a bw_flush) xs"
  using writes_and_then [OF _ bw_flush_writes] by fastforce

lemma png_finish_writes:
  "writes (png_finish c ad)
     (put_be32 ad @ put_be32 (NOT (crc32_update c (put_be32 ad))) @ png_chunk ''IEND'' [])"
  unfolding png_finish_def Let_def
  by (intro writes_and_then writes_then_flush bw_write_writes write_chunk_writes) simp_all

text \<open>A successful run leaves nothing in the staging buffer.\<close>

definition drains :: "wr \<Rightarrow> bool" where
  "drains a \<longleftrightarrow> (\<forall>bw bw'. a bw = Some (ESP_OK, bw') \<longrightarrow> stage bw' = None \<or> stage bw' = Some [])"

lemma drains_flush: "drains bw_flush"
  by (auto simp: drains_def bw_flush_def split: option.splits if_splits prod.splits)

lemma drains_and_then: "drains b \<Longrightarrow> drains (and_then a b)"
  by (auto simp: drains_def and_then_def split: bind_splits if_splits)

lemma drains_finish: "drains (png_finish c ad)"
  unfolding png_finish_def Let_def by (intro drains_and_then drains_flush)

lemma drains_rows: "(\<And>c ad. drains (finish c ad)) \<Longrightarrow> drains (png_rows pixels w h finish y k crc ad)"
proof (induction k arbitrary: y crc ad)
  case (Suc k)
  have "drains (\<lambda>bw. do {
      row \<leftarrow> read_row pixels (y * unat w * 3) (unat (w * 3));
      let c = crc32_update c row; let a = adler32_update a row;
      and_then (bw_write row) (png_rows pixels w h finish (y + 1) k c a) bw })" for c a
    unfolding Let_def drains_def
    using Suc.IH [OF Suc.prems] drains_and_then unfolding drains_def
    by (auto split: bind_splits) blast+
  then show ?case by (simp only: png_rows.simps Let_def) (intro drains_and_then)
qed simp

lemma stored_block_length:
  assumes "length pixels = unat w * unat h * 3" and "y < unat h"
  shows "length (image_row pixels w y) = unat w * 3" and "length (stored_block pixels w h y) = 6 + unat w * 3"
proof -
  have "(y + 1) * (unat w * 3) \<le> unat h * (unat w * 3)" using assms(2) by (intro mult_right_mono) simp_all
  then have "y * unat w * 3 + unat w * 3 \<le> length pixels" using assms(1) by (simp add: algebra_simps)
  then show "length (image_row pixels w y) = unat w * 3" by (simp add: image_row_def)
  then show "length (stored_block pixels w h y) = 6 + unat w * 3" by (simp add: stored_block_def)
qed

lemma zlib_stream_length:
  assumes "length pixels = unat w * unat h * 3"
  shows "length (zlib_stream pixels w h) = 6 + unat h * (6 + unat w * 3)"
proof -
  have "length (concat (map (stored_block pixels w h) [0..<n])) = n * (6 + unat w * 3)" if "n \<le> unat h" for n
    using that by (induction n) (simp_all add: stored_block_length [OF assms])
  then show ?thesis by (simp add: zlib_stream_def)
qed

lemma idat_size_field:
  assumes "length pixels = unat w * unat h * 3" and "unat w * 3 + 6 < 2 ^ 32"
  shows "(ucast (2 + ucast h * ucast (5 + (1 + w * 3)) + 4 :: u64) :: u32) =
           of_nat (length (zlib_stream pixels w h))"
proof -
  have "unat (5 + (1 + w * 3)) = 6 + unat w * 3"
    using assms(2) by (simp add: unat_word_ariths mod_less)
  moreover have "(ucast x :: u64) = of_nat (unat x)" for x :: u32 by simp
  ultimately have "(ucast (5 + (1 + w * 3)) :: u64) = of_nat (6 + unat w * 3)" "(ucast h :: u64) = of_nat (unat h)"
    by (simp_all only:)
  then have "2 + ucast h * ucast (5 + (1 + w * 3)) + 4 = (of_nat (6 + unat h * (6 + unat w * 3)) :: u64)"
    by (simp only: of_nat_add of_nat_mult) simp
  then show ?thesis
    by (simp only: zlib_stream_length [OF assms(1)] ucast_of_nat_down)
qed

lemma png_body_writes:
  assumes px: "length pixels = unat w * unat h * 3" and w: "unat w * 3 + 6 < 2 ^ 32" "w \<noteq> 0"
  shows "writes
     (and_then (bw_write png_sig)
       (and_then (write_chunk ''IHDR'' (put_be32 w @ put_be32 h @ [8, 2, 0, 0, 0]))
         (and_then (bw_write (put_be32 (ucast (2 + ucast h * ucast (5 + (1 + w * 3)) + 4 :: u64)) @ ascii ''IDAT''))
           (and_then (bw_write [0x78, 0x01])
             (png_rows pixels w h png_finish 0 (unat h)
               (crc32_update (crc32_update 0xFFFFFFFF (ascii ''IDAT'')) [0x78, 0x01]) 1)))))
     (png_image pixels w h)"
proof -
  let ?blocks = "concat (map (stored_block pixels w h) [0..<unat h])"
  let ?ad = "put_be32 (adler_word (foldl adler_step (1, 0) (scanlines pixels w h)))"
  let ?crc = "crc32_update (crc32_update 0xFFFFFFFF (ascii ''IDAT'')) [0x78, 0x01]"
  have w3: "unat (w * 3) = unat w * 3" using w(1) by (simp add: unat_word_ariths mod_less)
  have rows: "writes (png_rows pixels w h png_finish 0 (unat h) ?crc (adler_word (1, 0)))
      (?blocks @ ?ad @ put_be32 (NOT (crc32_update (crc32_update ?crc ?blocks) ?ad)) @ png_chunk ''IEND'' [])"
    using png_rows_writes [where finish = png_finish and y = 0 and k = "unat h" and h = h and a = 1 and b = 0
        and crc = ?crc and pixels = pixels and w = w
        and fin = "\<lambda>c ab. put_be32 (adler_word ab) @
          put_be32 (NOT (crc32_update c (put_be32 (adler_word ab)))) @ png_chunk ''IEND'' []"]
      png_finish_writes px w w3
    by (simp add: scanlines_def)
  have crc: "NOT (crc32_update (crc32_update ?crc ?blocks) ?ad) =
      chunk_crc (ascii ''IDAT'' @ zlib_stream pixels w h)"
    by (simp only: chunk_crc_def zlib_stream_def crc32_update_bitwise [symmetric] crc32_update_append)
  have img: "png_image pixels w h = png_sig @ png_chunk ''IHDR'' (put_be32 w @ put_be32 h @ [8, 2, 0, 0, 0]) @
      (put_be32 (of_nat (length (zlib_stream pixels w h))) @ ascii ''IDAT'') @ [0x78, 0x01] @
      ?blocks @ ?ad @ put_be32 (chunk_crc (ascii ''IDAT'' @ zlib_stream pixels w h)) @ png_chunk ''IEND'' []"
    unfolding png_image_def png_chunk_def [of "''IDAT''"]
    by (simp add: zlib_stream_def)
  show ?thesis
    unfolding img idat_size_field [OF px w(1)]
    by (intro writes_and_then bw_write_writes write_chunk_writes rows [folded adler_start, unfolded crc])
       (simp_all add: png_sig_def)
qed

text \<open>
  C7: For every image and every write callback, encoding returns.  When it reports success the
  concatenation of the chunks handed to the callback is exactly the reference PNG file, whether or
  not the staging buffer could be allocated; otherwise it reports the code of the first call the
  callback rejected, makes no call after it, and has handed over only a prefix of the file.  With
  the staging buffer every call carries between 1 and 16384 bytes.
\<close>

theorem png_encode_stream:
  assumes "length pixels = unat w * unat h * 3" and "unat w * 3 + 6 < 2 ^ 32" and "w \<noteq> 0" and "h \<noteq> 0"
  shows "\<exists>ret chunks. png_encode_uncompressed_rgb888 alloc (Some pixels) w h (Some f) = Some (ret, chunks) \<and>
     (ret = ESP_OK \<longrightarrow> calls_ok f chunks \<and> concat chunks = png_image pixels w h) \<and>
     (ret \<noteq> ESP_OK \<longrightarrow> prefix (concat chunks) (png_image pixels w h) \<and>
        (\<exists>cs c. chunks = cs @ [c] \<and> calls_ok f cs \<and> f cs c = ret)) \<and>
     (alloc \<longrightarrow> (\<forall>c \<in> set chunks. 0 < length c \<and> length c \<le> PNG_OUT_BUF_SIZE))"
proof -
  define bw where "bw = \<lparr> fn = f, sent = [], stage = (if alloc then Some [] else None) \<rparr>"
  have "bw_ok bw" by (simp add: bw_def bw_ok_def calls_ok_def sizes_ok_def)
  have S: "stream_of bw = []" by (simp add: bw_def stream_of_def)
  let ?body = "and_then (bw_write png_sig)
       (and_then (write_chunk ''IHDR'' (put_be32 w @ put_be32 h @ [8, 2, 0, 0, 0]))
         (and_then (bw_write (put_be32 (ucast (2 + ucast h * ucast (5 + (1 + w * 3)) + 4 :: u64)) @ ascii ''IDAT''))
           (and_then (bw_write [0x78, 0x01])
             (png_rows pixels w h png_finish 0 (unat h)
               (crc32_update (crc32_update 0xFFFFFFFF (ascii ''IDAT'')) [0x78, 0x01]) 1))))"
  obtain ret bw' where r: "?body bw = Some (ret, bw')" "outcome bw (stream_of bw @ png_image pixels w h) ret bw'"
    using png_body_writes [OF assms(1,2,3)] \<open>bw_ok bw\<close> by (rule writesE)
  have "drains ?body" by (intro drains_and_then drains_rows drains_finish)
  then have "ret = ESP_OK \<Longrightarrow> stage bw' = None \<or> stage bw' = Some []"
    using r(1) unfolding drains_def by blast
  then have complete: "ret = ESP_OK \<Longrightarrow> concat (sent bw') = png_image pixels w h"
    using r(2) S by (auto simp: outcome_def stream_of_def split: if_splits)
  have o: "fn bw' = f" "stage bw' = None \<longleftrightarrow> \<not> alloc" "sizes_ok bw'"
    "if ret = ESP_OK then bw_ok bw' \<and> stream_of bw' = png_image pixels w h
     else prefix (concat (sent bw')) (png_image pixels w h) \<and>
       (\<exists>cs c. sent bw' = cs @ [c] \<and> calls_ok f cs \<and> f cs c = ret)"
    using r(2) unfolding outcome_def S
    by (simp_all add: bw_def split: if_split_asm)
  have "png_encode_uncompressed_rgb888 alloc (Some pixels) w h (Some f) = Some (ret, sent bw')"
    using assms(3,4) r(1) unfolding png_encode_uncompressed_rgb888_def Let_def bw_def by simp
  moreover have "ret = ESP_OK \<longrightarrow> calls_ok f (sent bw') \<and> concat (sent bw') = png_image pixels w h"
    using o complete by (cases "ret = ESP_OK") (auto simp: bw_ok_def)
  moreover have "ret \<noteq> ESP_OK \<longrightarrow> prefix (concat (sent bw')) (png_image pixels w h) \<and>
      (\<exists>cs c. sent bw' = cs @ [c] \<and> calls_ok f cs \<and> f cs c = ret)"
    using o(4) by (cases "ret = ESP_OK") simp_all
  moreover have "alloc \<longrightarrow> (\<forall>c \<in> set (sent bw'). 0 < length c \<and> length c \<le> PNG_OUT_BUF_SIZE)"
    using o(2,3) by (simp add: sizes_ok_def)
  ultimately show ?thesis by blast
qed

theorem png_encode_stream_witness:
  "\<exists>chunks. png_encode_uncompressed_rgb888 True (Some [1, 2, 3]) 1 1 (Some (\<lambda>_ _. ESP_OK)) = Some (ESP_OK, chunks) \<and>
     concat chunks = png_image [1, 2, 3] 1 1"
proof -
  obtain ret chunks where r:
    "png_encode_uncompressed_rgb888 True (Some [1, 2, 3]) 1 1 (Some (\<lambda>_ _. ESP_OK)) = Some (ret, chunks)"
    "ret = ESP_OK \<longrightarrow> concat chunks = png_image [1, 2, 3] 1 1"
    "ret \<noteq> ESP_OK \<longrightarrow> (\<exists>cs c. (\<lambda>_ _. ESP_OK) cs c = ret)"
    using png_encode_stream [of "[1, 2, 3]" 1 1 True "\<lambda>_ _. ESP_OK"] by auto
  then have "ret = ESP_OK" by auto
  with r show ?thesis by simp
qed

section \<open>Decoding\<close>

text \<open>
  A reader of stored DEFLATE blocks: flags, length and its complement, then the bytes; the last
  block has the final bit.  It returns the data and what follows the last block.
\<close>

definition le16_val :: "u8 \<Rightarrow> u8 \<Rightarrow> nat" where
  "le16_val a b = unat a + 256 * unat b"

fun inflate_stored :: "nat \<Rightarrow> bytes \<Rightarrow> (bytes \<times> bytes) option" where
  "inflate_stored 0 bs = None"
| "inflate_stored (Suc fuel) bs =
     (case bs of
        flag # l0 # l1 # n0 # n1 # rest \<Rightarrow>
          let n = le16_val l0 l1 in
          if le16_val n0 n1 = 65535 - n \<and> n \<le> length rest \<and> (flag = 0 \<or> flag = 1) then
            if flag = 1 then Some (take n rest, drop n rest)
            else do { (more, tl) \<leftarrow> inflate_stored fuel (drop n rest); Some (take n rest @ more, tl) }
          else None
      | _ \<Rightarrow> None)"

lemma le16_val_put: "put_le16 v = [a, b] \<Longrightarrow> le16_val a b = unat v"
  using u16_bound [of v] by (auto simp: put_le16_def le16_val_def word_nat)

lemma blk_header_fields:
  assumes "unat n < 65536"
  obtains l0 l1 n0 n1 where "blk_header final n = [if final then 1 else 0, l0, l1, n0, n1]"
    "le16_val l0 l1 = unat n" "le16_val n0 n1 = 65535 - unat n"
proof -
  obtain l0 l1 where l: "put_le16 (ucast n) = [l0, l1]" by (simp add: put_le16_def)
  obtain n0 n1 where c: "put_le16 (ucast (NOT n)) = [n0, n1]" by (simp add: put_le16_def)
  have "unat (ucast n :: u16) = unat n" using assms by (simp add: unat_ucast_word)
  moreover have "unat (ucast (NOT n) :: u16) = 65535 - unat n"
  proof -
    have "(ucast (NOT n) :: u16) = NOT (ucast n)" by (rule bit_word_eqI) (auto simp: bit_simps)
    also have "\<dots> = - 1 - ucast n" by (simp add: not_eq_complement)
    also have "unat (- 1 - ucast n :: u16) = unat (- 1 :: u16) - unat (ucast n :: u16)"
      by (rule unat_sub) simp
    also have "unat (- 1 :: u16) = 65535" by (simp add: unsigned_minus_1_eq_mask mask_eq_exp_minus_1)
    finally show ?thesis using \<open>unat (ucast n :: u16) = unat n\<close> by simp
  qed
  ultimately show thesis
    using le16_val_put [OF l] le16_val_put [OF c] l c by (intro that [of l0 l1 n0 n1]) (simp_all add: blk_header_def)
qed

lemma inflate_blocks:
  assumes px: "length pixels = unat w * unat h * 3" and n: "unat w * 3 + 1 < 65536"
    and "y < unat h" and "unat h - y \<le> fuel"
  shows "inflate_stored fuel (concat (map (stored_block pixels w h) [y..<unat h]) @ after) =
    Some (concat (map (\<lambda>y. 0 # image_row pixels w y) [y..<unat h]), after)"
  using assms(3,4)
proof (induction fuel arbitrary: y)
  case 0
  then show ?case by simp
next
  case (Suc fuel)
  let ?rest = "concat (map (stored_block pixels w h) [Suc y..<unat h]) @ after"
  let ?data = "0 # image_row pixels w y"
  have len: "unat (1 + w * 3) = unat w * 3 + 1" using n by (simp add: unat_word_ariths mod_less)
  then have "unat (1 + w * 3) < 65536" using n by simp
  then obtain l0 l1 n0 n1 where hd:
    "blk_header (y = unat h - 1) (1 + w * 3) = [if y = unat h - 1 then 1 else 0, l0, l1, n0, n1]"
    "le16_val l0 l1 = unat w * 3 + 1" "le16_val n0 n1 = 65535 - (unat w * 3 + 1)"
    unfolding len [symmetric] by (rule blk_header_fields)
  have data: "length ?data = unat w * 3 + 1"
    using stored_block_length(1) [OF px Suc.prems(1)] by simp
  have up: "[y..<unat h] = y # [Suc y..<unat h]" using Suc.prems(1) by (rule upt_conv_Cons)
  have "inflate_stored (Suc fuel) (concat (map (stored_block pixels w h) [y..<unat h]) @ after) =
      (if y = unat h - 1 then Some (?data, ?rest)
       else do { (more, t) \<leftarrow> inflate_stored fuel ?rest; Some (?data @ more, t) })"
  proof -
    define final where "final = (y = unat h - 1)"
    have "stored_block pixels w h y = [if final then 1 else 0, l0, l1, n0, n1] @ ?data"
      using hd(1) by (simp add: stored_block_def final_def)
    then show ?thesis
      unfolding up final_def [symmetric] using data hd(2,3) by (simp add: Let_def)
  qed
  also have "\<dots> = Some (concat (map (\<lambda>y. 0 # image_row pixels w y) [y..<unat h]), after)"
  proof (cases "y = unat h - 1")
    case True
    then have "[Suc y..<unat h] = []" by simp
    with True show ?thesis unfolding up by simp
  next
    case False
    with Suc.prems have "Suc y < unat h" "unat h - Suc y \<le> fuel" by simp_all
    from Suc.IH [OF this] False show ?thesis unfolding up by simp
  qed
  finally show ?case .
qed

text \<open>
  C20: The image data of the file is a zlib stream whose stored blocks inflate back to the
  scanlines (filter byte and pixels of every row, in order), followed by their Adler-32, as long as
  a scanline fits a stored block, that is up to 21844 pixels of width; the length in the IDAT
  header is the length of that stream.
\<close>

theorem png_image_inflates:
  assumes "length pixels = unat w * unat h * 3" and "unat w * 3 + 1 < 65536" and "h \<noteq> 0"
    and "6 + unat h * (6 + unat w * 3) < 2 ^ 32"
  shows "inflate_stored (unat h) (drop 2 (zlib_stream pixels w h)) =
     Some (scanlines pixels w h, put_be32 (adler_word (foldl adler_step (1, 0) (scanlines pixels w h)))) \<and>
   unat (ucast (2 + ucast h * ucast (5 + (1 + w * 3)) + 4 :: u64) :: u32) = length (zlib_stream pixels w h)"
proof
  have "0 < unat h" using assms(3) by (simp add: unat_gt_0)
  then show "inflate_stored (unat h) (drop 2 (zlib_stream pixels w h)) =
     Some (scanlines pixels w h, put_be32 (adler_word (foldl adler_step (1, 0) (scanlines pixels w h))))"
    using inflate_blocks [OF assms(1,2), of 0 "unat h"] by (simp add: zlib_stream_def scanlines_def)
  have lim: "unat w * 3 + 6 < 2 ^ 32" using assms(2) by simp
  show "unat (ucast (2 + ucast h * ucast (5 + (1 + w * 3)) + 4 :: u64) :: u32) = length (zlib_stream pixels w h)"
    unfolding idat_size_field [OF assms(1) lim] using assms(4)
    by (simp add: zlib_stream_length [OF assms(1)] unat_of_nat del: of_nat_add of_nat_mult)
qed

theorem png_image_inflates_witness:
  "inflate_stored 1 (drop 2 (zlib_stream [1, 2, 3] 1 1)) = Some ([0, 1, 2, 3], [0, 14, 0, 7])"
proof -
  have "scanlines [1, 2, 3] 1 1 = [0, 1, 2, 3]" by (simp add: scanlines_def image_row_def)
  moreover have "put_be32 (adler_word (foldl adler_step (1, 0) [0, 1, 2, 3])) = [0, 14, 0, 7]"
    by (simp add: adler_step_def adler_word_def put_be32_def)
  ultimately show ?thesis
    using png_image_inflates [of "[1, 2, 3]" 1 1] by simp
qed

text \<open>
  C40: The length field of a block is the length of its scanline exactly up to that width: a wider
  image gets a field that is wrong, although the encoder reports success.
\<close>

theorem png_block_length_field:
  assumes "blk_header final (1 + w * 3) = [flag, l0, l1, n0, n1]" and "unat w * 3 + 1 < 2 ^ 32"
  shows "le16_val l0 l1 = unat w * 3 + 1 \<longleftrightarrow> unat w * 3 + 1 < 65536"
proof -
  have "put_le16 (ucast (1 + w * 3)) = [l0, l1]"
    using assms(1) by (simp add: blk_header_def put_le16_def)
  then have "le16_val l0 l1 = unat (ucast (1 + w * 3) :: u16)" by (rule le16_val_put)
  also have "\<dots> = (unat w * 3 + 1) mod 65536"
    using assms(2) by (simp add: unat_ucast_word unat_word_ariths mod_less)
  finally show ?thesis by (auto simp: mod_eq_self_iff_div_eq_0 div_eq_0_iff)
qed

theorem png_block_length_field_witness:
  "\<exists>flag l0 l1 n0 n1. blk_header True (1 + 21845 * 3) = [flag, l0, l1, n0, n1] \<and> le16_val l0 l1 \<noteq> 65536"
proof -
  obtain flag l0 l1 n0 n1 where b: "blk_header True (1 + 21845 * 3) = [flag, l0, l1, n0, n1]"
    by (simp add: blk_header_def put_le16_def)
  with png_block_length_field [OF b] show ?thesis by auto
qed

end
