(* ===== verification/Setup_Pairing.thy ===== *)
theory Setup_Pairing
  imports Prelude
begin

unbundle bit_operations_syntax

text \<open>
  The physical-presence pairing window, \<open>main/setup_pairing.cpp\<close>: a six-digit code shown on the
  device that authorises one administrator or integration claim.

  The static \<open>state\<close> is the record \<open>pairing\<close>; each function is a transition on it, with the value
  of \<open>esp_timer_get_time\<close> as an argument (microseconds, unbounded: 63 bits of them are 292000
  years).  The critical sections make every function one atomic step, so a concurrent history is
  a sequence of events.  \<open>esp_random\<close> is a stream of words; whether the auth manager could
  persist the token is an argument of \<open>setup_pairing_claim\<close>.  The lemmas bound what any sequence
  of requests can get out of one window.
\<close>

section \<open>The model\<close>

definition SETUP_PAIRING_CODE_LEN :: nat where "SETUP_PAIRING_CODE_LEN = 6"
definition SETUP_PAIRING_WINDOW_SECONDS :: int where "SETUP_PAIRING_WINDOW_SECONDS = 300"
definition SETUP_PAIRING_MAX_ATTEMPTS :: u8 where "SETUP_PAIRING_MAX_ATTEMPTS = 5"

lemmas pairing_consts = SETUP_PAIRING_CODE_LEN_def SETUP_PAIRING_WINDOW_SECONDS_def
  SETUP_PAIRING_MAX_ATTEMPTS_def

record pairing =
  active :: bool
  code :: bytes
  deadline_us :: int
  failed_attempts :: u8

datatype claim_result = CLAIM_OK | CLAIM_NOT_OPEN | CLAIM_INVALID_CODE | CLAIM_LOCKED | CLAIM_STORAGE_ERROR

record pairing_status =
  is_active :: bool
  remaining_seconds :: u32
  attempts :: u8

definition zero_code :: bytes where
  "zero_code = replicate (SETUP_PAIRING_CODE_LEN + 1) 0"

definition clear_locked :: "pairing \<Rightarrow> pairing" where
  "clear_locked s = s\<lparr> code := zero_code, active := False, deadline_us := 0, failed_attempts := 0 \<rparr>"

definition expired_locked :: "int \<Rightarrow> pairing \<Rightarrow> bool \<times> pairing" where
  "expired_locked now_us s =
     (if active s \<and> now_us \<ge> deadline_us s then (True, clear_locked s) else (False, s))"

text \<open>A C string argument is \<open>None\<close> for \<open>NULL\<close> or its bytes before the terminator.\<close>

definition valid_code_shape :: "bytes option \<Rightarrow> bool" where
  "valid_code_shape c =
     (case c of
        None \<Rightarrow> False
      | Some s \<Rightarrow> length s = SETUP_PAIRING_CODE_LEN \<and> list_all (\<lambda>b. \<not> (b < 48 \<or> b > 57)) s)"

fun code_difference :: "nat \<Rightarrow> bytes \<Rightarrow> bytes \<Rightarrow> u8 \<Rightarrow> u8" where
  "code_difference 0 lhs rhs difference = difference"
| "code_difference (Suc n) (l # lhs) (r # rhs) difference =
     code_difference n lhs rhs (difference OR (l XOR r))"
| "code_difference _ _ _ difference = difference"

definition constant_time_code_equal :: "bytes \<Rightarrow> bytes \<Rightarrow> bool" where
  "constant_time_code_equal lhs rhs \<longleftrightarrow> code_difference SETUP_PAIRING_CODE_LEN lhs rhs 0 = 0"

definition CODE_SPACE :: u32 where "CODE_SPACE = 1000000"
definition UNBIASED_LIMIT :: u32 where "UNBIASED_LIMIT = - 1 - (- 1 mod CODE_SPACE)"

text \<open>The rejection loop, from the \<open>i\<close>-th random word on.\<close>

partial_function (option) draw :: "(nat \<Rightarrow> u32) \<Rightarrow> nat \<Rightarrow> u32 option" where
  "draw rand i = (if rand i \<ge> UNBIASED_LIMIT then draw rand (i + 1) else Some (rand i))"

text \<open>\<open>snprintf(code, sizeof(code), "%06lu", value)\<close> for a value below a million.\<close>

definition format_code :: "u32 \<Rightarrow> bytes" where
  "format_code v = map (\<lambda>k. of_nat (48 + unat v div 10 ^ k mod 10)) [5, 4, 3, 2, 1, 0]"

definition setup_pairing_start :: "(nat \<Rightarrow> u32) \<Rightarrow> int \<Rightarrow> bool \<Rightarrow> pairing \<Rightarrow> (bool \<times> bytes option \<times> pairing) option" where
  "setup_pairing_start rand now_us has_out s =
     (if \<not> has_out then Some (False, None, s)
      else do {
        random_value \<leftarrow> draw rand 0;
        let c = format_code (random_value mod CODE_SPACE);
        let s = clear_locked s;
        Some (True, Some c,
          s\<lparr> code := c @ [0], deadline_us := now_us + SETUP_PAIRING_WINDOW_SECONDS * 1000000, active := True \<rparr>)
      })"

definition setup_pairing_cancel :: "pairing \<Rightarrow> pairing" where
  "setup_pairing_cancel s = clear_locked s"

definition setup_pairing_get_status :: "int \<Rightarrow> pairing \<Rightarrow> pairing_status \<times> pairing" where
  "setup_pairing_get_status now_us s =
     (let s = snd (expired_locked now_us s) in
      (\<lparr> is_active = active s,
         remaining_seconds =
           (if active s then of_int ((deadline_us s - now_us + 999999) div 1000000) else 0),
         attempts = failed_attempts s \<rparr>, s))"

definition consume_code :: "int \<Rightarrow> bytes option \<Rightarrow> pairing \<Rightarrow> claim_result \<times> pairing" where
  "consume_code now_us c s =
     (let s = snd (expired_locked now_us s) in
      if \<not> active s then (CLAIM_NOT_OPEN, s)
      else
        let matched = valid_code_shape c \<and> constant_time_code_equal (the c) (code s) in
        if \<not> matched then
          let s = s\<lparr> failed_attempts := failed_attempts s + 1 \<rparr>;
              locked = failed_attempts s \<ge> SETUP_PAIRING_MAX_ATTEMPTS;
              s = (if locked then clear_locked s else s)
          in (if locked then CLAIM_LOCKED else CLAIM_INVALID_CODE, s)
        else (CLAIM_OK, clear_locked s))"

text \<open>\<open>issued\<close> is what \<open>auth_mgr_issue_integration_token\<close> would return if called.\<close>

definition setup_pairing_claim :: "int \<Rightarrow> bool \<Rightarrow> bytes option \<Rightarrow> bool \<Rightarrow> pairing \<Rightarrow> claim_result \<times> pairing" where
  "setup_pairing_claim now_us issued c has_out s =
     (if \<not> has_out then (CLAIM_STORAGE_ERROR, s)
      else
        let (authorization, s) = consume_code now_us c s in
        if authorization \<noteq> CLAIM_OK then (authorization, s)
        else if \<not> issued then (CLAIM_STORAGE_ERROR, s)
        else (CLAIM_OK, s))"

definition setup_pairing_authorize :: "int \<Rightarrow> bytes option \<Rightarrow> pairing \<Rightarrow> claim_result \<times> pairing" where
  "setup_pairing_authorize now_us c s = consume_code now_us c s"

section \<open>Histories\<close>

definition pairing_init :: pairing where
  "pairing_init = \<lparr> active = False, code = zero_code, deadline_us = 0, failed_attempts = 0 \<rparr>"

datatype pairing_event =
    Start "nat \<Rightarrow> u32" int
  | Cancel
  | Status int
  | Claim int bool "bytes option"
  | Authorize int "bytes option"

inductive pairing_step :: "pairing \<Rightarrow> pairing_event \<Rightarrow> claim_result option \<Rightarrow> pairing \<Rightarrow> bool" where
  start: "setup_pairing_start rand t True s = Some (True, c, s') \<Longrightarrow> pairing_step s (Start rand t) None s'"
| cancel: "pairing_step s Cancel None (setup_pairing_cancel s)"
| status: "setup_pairing_get_status t s = (st, s') \<Longrightarrow> pairing_step s (Status t) None s'"
| claim: "setup_pairing_claim t issued c True s = (r, s') \<Longrightarrow> pairing_step s (Claim t issued c) (Some r) s'"
| authorize: "setup_pairing_authorize t c s = (r, s') \<Longrightarrow> pairing_step s (Authorize t c) (Some r) s'"

inductive_cases pairing_stepE: "pairing_step s e r s'"

inductive pairing_reach :: "pairing \<Rightarrow> bool" where
  reach_init: "pairing_reach pairing_init"
| reach_step: "pairing_reach s \<Longrightarrow> pairing_step s e r s' \<Longrightarrow> pairing_reach s'"

section \<open>The code\<close>

lemma code_difference_0:
  "length lhs = n \<Longrightarrow> n \<le> length rhs \<Longrightarrow>
     code_difference n lhs rhs d = 0 \<longleftrightarrow> d = 0 \<and> lhs = take n rhs"
proof (induction n lhs rhs d rule: code_difference.induct)
  case (2 n l lhs r rhs d)
  have "d OR (l XOR r) = 0 \<longleftrightarrow> d = 0 \<and> l = r"
    by (auto simp: or_eq_0_iff xor_eq_zero_iff)
  with 2 show ?case by auto
qed auto

lemma code_equal_iff:
  "valid_code_shape (Some c) \<Longrightarrow> constant_time_code_equal c (x @ [0]) \<longleftrightarrow> c = x"
  if "length x = SETUP_PAIRING_CODE_LEN"
  using that code_difference_0 [of c 6 "x @ [0]" 0]
  by (simp add: constant_time_code_equal_def valid_code_shape_def pairing_consts)

lemma unbiased_limit: "unat UNBIASED_LIMIT = 4294000000"
  by (simp add: UNBIASED_LIMIT_def CODE_SPACE_def)

lemma length_format_code [simp]: "length (format_code v) = SETUP_PAIRING_CODE_LEN"
  by (simp add: format_code_def pairing_consts)

lemma digit_byte: "d < 10 \<Longrightarrow> unat (of_nat (48 + d) :: u8) = 48 + d"
  by (simp add: unat_of_nat del: of_nat_add)

lemma format_code_shape: "valid_code_shape (Some (format_code v))"
proof -
  have "\<not> ((of_nat (48 + d) :: u8) < 48 \<or> (of_nat (48 + d) :: u8) > 57)" if "d < 10" for d
    using that digit_byte [OF that] by (simp add: word_less_nat_alt del: of_nat_add)
  then show ?thesis
    by (simp add: valid_code_shape_def format_code_def pairing_consts list_all_iff del: of_nat_add)
qed

text \<open>The code determines the number: six decimal digits of a value below a million.\<close>

lemma decimal_digits:
  fixes n :: nat
  assumes "n < 1000000"
  shows "n = n div 100000 mod 10 * 100000 + n div 10000 mod 10 * 10000 + n div 1000 mod 10 * 1000 +
             n div 100 mod 10 * 100 + n div 10 mod 10 * 10 + n mod 10"
proof -
  have step: "n div k = n div (k * 10) * 10 + n div k mod 10" for k
    by (simp add: div_mult2_eq)
  have "n div 100000 < 10" using assms by (simp add: div_less_iff_less_mult)
  then have top: "n div 100000 mod 10 = n div 100000" by simp
  have base: "n = n div 10 * 10 + n mod 10" by simp
  have gen: "n = a * 10 + r0 \<Longrightarrow> a = b * 10 + r1 \<Longrightarrow> b = c * 10 + r2 \<Longrightarrow> c = d * 10 + r3 \<Longrightarrow>
      d = e * 10 + r4 \<Longrightarrow> f = e \<Longrightarrow> n = f * 100000 + r4 * 10000 + r3 * 1000 + r2 * 100 + r1 * 10 + r0"
    for a b c d e f r0 r1 r2 r3 r4 by simp
  show ?thesis
    by (rule gen [OF base step [of 10, simplified] step [of 100, simplified] step [of 1000, simplified]
          step [of 10000, simplified] top])
qed

lemma format_code_inj:
  assumes "format_code v = format_code w" and "unat v < 1000000" and "unat w < 1000000"
  shows "v = w"
proof -
  have eq: "unat v div 10 ^ k mod 10 = unat w div 10 ^ k mod 10" if "k \<in> {0, 1, 2, 3, 4, 5}" for k
  proof -
    have "(of_nat (48 + unat v div 10 ^ k mod 10) :: u8) = of_nat (48 + unat w div 10 ^ k mod 10)"
      using assms(1) that by (auto simp: format_code_def simp del: of_nat_add)
    then have "48 + unat v div 10 ^ k mod 10 = 48 + unat w div 10 ^ k mod 10"
      using digit_byte [of "unat v div 10 ^ k mod 10"] digit_byte [of "unat w div 10 ^ k mod 10"] by simp
    then show ?thesis by simp
  qed
  have "unat v = unat w"
    using decimal_digits [OF assms(2)] decimal_digits [OF assms(3)]
      eq [of 0] eq [of 1] eq [of 2] eq [of 3] eq [of 4] eq [of 5] by simp
  then show ?thesis by (simp add: word_unat_eq_iff)
qed

lemma draw_returns:
  assumes "rand k < UNBIASED_LIMIT" and "i \<le> k"
  shows "\<exists>v. draw rand i = Some v \<and> v < UNBIASED_LIMIT"
  using assms(2)
proof (induction "k - i" arbitrary: i)
  case 0
  then show ?case using assms(1) by (subst draw.simps) auto
next
  case (Suc d)
  show ?case
  proof (cases "rand i < UNBIASED_LIMIT")
    case True
    then show ?thesis by (subst draw.simps) auto
  next
    case False
    have "\<exists>v. draw rand (i + 1) = Some v \<and> v < UNBIASED_LIMIT" using Suc by auto
    with False show ?thesis by (subst draw.simps) (auto simp: not_less)
  qed
qed

lemma draw_below: "draw rand i = Some v \<Longrightarrow> v < UNBIASED_LIMIT"
  by (rule draw.raw_induct [where P = "\<lambda>rand i v. v < UNBIASED_LIMIT"])
     (auto split: if_splits simp: not_le)

section \<open>Invariant\<close>

definition pairing_ok :: "pairing \<Rightarrow> bool" where
  "pairing_ok s \<longleftrightarrow>
     (if active s
      then (\<exists>c. code s = c @ [0] \<and> valid_code_shape (Some c)) \<and> failed_attempts s < SETUP_PAIRING_MAX_ATTEMPTS
      else s = pairing_init)"

lemma clear_locked_init [simp]: "clear_locked s = pairing_init"
  by (simp add: clear_locked_def pairing_init_def)

lemma active_init [simp]: "\<not> active pairing_init" "failed_attempts pairing_init = 0"
  by (simp_all add: pairing_init_def)

lemma pairing_ok_init [simp]: "pairing_ok pairing_init"
  by (simp add: pairing_ok_def)

lemma expired_cases:
  obtains (closed) "\<not> active (snd (expired_locked t s))" "active s \<longrightarrow> deadline_us s \<le> t" "snd (expired_locked t s) = (if active s then pairing_init else s)"
  | (still_open) "active s" "t < deadline_us s" "snd (expired_locked t s) = s"
  by (cases "active s"; cases "t \<ge> deadline_us s") (simp_all add: expired_locked_def)

lemma expired_ok: "pairing_ok s \<Longrightarrow> pairing_ok (snd (expired_locked t s))"
  by (simp add: expired_locked_def)

text \<open>The four outcomes of a request on a well-formed state.\<close>

lemma consume_code_cases:
  assumes "pairing_ok s"
  obtains (not_open) "consume_code t c s = (CLAIM_NOT_OPEN, pairing_init)" "active s \<longrightarrow> deadline_us s \<le> t"
  | (ok) x where "consume_code t c s = (CLAIM_OK, pairing_init)" "active s" "t < deadline_us s" "c = Some x" "code s = x @ [0]"
  | (invalid) "consume_code t c s = (CLAIM_INVALID_CODE, s\<lparr> failed_attempts := failed_attempts s + 1 \<rparr>)"
      "active s" "t < deadline_us s" "unat (failed_attempts s) < 4" "\<And>x. c = Some x \<Longrightarrow> code s \<noteq> x @ [0]"
  | (locked) "consume_code t c s = (CLAIM_LOCKED, pairing_init)" "active s" "t < deadline_us s"
      "unat (failed_attempts s) = 4" "\<And>x. c = Some x \<Longrightarrow> code s \<noteq> x @ [0]"
proof (cases rule: expired_cases [of t s])
  case closed
  have "snd (expired_locked t s) = pairing_init"
    using closed assms by (auto simp: pairing_ok_def)
  with closed show thesis by (intro not_open) (simp_all add: consume_code_def)
next
  case still_open
  then obtain x where x: "code s = x @ [0]" "valid_code_shape (Some x)"
    and f: "failed_attempts s < 5" using assms by (auto simp: pairing_ok_def pairing_consts)
  have fu: "unat (failed_attempts s + 1) = unat (failed_attempts s) + 1" "unat (failed_attempts s) < 5"
    using f by (simp_all add: word_less_nat_alt unat_word_ariths mod_less)
  have len: "length x = SETUP_PAIRING_CODE_LEN" using x(2) by (simp add: valid_code_shape_def)
  have m: "valid_code_shape c \<and> constant_time_code_equal (the c) (code s) \<longleftrightarrow> c = Some x"
    using code_equal_iff [OF len] x by (cases c) (auto simp: valid_code_shape_def)
  show thesis
  proof (cases "c = Some x")
    case True
    with still_open m x show thesis by (intro ok [of x]) (simp_all add: consume_code_def)
  next
    case False
    have lk: "failed_attempts s + 1 \<ge> SETUP_PAIRING_MAX_ATTEMPTS \<longleftrightarrow> unat (failed_attempts s) = 4"
      using fu by (auto simp: word_le_nat_alt pairing_consts)
    have ne: "code s \<noteq> y @ [0]" if "c = Some y" for y using False that x(1) by auto
    show thesis
    proof (cases "unat (failed_attempts s) = 4")
      case True
      with still_open m False lk ne show thesis by (intro locked) (simp_all add: consume_code_def Let_def)
    next
      case not4: False
      with still_open m False lk ne fu show thesis by (intro invalid) (simp_all add: consume_code_def Let_def)
    qed
  qed
qed

lemma start_window:
  assumes "setup_pairing_start rand t True s = Some (ok, c, s')"
  obtains v where "v < UNBIASED_LIMIT" "ok" "c = Some (format_code (v mod CODE_SPACE))"
    "s' = \<lparr> active = True, code = format_code (v mod CODE_SPACE) @ [0],
            deadline_us = t + 300000000, failed_attempts = 0 \<rparr>"
proof -
  obtain v where v: "draw rand 0 = Some v" "ok" "c = Some (format_code (v mod CODE_SPACE))"
      "s' = pairing_init\<lparr> code := format_code (v mod CODE_SPACE) @ [0],
          deadline_us := t + SETUP_PAIRING_WINDOW_SECONDS * 1000000, active := True \<rparr>"
    using assms by (auto simp: setup_pairing_start_def Let_def split: bind_splits)
  with draw_below [OF v(1)] show thesis
    by (intro that [of v]) (simp_all add: pairing_init_def pairing_consts)
qed

lemma consume_code_ok: "pairing_ok s \<Longrightarrow> pairing_ok (snd (consume_code t c s))"
proof -
  assume s: "pairing_ok s"
  then show ?thesis
  proof (cases rule: consume_code_cases [of s t c])
    case invalid
    then have "unat (failed_attempts s + 1) = unat (failed_attempts s) + 1"
      by (simp add: unat_word_ariths mod_less)
    with invalid s show ?thesis by (auto simp: pairing_ok_def pairing_consts word_less_nat_alt)
  qed simp_all
qed

lemma claim_state: "snd (setup_pairing_claim t issued c True s) = snd (consume_code t c s)"
  by (simp add: setup_pairing_claim_def split_def Let_def)

lemma claim_result:
  "fst (setup_pairing_claim t issued c True s) =
     (if fst (consume_code t c s) = CLAIM_OK \<and> \<not> issued then CLAIM_STORAGE_ERROR else fst (consume_code t c s))"
  by (simp add: setup_pairing_claim_def split_def Let_def)

lemma pairing_step_ok: "pairing_step s e r s' \<Longrightarrow> pairing_ok s \<Longrightarrow> pairing_ok s'"
proof (induction rule: pairing_step.induct)
  case (start rand t s c s')
  then show ?case
    by (elim start_window) (auto simp: pairing_ok_def pairing_consts format_code_shape)
next
  case (status t s st s')
  then show ?case using expired_ok [of s t] by (auto simp: setup_pairing_get_status_def Let_def)
next
  case (claim t issued c s r s')
  then show ?case using consume_code_ok [of s t c] claim_state [of t issued c s] by simp
next
  case (authorize t c s r s')
  then show ?case using consume_code_ok [of s t c] by (simp add: setup_pairing_authorize_def)
qed (simp add: setup_pairing_cancel_def)

lemma reach_ok: "pairing_reach s \<Longrightarrow> pairing_ok s"
  by (induction rule: pairing_reach.induct) (auto intro: pairing_step_ok)

section \<open>What one window can yield\<close>

text \<open>A judged request compared the code; an accepted one matched it.\<close>

definition judged :: "claim_result option \<Rightarrow> bool" where
  "judged r \<longleftrightarrow> r \<noteq> None \<and> r \<noteq> Some CLAIM_NOT_OPEN"

definition accepted :: "claim_result option \<Rightarrow> bool" where
  "accepted r \<longleftrightarrow> r = Some CLAIM_OK \<or> r = Some CLAIM_STORAGE_ERROR"

fun is_start :: "pairing_event \<Rightarrow> bool" where
  "is_start (Start _ _) = True"
| "is_start _ = False"

inductive pairing_run :: "pairing \<Rightarrow> pairing_event list \<Rightarrow> claim_result option list \<Rightarrow> pairing \<Rightarrow> bool" where
  run_nil: "pairing_run s [] [] s"
| run_cons: "pairing_step s e r s' \<Longrightarrow> pairing_run s' es rs s'' \<Longrightarrow> pairing_run s (e # es) (r # rs) s''"

text \<open>The comparisons a window still allows.\<close>

definition budget :: "pairing \<Rightarrow> nat" where
  "budget s = (if active s then 5 - unat (failed_attempts s) else 0)"

lemma budget_init [simp]: "budget pairing_init = 0"
  by (simp add: budget_def)

lemma budget_le: "budget s \<le> 5"
  by (simp add: budget_def)

lemma consume_budget:
  assumes "pairing_ok s" and "consume_code t c s = (r, s')"
  shows "(judged (Some r) \<longrightarrow> budget s' < budget s) \<and> budget s' \<le> budget s \<and>
         (accepted (Some r) \<longrightarrow> active s \<and> \<not> active s') \<and> (\<not> active s \<longrightarrow> \<not> active s' \<and> \<not> judged (Some r))"
  using assms(1)
proof (cases rule: consume_code_cases [of s t c])
  case invalid
  then have "unat (failed_attempts s + 1) = unat (failed_attempts s) + 1"
    by (simp add: unat_word_ariths mod_less)
  with invalid assms(2) show ?thesis by (auto simp: budget_def judged_def accepted_def)
qed (use assms in \<open>auto simp: judged_def accepted_def budget_def pairing_ok_def pairing_consts word_less_nat_alt\<close>)

lemma step_budget:
  assumes "pairing_step s e r s'" and "pairing_ok s" and "\<not> is_start e"
  shows "(judged r \<longrightarrow> budget s' < budget s) \<and> budget s' \<le> budget s \<and>
         (accepted r \<longrightarrow> active s \<and> \<not> active s') \<and> (\<not> active s \<longrightarrow> \<not> active s' \<and> \<not> judged r)"
  using assms
proof (induction rule: pairing_step.induct)
  case (status t s st s')
  then show ?case
    by (cases rule: expired_cases [of t s])
       (auto simp: setup_pairing_get_status_def Let_def judged_def accepted_def budget_def)
next
  case (claim t issued c s r s')
  obtain r0 where c: "consume_code t c s = (r0, s')"
    using claim.hyps claim_state [of t issued c s] by (cases "consume_code t c s") simp
  then have "r = (if r0 = CLAIM_OK \<and> \<not> issued then CLAIM_STORAGE_ERROR else r0)"
    using claim.hyps claim_result [of t issued c s] by simp
  then have "judged (Some r) = judged (Some r0)" "accepted (Some r) = accepted (Some r0)"
    by (simp_all add: judged_def accepted_def)
  with consume_budget [OF claim.prems(1) c] show ?case by simp
next
  case (authorize t c s r s')
  then show ?case using consume_budget [of s t c r s'] by (simp add: setup_pairing_authorize_def)
qed (auto simp: setup_pairing_cancel_def judged_def accepted_def)

lemma run_budget:
  assumes "pairing_run s es rs s'" and "pairing_ok s" and "\<forall>e \<in> set es. \<not> is_start e"
  shows "length (filter judged rs) \<le> budget s \<and> length (filter accepted rs) \<le> (if active s then 1 else 0)"
  using assms
proof (induction rule: pairing_run.induct)
  case (run_cons s e r s' es rs s'')
  have "pairing_ok s'" using run_cons by (blast intro: pairing_step_ok)
  with run_cons have "length (filter judged rs) \<le> budget s'" "length (filter accepted rs) \<le> (if active s' then 1 else 0)"
    by auto
  with step_budget [OF run_cons.hyps(1)] run_cons.prems show ?case by (auto split: if_splits)
qed simp

text \<open>
  C8: Whatever requests arrive after a window was opened, in any order and at any times, and
  however many statuses and cancellations are mixed in, until the next window is opened at most
  five of them are compared with the code and at most one is accepted.
\<close>

theorem pairing_window_bound:
  assumes "pairing_reach s" and "pairing_run s es rs s'" and "\<forall>e \<in> set es. \<not> is_start e"
  shows "length (filter judged rs) \<le> 5 \<and> length (filter accepted rs) \<le> 1"
  using run_budget [OF assms(2) reach_ok [OF assms(1)] assms(3)] budget_le [of s]
  by (auto split: if_splits)

theorem pairing_window_bound_witness:
  "length (filter judged [Some CLAIM_NOT_OPEN, None]) \<le> 5 \<and>
   length (filter accepted [Some CLAIM_NOT_OPEN, None]) \<le> 1"
proof (rule pairing_window_bound [OF reach_init, of "[Authorize 0 None, Cancel]"])
  have "setup_pairing_authorize 0 None pairing_init = (CLAIM_NOT_OPEN, pairing_init)"
    by (simp add: setup_pairing_authorize_def consume_code_def expired_locked_def)
  then show "pairing_run pairing_init [Authorize 0 None, Cancel] [Some CLAIM_NOT_OPEN, None]
      (setup_pairing_cancel pairing_init)"
    by (rule run_cons [OF authorize run_cons [OF cancel run_nil]])
qed simp

text \<open>
  A request is accepted exactly when a window is open, its deadline has not passed and the
  request carries the six digits on the display; acceptance closes the window, and so does the
  fifth wrong request, while any other request on a closed window is refused without effect.
\<close>

theorem consume_code_spec:
  assumes "pairing_reach s"
  shows "(fst (consume_code t c s) = CLAIM_OK \<longleftrightarrow>
            active s \<and> t < deadline_us s \<and> (\<exists>x. c = Some x \<and> code s = x @ [0])) \<and>
         (fst (consume_code t c s) = CLAIM_LOCKED \<longleftrightarrow>
            active s \<and> t < deadline_us s \<and> \<not> (\<exists>x. c = Some x \<and> code s = x @ [0]) \<and> unat (failed_attempts s) = 4) \<and>
         (fst (consume_code t c s) = CLAIM_NOT_OPEN \<longleftrightarrow> \<not> active s \<or> deadline_us s \<le> t) \<and>
         (fst (consume_code t c s) \<noteq> CLAIM_INVALID_CODE \<longrightarrow> snd (consume_code t c s) = pairing_init)"
  using reach_ok [OF assms] by (cases rule: consume_code_cases [of s t c]) auto

definition open_window :: pairing where
  "open_window = \<lparr> active = True, code = format_code 42 @ [0], deadline_us = 300000000, failed_attempts = 0 \<rparr>"

lemma open_window_start: "setup_pairing_start (\<lambda>_. 42) 0 True pairing_init = Some (True, Some (format_code 42), open_window)"
proof -
  have "draw (\<lambda>_. 42) 0 = Some 42"
    by (subst draw.simps) (simp add: word_le_nat_alt unbiased_limit)
  then show ?thesis
    by (simp add: setup_pairing_start_def open_window_def pairing_init_def pairing_consts CODE_SPACE_def
        clear_locked_def Let_def)
qed

lemma open_window_reach: "pairing_reach open_window"
  by (rule reach_step [OF reach_init start [OF open_window_start]])

theorem consume_code_spec_witness:
  "fst (consume_code 299999999 (Some [48, 48, 48, 48, 52, 50]) open_window) = CLAIM_OK"
  using consume_code_spec [OF open_window_reach, of 299999999 "Some [48, 48, 48, 48, 52, 50]"]
  by (simp add: open_window_def format_code_def)

lemma residue_count:
  fixes m n r :: nat
  assumes "r < m"
  shows "card {v. v < n * m \<and> v mod m = r} = n"
proof -
  have "{v. v < n * m \<and> v mod m = r} = (\<lambda>q. q * m + r) ` {..<n}"
  proof (intro set_eqI iffI)
    fix v assume "v \<in> {v. v < n * m \<and> v mod m = r}"
    then have "v div m < n" "v = v div m * m + r"
      using assms by (auto simp: div_less_iff_less_mult)
    then show "v \<in> (\<lambda>q. q * m + r) ` {..<n}" by blast
  next
    fix v assume "v \<in> (\<lambda>q. q * m + r) ` {..<n}"
    then obtain q where q: "q < n" "v = q * m + r" by auto
    have "q * m + r < (q + 1) * m" using assms by simp
    also have "\<dots> \<le> n * m" using q by (intro mult_right_mono) simp_all
    finally show "v \<in> {v. v < n * m \<and> v mod m = r}" using q assms by simp
  qed
  moreover have "inj_on (\<lambda>q. q * m + r) {..<n}" using assms by (auto intro: inj_onI)
  ultimately show ?thesis by (simp add: card_image)
qed

lemma code_words: "card {v :: u32. v < UNBIASED_LIMIT \<and> v mod CODE_SPACE = of_nat r} = 4294" if "r < 1000000"
proof -
  have "{v :: u32. v < UNBIASED_LIMIT \<and> v mod CODE_SPACE = of_nat r} =
      of_nat ` {n. n < 4294 * 1000000 \<and> n mod 1000000 = r}" (is "?A = of_nat ` ?B")
  proof (intro set_eqI iffI)
    fix v assume "v \<in> ?A"
    then have "unat v \<in> ?B"
      using that by (auto simp: word_less_nat_alt unbiased_limit word_unat_eq_iff unat_mod CODE_SPACE_def unat_of_nat)
    then show "v \<in> of_nat ` ?B" by (intro image_eqI [of _ _ "unat v"]) simp_all
  next
    fix v :: u32 assume "v \<in> of_nat ` ?B"
    then obtain n where n: "n \<in> ?B" "v = of_nat n" by blast
    then have "unat v = n" by (simp add: unat_of_nat)
    with n that show "v \<in> ?A"
      by (auto simp: word_less_nat_alt unbiased_limit word_unat_eq_iff unat_mod CODE_SPACE_def unat_of_nat)
  qed
  moreover have "inj_on (of_nat :: nat \<Rightarrow> u32) ?B"
  proof (rule inj_onI)
    fix x y assume "x \<in> ?B" "y \<in> ?B" "(of_nat x :: u32) = of_nat y"
    then have "unat (of_nat x :: u32) = unat (of_nat y :: u32)" "x < 4294967296" "y < 4294967296" by simp_all
    then show "x = y" by (simp add: unat_of_nat)
  qed
  ultimately show ?thesis using residue_count [OF that, of 4294] by (simp add: card_image)
qed

text \<open>
  Opening a window with working randomness returns the code that is stored, six digits, valid
  for 300 seconds and with no failed attempt; and the rejection loop makes it fair: every one of
  the million codes is produced by exactly 4294 of the accepted random words.
\<close>

theorem setup_pairing_start_spec:
  assumes "rand k < UNBIASED_LIMIT" and "r < 1000000"
  shows "(\<exists>v. setup_pairing_start rand t True s =
            Some (True, Some (format_code v),
              \<lparr> active = True, code = format_code v @ [0], deadline_us = t + 300000000, failed_attempts = 0 \<rparr>) \<and>
          unat v < 1000000 \<and> valid_code_shape (Some (format_code v))) \<and>
     card {v. v < UNBIASED_LIMIT \<and> format_code (v mod CODE_SPACE) = format_code (of_nat r)} = 4294"
proof
  obtain v where v: "draw rand 0 = Some v" using draw_returns [of rand k 0] assms(1) by auto
  have "unat (v mod CODE_SPACE) < 1000000" by (simp add: unat_mod CODE_SPACE_def)
  with v show "\<exists>v. setup_pairing_start rand t True s =
            Some (True, Some (format_code v),
              \<lparr> active = True, code = format_code v @ [0], deadline_us = t + 300000000, failed_attempts = 0 \<rparr>) \<and>
          unat v < 1000000 \<and> valid_code_shape (Some (format_code v))"
    by (intro exI [of _ "v mod CODE_SPACE"])
       (simp add: setup_pairing_start_def pairing_init_def pairing_consts format_code_shape Let_def)
  have "format_code (w mod CODE_SPACE) = format_code (of_nat r) \<longleftrightarrow> w mod CODE_SPACE = of_nat r" for w :: u32
  proof -
    have "unat (w mod CODE_SPACE) < 1000000" by (simp add: unat_mod CODE_SPACE_def)
    moreover have "unat (of_nat r :: u32) < 1000000" using assms(2) by (simp add: unat_of_nat)
    ultimately show ?thesis using format_code_inj by auto
  qed
  then show "card {v. v < UNBIASED_LIMIT \<and> format_code (v mod CODE_SPACE) = format_code (of_nat r)} = 4294"
    using code_words [OF assms(2)] by simp
qed

theorem setup_pairing_start_spec_witness:
  "card {v. v < UNBIASED_LIMIT \<and> format_code (v mod CODE_SPACE) = format_code (of_nat 7)} = 4294"
  using setup_pairing_start_spec [of "\<lambda>_. 0" 0 7 0 pairing_init]
  by (simp add: word_less_nat_alt unbiased_limit)

text \<open>
  In every reachable state an open window holds a six-digit code with fewer than five failed
  attempts and a closed one holds nothing: the code is erased, so it cannot be read back.  The
  reported remaining time is positive while open, at most 300 s after the start, and the status
  call itself closes an expired window.
\<close>

theorem pairing_invariant:
  assumes "pairing_reach s" and "active s \<longrightarrow> deadline_us s \<le> t + 300000000"
  shows "pairing_ok s \<and>
    (case setup_pairing_get_status t s of (st, s') \<Rightarrow>
       (is_active st \<longleftrightarrow> active s \<and> t < deadline_us s) \<and>
       (is_active st \<longrightarrow> s' = s \<and> 1 \<le> unat (remaining_seconds st) \<and> unat (remaining_seconds st) \<le> 300) \<and>
       (\<not> is_active st \<longrightarrow> s' = pairing_init \<and> remaining_seconds st = 0))"
proof
  show ok: "pairing_ok s" using assms(1) by (rule reach_ok)
  show "case setup_pairing_get_status t s of (st, s') \<Rightarrow>
       (is_active st \<longleftrightarrow> active s \<and> t < deadline_us s) \<and>
       (is_active st \<longrightarrow> s' = s \<and> 1 \<le> unat (remaining_seconds st) \<and> unat (remaining_seconds st) \<le> 300) \<and>
       (\<not> is_active st \<longrightarrow> s' = pairing_init \<and> remaining_seconds st = 0)"
  proof (cases rule: expired_cases [of t s])
    case closed
    with ok show ?thesis by (auto simp: setup_pairing_get_status_def Let_def pairing_ok_def)
  next
    case still_open
    define q where "q = (deadline_us s - t + 999999) div 1000000"
    have "1 \<le> q" "q \<le> 300"
      using still_open assms(2) unfolding q_def by linarith+
    then have "unat (of_int q :: u32) = nat q"
      by (simp add: unat_eq_nat_uint uint_word_of_int_eq take_bit_eq_mod)
    moreover have "Suc 0 \<le> nat q" "nat q \<le> 300" using \<open>1 \<le> q\<close> \<open>q \<le> 300\<close> by linarith+
    ultimately show ?thesis using still_open
      by (simp add: setup_pairing_get_status_def Let_def flip: q_def)
  qed
qed

theorem pairing_invariant_witness:
  "unat (remaining_seconds (fst (setup_pairing_get_status 1 open_window))) \<le> 300 \<and> pairing_ok open_window"
  using pairing_invariant [OF open_window_reach, of 1]
  by (simp add: open_window_def split_def setup_pairing_get_status_def expired_locked_def)

end
