(* ===== verification/Auth_Manager.thy ===== *)
theory Auth_Manager
  imports Prelude
begin

unbundle bit_operations_syntax

text \<open>
  The authentication manager, \<open>main/auth_manager.cpp\<close>: the web password, browser sessions, the API key
  and the Home Assistant token.

  What lies outside is a parameter.  \<open>auth_env\<close> holds what the libraries answer during one call: the
  SHA-256 digest of PSA crypto (\<open>None\<close> when it fails), the clock, the random words, and whether the
  writes to NVS succeed; \<open>nvs_answers\<close> is what NVS returns at start-up.  The writes themselves are
  recorded, in order, in \<open>nvs_calls\<close>.  Strings are the characters before the terminating zero and a
  null pointer is \<open>None\<close>.  The session lock is the atomicity of an operation; the mutex of the
  integration token, which a control write holds between two calls, is in the state, and an
  operation that has to wait for it is \<open>None\<close>.  The buffer for a new integration token is a real one, as
  at every caller (the code returns false for a null pointer, before anything else).
\<close>

section \<open>State\<close>

definition AUTH_SESSION_TOKEN_LEN :: nat where "AUTH_SESSION_TOKEN_LEN = 32"
definition AUTH_API_KEY_LEN :: nat where "AUTH_API_KEY_LEN = 32"
definition AUTH_INTEGRATION_TOKEN_LEN :: nat where "AUTH_INTEGRATION_TOKEN_LEN = 64"
definition AUTH_MAX_SESSIONS :: nat where "AUTH_MAX_SESSIONS = 4"
definition AUTH_SESSION_LIFETIME_SEC :: int where "AUTH_SESSION_LIFETIME_SEC = 30 * 24 * 60 * 60"
definition AUTH_MAX_USERNAME_LEN :: nat where "AUTH_MAX_USERNAME_LEN = 32"

text \<open>The characters of \<open>arctic\<close>.\<close>

definition AUTH_FACTORY_USERNAME :: bytes where "AUTH_FACTORY_USERNAME = [97, 114, 99, 116, 105, 99]"
definition AUTH_FACTORY_PASSWORD :: bytes where "AUTH_FACTORY_PASSWORD = [97, 114, 99, 116, 105, 99]"

record session =
  active :: bool
  token_hash :: bytes
  created_at :: int
  last_used :: int

definition session_zero :: session where
  "session_zero = \<lparr> active = False, token_hash = replicate 32 0, created_at = 0, last_used = 0 \<rparr>"

definition SESSIONS_BLOB_VERSION :: u8 where "SESSIONS_BLOB_VERSION = 1"

record stored_session =
  ss_created_at :: int
  ss_token_hash :: bytes

definition stored_zero :: stored_session where
  "stored_zero = \<lparr> ss_created_at = 0, ss_token_hash = replicate 32 0 \<rparr>"

record stored_sessions =
  ss_version :: u8
  ss_count :: nat
  ss_sessions :: "stored_session list"

datatype nvs_key = WEB_ENABLED | API_ENABLED | USERNAME | PASS_HASH | API_KEY | INTEGRATION_HASH | SESSIONS

datatype nvs_call = Set_u8 nvs_key u8 | Set_str nvs_key bytes | Set_blob nvs_key bytes
  | Set_sessions stored_sessions nat | Erase_key nvs_key | Commit

record auth =
  initialized :: bool
  web_auth_enabled :: bool
  api_auth_enabled :: bool
  username :: bytes
  password_hash :: bytes
  password_set :: bool
  api_key :: bytes
  integration_token_hash :: bytes
  integration_token_set :: bool
  integration_generation :: u32
  sessions :: "session list"
  mutex_ready :: bool
  mutex_held :: bool
  nvs_calls :: "nvs_call list"

definition auth_zero :: auth where
  "auth_zero = \<lparr> initialized = False, web_auth_enabled = False, api_auth_enabled = False, username = [],
     password_hash = replicate 32 0, password_set = False, api_key = [], integration_token_hash = replicate 32 0,
     integration_token_set = False, integration_generation = 0, sessions = replicate AUTH_MAX_SESSIONS session_zero,
     mutex_ready = False, mutex_held = False, nvs_calls = [] \<rparr>"

datatype erase_result = Erased | Not_found | Erase_failed

record auth_env =
  e_hash :: "bytes \<Rightarrow> bytes option"
  e_now :: int
  e_random :: "nat \<Rightarrow> u32"
  e_open :: bool
  e_set :: "nvs_key \<Rightarrow> bool"
  e_erase :: erase_result
  e_commit :: bool

text \<open>What NVS returns at start-up; \<open>None\<close> is an error.  A blob is not longer than its buffer.\<close>

record nvs_answers =
  l_open :: bool
  l_web :: "u8 option"
  l_api :: "u8 option"
  l_username :: "bytes option"
  l_pass :: "bytes option"
  l_key :: "bytes option"
  l_integration :: "bytes option"
  l_sessions :: "(nat \<times> stored_sessions) option"

section \<open>Helpers\<close>

definition hex_chars :: bytes where
  "hex_chars = [48, 49, 50, 51, 52, 53, 54, 55, 56, 57, 97, 98, 99, 100, 101, 102]"

definition generate_random_hex :: "auth_env \<Rightarrow> nat \<Rightarrow> bytes" where
  "generate_random_hex e len = map (\<lambda>i. hex_chars ! unat (e_random e i mod 16)) [0..<len]"

definition hash_password :: "auth_env \<Rightarrow> bytes \<Rightarrow> bool \<times> bytes" where
  "hash_password e password =
     (case e_hash e password of None \<Rightarrow> (False, replicate 32 0) | Some h \<Rightarrow> (True, h))"

definition constant_time_equal :: "bytes \<Rightarrow> bytes \<Rightarrow> bool" where
  "constant_time_equal lhs rhs \<longleftrightarrow> foldl (\<lambda>difference (l, r). difference OR (l XOR r)) 0 (zip lhs rhs) = 0"

text \<open>A string or blob read into a buffer that held \<open>old\<close>.\<close>

definition overlay :: "bytes \<Rightarrow> bytes \<Rightarrow> bytes" where
  "overlay blob old = blob @ drop (length blob) old"

definition load_from_nvs :: "nvs_answers \<Rightarrow> auth \<Rightarrow> bool \<times> auth" where
  "load_from_nvs a s =
     (if \<not> l_open a then (False, s)
      else
        let s = (case l_web a of None \<Rightarrow> s | Some v \<Rightarrow> s\<lparr> web_auth_enabled := v \<noteq> 0 \<rparr>);
            s = (case l_api a of None \<Rightarrow> s | Some v \<Rightarrow> s\<lparr> api_auth_enabled := v \<noteq> 0 \<rparr>);
            s = s\<lparr> username := (case l_username a of None \<Rightarrow> [] | Some u \<Rightarrow> u) \<rparr>;
            s = (case l_pass a of None \<Rightarrow> s
                 | Some h \<Rightarrow> s\<lparr> password_hash := overlay h (password_hash s), password_set := True \<rparr>);
            s = s\<lparr> api_key := (case l_key a of None \<Rightarrow> [] | Some k \<Rightarrow> k) \<rparr>;
            s = (case l_integration a of None \<Rightarrow> s\<lparr> integration_token_set := False, integration_generation := 0 \<rparr>
                 | Some h \<Rightarrow> s\<lparr> integration_token_hash := overlay h (integration_token_hash s),
                                integration_token_set := length h = 32,
                                integration_generation := (if length h = 32 then 1 else 0) \<rparr>)
        in (True, s))"

definition call_ok :: "auth_env \<Rightarrow> nvs_call \<Rightarrow> bool" where
  "call_ok e c = (case c of Set_u8 k _ \<Rightarrow> e_set e k | Set_str k _ \<Rightarrow> e_set e k | Set_blob k _ \<Rightarrow> e_set e k
     | Set_sessions _ _ \<Rightarrow> e_set e SESSIONS | Erase_key _ \<Rightarrow> e_erase e \<noteq> Erase_failed | Commit \<Rightarrow> e_commit e)"

text \<open>\<open>save_to_nvs\<close> makes every call and reports whether all succeeded.\<close>

definition save_calls :: "auth \<Rightarrow> nvs_call list" where
  "save_calls s =
     [Set_u8 WEB_ENABLED (if web_auth_enabled s then 1 else 0), Set_u8 API_ENABLED (if api_auth_enabled s then 1 else 0)] @
     (if username s \<noteq> [] then [Set_str USERNAME (username s)] else []) @
     (if password_set s then [Set_blob PASS_HASH (password_hash s)] else []) @
     (if api_key s \<noteq> [] then [Set_str API_KEY (api_key s)] else []) @ [Commit]"

definition save_to_nvs :: "auth_env \<Rightarrow> auth \<Rightarrow> bool \<times> auth" where
  "save_to_nvs e s =
     (if \<not> e_open e then (False, s)
      else (list_all (call_ok e) (save_calls s), s\<lparr> nvs_calls := nvs_calls s @ save_calls s \<rparr>))"

definition stored_of :: "session \<Rightarrow> stored_session" where
  "stored_of s = \<lparr> ss_created_at = created_at s, ss_token_hash = token_hash s \<rparr>"

text \<open>The loop of \<open>save_sessions\<close>: \<open>blob.sessions[blob.count++]\<close> for every active session.\<close>

definition pack_sessions :: "session list \<Rightarrow> stored_sessions" where
  "pack_sessions ss =
     foldl (\<lambda>blob s. if \<not> active s then blob
                      else blob\<lparr> ss_sessions := (ss_sessions blob)[ss_count blob := stored_of s], ss_count := ss_count blob + 1 \<rparr>)
       \<lparr> ss_version = SESSIONS_BLOB_VERSION, ss_count = 0, ss_sessions = replicate AUTH_MAX_SESSIONS stored_zero \<rparr> ss"

definition sessions_blob_len :: "stored_sessions \<Rightarrow> nat" where
  "sessions_blob_len blob = 2 + ss_count blob * 40"

definition save_sessions :: "auth_env \<Rightarrow> auth \<Rightarrow> auth" where
  "save_sessions e s =
     (if \<not> e_open e then s
      else let blob = pack_sessions (sessions s);
               c = Set_sessions blob (sessions_blob_len blob)
           in s\<lparr> nvs_calls := nvs_calls s @ c # (if call_ok e c then [Commit] else []) \<rparr>)"

definition restored :: "stored_session \<Rightarrow> session" where
  "restored b = \<lparr> active = True, token_hash = ss_token_hash b, created_at = ss_created_at b, last_used = ss_created_at b \<rparr>"

definition load_sessions :: "nvs_answers \<Rightarrow> auth \<Rightarrow> auth" where
  "load_sessions a s =
     (case l_sessions a of None \<Rightarrow> s
      | Some (len, blob) \<Rightarrow>
          if len < 2 \<or> ss_version blob \<noteq> SESSIONS_BLOB_VERSION \<or> ss_count blob > AUTH_MAX_SESSIONS \<or>
             len \<noteq> sessions_blob_len blob then s
          else s\<lparr> sessions := map restored (take (ss_count blob) (ss_sessions blob)) @ drop (ss_count blob) (sessions s) \<rparr>)"

text \<open>The position of the last active session with the token's digest.\<close>

definition find_session :: "auth_env \<Rightarrow> bytes option \<Rightarrow> auth \<Rightarrow> nat option" where
  "find_session e token s =
     (case token of None \<Rightarrow> None
      | Some t \<Rightarrow>
          if length t \<noteq> AUTH_SESSION_TOKEN_LEN then None
          else case hash_password e t of (ok, hash) \<Rightarrow>
            if \<not> ok then None
            else fold (\<lambda>i found. if active (sessions s ! i) \<and> constant_time_equal (token_hash (sessions s ! i)) hash
                                 then Some i else found) [0..<AUTH_MAX_SESSIONS] None)"

fun find_free :: "session list \<Rightarrow> nat \<Rightarrow> (nat \<times> int) option \<Rightarrow> (nat \<times> bool) option" where
  "find_free [] i oldest = (case oldest of None \<Rightarrow> None | Some (j, _) \<Rightarrow> Some (j, True))"
| "find_free (s # ss) i oldest =
     (if \<not> active s then Some (i, False)
      else find_free ss (i + 1)
        (case oldest of None \<Rightarrow> Some (i, last_used s)
         | Some (j, t) \<Rightarrow> if last_used s < t then Some (i, last_used s) else Some (j, t)))"

definition upd_session :: "nat \<Rightarrow> (session \<Rightarrow> session) \<Rightarrow> auth \<Rightarrow> auth" where
  "upd_session i f s = s\<lparr> sessions := (sessions s)[i := f (sessions s ! i)] \<rparr>"

definition find_free_session :: "auth \<Rightarrow> nat option \<times> auth" where
  "find_free_session s =
     (case find_free (sessions s) 0 None of None \<Rightarrow> (None, s)
      | Some (i, evict) \<Rightarrow> (Some i, if evict then upd_session i (\<lambda>x. x\<lparr> active := False \<rparr>) s else s))"

definition is_session_expired :: "auth_env \<Rightarrow> session \<Rightarrow> bool" where
  "is_session_expired e x \<longleftrightarrow> \<not> active x \<or> e_now e - created_at x > AUTH_SESSION_LIFETIME_SEC"

section \<open>Operations\<close>

text \<open>The three stages of \<open>auth_mgr_init\<close> after the stored state was loaded.\<close>

definition init_credentials :: "auth_env \<Rightarrow> nvs_answers \<Rightarrow> bool \<Rightarrow> auth \<Rightarrow> auth" where
  "init_credentials e a loaded s =
     (if \<not> loaded \<or> \<not> password_set s \<and> username s = [] then
        let (ok, h) = hash_password e AUTH_FACTORY_PASSWORD
        in snd (save_to_nvs e (s\<lparr> username := AUTH_FACTORY_USERNAME, password_hash := h, password_set := ok \<rparr>))
      else load_sessions a s)"

definition require_auth :: "auth_env \<Rightarrow> auth \<Rightarrow> auth" where
  "require_auth e s =
     (if \<not> web_auth_enabled s \<or> \<not> api_auth_enabled s
      then snd (save_to_nvs e (s\<lparr> web_auth_enabled := True, api_auth_enabled := True \<rparr>)) else s)"

definition ensure_api_key :: "auth_env \<Rightarrow> auth \<Rightarrow> auth" where
  "ensure_api_key e s =
     (if api_key s = [] then snd (save_to_nvs e (s\<lparr> api_key := generate_random_hex e AUTH_API_KEY_LEN \<rparr>)) else s)"

definition auth_mgr_init :: "auth_env \<Rightarrow> nvs_answers \<Rightarrow> auth \<Rightarrow> auth" where
  "auth_mgr_init e a s =
     (if initialized s then s
      else
        let (loaded, s) = load_from_nvs a (auth_zero\<lparr> mutex_ready := True, nvs_calls := nvs_calls s \<rparr>)
        in (ensure_api_key e (require_auth e (init_credentials e a loaded s)))\<lparr> initialized := True \<rparr>)"

definition auth_mgr_logout_all :: "auth_env \<Rightarrow> auth \<Rightarrow> auth" where
  "auth_mgr_logout_all e s = save_sessions e (s\<lparr> sessions := map (\<lambda>x. x\<lparr> active := False \<rparr>) (sessions s) \<rparr>)"

definition auth_mgr_set_web_auth_enabled :: "auth_env \<Rightarrow> bool \<Rightarrow> auth \<Rightarrow> auth" where
  "auth_mgr_set_web_auth_enabled e enabled s =
     (if \<not> enabled then s
      else if web_auth_enabled s \<noteq> enabled then
        let s = snd (save_to_nvs e (s\<lparr> web_auth_enabled := enabled \<rparr>))
        in if \<not> enabled then auth_mgr_logout_all e s else s
      else s)"

definition auth_mgr_set_credentials :: "auth_env \<Rightarrow> bytes option \<Rightarrow> bytes option \<Rightarrow> auth \<Rightarrow> bool \<times> auth" where
  "auth_mgr_set_credentials e user password s =
     (let (changed, s) = (case user of None \<Rightarrow> (False, s)
            | Some u \<Rightarrow> if u = [] then (False, s) else (True, s\<lparr> username := take AUTH_MAX_USERNAME_LEN u \<rparr>));
          p = (case password of None \<Rightarrow> [] | Some p \<Rightarrow> p);
          (ok, h) = hash_password e p
      in if p \<noteq> [] \<and> \<not> ok then (False, auth_mgr_logout_all e (s\<lparr> password_hash := h, password_set := False \<rparr>))
         else
           let (changed, s) = (if p \<noteq> [] then (True, s\<lparr> password_hash := h, password_set := True \<rparr>) else (changed, s))
           in if changed then let (saved, s) = save_to_nvs e s in (saved, auth_mgr_logout_all e s)
              else (True, s))"

definition auth_mgr_credentials_change_required :: "auth_env \<Rightarrow> auth \<Rightarrow> bool" where
  "auth_mgr_credentials_change_required e s =
     (let (ok, h) = hash_password e AUTH_FACTORY_PASSWORD
      in if \<not> ok then False else password_set s \<and> constant_time_equal (password_hash s) h)"

text \<open>The token on success.\<close>

definition auth_mgr_login :: "auth_env \<Rightarrow> bytes option \<Rightarrow> bytes option \<Rightarrow> auth \<Rightarrow> bytes option \<times> auth" where
  "auth_mgr_login e user password s =
     (case (user, password) of
        (Some u, Some p) \<Rightarrow>
          if u \<noteq> username s then (None, s)
          else if \<not> password_set s then (None, s)
          else
            let (ok, h) = hash_password e p
            in if \<not> ok then (None, s)
               else if \<not> constant_time_equal h (password_hash s) then (None, s)
               else
                 let token = generate_random_hex e AUTH_SESSION_TOKEN_LEN;
                     (ok, th) = hash_password e token
                 in if \<not> ok then (None, s)
                    else (case find_free_session s of
                        (None, s) \<Rightarrow> (None, s)
                      | (Some i, s) \<Rightarrow>
                          (Some token, save_sessions e (upd_session i (\<lambda>_.
                             \<lparr> active = True, token_hash = th, created_at = e_now e, last_used = e_now e \<rparr>) s)))
      | _ \<Rightarrow> (None, s))"

definition auth_mgr_validate_session :: "auth_env \<Rightarrow> bytes option \<Rightarrow> auth \<Rightarrow> bool \<times> auth" where
  "auth_mgr_validate_session e token s =
     (case find_session e token s of None \<Rightarrow> (False, s)
      | Some i \<Rightarrow>
          if is_session_expired e (sessions s ! i)
          then (False, save_sessions e (upd_session i (\<lambda>x. x\<lparr> active := False \<rparr>) s))
          else (True, upd_session i (\<lambda>x. x\<lparr> last_used := e_now e \<rparr>) s))"

definition auth_mgr_logout :: "auth_env \<Rightarrow> bytes option \<Rightarrow> auth \<Rightarrow> auth" where
  "auth_mgr_logout e token s =
     (case find_session e token s of None \<Rightarrow> s
      | Some i \<Rightarrow> save_sessions e (upd_session i (\<lambda>x. x\<lparr> active := False \<rparr>) s))"

definition auth_mgr_set_api_auth_enabled :: "auth_env \<Rightarrow> bool \<Rightarrow> auth \<Rightarrow> auth" where
  "auth_mgr_set_api_auth_enabled e enabled s =
     (if \<not> enabled then s
      else if api_auth_enabled s \<noteq> enabled then snd (save_to_nvs e (s\<lparr> api_auth_enabled := enabled \<rparr>))
      else s)"

definition auth_mgr_get_api_key :: "auth \<Rightarrow> bool \<times> bytes" where
  "auth_mgr_get_api_key s = (if api_key s = [] then (False, []) else (True, api_key s))"

definition auth_mgr_regenerate_api_key :: "auth_env \<Rightarrow> auth \<Rightarrow> bytes \<times> auth" where
  "auth_mgr_regenerate_api_key e s =
     (let s = snd (save_to_nvs e (s\<lparr> api_key := generate_random_hex e AUTH_API_KEY_LEN \<rparr>)) in (api_key s, s))"

definition auth_mgr_validate_api_key :: "bytes option \<Rightarrow> auth \<Rightarrow> bool" where
  "auth_mgr_validate_api_key key s = (case key of None \<Rightarrow> False | Some k \<Rightarrow> if k = [] then False else k = api_key s)"

section \<open>The integration token\<close>

text \<open>
  \<open>None\<close>: the call waits for the mutex.  The result of \<open>issue\<close> is the token, or \<open>None\<close> for false.
\<close>

definition auth_mgr_issue_integration_token :: "auth_env \<Rightarrow> auth \<Rightarrow> (bytes option \<times> auth) option" where
  "auth_mgr_issue_integration_token e s =
     (if \<not> mutex_ready s then Some (None, s)
      else if mutex_held s then None
      else
        let token = generate_random_hex e AUTH_INTEGRATION_TOKEN_LEN;
            (ok, h) = hash_password e token
        in if \<not> ok then Some (None, s)
           else if \<not> e_open e then Some (None, s)
           else
             let s = s\<lparr> nvs_calls := nvs_calls s @ Set_blob INTEGRATION_HASH h #
                          (if e_set e INTEGRATION_HASH then [Commit] else []) \<rparr>
             in if \<not> (e_set e INTEGRATION_HASH \<and> e_commit e) then Some (None, s)
                else Some (Some token, s\<lparr> integration_token_hash := h, integration_token_set := True,
                                          integration_generation := integration_generation s + 1 \<rparr>))"

definition auth_mgr_revoke_integration_token :: "auth_env \<Rightarrow> auth \<Rightarrow> (bool \<times> auth) option" where
  "auth_mgr_revoke_integration_token e s =
     (if \<not> mutex_ready s then Some (False, s)
      else if mutex_held s then None
      else if \<not> e_open e then Some (False, s)
      else
        let s = s\<lparr> nvs_calls := nvs_calls s @ Erase_key INTEGRATION_HASH #
                     (if e_erase e \<noteq> Erase_failed then [Commit] else []) \<rparr>
        in if \<not> (e_erase e \<noteq> Erase_failed \<and> e_commit e) then Some (False, s)
           else Some (True, s\<lparr> integration_token_hash := replicate 32 0, integration_token_set := False,
                               integration_generation := integration_generation s + 1 \<rparr>))"

text \<open>The generation the token was valid for.\<close>

definition auth_mgr_validate_integration_token_with_generation :: "auth_env \<Rightarrow> bytes option \<Rightarrow> auth \<Rightarrow> u32 option" where
  "auth_mgr_validate_integration_token_with_generation e token s =
     (case token of None \<Rightarrow> None
      | Some t \<Rightarrow>
          if length t \<noteq> AUTH_INTEGRATION_TOKEN_LEN then None
          else if \<not> integration_token_set s then None
          else case hash_password e t of (hashed, h) \<Rightarrow>
            if hashed \<and> constant_time_equal h (integration_token_hash s) then Some (integration_generation s) else None)"

definition auth_mgr_validate_integration_token :: "auth_env \<Rightarrow> bytes option \<Rightarrow> auth \<Rightarrow> bool" where
  "auth_mgr_validate_integration_token e token s \<longleftrightarrow>
     auth_mgr_validate_integration_token_with_generation e token s \<noteq> None"

definition auth_mgr_begin_control_write :: "u32 \<Rightarrow> auth \<Rightarrow> (bool \<times> auth) option" where
  "auth_mgr_begin_control_write generation s =
     (if \<not> mutex_ready s then Some (False, s)
      else if mutex_held s then None
      else if integration_token_set s \<and> integration_generation s = generation
      then Some (True, s\<lparr> mutex_held := True \<rparr>)
      else Some (False, s))"

definition auth_mgr_end_control_write :: "auth \<Rightarrow> auth" where
  "auth_mgr_end_control_write s = (if mutex_ready s then s\<lparr> mutex_held := False \<rparr> else s)"


section \<open>Histories\<close>

datatype auth_event =
    Login auth_env "bytes option" "bytes option"
  | Validate auth_env "bytes option"
  | Logout auth_env "bytes option"
  | Logout_all auth_env
  | Set_credentials auth_env "bytes option" "bytes option"
  | Set_web auth_env bool
  | Set_api auth_env bool
  | Regenerate auth_env
  | Issue auth_env
  | Revoke auth_env
  | Begin_write u32
  | End_write

text \<open>A call that waits has no effect yet.\<close>

fun auth_step :: "auth \<Rightarrow> auth_event \<Rightarrow> auth" where
  "auth_step s (Login e u p) = snd (auth_mgr_login e u p s)"
| "auth_step s (Validate e t) = snd (auth_mgr_validate_session e t s)"
| "auth_step s (Logout e t) = auth_mgr_logout e t s"
| "auth_step s (Logout_all e) = auth_mgr_logout_all e s"
| "auth_step s (Set_credentials e u p) = snd (auth_mgr_set_credentials e u p s)"
| "auth_step s (Set_web e b) = auth_mgr_set_web_auth_enabled e b s"
| "auth_step s (Set_api e b) = auth_mgr_set_api_auth_enabled e b s"
| "auth_step s (Regenerate e) = snd (auth_mgr_regenerate_api_key e s)"
| "auth_step s (Issue e) = (case auth_mgr_issue_integration_token e s of None \<Rightarrow> s | Some (_, s') \<Rightarrow> s')"
| "auth_step s (Revoke e) = (case auth_mgr_revoke_integration_token e s of None \<Rightarrow> s | Some (_, s') \<Rightarrow> s')"
| "auth_step s (Begin_write g) = (case auth_mgr_begin_control_write g s of None \<Rightarrow> s | Some (_, s') \<Rightarrow> s')"
| "auth_step s End_write = auth_mgr_end_control_write s"

definition auth_after :: "auth \<Rightarrow> auth_event list \<Rightarrow> auth" where
  "auth_after s es = foldl auth_step s es"

lemma auth_after_Nil [simp]: "auth_after s [] = s"
  by (simp add: auth_after_def)

lemma auth_after_snoc [simp]: "auth_after s (es @ [ev]) = auth_step (auth_after s es) ev"
  by (simp add: auth_after_def)

fun env_of :: "auth_event \<Rightarrow> auth_env option" where
  "env_of (Login e u p) = Some e" | "env_of (Validate e t) = Some e" | "env_of (Logout e t) = Some e"
| "env_of (Logout_all e) = Some e" | "env_of (Set_credentials e u p) = Some e" | "env_of (Set_web e b) = Some e"
| "env_of (Set_api e b) = Some e" | "env_of (Regenerate e) = Some e" | "env_of (Issue e) = Some e"
| "env_of (Revoke e) = Some e" | "env_of (Begin_write g) = None" | "env_of End_write = None"

text \<open>
  What PSA crypto documents of \<open>psa_hash_compute\<close> with SHA-256: when it succeeds the output is the
  32-byte digest of the input.
\<close>

definition sha_env :: "(bytes \<Rightarrow> bytes) \<Rightarrow> auth_env \<Rightarrow> bool" where
  "sha_env sha e \<longleftrightarrow> (\<forall>x. length (sha x) = 32) \<and> (\<forall>x h. e_hash e x = Some h \<longrightarrow> h = sha x)"

definition sha_history :: "(bytes \<Rightarrow> bytes) \<Rightarrow> auth_event list \<Rightarrow> bool" where
  "sha_history sha es \<longleftrightarrow> (\<forall>ev \<in> set es. \<forall>e. env_of ev = Some e \<longrightarrow> sha_env sha e)"

lemma sha_history_snoc [simp]:
  "sha_history sha (es @ [ev]) \<longleftrightarrow> sha_history sha es \<and> (\<forall>e. env_of ev = Some e \<longrightarrow> sha_env sha e)"
  by (auto simp: sha_history_def)

section \<open>The building blocks\<close>

lemma or_fold_zero:
  "foldl (\<lambda>d (l, r). d OR (l XOR r)) d (zip xs ys) = 0 \<longleftrightarrow> d = 0 \<and> list_all (\<lambda>(l, r). l = (r :: u8)) (zip xs ys)"
proof (induction xs arbitrary: ys d)
  case (Cons x xs)
  have "d OR (x XOR y) = 0 \<longleftrightarrow> d = 0 \<and> x = y" for y
    by (simp add: or_eq_0_iff xor_eq_zero_iff)
  then show ?case using Cons.IH by (cases ys) auto
qed simp

lemma constant_time_equal_iff:
  assumes "length xs = length ys"
  shows "constant_time_equal xs ys \<longleftrightarrow> xs = ys"
  unfolding constant_time_equal_def or_fold_zero
  using assms by (induction xs ys rule: list_induct2) auto

text \<open>What the persistence helpers leave alone.\<close>

lemma save_to_nvs_fields [simp]:
  "web_auth_enabled (snd (save_to_nvs e s)) = web_auth_enabled s"
  "api_auth_enabled (snd (save_to_nvs e s)) = api_auth_enabled s"
  "username (snd (save_to_nvs e s)) = username s"
  "password_hash (snd (save_to_nvs e s)) = password_hash s"
  "password_set (snd (save_to_nvs e s)) = password_set s"
  "api_key (snd (save_to_nvs e s)) = api_key s"
  "integration_token_hash (snd (save_to_nvs e s)) = integration_token_hash s"
  "integration_token_set (snd (save_to_nvs e s)) = integration_token_set s"
  "integration_generation (snd (save_to_nvs e s)) = integration_generation s"
  "sessions (snd (save_to_nvs e s)) = sessions s"
  "mutex_ready (snd (save_to_nvs e s)) = mutex_ready s"
  "mutex_held (snd (save_to_nvs e s)) = mutex_held s"
  by (simp_all add: save_to_nvs_def)

lemma save_sessions_fields [simp]:
  "web_auth_enabled (save_sessions e s) = web_auth_enabled s"
  "api_auth_enabled (save_sessions e s) = api_auth_enabled s"
  "username (save_sessions e s) = username s"
  "password_hash (save_sessions e s) = password_hash s"
  "password_set (save_sessions e s) = password_set s"
  "api_key (save_sessions e s) = api_key s"
  "integration_token_hash (save_sessions e s) = integration_token_hash s"
  "integration_token_set (save_sessions e s) = integration_token_set s"
  "integration_generation (save_sessions e s) = integration_generation s"
  "sessions (save_sessions e s) = sessions s"
  "mutex_ready (save_sessions e s) = mutex_ready s"
  "mutex_held (save_sessions e s) = mutex_held s"
  by (simp_all add: save_sessions_def Let_def)

lemma upd_session_fields [simp]:
  "web_auth_enabled (upd_session i f s) = web_auth_enabled s"
  "api_auth_enabled (upd_session i f s) = api_auth_enabled s"
  "username (upd_session i f s) = username s"
  "password_hash (upd_session i f s) = password_hash s"
  "password_set (upd_session i f s) = password_set s"
  "api_key (upd_session i f s) = api_key s"
  "integration_token_hash (upd_session i f s) = integration_token_hash s"
  "integration_token_set (upd_session i f s) = integration_token_set s"
  "integration_generation (upd_session i f s) = integration_generation s"
  "sessions (upd_session i f s) = (sessions s)[i := f (sessions s ! i)]"
  "mutex_ready (upd_session i f s) = mutex_ready s"
  "mutex_held (upd_session i f s) = mutex_held s"
  by (simp_all add: upd_session_def)

text \<open>A free slot is always found: an unused one, else the one used least recently.\<close>

lemma find_free_found:
  assumes "ss \<noteq> [] \<or> oldest \<noteq> None" "\<And>j t. oldest = Some (j, t) \<Longrightarrow> j < i"
  shows "\<exists>j evict. find_free ss i oldest = Some (j, evict) \<and> j < i + length ss"
  using assms
proof (induction ss arbitrary: i oldest)
  case (Cons s ss)
  let ?o = "case oldest of None \<Rightarrow> Some (i, last_used s)
    | Some (j, t) \<Rightarrow> if last_used s < t then Some (i, last_used s) else Some (j, t)"
  have "?o \<noteq> None" by (cases oldest) auto
  moreover have "\<And>j t. ?o = Some (j, t) \<Longrightarrow> j < i + 1"
    using Cons.prems(2) by (cases oldest) (auto split: if_splits intro: less_SucI)
  ultimately show ?case using Cons.IH [of ?o "i + 1"] by (cases "active s") auto
qed auto

lemma find_free_session_found:
  assumes "length (sessions s) = 4"
  shows "\<exists>i s'. find_free_session s = (Some i, s') \<and> i < 4 \<and> sessions s' = (sessions s)[i := sessions s' ! i] \<and>
    s' = s\<lparr> sessions := sessions s' \<rparr>"
proof -
  have "sessions s \<noteq> []" using assms by auto
  then obtain i evict where "find_free (sessions s) 0 None = Some (i, evict)" "i < 4"
    using find_free_found [of "sessions s" None 0] assms by auto
  then show ?thesis using assms by (auto simp: find_free_session_def upd_session_def)
qed

lemma fold_last:
  "fold (\<lambda>i found. if P i then Some i else found) xs r = Some i \<Longrightarrow> (i \<in> set xs \<and> P i) \<or> r = Some i"
proof (induction xs arbitrary: r)
  case (Cons x xs)
  then show ?case using Cons.IH [of "if P x then Some x else r"] by (cases "P x") auto
qed simp

lemma find_session_Some:
  assumes "find_session e token s = Some i" "sha_env sha e"
    and "length (sessions s) = 4" "\<And>x. x \<in> set (sessions s) \<Longrightarrow> length (token_hash x) = 32"
  shows "\<exists>t. token = Some t \<and> length t = 32 \<and> i < 4 \<and> active (sessions s ! i) \<and> token_hash (sessions s ! i) = sha t"
proof -
  obtain t h where t: "token = Some t" "length t = 32" "e_hash e t = Some h"
    and f: "fold (\<lambda>i found. if active (sessions s ! i) \<and> constant_time_equal (token_hash (sessions s ! i)) h
                       then Some i else found) [0..<AUTH_MAX_SESSIONS] None = Some i"
    using assms(1) by (auto simp: find_session_def hash_password_def AUTH_SESSION_TOKEN_LEN_def split: option.splits if_splits)
  have h: "h = sha t" "length h = 32" using t(3) assms(2) by (auto simp: sha_env_def)
  from fold_last [OF f] have i: "i < 4" "active (sessions s ! i)" "constant_time_equal (token_hash (sessions s ! i)) h"
    by (auto simp: AUTH_MAX_SESSIONS_def)
  then have "token_hash (sessions s ! i) = h"
    using assms(3,4) h(2) by (simp add: constant_time_equal_iff)
  with t i h show ?thesis by simp
qed

section \<open>Well-formed states\<close>

definition auth_wf :: "auth \<Rightarrow> bool" where
  "auth_wf s \<longleftrightarrow> length (sessions s) = 4 \<and> (\<forall>x \<in> set (sessions s). length (token_hash x) = 32) \<and>
     length (password_hash s) = 32 \<and> length (integration_token_hash s) = 32"

lemma hash_password_len: "sha_env sha e \<Longrightarrow> length (snd (hash_password e p)) = 32"
  by (auto simp: hash_password_def sha_env_def split: option.splits)

lemma hash_password_ok: "sha_env sha e \<Longrightarrow> hash_password e p = (True, h) \<Longrightarrow> h = sha p \<and> length h = 32"
  by (auto simp: hash_password_def sha_env_def split: option.splits)

lemma auth_wf_update:
  assumes "auth_wf s" "length (token_hash x) = 32"
  shows "auth_wf (s\<lparr> sessions := (sessions s)[i := x] \<rparr>)"
  using assms set_update_subset_insert [of "sessions s" i x] by (auto simp: auth_wf_def)

lemma auth_wf_cong:
  "sessions s' = sessions s \<Longrightarrow> password_hash s' = password_hash s \<Longrightarrow>
     integration_token_hash s' = integration_token_hash s \<Longrightarrow> auth_wf s' = auth_wf s"
  by (simp add: auth_wf_def)

lemma auth_wf_saved [simp]:
  "auth_wf (save_sessions e s) = auth_wf s" "auth_wf (snd (save_to_nvs e s)) = auth_wf s"
  by (rule auth_wf_cong; simp)+

lemma auth_wf_upd_session:
  assumes "auth_wf s" "length (token_hash (f (sessions s ! i))) = 32"
  shows "auth_wf (upd_session i f s)"
  unfolding upd_session_def by (rule auth_wf_update [OF assms])

lemma auth_wf_nth: "auth_wf s \<Longrightarrow> i < 4 \<Longrightarrow> length (token_hash (sessions s ! i)) = 32"
  by (simp add: auth_wf_def)

lemma find_session_wf:
  assumes "find_session e token s = Some i" "sha_env sha e" "auth_wf s"
  shows "i < 4 \<and> active (sessions s ! i) \<and> (\<exists>t. token = Some t \<and> length t = 32 \<and> token_hash (sessions s ! i) = sha t)"
  using find_session_Some [OF assms(1,2)] assms(3) by (auto simp: auth_wf_def)

section \<open>Where a session comes from\<close>

text \<open>\<open>kept s s'\<close>: every active session of \<open>s'\<close> was one of \<open>s\<close>, with its digest and sign-in time.\<close>

definition kept :: "auth \<Rightarrow> auth \<Rightarrow> bool" where
  "kept s s' \<longleftrightarrow> (\<forall>x \<in> set (sessions s'). active x \<longrightarrow>
     (\<exists>y \<in> set (sessions s). active y \<and> token_hash y = token_hash x \<and> created_at y = created_at x))"

lemma kept_same: "sessions s' = sessions s \<Longrightarrow> kept s s'"
  by (auto simp: kept_def)

lemma kept_upd:
  assumes "i < length (sessions s)"
    "active (f (sessions s ! i)) \<Longrightarrow> active (sessions s ! i) \<and> token_hash (f (sessions s ! i)) = token_hash (sessions s ! i) \<and>
       created_at (f (sessions s ! i)) = created_at (sessions s ! i)"
  shows "kept s (upd_session i f s)"
proof -
  have "x = f (sessions s ! i) \<or> x \<in> set (sessions s)" if "x \<in> set (sessions (upd_session i f s))" for x
    using that set_update_subset_insert [of "sessions s" i "f (sessions s ! i)"] by auto
  then show ?thesis using assms nth_mem [OF assms(1)] unfolding kept_def by metis
qed

lemma kept_saved [simp]: "kept s (save_sessions e s') = kept s s'" "kept s (snd (save_to_nvs e s')) = kept s s'"
  by (simp_all add: kept_def)

lemma found_session_kept:
  assumes "sha_env sha e" "auth_wf s" "find_session e token s = Some i"
  shows "kept s (upd_session i (\<lambda>x. x\<lparr> active := False \<rparr>) s)" "kept s (upd_session i (\<lambda>x. x\<lparr> last_used := t \<rparr>) s)"
  using find_session_wf [OF assms(3,1,2)] assms(2) by (auto simp: auth_wf_def intro!: kept_upd)

lemma validate_kept:
  assumes "sha_env sha e" "auth_wf s"
  shows "kept s (snd (auth_mgr_validate_session e token s))"
  using found_session_kept [OF assms]
  by (cases "find_session e token s") (auto simp: auth_mgr_validate_session_def kept_same)

lemma logout_kept:
  assumes "sha_env sha e" "auth_wf s"
  shows "kept s (auth_mgr_logout e token s)"
  using found_session_kept [OF assms]
  by (cases "find_session e token s") (auto simp: auth_mgr_logout_def kept_same)

lemma logout_all_none: "x \<in> set (sessions (auth_mgr_logout_all e s)) \<Longrightarrow> \<not> active x"
  by (auto simp: auth_mgr_logout_all_def)

lemma login_cases:
  assumes "sha_env sha e" "auth_wf s"
  shows "(fst (auth_mgr_login e user password s) = None \<and> snd (auth_mgr_login e user password s) = s) \<or>
    (\<exists>p i. user = Some (username s) \<and> password = Some p \<and> password_set s \<and> sha p = password_hash s \<and>
       fst (auth_mgr_login e user password s) = Some (generate_random_hex e 32) \<and> i < 4 \<and>
       sessions (snd (auth_mgr_login e user password s)) = (sessions s)[i := \<lparr> active = True,
         token_hash = sha (generate_random_hex e 32), created_at = e_now e, last_used = e_now e \<rparr>] \<and>
       snd (auth_mgr_login e user password s) = save_sessions e (s\<lparr> sessions := sessions (snd (auth_mgr_login e user password s)) \<rparr>))"
proof (cases "\<exists>u p h th. user = Some u \<and> password = Some p \<and> u = username s \<and> password_set s \<and>
    hash_password e p = (True, h) \<and> constant_time_equal h (password_hash s) \<and>
    hash_password e (generate_random_hex e 32) = (True, th)")
  case True
  then obtain p h th where c: "user = Some (username s)" "password = Some p" "password_set s"
    "hash_password e p = (True, h)" "constant_time_equal h (password_hash s)"
    "hash_password e (generate_random_hex e 32) = (True, th)" by auto
  have h: "h = sha p" "length h = 32" "th = sha (generate_random_hex e 32)"
    using hash_password_ok [OF assms(1)] c by auto
  then have "sha p = password_hash s" using c(5) assms(2) by (simp add: constant_time_equal_iff auth_wf_def)
  moreover obtain i s' where f: "find_free_session s = (Some i, s')" "i < 4"
      "sessions s' = (sessions s)[i := sessions s' ! i]" "s' = s\<lparr> sessions := sessions s' \<rparr>"
    using find_free_session_found [of s] assms(2) by (auto simp: auth_wf_def)
  moreover have "(sessions s')[i := x] = (sessions s)[i := x]" for x
    using f(3) by (metis list_update_overwrite)
  moreover have "s'\<lparr> sessions := ss \<rparr> = s\<lparr> sessions := ss \<rparr>" for ss
    by (subst f(4)) simp
  ultimately show ?thesis
    using c h by (auto simp: auth_mgr_login_def AUTH_SESSION_TOKEN_LEN_def upd_session_def Let_def)
next
  case False
  then show ?thesis
    by (cases user; cases password) (auto simp: auth_mgr_login_def AUTH_SESSION_TOKEN_LEN_def Let_def split: prod.splits)
qed


section \<open>Every step keeps the state well formed\<close>

lemma length_random_hex [simp]: "length (generate_random_hex e n) = n"
  by (simp add: generate_random_hex_def)

definition digest_of :: "(bytes \<Rightarrow> bytes) \<Rightarrow> bytes option \<Rightarrow> auth \<Rightarrow> bool" where
  "digest_of sha stored s \<longleftrightarrow> (password_set s \<longrightarrow> (\<exists>p. password_hash s = sha p) \<or> stored = Some (password_hash s))"

text \<open>
  The invariant: authentication is on, there is an API key, all digests have their length, and a
  password counts as set only with the digest of a password (or the one stored in NVS), never with
  the zero bytes that a failed hash leaves.
\<close>

definition auth_inv :: "(bytes \<Rightarrow> bytes) \<Rightarrow> bytes option \<Rightarrow> auth \<Rightarrow> bool" where
  "auth_inv sha stored s \<longleftrightarrow> auth_wf s \<and> web_auth_enabled s \<and> api_auth_enabled s \<and> api_key s \<noteq> [] \<and> digest_of sha stored s"

lemma auth_inv_cong:
  assumes "web_auth_enabled s' = web_auth_enabled s" "api_auth_enabled s' = api_auth_enabled s" "api_key s' = api_key s"
    "password_set s' = password_set s" "password_hash s' = password_hash s" "auth_wf s \<Longrightarrow> auth_wf s'"
  shows "auth_inv sha stored s \<Longrightarrow> auth_inv sha stored s'"
  using assms by (simp add: auth_inv_def digest_of_def)

lemma auth_inv_saved [simp]:
  "auth_inv sha stored (save_sessions e s) = auth_inv sha stored s"
  "auth_inv sha stored (snd (save_to_nvs e s)) = auth_inv sha stored s"
  by (simp_all add: auth_inv_def digest_of_def)

lemma logout_all_inv:
  assumes "auth_inv sha stored s"
  shows "auth_inv sha stored (auth_mgr_logout_all e s)"
proof -
  have "auth_wf (auth_mgr_logout_all e s)"
    using assms by (auto simp: auth_mgr_logout_all_def auth_inv_def auth_wf_def)
  then show ?thesis using assms by (simp add: auth_inv_def digest_of_def auth_mgr_logout_all_def)
qed

lemma found_session_inv:
  assumes "sha_env sha e" "auth_inv sha stored s" "find_session e token s = Some i"
    "token_hash (f (sessions s ! i)) = token_hash (sessions s ! i)"
  shows "auth_inv sha stored (upd_session i f s)"
proof -
  have wf: "auth_wf s" using assms(2) by (simp add: auth_inv_def)
  then have "i < 4" using find_session_wf assms(1,3) by blast
  then have "auth_wf (upd_session i f s)"
    using auth_wf_nth [OF wf] assms(4) by (intro auth_wf_upd_session [OF wf]) simp
  then show ?thesis using assms(2) by (simp add: auth_inv_def digest_of_def)
qed

lemma set_credentials_inv:
  assumes "sha_env sha e" "auth_inv sha stored s"
  shows "auth_inv sha stored (snd (auth_mgr_set_credentials e user password s))"
proof -
  define t where "t = (case user of None \<Rightarrow> s | Some u \<Rightarrow> if u = [] then s else s\<lparr> username := take AUTH_MAX_USERNAME_LEN u \<rparr>)"
  define p where "p = (case password of None \<Rightarrow> [] | Some p \<Rightarrow> p)"
  have t: "auth_inv sha stored t" "auth_wf t"
    using assms(2) by (auto simp: t_def auth_inv_def auth_wf_def digest_of_def split: option.splits)
  obtain ok h where oh: "hash_password e p = (ok, h)" by fastforce
  have len: "length h = 32" using hash_password_len [OF assms(1), of p] oh by simp
  have digest: "ok \<Longrightarrow> h = sha p" using hash_password_ok [OF assms(1)] oh by auto
  have 1: "auth_inv sha stored (t\<lparr> password_hash := h, password_set := False \<rparr>)"
    using t len by (simp add: auth_inv_def digest_of_def auth_wf_def)
  have 2: "ok \<Longrightarrow> auth_inv sha stored (t\<lparr> password_hash := h, password_set := True \<rparr>)"
    using t len digest by (auto simp: auth_inv_def digest_of_def auth_wf_def)
  have "snd (auth_mgr_set_credentials e user password s) \<in>
    {auth_mgr_logout_all e (t\<lparr> password_hash := h, password_set := False \<rparr>), t} \<union>
    (if ok then {auth_mgr_logout_all e (snd (save_to_nvs e (t\<lparr> password_hash := h, password_set := True \<rparr>)))} else {}) \<union>
    {auth_mgr_logout_all e (snd (save_to_nvs e t))}"
    unfolding auth_mgr_set_credentials_def
    by (simp add: p_def [symmetric] oh t_def split: option.split prod.split)
  moreover have "auth_inv sha stored (auth_mgr_logout_all e (t\<lparr> password_hash := h, password_set := False \<rparr>))"
    "auth_inv sha stored (auth_mgr_logout_all e (snd (save_to_nvs e t)))"
    "ok \<Longrightarrow> auth_inv sha stored (auth_mgr_logout_all e (snd (save_to_nvs e (t\<lparr> password_hash := h, password_set := True \<rparr>))))"
    using t 1 2 by (intro logout_all_inv; simp)+
  ultimately show ?thesis using t(1) by (cases ok) (elim UnE insertE; simp)+
qed


lemma login_inv:
  assumes "sha_env sha e" "auth_inv sha stored s"
  shows "auth_inv sha stored (snd (auth_mgr_login e user password s))"
proof -
  have wf: "auth_wf s" using assms(2) by (simp add: auth_inv_def)
  from login_cases [OF assms(1) wf, of user password] show ?thesis
  proof (elim disjE exE conjE)
    fix i
    let ?s = "snd (auth_mgr_login e user password s)"
    let ?x = "\<lparr> active = True, token_hash = sha (generate_random_hex e 32), created_at = e_now e, last_used = e_now e \<rparr>"
    assume ss: "sessions ?s = (sessions s)[i := ?x]" and eq: "?s = save_sessions e (s\<lparr> sessions := sessions ?s \<rparr>)"
    have "auth_wf (s\<lparr> sessions := sessions ?s \<rparr>)"
      unfolding ss using assms(1) by (intro auth_wf_update [OF wf]) (simp add: sha_env_def)
    then have "auth_inv sha stored (s\<lparr> sessions := sessions ?s \<rparr>)"
      using assms(2) by (simp add: auth_inv_def digest_of_def)
    then show ?thesis by (subst eq) simp
  qed (use assms(2) in simp)
qed

lemma issue_inv:
  assumes "sha_env sha e" "auth_inv sha stored s" "auth_mgr_issue_integration_token e s = Some (r, s')"
  shows "auth_inv sha stored s'"
proof -
  have "length (snd (hash_password e (generate_random_hex e 64))) = 32" by (rule hash_password_len [OF assms(1)])
  then show ?thesis using assms(2,3)
    by (auto simp: auth_mgr_issue_integration_token_def Let_def AUTH_INTEGRATION_TOKEN_LEN_def auth_inv_def auth_wf_def
        digest_of_def split: prod.splits if_splits)
qed

lemma revoke_inv:
  "auth_inv sha stored s \<Longrightarrow> auth_mgr_revoke_integration_token e s = Some (r, s') \<Longrightarrow> auth_inv sha stored s'"
  by (auto simp: auth_mgr_revoke_integration_token_def Let_def auth_inv_def auth_wf_def digest_of_def split: if_splits)

lemma begin_inv:
  "auth_inv sha stored s \<Longrightarrow> auth_mgr_begin_control_write g s = Some (r, s') \<Longrightarrow> auth_inv sha stored s'"
  by (auto simp: auth_mgr_begin_control_write_def auth_inv_def auth_wf_def digest_of_def split: if_splits)

lemma regenerate_inv: "auth_inv sha stored s \<Longrightarrow> auth_inv sha stored (snd (auth_mgr_regenerate_api_key e s))"
proof -
  assume "auth_inv sha stored s"
  moreover have "generate_random_hex e AUTH_API_KEY_LEN \<noteq> []"
    by (metis length_random_hex AUTH_API_KEY_LEN_def list.size(3) zero_neq_numeral)
  ultimately show ?thesis
    by (simp add: auth_mgr_regenerate_api_key_def Let_def auth_inv_def auth_wf_def digest_of_def)
qed

lemma auth_step_inv:
  assumes "\<And>e. env_of ev = Some e \<Longrightarrow> sha_env sha e" "auth_inv sha stored s"
  shows "auth_inv sha stored (auth_step s ev)"
proof (cases ev)
  case (Validate e t)
  then show ?thesis using found_session_inv [OF assms(1) assms(2)] assms(2)
    by (cases "find_session e t s") (auto simp: auth_mgr_validate_session_def)
next
  case (Logout e t)
  then show ?thesis using found_session_inv [OF assms(1) assms(2)] assms(2)
    by (cases "find_session e t s") (auto simp: auth_mgr_logout_def)
next
  case (Set_web e b)
  then show ?thesis using assms(2) by (auto simp: auth_mgr_set_web_auth_enabled_def auth_inv_def)
next
  case (Set_api e b)
  then show ?thesis using assms(2) by (auto simp: auth_mgr_set_api_auth_enabled_def auth_inv_def)
next
  case End_write
  then show ?thesis using assms(2) by (auto simp: auth_mgr_end_control_write_def auth_inv_def auth_wf_def digest_of_def)
qed (use assms in \<open>auto intro: login_inv logout_all_inv set_credentials_inv regenerate_inv issue_inv revoke_inv begin_inv
    split: option.splits\<close>)

text \<open>The password digest NVS returns: a blob shorter than the buffer leaves its zero bytes.\<close>

definition stored_digest :: "nvs_answers \<Rightarrow> bytes option" where
  "stored_digest a = map_option (\<lambda>h. overlay h (replicate 32 0)) (l_pass a)"

text \<open>
  What NVS documents: a blob is never longer than the buffer it is read into; the array of a sessions
  blob is the buffer itself.
\<close>

definition nvs_lengths :: "nvs_answers \<Rightarrow> bool" where
  "nvs_lengths a \<longleftrightarrow> (case l_pass a of None \<Rightarrow> True | Some h \<Rightarrow> length h \<le> 32) \<and>
     (case l_integration a of None \<Rightarrow> True | Some h \<Rightarrow> length h \<le> 32) \<and>
     (case l_sessions a of None \<Rightarrow> True
      | Some (n, b) \<Rightarrow> length (ss_sessions b) = 4 \<and> list_all (\<lambda>x. length (ss_token_hash x) = 32) (ss_sessions b))"

lemma load_from_nvs_wf:
  assumes "nvs_lengths a" "auth_wf s" "password_set s = False" "password_hash s = replicate 32 0"
  shows "auth_wf (snd (load_from_nvs a s))" "digest_of sha (stored_digest a) (snd (load_from_nvs a s))"
  using assms
  by (auto simp: load_from_nvs_def Let_def auth_wf_def overlay_def digest_of_def nvs_lengths_def stored_digest_def
      split: option.splits)

lemma load_sessions_inv:
  assumes "nvs_lengths a" "auth_wf s"
  shows "auth_wf (load_sessions a s)"
proof (cases "l_sessions a")
  case (Some nb)
  then show ?thesis using assms
    by (cases nb) (auto simp: load_sessions_def auth_wf_def restored_def AUTH_MAX_SESSIONS_def min_def nvs_lengths_def list_all_iff
        dest!: in_set_takeD in_set_dropD)
qed (use assms(2) in \<open>simp add: load_sessions_def\<close>)


lemma load_sessions_fields [simp]:
  "web_auth_enabled (load_sessions a s) = web_auth_enabled s" "api_auth_enabled (load_sessions a s) = api_auth_enabled s"
  "username (load_sessions a s) = username s" "password_set (load_sessions a s) = password_set s"
  "password_hash (load_sessions a s) = password_hash s" "api_key (load_sessions a s) = api_key s"
  by (simp_all add: load_sessions_def split: option.split prod.split)

lemma auth_mgr_init_inv:
  assumes "sha_env sha e" "nvs_lengths a" "\<not> initialized s"
  shows "auth_inv sha (stored_digest a) (auth_mgr_init e a s) \<and> initialized (auth_mgr_init e a s)"
proof -
  let ?P = "\<lambda>s. auth_wf s \<and> digest_of sha (stored_digest a) s"
  define z where "z = auth_zero\<lparr> mutex_ready := True, nvs_calls := nvs_calls s \<rparr>"
  obtain ld s1 where l: "load_from_nvs a z = (ld, s1)" by fastforce
  have "auth_wf z" by (simp add: z_def auth_zero_def auth_wf_def session_zero_def AUTH_MAX_SESSIONS_def)
  moreover have "password_set z = False" "password_hash z = replicate 32 0" by (simp_all add: z_def auth_zero_def)
  ultimately have 1: "?P s1"
    using load_from_nvs_wf(1) [OF assms(2), of z] load_from_nvs_wf(2) [OF assms(2), of z sha] by (simp add: l)
  obtain ok h where oh: "hash_password e AUTH_FACTORY_PASSWORD = (ok, h)" by fastforce
  have len: "length h = 32" using hash_password_len [OF assms(1), of AUTH_FACTORY_PASSWORD] oh by simp
  have dig: "ok \<Longrightarrow> h = sha AUTH_FACTORY_PASSWORD" using hash_password_ok [OF assms(1)] oh by auto
  define s2 where "s2 = init_credentials e a ld s1"
  have 2: "?P s2"
    using 1 len dig load_sessions_inv [OF assms(2), of s1]
    by (auto simp: s2_def init_credentials_def oh digest_of_def auth_wf_def)
  define s3 where "s3 = require_auth e s2"
  have 3: "?P s3" "web_auth_enabled s3" "api_auth_enabled s3"
    using 2 by (auto simp: s3_def require_auth_def digest_of_def auth_wf_def)
  define s4 where "s4 = ensure_api_key e s3"
  have "generate_random_hex e AUTH_API_KEY_LEN \<noteq> []"
    by (metis length_random_hex AUTH_API_KEY_LEN_def list.size(3) zero_neq_numeral)
  then have 4: "?P s4" "web_auth_enabled s4" "api_auth_enabled s4" "api_key s4 \<noteq> []"
    using 3 by (auto simp: s4_def ensure_api_key_def digest_of_def auth_wf_def)
  have "auth_mgr_init e a s = s4\<lparr> initialized := True \<rparr>"
    using assms(3) by (simp add: auth_mgr_init_def z_def [symmetric] l s4_def s3_def s2_def)
  then show ?thesis using 4 by (simp add: auth_inv_def auth_wf_def digest_of_def)
qed

lemma auth_after_inv:
  assumes "sha_history sha es" "auth_inv sha stored s"
  shows "auth_inv sha stored (auth_after s es)"
  using assms(1) by (induction es rule: rev_induct) (simp_all add: assms(2) auth_step_inv)

text \<open>
  C10: Authentication is mandatory and fails closed.  Whatever NVS returns at start-up, whatever
  writes and hashes fail, and whatever is called afterwards: the web interface and the API stay
  authenticated, there is an API key, and a password counts as set only with the digest of a
  password or the digest that was stored, never with the zero bytes of a failed hash.
\<close>

theorem authentication_mandatory:
  assumes "sha_env sha e" "nvs_lengths a" "\<not> initialized s" "sha_history sha es"
  shows "let s' = auth_after (auth_mgr_init e a s) es in
    web_auth_enabled s' \<and> api_auth_enabled s' \<and> api_key s' \<noteq> [] \<and> auth_wf s' \<and>
    (password_set s' \<longrightarrow> (\<exists>p. password_hash s' = sha p) \<or> stored_digest a = Some (password_hash s'))"
  using auth_after_inv [OF assms(4), of "stored_digest a"] auth_mgr_init_inv [OF assms(1-3)]
  by (simp add: auth_inv_def digest_of_def Let_def)

text \<open>A digest that keeps the first 32 characters, and an NVS that is empty.\<close>

definition demo_sha :: "bytes \<Rightarrow> bytes" where
  "demo_sha x = take 32 (x @ replicate 32 0)"

definition demo_env :: auth_env where
  "demo_env = \<lparr> e_hash = (\<lambda>x. Some (demo_sha x)), e_now = 1000, e_random = (\<lambda>i. of_nat i), e_open = True,
     e_set = (\<lambda>_. True), e_erase = Erased, e_commit = True \<rparr>"

definition empty_nvs :: nvs_answers where
  "empty_nvs = \<lparr> l_open = False, l_web = None, l_api = None, l_username = None, l_pass = None, l_key = None,
     l_integration = None, l_sessions = None \<rparr>"

lemma demo_env_sha [simp]: "sha_env demo_sha demo_env"
  by (simp add: sha_env_def demo_env_def demo_sha_def min_def)

lemma demo_login_history [simp]: "sha_history demo_sha [Login demo_env u p]"
  by (simp add: sha_history_def)

theorem authentication_mandatory_witness:
  "let s' = auth_after (auth_mgr_init demo_env empty_nvs auth_zero) [Login demo_env None None] in
     web_auth_enabled s' \<and> api_auth_enabled s' \<and> api_key s' \<noteq> []"
  using authentication_mandatory [of demo_sha demo_env empty_nvs auth_zero "[Login demo_env None None]"]
  by (simp add: nvs_lengths_def empty_nvs_def auth_zero_def Let_def)


section \<open>A session was opened by a login\<close>

text \<open>Events that close every session: signing everyone out and changing a credential.\<close>

fun closes_all :: "auth_event \<Rightarrow> bool" where
  "closes_all (Logout_all e) = True"
| "closes_all (Set_credentials e u p) = (u \<noteq> None \<and> u \<noteq> Some [] \<or> p \<noteq> None \<and> p \<noteq> Some [])"
| "closes_all _ = False"

text \<open>
  The login at this point of the history, in state \<open>s\<close>, opened a session for a token with digest \<open>h\<close>
  at time \<open>t\<close>: the name and the password were right and the token was handed out.
\<close>

fun opened_by :: "(bytes \<Rightarrow> bytes) \<Rightarrow> auth \<Rightarrow> auth_event \<Rightarrow> bytes \<Rightarrow> int \<Rightarrow> bool" where
  "opened_by sha s (Login e u p) h t =
     (case fst (auth_mgr_login e u p s) of None \<Rightarrow> False
      | Some token \<Rightarrow> h = sha token \<and> t = e_now e \<and> u = Some (username s) \<and> password_set s \<and>
          (case p of None \<Rightarrow> False | Some p \<Rightarrow> sha p = password_hash s))"
| "opened_by sha s _ h t = False"

definition granted :: "(bytes \<Rightarrow> bytes) \<Rightarrow> auth \<Rightarrow> auth_event list \<Rightarrow> bytes \<Rightarrow> int \<Rightarrow> bool" where
  "granted sha s es h t \<longleftrightarrow> (\<exists>pre ev post. es = pre @ ev # post \<and> opened_by sha (auth_after s pre) ev h t \<and>
     list_all (\<lambda>ev. \<not> closes_all ev) post)"

lemma granted_snoc:
  "granted sha s es h t \<Longrightarrow> \<not> closes_all ev \<Longrightarrow> granted sha s (es @ [ev]) h t"
  unfolding granted_def by (elim exE conjE, rename_tac pre e post, rule_tac x = pre in exI) auto

lemma granted_now: "opened_by sha (auth_after s es) ev h t \<Longrightarrow> granted sha s (es @ [ev]) h t"
  unfolding granted_def by fastforce

lemma set_credentials_kept:
  assumes "\<not> closes_all (Set_credentials e u p)"
  shows "snd (auth_mgr_set_credentials e u p s) = s"
  using assms by (auto simp: auth_mgr_set_credentials_def Let_def split: option.splits prod.splits if_splits)

lemma set_credentials_none:
  assumes "closes_all (Set_credentials e u p)" "x \<in> set (sessions (snd (auth_mgr_set_credentials e u p s)))"
  shows "\<not> active x"
  using assms logout_all_none
  by (fastforce simp: auth_mgr_set_credentials_def Let_def split: option.splits prod.splits if_splits)

lemma step_sessions:
  assumes "\<And>e. env_of ev = Some e \<Longrightarrow> sha_env sha e" "auth_wf s"
    and x: "x \<in> set (sessions (auth_step s ev))" "active x"
  shows "\<not> closes_all ev \<and> (\<exists>y \<in> set (sessions s). active y \<and> token_hash y = token_hash x \<and> created_at y = created_at x) \<or>
    opened_by sha s ev (token_hash x) (created_at x)"
proof (cases ev)
  case (Login e u p)
  then have "sha_env sha e" using assms(1) by simp
  from login_cases [OF this assms(2), of u p] show ?thesis
  proof (elim disjE exE conjE, goal_cases)
    case 1
    then show ?case using x Login by auto
  next
    case (2 p i)
    then show ?case using x Login
        set_update_subset_insert [of "sessions s" i "\<lparr> active = True, token_hash = sha (generate_random_hex e 32),
          created_at = e_now e, last_used = e_now e \<rparr>"] by auto
  qed
next
  case (Validate e t)
  then show ?thesis using validate_kept [OF assms(1,2), of e t] x by (auto simp: kept_def)
next
  case (Logout e t)
  then show ?thesis using logout_kept [OF assms(1,2), of e t] x by (auto simp: kept_def)
next
  case (Logout_all e)
  then show ?thesis using logout_all_none x by auto
next
  case (Set_credentials e u p)
  then show ?thesis
    using set_credentials_none [of e u p x s] set_credentials_kept [of e u p s] x by (cases "closes_all ev") auto
qed (use x in \<open>auto simp: auth_mgr_set_web_auth_enabled_def auth_mgr_set_api_auth_enabled_def
    auth_mgr_regenerate_api_key_def auth_mgr_issue_integration_token_def auth_mgr_revoke_integration_token_def
    auth_mgr_begin_control_write_def auth_mgr_end_control_write_def Let_def split: if_splits prod.splits option.splits\<close>)

lemma sessions_granted:
  assumes "sha_history sha es" "auth_inv sha stored s" "list_all (\<lambda>x. \<not> active x) (sessions s)"
    "x \<in> set (sessions (auth_after s es))" "active x"
  shows "granted sha s es (token_hash x) (created_at x)"
  using assms(1,4,5)
proof (induction es arbitrary: x rule: rev_induct)
  case Nil
  then show ?case using assms(3) by (auto simp: list_all_iff)
next
  case (snoc ev es)
  have wf: "auth_wf (auth_after s es)"
    using auth_after_inv [OF _ assms(2)] snoc.prems(1) by (simp add: auth_inv_def)
  have env: "\<And>e. env_of ev = Some e \<Longrightarrow> sha_env sha e" using snoc.prems(1) by simp
  from step_sessions [OF env wf] snoc.prems(2,3)
  consider y where "\<not> closes_all ev" "y \<in> set (sessions (auth_after s es))" "active y"
      "token_hash y = token_hash x" "created_at y = created_at x"
    | "opened_by sha (auth_after s es) ev (token_hash x) (created_at x)"
    by auto
  then show ?case
  proof cases
    case 1
    then show ?thesis using snoc.IH [of y] snoc.prems(1) granted_snoc by simp
  qed (rule granted_now)
qed

text \<open>
  C4: A session cookie is accepted only if it comes from a login.  When a token validates, the
  history contains a login with the user name and the password of that moment that handed out a
  token with the same digest, at most 30 days ago, and since then nobody signed everyone out and no
  credential changed.  (The history starts in any well-formed state without sessions; \<open>sha\<close> is SHA-256.)
\<close>

theorem session_comes_from_login:
  assumes "sha_history sha es" "sha_env sha e" "auth_inv sha stored s" "list_all (\<lambda>x. \<not> active x) (sessions s)"
    and "fst (auth_mgr_validate_session e (Some token) (auth_after s es))"
  shows "\<exists>t. granted sha s es (sha token) t \<and> e_now e - t \<le> 30 * 24 * 60 * 60"
proof -
  have wf: "auth_wf (auth_after s es)"
    using auth_after_inv [OF assms(1,3)] by (simp add: auth_inv_def)
  obtain i where i: "find_session e (Some token) (auth_after s es) = Some i"
    "\<not> is_session_expired e (sessions (auth_after s es) ! i)"
    using assms(5) by (auto simp: auth_mgr_validate_session_def split: option.splits if_splits)
  let ?x = "sessions (auth_after s es) ! i"
  have "i < 4" "active ?x" "token_hash ?x = sha token"
    using find_session_wf [OF i(1) assms(2) wf] by auto
  moreover then have "?x \<in> set (sessions (auth_after s es))" using wf by (simp add: auth_wf_def)
  ultimately have "granted sha s es (sha token) (created_at ?x)"
    using sessions_granted [OF assms(1,3,4)] by metis
  moreover have "e_now e - created_at ?x \<le> 30 * 24 * 60 * 60"
    using i(2) by (simp add: is_session_expired_def AUTH_SESSION_LIFETIME_SEC_def)
  ultimately show ?thesis by blast
qed


definition demo_start :: auth where
  "demo_start = auth_mgr_init demo_env empty_nvs auth_zero"

lemma demo_start_inv: "auth_inv demo_sha None demo_start"
  using auth_mgr_init_inv [OF demo_env_sha, of empty_nvs auth_zero]
  by (simp add: demo_start_def nvs_lengths_def empty_nvs_def auth_zero_def stored_digest_def)

text \<open>Signing in with the factory credentials.\<close>

definition demo_sign_in :: auth_event where
  "demo_sign_in = Login demo_env (Some AUTH_FACTORY_USERNAME) (Some AUTH_FACTORY_PASSWORD)"

lemma demo_sign_in_history: "sha_history demo_sha [demo_sign_in]"
  by (simp add: demo_sign_in_def)

theorem session_comes_from_login_witness:
  "\<exists>t. granted demo_sha demo_start [demo_sign_in] (demo_sha (generate_random_hex demo_env 32)) t \<and> 1000 - t \<le> 30 * 24 * 60 * 60"
proof -
  have "list_all (\<lambda>x. \<not> active x) (sessions demo_start)" by code_simp
  moreover have "fst (auth_mgr_validate_session demo_env (Some (generate_random_hex demo_env 32)) (auth_after demo_start [demo_sign_in]))"
    by code_simp
  ultimately show ?thesis
    using session_comes_from_login [OF demo_sign_in_history demo_env_sha demo_start_inv] by (simp add: demo_env_def)
qed

section \<open>The token under a control write\<close>

definition token_state :: "auth \<Rightarrow> bytes \<times> bool \<times> u32 \<times> bool \<times> bool" where
  "token_state s = (integration_token_hash s, integration_token_set s, integration_generation s, mutex_ready s, mutex_held s)"

lemma find_free_session_token: "find_free_session s = (r, s') \<Longrightarrow> token_state s' = token_state s"
  by (auto simp: find_free_session_def token_state_def split: option.splits prod.splits if_splits)

lemma logout_all_token [simp]: "token_state (auth_mgr_logout_all e s) = token_state s"
  by (simp add: auth_mgr_logout_all_def token_state_def)

lemma saved_token [simp]:
  "token_state (save_sessions e s) = token_state s" "token_state (snd (save_to_nvs e s)) = token_state s"
  "token_state (upd_session i f s) = token_state s"
  by (simp_all add: token_state_def)

lemma login_token: "token_state (snd (auth_mgr_login e u p s)) = token_state s"
  by (auto simp: auth_mgr_login_def Let_def split: option.splits prod.splits dest: find_free_session_token)

lemma set_credentials_token: "token_state (snd (auth_mgr_set_credentials e u p s)) = token_state s"
proof -
  have upd [simp]: "token_state (s\<lparr> username := a \<rparr>) = token_state s"
    "token_state (s\<lparr> password_hash := h, password_set := b \<rparr>) = token_state s" for s a h b
    by (simp_all add: token_state_def)
  have saved: "token_state s'' = token_state s'" if "save_to_nvs e s' = (b, s'')" for b s' s''
    using saved_token(2) [of e s'] that by simp
  show ?thesis
    by (auto simp: auth_mgr_set_credentials_def Let_def split: option.split prod.split dest!: saved)
qed

fun changes_token :: "auth_event \<Rightarrow> bool" where
  "changes_token (Issue e) = True" | "changes_token (Revoke e) = True" | "changes_token _ = False"

fun takes_mutex :: "auth_event \<Rightarrow> bool" where
  "takes_mutex (Begin_write g) = True" | "takes_mutex End_write = True" | "takes_mutex ev = changes_token ev"

lemma other_step_token: "\<not> takes_mutex ev \<Longrightarrow> token_state (auth_step s ev) = token_state s"
proof (cases ev)
  case (Set_web e b)
  then show ?thesis by (simp add: auth_mgr_set_web_auth_enabled_def Let_def) (simp add: token_state_def)
next
  case (Set_api e b)
  then show ?thesis by (simp add: auth_mgr_set_api_auth_enabled_def) (simp add: token_state_def)
next
  case (Regenerate e)
  then show ?thesis by (simp add: auth_mgr_regenerate_api_key_def Let_def) (simp add: token_state_def)
qed (auto simp: login_token set_credentials_token auth_mgr_validate_session_def auth_mgr_logout_def split: option.split)

lemma issue_token:
  assumes "auth_mgr_issue_integration_token e s = Some (r, s')"
  shows "token_state s' = token_state s \<or> integration_generation s' = integration_generation s + 1"
    "mutex_ready s \<Longrightarrow> \<not> mutex_held s"
  using assms by (auto simp: auth_mgr_issue_integration_token_def Let_def token_state_def split: if_splits prod.splits)

lemma revoke_token:
  assumes "auth_mgr_revoke_integration_token e s = Some (r, s')"
  shows "token_state s' = token_state s \<or> integration_generation s' = integration_generation s + 1"
    "mutex_ready s \<Longrightarrow> \<not> mutex_held s"
  using assms by (auto simp: auth_mgr_revoke_integration_token_def Let_def token_state_def split: if_splits)

text \<open>A step leaves the token alone, or is an issue or revocation that raises the generation.\<close>

lemma step_generation:
  "integration_token_hash (auth_step s ev) = integration_token_hash s \<and>
     integration_token_set (auth_step s ev) = integration_token_set s \<and>
     integration_generation (auth_step s ev) = integration_generation s \<or>
   changes_token ev \<and> integration_generation (auth_step s ev) = integration_generation s + 1"
proof (cases "takes_mutex ev")
  case True
  then show ?thesis
    by (cases ev) (auto simp: token_state_def auth_mgr_begin_control_write_def auth_mgr_end_control_write_def
        split: option.split dest!: issue_token(1) revoke_token(1))
next
  case False
  then show ?thesis using other_step_token [OF False, of s] by (simp add: token_state_def)
qed

lemma generation_counts:
  "\<exists>k. k \<le> length (filter changes_token es) \<and>
     integration_generation (auth_after s es) = integration_generation s + of_nat k \<and>
     (k = 0 \<longrightarrow> integration_token_hash (auth_after s es) = integration_token_hash s \<and>
        integration_token_set (auth_after s es) = integration_token_set s)"
proof (induction es rule: rev_induct)
  case (snoc ev es)
  then obtain k where k: "k \<le> length (filter changes_token es)"
    "integration_generation (auth_after s es) = integration_generation s + of_nat k"
    "k = 0 \<longrightarrow> integration_token_hash (auth_after s es) = integration_token_hash s \<and>
        integration_token_set (auth_after s es) = integration_token_set s" by blast
  from step_generation [of "auth_after s es" ev] show ?case
  proof
    assume "changes_token ev \<and> integration_generation (auth_step (auth_after s es) ev) = integration_generation (auth_after s es) + 1"
    with k show ?thesis by (intro exI [of _ "Suc k"]) (simp add: add.assoc)
  qed (use k in \<open>intro exI [of _ k]; simp\<close>)
qed simp

lemma held_step:
  assumes "mutex_held s" "mutex_ready s" "ev \<noteq> End_write"
  shows "token_state (auth_step s ev) = token_state s"
proof (cases "takes_mutex ev")
  case True
  then show ?thesis using assms
    by (cases ev) (auto simp: auth_mgr_begin_control_write_def auth_mgr_issue_integration_token_def
        auth_mgr_revoke_integration_token_def)
qed (rule other_step_token)

lemma held_after:
  assumes "mutex_held s" "mutex_ready s" "End_write \<notin> set es"
  shows "token_state (auth_after s es) = token_state s"
  using assms(3)
proof (induction es rule: rev_induct)
  case (snoc ev es)
  then have "token_state (auth_after s es) = token_state s" by simp
  moreover from this have "mutex_held (auth_after s es)" "mutex_ready (auth_after s es)"
    using assms(1,2) by (simp_all add: token_state_def)
  ultimately show ?case using held_step [of "auth_after s es" ev] snoc.prems by auto
qed simp

text \<open>
  C17: A control write runs under the token that authorised it.  When a request was authorised for
  generation \<open>g\<close> and, after any history of fewer than \<open>2 ^ 32\<close> issues and revocations, begins its
  write for \<open>g\<close>, the token is still the one that was checked; and until the write ends, whatever else
  is called, nobody replaces or revokes it.
\<close>

theorem control_write_runs_under_its_token:
  assumes "auth_mgr_validate_integration_token_with_generation e token s = Some g"
    and "length (filter changes_token es) < 2 ^ 32"
    and "auth_mgr_begin_control_write g (auth_after s es) = Some (True, s')"
    and "End_write \<notin> set es'"
  shows "integration_token_set (auth_after s' es') \<and>
    integration_token_hash (auth_after s' es') = integration_token_hash s \<and>
    auth_mgr_issue_integration_token e' (auth_after s' es') = None \<and>
    auth_mgr_revoke_integration_token e' (auth_after s' es') = None"
proof -
  have g: "g = integration_generation s"
    using assms(1) by (auto simp: auth_mgr_validate_integration_token_with_generation_def split: option.splits if_splits prod.splits)
  have b: "mutex_ready (auth_after s es)" "integration_token_set (auth_after s es)"
    "integration_generation (auth_after s es) = g" "s' = (auth_after s es)\<lparr> mutex_held := True \<rparr>"
    using assms(3) by (auto simp: auth_mgr_begin_control_write_def split: if_splits)
  obtain k where k: "k < 2 ^ 32" "integration_generation (auth_after s es) = integration_generation s + of_nat k"
    "k = 0 \<longrightarrow> integration_token_hash (auth_after s es) = integration_token_hash s"
    using generation_counts [of es s] assms(2) by (meson le_less_trans)
  then have "(of_nat k :: u32) = 0" using b(3) g by simp
  then have "unat (of_nat k :: u32) = 0" by simp
  then have "k = 0" using k(1) by (simp add: unat_of_nat)
  then have hash: "integration_token_hash s' = integration_token_hash s" using k(3) b(4) by simp
  have "token_state (auth_after s' es') = token_state s'"
    by (rule held_after) (use b assms(4) in simp_all)
  then show ?thesis using b hash
    by (simp add: token_state_def auth_mgr_issue_integration_token_def auth_mgr_revoke_integration_token_def)
qed

definition demo_token :: bytes where
  "demo_token = generate_random_hex demo_env 64"

theorem control_write_runs_under_its_token_witness:
  "case auth_mgr_begin_control_write 1 (auth_after demo_start [Issue demo_env]) of None \<Rightarrow> False | Some (ok, s') \<Rightarrow>
     integration_token_set (auth_after s' [Revoke demo_env]) \<and>
     integration_token_hash (auth_after s' [Revoke demo_env]) = integration_token_hash (auth_after demo_start [Issue demo_env])"
proof -
  have 1: "auth_mgr_validate_integration_token_with_generation demo_env (Some demo_token) (auth_after demo_start [Issue demo_env]) = Some 1"
    by code_simp
  have "mutex_ready (auth_after demo_start [Issue demo_env]) \<and> \<not> mutex_held (auth_after demo_start [Issue demo_env]) \<and>
      integration_token_set (auth_after demo_start [Issue demo_env]) \<and> integration_generation (auth_after demo_start [Issue demo_env]) = 1"
    by code_simp
  then have 2: "auth_mgr_begin_control_write 1 (auth_after demo_start [Issue demo_env]) =
      Some (True, (auth_after demo_start [Issue demo_env])\<lparr> mutex_held := True \<rparr>)"
    by (simp add: auth_mgr_begin_control_write_def)
  from control_write_runs_under_its_token [OF 1, of "[]" _ "[Revoke demo_env]"] 2 show ?thesis by simp
qed


section \<open>Sessions survive a restart\<close>

lemma pack_sessions_eq:
  assumes "length ss \<le> 4"
  shows "pack_sessions ss = \<lparr> ss_version = SESSIONS_BLOB_VERSION, ss_count = length (filter active ss),
    ss_sessions = map stored_of (filter active ss) @ replicate (4 - length (filter active ss)) stored_zero \<rparr>"
  using assms
proof (induction ss rule: rev_induct)
  case Nil
  then show ?case by (simp add: pack_sessions_def AUTH_MAX_SESSIONS_def)
next
  case (snoc x ss)
  have step: "pack_sessions (ss @ [x]) = (if \<not> active x then pack_sessions ss
    else (pack_sessions ss)\<lparr> ss_sessions := (ss_sessions (pack_sessions ss))[ss_count (pack_sessions ss) := stored_of x],
                             ss_count := ss_count (pack_sessions ss) + 1 \<rparr>)"
    by (simp add: pack_sessions_def)
  have "length (filter active ss) < 4" using snoc.prems length_filter_le [of active ss] by (simp del: length_filter_le)
  then have "replicate (4 - length (filter active ss)) stored_zero = stored_zero # replicate (4 - Suc (length (filter active ss))) stored_zero"
    by (simp flip: replicate_Suc)
  then show ?case using snoc by (simp add: step list_update_append)
qed

lemma fold_find_last:
  "(case fold (\<lambda>i found. if P (xs ! i) then Some i else found) [0..<length xs] None of
      None \<Rightarrow> filter P xs = [] | Some i \<Rightarrow> filter P xs \<noteq> [] \<and> xs ! i = last (filter P xs))"
proof (induction xs rule: rev_induct)
  case (snoc x xs)
  have "fold (\<lambda>i found. if P ((xs @ [x]) ! i) then Some i else found) [0..<length xs] None =
    fold (\<lambda>i found. if P (xs ! i) then Some i else found) [0..<length xs] None"
    by (intro fold_cong) (auto simp: nth_append)
  moreover have "i < length xs" if "fold (\<lambda>i found. if P (xs ! i) then Some i else found) [0..<length xs] None = Some i" for i
    using fold_last [OF that] by simp
  ultimately show ?case using snoc by (auto simp: nth_append split: option.splits)
qed simp

text \<open>What a validation answers depends only on the last active session with the digest.\<close>

lemma validate_answer:
  assumes "length (sessions s) = 4"
  shows "fst (auth_mgr_validate_session e token s) =
    (case token of None \<Rightarrow> False | Some t \<Rightarrow>
       length t = 32 \<and> fst (hash_password e t) \<and>
       (let m = filter (\<lambda>x. active x \<and> constant_time_equal (token_hash x) (snd (hash_password e t))) (sessions s)
        in m \<noteq> [] \<and> e_now e - created_at (last m) \<le> AUTH_SESSION_LIFETIME_SEC))"
proof (cases token)
  case (Some t)
  obtain ok h where oh: "hash_password e t = (ok, h)" by fastforce
  show ?thesis
  proof (cases "length t = 32 \<and> ok")
    case True
    let ?P = "\<lambda>x. active x \<and> constant_time_equal (token_hash x) h"
    have f: "find_session e token s = fold (\<lambda>i found. if ?P (sessions s ! i) then Some i else found) [0..<length (sessions s)] None"
      using True Some oh assms by (simp add: find_session_def AUTH_SESSION_TOKEN_LEN_def AUTH_MAX_SESSIONS_def)
    from fold_find_last [of ?P "sessions s", folded f] show ?thesis
    proof (cases "find_session e token s")
      case (Some i)
      then have m: "filter ?P (sessions s) \<noteq> []" "sessions s ! i = last (filter ?P (sessions s))"
        using fold_find_last [of ?P "sessions s", folded f] by simp_all
      then have "?P (sessions s ! i)" using last_in_set [OF m(1)] by auto
      then show ?thesis using Some m \<open>token = Some t\<close> True oh
        by (simp add: auth_mgr_validate_session_def is_session_expired_def Let_def not_less)
    qed (use Some True oh in \<open>simp add: auth_mgr_validate_session_def Let_def\<close>)
  next
    case False
    then have "find_session e token s = None" using Some oh by (auto simp: find_session_def AUTH_SESSION_TOKEN_LEN_def)
    then show ?thesis using False Some oh by (auto simp: auth_mgr_validate_session_def)
  qed
qed (simp add: auth_mgr_validate_session_def find_session_def)

text \<open>
  C25: Nobody is signed out by a restart.  When NVS gives back at start-up the blob that
  \<open>save_sessions\<close> wrote, every token, at every time, is accepted after the restart exactly when it was
  accepted before.
\<close>

theorem sessions_survive_restart:
  assumes "length (sessions s) = 4" "length (sessions z) = 4" "list_all (\<lambda>x. \<not> active x) (sessions z)"
    and "nvs_calls (save_sessions es s) = nvs_calls s @ [Set_sessions blob n, Commit]"
    and "l_sessions a = Some (n, blob)"
  shows "fst (auth_mgr_validate_session e token (load_sessions a z)) = fst (auth_mgr_validate_session e token s)"
proof -
  let ?A = "filter active (sessions s)"
  have len: "length ?A \<le> 4" using length_filter_le [of active "sessions s"] assms(1) by simp
  have blob: "blob = pack_sessions (sessions s)" "n = sessions_blob_len blob"
    using assms(4) by (auto simp: save_sessions_def Let_def split: if_splits)
  have ss: "sessions (load_sessions a z) = map restored (map stored_of ?A) @ drop (length ?A) (sessions z)"
    using len assms(1,5) blob
    by (simp add: load_sessions_def pack_sessions_eq sessions_blob_len_def AUTH_MAX_SESSIONS_def)
  have r: "restored (stored_of x) = x\<lparr> last_used := created_at x \<rparr>" if "active x" for x
    using that by (cases x) (simp add: restored_def stored_of_def)
  have eq: "filter (\<lambda>x. active x \<and> constant_time_equal (token_hash x) h) (sessions (load_sessions a z)) =
      map (\<lambda>x. x\<lparr> last_used := created_at x \<rparr>) (filter (\<lambda>x. active x \<and> constant_time_equal (token_hash x) h) (sessions s))" for h
  proof -
    have "filter (\<lambda>x. active x \<and> constant_time_equal (token_hash x) h) (drop (length ?A) (sessions z)) = []"
      using assms(3) by (auto simp: filter_empty_conv list_all_iff dest: in_set_dropD)
    moreover have "filter (\<lambda>x. active x \<and> constant_time_equal (token_hash x) h) (map restored (map stored_of (filter active xs))) =
      map (\<lambda>x. x\<lparr> last_used := created_at x \<rparr>) (filter (\<lambda>x. active x \<and> constant_time_equal (token_hash x) h) xs)"
      for xs by (induction xs) (auto simp: r)
    ultimately show ?thesis by (simp add: ss)
  qed
  have "length (sessions (load_sessions a z)) = 4" using len assms(2) by (simp add: ss)
  then show ?thesis
    by (simp add: validate_answer assms(1) eq Let_def last_map split: option.split cong: conj_cong)
qed

definition demo_signed_in :: auth where
  "demo_signed_in = auth_after demo_start [demo_sign_in]"

definition restart_nvs :: nvs_answers where
  "restart_nvs = empty_nvs\<lparr> l_sessions := Some (42, pack_sessions (sessions demo_signed_in)) \<rparr>"

theorem sessions_survive_restart_witness:
  "fst (auth_mgr_validate_session demo_env (Some (generate_random_hex demo_env 32)) (load_sessions restart_nvs auth_zero))"
proof -
  have 1: "length (sessions demo_signed_in) = 4" "length (sessions auth_zero) = 4" by code_simp+
  have 2: "list_all (\<lambda>x. \<not> active x) (sessions auth_zero)" by code_simp
  have 3: "nvs_calls (save_sessions demo_env demo_signed_in) =
      nvs_calls demo_signed_in @ [Set_sessions (pack_sessions (sessions demo_signed_in)) 42, Commit]" by code_simp
  have "fst (auth_mgr_validate_session demo_env (Some (generate_random_hex demo_env 32)) demo_signed_in)" by code_simp
  then show ?thesis
    using sessions_survive_restart [OF 1 2 3, of restart_nvs] by (simp add: restart_nvs_def)
qed

end
