(* ===== verification/Log_Buffer.thy ===== *)
theory Log_Buffer
  imports Prelude
begin

text \<open>
  The log ring in RAM, \<open>main/log_buffer.cpp\<close>: a hook takes every formatted log line apart and keeps
  the last 256 entries for the web interface.

  A line is the bytes that \<open>vsnprintf\<close> produced, its terminating zero is at index \<open>length line\<close>; reads go
  through \<open>rd\<close> on the line with that zero, so an access outside the hook's buffer is \<open>None\<close>.  A
  pointer into the line is an index.  The log level is its number (\<open>ESP_LOG_ERROR\<close> is 1).  The mutex is
  the atomicity of an operation, \<open>mutex_made\<close> says whether it exists.
\<close>

section \<open>State\<close>

definition LOG_BUFFER_MAX_ENTRIES :: nat where "LOG_BUFFER_MAX_ENTRIES = 256"
definition LOG_BUFFER_MSG_SIZE :: nat where "LOG_BUFFER_MSG_SIZE = 192"
definition LOG_BUFFER_TAG_SIZE :: nat where "LOG_BUFFER_TAG_SIZE = 24"

record log_entry =
  le_seq :: u32
  le_uptime_ms :: u32
  le_level :: nat
  le_tag :: bytes
  le_message :: bytes

definition entry_zero :: log_entry where
  "entry_zero = \<lparr> le_seq = 0, le_uptime_ms = 0, le_level = 0, le_tag = [], le_message = [] \<rparr>"

record log_ring =
  s_buffer :: "log_entry list"
  s_head :: nat
  s_count :: nat
  s_next_seq :: u32
  mutex_made :: bool

definition log_buffer_init :: log_ring where
  "log_buffer_init = \<lparr> s_buffer = replicate LOG_BUFFER_MAX_ENTRIES entry_zero, s_head = 0, s_count = 0,
     s_next_seq = 1, mutex_made = True \<rparr>"

section \<open>Taking a line apart\<close>

definition at :: "bytes \<Rightarrow> nat \<Rightarrow> u8 option" where
  "at line i = rd (line @ [0]) i"

text \<open>\<open>while (p < end && *p != 'm') p++\<close>, and \<open>memchr(p, c, end - p)\<close>.\<close>

function skip_until :: "u8 \<Rightarrow> bytes \<Rightarrow> nat \<Rightarrow> nat" where
  "skip_until c line p = (if p < length line \<and> line ! p \<noteq> c then skip_until c line (p + 1) else p)"
  by auto
termination by (relation "measure (\<lambda>(c, line, p). length line - p)") auto

declare skip_until.simps [simp del]

definition memchr :: "u8 \<Rightarrow> bytes \<Rightarrow> nat \<Rightarrow> nat option" where
  "memchr c line p = (let q = skip_until c line p in if q < length line then Some q else None)"

text \<open>\<open>strstr(q, ": ")\<close>: the outer \<open>None\<close> is a read past the terminating zero.\<close>

function find_separator :: "bytes \<Rightarrow> nat \<Rightarrow> nat option option" where
  "find_separator line q =
     (if length line < q then None
      else if q = length line \<or> line ! q = 0 then Some None
      else if line ! q = 58 then do {
        b \<leftarrow> at line (q + 1);
        if b = 32 then Some (Some q) else find_separator line (q + 1) }
      else find_separator line (q + 1))"
  by auto
termination by (relation "measure (\<lambda>(line, q). length line - q)") auto

declare find_separator.simps [simp del]

text \<open>\<open>while (msg_end > msg_start && (msg_end[-1] == '\\n' || msg_end[-1] == '\\r')) msg_end--\<close>\<close>

fun strip_newlines :: "bytes \<Rightarrow> nat \<Rightarrow> nat \<Rightarrow> nat option" where
  "strip_newlines line start 0 = Some 0"
| "strip_newlines line start (Suc e) =
     (if Suc e > start then do {
        b \<leftarrow> at line e;
        if b = 10 \<or> b = 13 then strip_newlines line start e else Some (Suc e) }
      else Some (Suc e))"

definition level_of_char :: "u8 \<Rightarrow> nat option" where
  "level_of_char c =
     (if c = 69 then Some 1 else if c = 87 then Some 2 else if c = 73 then Some 3
      else if c = 68 then Some 4 else if c = 86 then Some 5 else None)"

text \<open>Where the message ends, after trailing newlines and the colour reset.\<close>

definition message_end :: "bytes \<Rightarrow> nat \<Rightarrow> nat option" where
  "message_end line msg_start = do {
     e \<leftarrow> strip_newlines line msg_start (length line);
     if e - msg_start \<ge> 4 then do {
       m \<leftarrow> at line (e - 1);
       x \<leftarrow> at line (e - 4);
       Some (if m = 109 \<and> x = 27 then e - 4 else e) }
     else Some e }"

text \<open>\<open>memcpy\<close> of the bytes from \<open>a\<close> to \<open>b\<close>, at most \<open>size - 1\<close> of them.\<close>

definition copy_part :: "bytes \<Rightarrow> nat \<Rightarrow> nat \<Rightarrow> nat \<Rightarrow> bytes option" where
  "copy_part line a b sz =
     (let n = (if b - a \<ge> sz then sz - 1 else b - a)
      in if a + n \<le> length line then Some (take n (drop a line)) else None)"

text \<open>
  \<open>parse_and_store\<close> up to the entry it stores: level, tag and message, or \<open>Some None\<close> for a line that is
  not a standard one.
\<close>

definition parse_line :: "bytes \<Rightarrow> (nat \<times> bytes \<times> bytes) option option" where
  "parse_line line =
     (if line = [] then Some None
      else do {
        c0 \<leftarrow> at line 0;
        let p = (if c0 = 27 then let q = skip_until 109 line 0 in if q < length line then q + 1 else q else 0);
        if p \<ge> length line then Some None
        else do {
          c \<leftarrow> at line p;
          (case level_of_char c of None \<Rightarrow> Some None
           | Some level \<Rightarrow>
               (case memchr 41 line p of None \<Rightarrow> Some None
                | Some pc \<Rightarrow>
                    if \<not> pc + 2 < length line then Some None
                    else do {
                      sp \<leftarrow> at line (pc + 1);
                      if sp \<noteq> 32 then Some None
                      else do {
                        colon \<leftarrow> find_separator line (pc + 2);
                        (case colon of None \<Rightarrow> Some None
                         | Some colon \<Rightarrow>
                             if colon \<ge> length line then Some None
                             else do {
                               e \<leftarrow> message_end line (colon + 2);
                               tag \<leftarrow> copy_part line (pc + 2) colon LOG_BUFFER_TAG_SIZE;
                               msg \<leftarrow> copy_part line (colon + 2) e LOG_BUFFER_MSG_SIZE;
                               Some (Some (level, tag, msg)) }) } })) } })"

section \<open>The ring\<close>

definition store_entry :: "u32 \<Rightarrow> nat \<times> bytes \<times> bytes \<Rightarrow> log_ring \<Rightarrow> log_ring" where
  "store_entry uptime lvl_tag_msg s =
     (case lvl_tag_msg of (level, tag, msg) \<Rightarrow>
        s\<lparr> s_buffer := (s_buffer s)[s_head s := \<lparr> le_seq = s_next_seq s, le_uptime_ms = uptime, le_level = level,
                                                 le_tag = tag, le_message = msg \<rparr>],
           s_next_seq := s_next_seq s + 1,
           s_head := (s_head s + 1) mod LOG_BUFFER_MAX_ENTRIES,
           s_count := (if s_count s < LOG_BUFFER_MAX_ENTRIES then s_count s + 1 else s_count s) \<rparr>)"

definition parse_and_store :: "u32 \<Rightarrow> bytes \<Rightarrow> log_ring \<Rightarrow> log_ring option" where
  "parse_and_store uptime line s = do {
     r \<leftarrow> parse_line line;
     Some (case r of None \<Rightarrow> s | Some x \<Rightarrow> store_entry uptime x s) }"

text \<open>The hook formats into 280 bytes; \<open>output\<close> is all that \<open>vsnprintf\<close> would produce.\<close>

definition log_buffer_vprintf :: "u32 \<Rightarrow> bytes \<Rightarrow> log_ring \<Rightarrow> log_ring option" where
  "log_buffer_vprintf uptime output s =
     (let sz = LOG_BUFFER_MSG_SIZE + LOG_BUFFER_TAG_SIZE + 64
      in if length output > 0
         then parse_and_store uptime (take (if length output < sz then length output else sz - 1) output) s
         else Some s)"

definition oldest :: "log_ring \<Rightarrow> nat" where
  "oldest s = (if s_count s < LOG_BUFFER_MAX_ENTRIES then 0 else s_head s)"

text \<open>The loop of \<open>log_buffer_get\<close> from index \<open>i\<close> with \<open>written\<close> entries in \<open>out\<close>.\<close>

function get_loop :: "log_ring \<Rightarrow> nat \<Rightarrow> u32 \<Rightarrow> nat \<Rightarrow> nat \<Rightarrow> log_entry list \<Rightarrow> log_entry list" where
  "get_loop s max_count since_seq min_level i out =
     (if i < s_count s \<and> length out < max_count then
        let e = s_buffer s ! ((oldest s + i) mod LOG_BUFFER_MAX_ENTRIES)
        in if since_seq > 0 \<and> le_seq e \<le> since_seq then get_loop s max_count since_seq min_level (i + 1) out
           else if min_level > 0 \<and> le_level e > min_level then get_loop s max_count since_seq min_level (i + 1) out
           else get_loop s max_count since_seq min_level (i + 1) (out @ [e])
      else out)"
  by auto
termination by (relation "measure (\<lambda>(s, m, q, l, i, out). s_count s - i)") auto

declare get_loop.simps [simp del]

definition log_buffer_get :: "log_ring \<Rightarrow> int \<Rightarrow> u32 \<Rightarrow> nat \<Rightarrow> log_entry list" where
  "log_buffer_get s max_count since_seq min_level =
     (if \<not> mutex_made s \<or> max_count \<le> 0 then [] else get_loop s (nat max_count) since_seq min_level 0 [])"

definition log_buffer_count :: "log_ring \<Rightarrow> nat" where
  "log_buffer_count s = (if mutex_made s then s_count s else 0)"

definition log_buffer_get_latest_seq :: "log_ring \<Rightarrow> u32" where
  "log_buffer_get_latest_seq s = (if \<not> mutex_made s then 0 else if s_next_seq s > 1 then s_next_seq s - 1 else 0)"

definition log_buffer_latest_seq_at_level :: "log_ring \<Rightarrow> nat \<Rightarrow> u32" where
  "log_buffer_latest_seq_at_level s min_level =
     (if \<not> mutex_made s then 0
      else fold (\<lambda>i best.
             let e = s_buffer s ! nat ((int (s_head s) - 1 - int i) mod int LOG_BUFFER_MAX_ENTRIES)
             in if le_level e > 0 \<and> le_level e \<le> min_level \<and> le_seq e > best then le_seq e else best)
           [0..<s_count s] 0)"

definition log_buffer_clear :: "log_ring \<Rightarrow> log_ring" where
  "log_buffer_clear s =
     (if \<not> mutex_made s then s
      else s\<lparr> s_head := 0, s_count := 0, s_buffer := replicate LOG_BUFFER_MAX_ENTRIES entry_zero \<rparr>)"

definition log_level_char :: "nat \<Rightarrow> string" where
  "log_level_char level =
     (if level = 1 then ''E'' else if level = 2 then ''W'' else if level = 3 then ''I''
      else if level = 4 then ''D'' else if level = 5 then ''V'' else ''?'')"


section \<open>Every line is taken apart within its bytes\<close>

lemma at_in [simp]: "i \<le> length line \<Longrightarrow> at line i = Some ((line @ [0]) ! i)"
  by (simp add: at_def)

lemma skip_until_bounds:
  "p \<le> length line \<Longrightarrow> p \<le> skip_until c line p \<and> skip_until c line p \<le> length line"
proof (induction c line p rule: skip_until.induct)
  case (1 c line p)
  show ?case
  proof (cases "p < length line \<and> line ! p \<noteq> c")
    case True
    then have "skip_until c line p = skip_until c line (p + 1)" by (subst skip_until.simps) simp
    with 1(1) [OF True] True show ?thesis by simp
  next
    case False
    then have "skip_until c line p = p" by (subst skip_until.simps) auto
    with 1(2) show ?thesis by simp
  qed
qed

lemma find_separator_safe: "q \<le> length line \<Longrightarrow> find_separator line q \<noteq> None"
  by (induction line q rule: find_separator.induct) (subst find_separator.simps, auto)

lemma find_separator_bounds:
  "find_separator line q = Some (Some c) \<Longrightarrow> q \<le> c \<and> c + 1 < length line \<and> line ! c = 58 \<and> line ! (c + 1) = 32"
proof (induction line q rule: find_separator.induct)
  case (1 line q)
  then have q: "q < length line" "line ! q \<noteq> 0"
    by (subst (asm) (3) find_separator.simps, simp split: if_splits)+
  show ?case
  proof (cases "line ! q = 58 \<and> (line @ [0]) ! (q + 1) = 32")
    case True
    with q 1(3) have "c = q" by (subst (asm) find_separator.simps) simp
    then show ?thesis using True q by (auto simp: nth_append split: if_splits)
  next
    case False
    with q 1(3) have "find_separator line (q + 1) = Some (Some c)"
      by (subst (asm) find_separator.simps) (auto split: if_splits)
    with 1(1,2) q False show ?thesis by (cases "line ! q = 58") force+
  qed
qed

lemma strip_newlines_ok: "e \<le> length line \<Longrightarrow> \<exists>e'. strip_newlines line start e = Some e' \<and> e' \<le> e \<and> (start \<le> e \<longrightarrow> start \<le> e')"
  by (induction line start e rule: strip_newlines.induct) (auto intro: le_SucI)

lemma message_end_ok: "start \<le> length line \<Longrightarrow> \<exists>e. message_end line start = Some e \<and> start \<le> e \<and> e \<le> length line"
  using strip_newlines_ok [of "length line" line start] by (auto simp: message_end_def)

lemma copy_part_ok:
  "a \<le> b \<Longrightarrow> b \<le> length line \<Longrightarrow> 0 < sz \<Longrightarrow> copy_part line a b sz = Some (take (min (b - a) (sz - 1)) (drop a line))"
  by (auto simp: copy_part_def Let_def min_def)

lemma memchr_ok: "p \<le> length line \<Longrightarrow> memchr c line p = Some q \<Longrightarrow> p \<le> q \<and> q < length line"
  using skip_until_bounds [of p line c] by (auto simp: memchr_def Let_def split: if_splits)

text \<open>The part of \<open>parse_line\<close> after the level, at the character \<open>p\<close>.\<close>

lemma parse_line_ok:
  "\<exists>r. parse_line line = Some r \<and>
     (case r of None \<Rightarrow> True | Some (level, tag, msg) \<Rightarrow>
        level \<in> {1, 2, 3, 4, 5} \<and> length tag < LOG_BUFFER_TAG_SIZE \<and> length msg < LOG_BUFFER_MSG_SIZE)"
proof (cases "line = []")
  case False
  define p where "p = (if line ! 0 = 27 then let q = skip_until 109 line 0 in if q < length line then q + 1 else q else 0)"
  have p: "p \<le> length line"
    using skip_until_bounds [of 0 line 109] by (auto simp: p_def Let_def)
  have at0: "at line 0 = Some (line ! 0)" using False by (simp add: nth_append)
  show ?thesis
  proof (cases "p < length line")
    case pl: True
    show ?thesis
    proof (cases "level_of_char (line ! p)")
      case (Some level)
      then have level: "level \<in> {1, 2, 3, 4, 5}" by (auto simp: level_of_char_def split: if_splits)
      show ?thesis
      proof (cases "\<exists>pc. memchr 41 line p = Some pc \<and> pc + 2 < length line \<and> line ! (pc + 1) = 32")
        case True
        then obtain pc where pc: "memchr 41 line p = Some pc" "pc + 2 < length line" "line ! (pc + 1) = 32" by blast
        obtain sep where sep: "find_separator line (pc + 2) = Some sep"
          using find_separator_safe [of "pc + 2" line] pc(2) by auto
        show ?thesis
        proof (cases sep)
          case (Some colon)
          have c: "pc + 2 \<le> colon" "colon + 2 \<le> length line"
            using find_separator_bounds [OF sep [unfolded Some]] by simp_all
          obtain e where e: "message_end line (colon + 2) = Some e" "colon + 2 \<le> e" "e \<le> length line"
            using message_end_ok [OF c(2)] by blast
          show ?thesis
            using False pl pc sep Some \<open>level_of_char (line ! p) = Some level\<close> level c e
            by (simp add: parse_line_def at0 p_def [symmetric] nth_append copy_part_ok LOG_BUFFER_TAG_SIZE_def
                LOG_BUFFER_MSG_SIZE_def min_less_iff_disj)
        qed (use False pl pc sep Some in \<open>simp add: parse_line_def at0 p_def [symmetric] nth_append\<close>)
      next
        case no: False
        then show ?thesis using False pl Some
          by (auto simp: parse_line_def at0 p_def [symmetric] nth_append split: option.split)
      qed
    qed (use False pl in \<open>simp add: parse_line_def at0 p_def [symmetric] nth_append\<close>)
  qed (use False p in \<open>simp add: parse_line_def at0 p_def [symmetric]\<close>)
qed (simp add: parse_line_def)

section \<open>The ring is the last 256 entries\<close>

definition ring_ok :: "log_ring \<Rightarrow> bool" where
  "ring_ok s \<longleftrightarrow> mutex_made s \<and> length (s_buffer s) = 256 \<and> s_head s < 256 \<and> s_count s \<le> 256 \<and>
     (s_count s < 256 \<longrightarrow> s_head s = s_count s)"

text \<open>The abstraction: the entries from the oldest to the newest.\<close>

definition contents :: "log_ring \<Rightarrow> log_entry list" where
  "contents s = map (\<lambda>i. s_buffer s ! ((oldest s + i) mod LOG_BUFFER_MAX_ENTRIES)) [0..<s_count s]"

definition last_n :: "nat \<Rightarrow> 'a list \<Rightarrow> 'a list" where
  "last_n n xs = drop (length xs - n) xs"

definition new_entry :: "u32 \<Rightarrow> nat \<times> bytes \<times> bytes \<Rightarrow> u32 \<Rightarrow> log_entry" where
  "new_entry uptime x sq = (case x of (level, tag, msg) \<Rightarrow>
     \<lparr> le_seq = sq, le_uptime_ms = uptime, le_level = level, le_tag = tag, le_message = msg \<rparr>)"

lemma length_contents [simp]: "length (contents s) = s_count s"
  by (simp add: contents_def)

lemma store_ring_ok: "ring_ok s \<Longrightarrow> ring_ok (store_entry uptime x s)"
  by (cases x) (auto simp: ring_ok_def store_entry_def LOG_BUFFER_MAX_ENTRIES_def mod_Suc)

lemma store_contents:
  assumes "ring_ok s"
  shows "contents (store_entry uptime x s) = last_n 256 (contents s @ [new_entry uptime x (s_next_seq s)])"
proof -
  obtain level tag msg where x: "x = (level, tag, msg)" by (cases x)
  let ?e = "new_entry uptime x (s_next_seq s)"
  show ?thesis
  proof (cases "s_count s < 256")
    case True
    then have h: "s_head s = s_count s" using assms by (simp add: ring_ok_def)
    have "oldest (store_entry uptime x s) = 0"
      using True h by (auto simp: x oldest_def store_entry_def LOG_BUFFER_MAX_ENTRIES_def mod_Suc)
    then show ?thesis using True h assms
      by (intro nth_equalityI)
        (auto simp: x contents_def oldest_def store_entry_def LOG_BUFFER_MAX_ENTRIES_def new_entry_def last_n_def
          ring_ok_def nth_append less_Suc_eq)
  next
    case False
    then have c: "s_count s = 256" "s_head s < 256" "length (s_buffer s) = 256"
      using assms by (auto simp: ring_ok_def)
    have idx: "(Suc (s_head s) mod 256 + i) mod 256 = (s_head s + Suc i) mod 256" for i
      by (simp add: mod_add_left_eq)
    have last: "s_head s = Suc (s_head s + i) mod 256 \<longleftrightarrow> i = 255" if "i < 256" for i
      using c(2) that by (auto simp: mod_if split: if_splits)
    have "contents (store_entry uptime x s) = map (\<lambda>i. (s_buffer s)[s_head s := ?e] ! ((s_head s + Suc i) mod 256)) [0..<256]"
      using c by (simp add: x contents_def oldest_def store_entry_def LOG_BUFFER_MAX_ENTRIES_def new_entry_def idx)
    also have "\<dots> = last_n 256 (contents s @ [?e])"
      using c by (intro nth_equalityI)
        (auto simp: contents_def oldest_def LOG_BUFFER_MAX_ENTRIES_def last_n_def nth_append nth_list_update last not_less)
    finally show ?thesis .
  qed
qed

lemma clear_contents: "ring_ok s \<Longrightarrow> contents (log_buffer_clear s) = [] \<and> ring_ok (log_buffer_clear s)"
  by (simp add: ring_ok_def log_buffer_clear_def contents_def LOG_BUFFER_MAX_ENTRIES_def)

definition wanted :: "u32 \<Rightarrow> nat \<Rightarrow> log_entry \<Rightarrow> bool" where
  "wanted since_seq min_level e \<longleftrightarrow> (since_seq > 0 \<longrightarrow> le_seq e > since_seq) \<and> (min_level > 0 \<longrightarrow> le_level e \<le> min_level)"

lemma get_loop_eq:
  "length out \<le> n \<Longrightarrow> get_loop s n since min_level i out = take n (out @ filter (wanted since min_level) (drop i (contents s)))"
proof (induction s n since min_level i out rule: get_loop.induct)
  case (1 s n since min_level i out)
  let ?e = "s_buffer s ! ((oldest s + i) mod LOG_BUFFER_MAX_ENTRIES)"
  show ?case
  proof (cases "i < s_count s \<and> length out < n")
    case True
    have d: "drop i (contents s) = ?e # drop (i + 1) (contents s)"
      using True by (subst Cons_nth_drop_Suc [symmetric]) (simp_all add: contents_def)
    show ?thesis
    proof (cases "wanted since min_level ?e")
      case w: True
      then have "get_loop s n since min_level i out = get_loop s n since min_level (i + 1) (out @ [?e])"
        using True by (subst get_loop.simps) (auto simp: wanted_def Let_def)
      then show ?thesis using 1(3) [OF True refl] True w by (auto simp: d wanted_def not_le not_less)
    next
      case w: False
      then have "get_loop s n since min_level i out = get_loop s n since min_level (i + 1) out"
        using True by (subst get_loop.simps) (auto simp: wanted_def Let_def not_le not_less)
      moreover have "since > 0 \<and> le_seq ?e \<le> since \<or> \<not> (since > 0 \<and> le_seq ?e \<le> since) \<and> min_level > 0 \<and> le_level ?e > min_level"
        using w by (auto simp: wanted_def)
      then have "get_loop s n since min_level (i + 1) out = take n (out @ filter (wanted since min_level) (drop (i + 1) (contents s)))"
        using 1(1) [OF True refl _ 1(4)] 1(2) [OF True refl _ _ 1(4)] by blast
      ultimately show ?thesis using w by (simp add: d)
    qed
  next
    case False
    then show ?thesis using 1(4) by (subst get_loop.simps) (auto simp: not_less)
  qed
qed

lemma log_buffer_get_eq:
  "ring_ok s \<Longrightarrow> log_buffer_get s n since min_level = take (nat n) (filter (wanted since min_level) (contents s))"
  using get_loop_eq [of "[]" "nat n" s since min_level 0] by (auto simp: log_buffer_get_def ring_ok_def)

lemma fold_max:
  fixes f :: "'a \<Rightarrow> u32"
  shows "fold (\<lambda>x best. if P x \<and> f x > best then f x else best) xs b = Max (set (b # map f (filter P xs)))"
proof -
  have "fold (\<lambda>x best. if P x \<and> f x > best then f x else best) xs b = fold max (map f (filter P xs)) b" for b
    by (induction xs arbitrary: b) (auto simp: max_def not_less intro: arg_cong2 [of _ _ _ _ "fold max"])
  then show ?thesis by (simp only: Max.set_eq_fold)
qed

lemma newest_first:
  assumes "ring_ok s" "i < s_count s"
  shows "s_buffer s ! nat ((int (s_head s) - 1 - int i) mod 256) = contents s ! (s_count s - 1 - i)"
proof -
  have "nat ((int (s_head s) - 1 - int i) mod 256) = (oldest s + (s_count s - 1 - i)) mod 256"
  proof (cases "s_count s < 256")
    case True
    then have "s_head s = s_count s" "oldest s = 0"
      using assms(1) by (simp_all add: ring_ok_def oldest_def LOG_BUFFER_MAX_ENTRIES_def)
    then show ?thesis using assms(2) True by (simp add: nat_diff_distrib nat_mod_distrib)
  next
    case False
    then have c: "s_count s = 256" "oldest s = s_head s" "s_head s < 256"
      using assms(1) by (simp_all add: ring_ok_def oldest_def LOG_BUFFER_MAX_ENTRIES_def)
    have "int (s_head s) - 1 - int i + 256 = int (s_head s + (255 - i))" using assms(2) c by simp
    then have "(int (s_head s) - 1 - int i) mod 256 = int (s_head s + (255 - i)) mod 256"
      by (metis mod_add_self2)
    moreover have "nat (int m mod 256) = m mod 256" for m by (simp add: nat_mod_distrib)
    ultimately show ?thesis using c by (simp del: of_nat_add)
  qed
  then show ?thesis using assms(2) by (simp add: contents_def LOG_BUFFER_MAX_ENTRIES_def)
qed

lemma latest_seq_at_level_eq:
  assumes "ring_ok s"
  shows "log_buffer_latest_seq_at_level s lvl = Max (set (0 # map le_seq (filter (\<lambda>e. 0 < le_level e \<and> le_level e \<le> lvl) (contents s))))"
proof -
  let ?P = "\<lambda>e. 0 < le_level e \<and> le_level e \<le> lvl"
  let ?f = "\<lambda>i. contents s ! (s_count s - 1 - i)"
  let ?G = "\<lambda>e best. if ?P e \<and> le_seq e > best then le_seq e else best"
  have "log_buffer_latest_seq_at_level s lvl =
      fold (\<lambda>i. ?G (s_buffer s ! nat ((int (s_head s) - 1 - int i) mod 256))) [0..<s_count s] 0"
    using assms by (simp add: log_buffer_latest_seq_at_level_def Let_def LOG_BUFFER_MAX_ENTRIES_def ring_ok_def)
  also have "\<dots> = fold (\<lambda>i. ?G (?f i)) [0..<s_count s] 0"
    by (intro fold_cong refl) (simp only: set_upt atLeastLessThan_iff newest_first [OF assms])
  also have "\<dots> = Max (insert 0 (set (map (\<lambda>i. le_seq (?f i)) (filter (\<lambda>i. ?P (?f i)) [0..<s_count s]))))"
    by (simp only: fold_max list.set)
  also have "set (map (\<lambda>i. le_seq (?f i)) (filter (\<lambda>i. ?P (?f i)) [0..<s_count s])) = set (map le_seq (filter ?P (contents s)))"
  proof -
    have "map ?f [0..<s_count s] = rev (contents s)" by (intro nth_equalityI) (auto simp: rev_nth)
    then have "set (map le_seq (filter ?P (map ?f [0..<s_count s]))) = set (map le_seq (filter ?P (contents s)))"
      by (simp flip: rev_filter rev_map)
    then show ?thesis by (simp add: filter_map comp_def)
  qed
  finally show ?thesis by simp
qed

section \<open>Histories of the log\<close>

datatype log_op = Line u32 bytes | Clear

fun log_run :: "log_op list \<Rightarrow> log_ring \<Rightarrow> log_ring option" where
  "log_run [] s = Some s"
| "log_run (Line uptime line # ops) s = do { s \<leftarrow> log_buffer_vprintf uptime line s; log_run ops s }"
| "log_run (Clear # ops) s = log_run ops (log_buffer_clear s)"

text \<open>
  The specification: the list of all entries since the last clear and the next sequence number, with
  no ring and no bound.
\<close>

definition spec_line :: "u32 \<Rightarrow> bytes \<Rightarrow> log_entry list \<times> u32 \<Rightarrow> log_entry list \<times> u32" where
  "spec_line uptime line st = (case st of (es, sq) \<Rightarrow>
     case parse_line (take 279 line) of Some (Some x) \<Rightarrow> (es @ [new_entry uptime x sq], sq + 1) | _ \<Rightarrow> (es, sq))"

fun spec_run :: "log_op list \<Rightarrow> log_entry list \<times> u32 \<Rightarrow> log_entry list \<times> u32" where
  "spec_run [] st = st"
| "spec_run (Line uptime line # ops) st = spec_run ops (spec_line uptime line st)"
| "spec_run (Clear # ops) (es, sq) = spec_run ops ([], sq)"

definition represents :: "log_ring \<Rightarrow> log_entry list \<times> u32 \<Rightarrow> bool" where
  "represents s st \<longleftrightarrow> ring_ok s \<and> contents s = last_n 256 (fst st) \<and> s_next_seq s = snd st"

lemma last_n_snoc: "0 < n \<Longrightarrow> last_n n (last_n n xs @ [x]) = last_n n (xs @ [x])"
  by (cases "length xs < n") (simp_all add: last_n_def Suc_diff_le)

lemma vprintf_represents:
  assumes "represents s st"
  shows "\<exists>s'. log_buffer_vprintf uptime line s = Some s' \<and> represents s' (spec_line uptime line st)"
proof -
  have "parse_line [] = Some None" by (simp add: parse_line_def)
  then have v: "log_buffer_vprintf uptime line s = parse_and_store uptime (take 279 line) s"
    by (auto simp: log_buffer_vprintf_def parse_and_store_def Let_def LOG_BUFFER_MSG_SIZE_def LOG_BUFFER_TAG_SIZE_def)
  obtain r where r: "parse_line (take 279 line) = Some r" using parse_line_ok by blast
  obtain es sq where st: "st = (es, sq)" by fastforce
  show ?thesis
  proof (cases r)
    case None
    then show ?thesis using v r assms by (simp add: parse_and_store_def spec_line_def st)
  next
    case (Some x)
    have "represents (store_entry uptime x s) (es @ [new_entry uptime x sq], sq + 1)"
      using assms store_ring_ok [of s uptime x] store_contents [of s uptime x]
      by (auto simp: represents_def st last_n_snoc) (simp add: store_entry_def split: prod.split)
    then show ?thesis using v r Some by (simp add: parse_and_store_def spec_line_def st)
  qed
qed

lemma log_run_represents:
  "represents s st \<Longrightarrow> \<exists>s'. log_run ops s = Some s' \<and> represents s' (spec_run ops st)"
proof (induction ops arbitrary: s st)
  case (Cons op ops)
  show ?case
  proof (cases op)
    case (Line uptime line)
    then show ?thesis using vprintf_represents [OF Cons.prems, of uptime line] Cons.IH by fastforce
  next
    case Clear
    have "represents (log_buffer_clear s) ([], snd st)"
      using Cons.prems clear_contents [of s]
      by (auto simp: represents_def last_n_def log_buffer_clear_def)
    then show ?thesis using Clear Cons.IH by (cases st) simp
  qed
qed simp

lemma init_represents: "represents log_buffer_init ([], 1)"
  by (simp add: represents_def ring_ok_def contents_def last_n_def log_buffer_init_def LOG_BUFFER_MAX_ENTRIES_def)

text \<open>
  C15: The ring implements the unbounded log cut to its last 256 entries.  Whatever lines are logged,
  of any length and content, and whenever the log is cleared: the hook never reads outside its buffer,
  the count, the entries a client reads (oldest first, filtered by sequence number and level, at most
  as many as it asked for), the latest sequence number and the latest one at a level are those of the
  list of all entries since the last clear.
\<close>

theorem log_ring_refines_list:
  "case (log_run ops log_buffer_init, spec_run ops ([], 1)) of
     (None, _) \<Rightarrow> False
   | (Some s, es, sq) \<Rightarrow>
       log_buffer_count s = min 256 (length es) \<and>
       log_buffer_get s n since lvl = take (nat n) (filter (wanted since lvl) (last_n 256 es)) \<and>
       log_buffer_get_latest_seq s = (if sq > 1 then sq - 1 else 0) \<and>
       log_buffer_latest_seq_at_level s lvl =
         Max (set (0 # map le_seq (filter (\<lambda>e. 0 < le_level e \<and> le_level e \<le> lvl) (last_n 256 es))))"
proof -
  obtain s where s: "log_run ops log_buffer_init = Some s" "represents s (spec_run ops ([], 1))"
    using log_run_represents [OF init_represents] by blast
  obtain es sq where st: "spec_run ops ([], 1) = (es, sq)" by fastforce
  have r: "ring_ok s" "contents s = last_n 256 es" "s_next_seq s = sq" using s(2) by (simp_all add: represents_def st)
  have "s_count s = min 256 (length es)"
    using length_contents [of s] by (simp add: r(2) last_n_def)
  then show ?thesis
    using s(1) st r latest_seq_at_level_eq [OF r(1), of lvl] log_buffer_get_eq [OF r(1), of n since lvl]
    by (simp add: log_buffer_count_def log_buffer_get_latest_seq_def ring_ok_def)
qed


section \<open>A standard line is stored as it was logged\<close>

lemma skip_until_found:
  "c \<notin> set xs \<Longrightarrow> skip_until c (pre @ xs @ c # post) (length pre) = length pre + length xs"
proof (induction xs arbitrary: pre)
  case Nil
  then show ?case by (subst skip_until.simps) simp
next
  case (Cons x xs)
  from Cons.IH [of "pre @ [x]"] Cons.prems show ?case
    by (subst skip_until.simps) (auto simp: nth_append)
qed

lemma find_separator_found:
  "58 \<notin> set xs \<Longrightarrow> 0 \<notin> set xs \<Longrightarrow>
     find_separator (pre @ xs @ 58 # 32 # post) (length pre) = Some (Some (length pre + length xs))"
proof (induction xs arbitrary: pre)
  case Nil
  then show ?case by (subst find_separator.simps) (simp add: nth_append)
next
  case (Cons x xs)
  from Cons.IH [of "pre @ [x]"] Cons.prems show ?case
    by (subst find_separator.simps) (auto simp: nth_append)
qed

definition esp_log_line :: "bytes \<Rightarrow> u8 \<Rightarrow> bytes \<Rightarrow> bytes \<Rightarrow> bytes \<Rightarrow> bytes \<Rightarrow> bytes" where
  "esp_log_line colour c stamp tag msg reset =
     colour @ [c, 32, 40] @ stamp @ [41, 32] @ tag @ [58, 32] @ msg @ reset @ [10]"

text \<open>An escape sequence up to its \<open>m\<close>, or nothing.\<close>

definition colour_ok :: "bytes \<Rightarrow> bool" where
  "colour_ok colour \<longleftrightarrow> colour = [] \<or> length colour \<ge> 2 \<and> hd colour = 27 \<and> last colour = 109 \<and> 109 \<notin> set (butlast colour)"

text \<open>A message that carries its own end: the colour reset, or no trailing newline and no trailing escape.\<close>

definition message_ok :: "bytes \<Rightarrow> bytes \<Rightarrow> bool" where
  "message_ok msg reset \<longleftrightarrow> reset = [27, 91, 48, 109] \<or>
     reset = [] \<and> (msg \<noteq> [] \<longrightarrow> last msg \<noteq> 10 \<and> last msg \<noteq> 13) \<and>
       \<not> (length msg \<ge> 4 \<and> last msg = 109 \<and> msg ! (length msg - 4) = 27)"

lemma message_end_found:
  assumes "message_ok msg reset"
  shows "message_end (pre @ msg @ reset @ [10]) (length pre) = Some (length pre + length msg)"
  using assms unfolding message_ok_def
proof
  assume r: "reset = [27, 91, 48, 109]"
  then have "strip_newlines (pre @ msg @ reset @ [10]) (length pre) (length (pre @ msg @ reset @ [10])) =
      Some (length pre + length msg + 4)"
    by (simp add: nth_append)
  then show ?thesis using r by (simp add: message_end_def nth_append)
next
  assume r: "reset = [] \<and> (msg \<noteq> [] \<longrightarrow> last msg \<noteq> 10 \<and> last msg \<noteq> 13) \<and>
       \<not> (length msg \<ge> 4 \<and> last msg = 109 \<and> msg ! (length msg - 4) = 27)"
  show ?thesis
  proof (cases msg rule: rev_cases)
    case Nil
    then have "strip_newlines (pre @ msg @ reset @ [10]) (length pre) (length (pre @ msg @ reset @ [10])) = Some (length pre)"
      using r by (cases "length pre") (simp_all add: nth_append)
    then show ?thesis using Nil r by (simp add: message_end_def)
  next
    case (snoc xs x)
    then have "strip_newlines (pre @ msg @ reset @ [10]) (length pre) (length (pre @ msg @ reset @ [10])) =
        Some (length pre + length msg)"
      using r by (simp add: nth_append)
    then show ?thesis using snoc r by (auto simp: message_end_def nth_append)
  qed
qed

text \<open>
  C35: A standard ESP-IDF log line is stored as it was logged: with or without colours, the level is
  that of its letter, the tag is what stands between the time stamp and the separator, and the message
  is the rest without the colour reset and the newline, both cut to the bounds of the entry.
\<close>

theorem standard_line_stored:
  assumes "colour_ok colour" "level_of_char c = Some level" "41 \<notin> set stamp" "58 \<notin> set tag" "0 \<notin> set tag"
    "message_ok msg reset"
  shows "parse_line (esp_log_line colour c stamp tag msg reset) = Some (Some (level, take 23 tag, take 191 msg))"
proof -
  let ?line = "esp_log_line colour c stamp tag msg reset"
  have c: "c \<noteq> 27" "c \<noteq> 41" using assms(2) by (auto simp: level_of_char_def split: if_splits)
  have ne: "?line \<noteq> []" by (simp add: esp_log_line_def)
  have p: "(if ?line ! 0 = 27 then let q = skip_until 109 ?line 0 in if q < length ?line then q + 1 else q else 0) = length colour"
  proof (cases "colour = []")
    case True
    then show ?thesis using c by (simp add: esp_log_line_def)
  next
    case False
    then have k: "colour = butlast colour @ [109]" "109 \<notin> set (butlast colour)" "hd colour = 27"
      using assms(1) by (auto simp: colour_ok_def) (metis append_butlast_last_id)
    then have "?line = [] @ butlast colour @ 109 # ([c, 32, 40] @ stamp @ [41, 32] @ tag @ [58, 32] @ msg @ reset @ [10])"
      by (metis append.assoc append_Cons append_Nil esp_log_line_def)
    then have "skip_until 109 ?line 0 = length (butlast colour)"
      using skip_until_found [OF k(2), of "[]"] by simp
    moreover have "?line ! 0 = 27" using False k(3) by (simp add: esp_log_line_def nth_append hd_conv_nth)
    moreover obtain k where "length colour = Suc k" using False by (cases colour) auto
    moreover have "length colour < length ?line" by (simp add: esp_log_line_def)
    ultimately show ?thesis by (simp add: Let_def)
  qed
  define pc where "pc = length colour + 3 + length stamp"
  have "memchr 41 ?line (length colour) = Some pc"
    using skip_until_found [of 41 "[c, 32, 40] @ stamp" colour "[32] @ tag @ [58, 32] @ msg @ reset @ [10]"] assms(3) c
    by (simp add: memchr_def esp_log_line_def pc_def)
  moreover have "find_separator ?line (pc + 2) = Some (Some (pc + 2 + length tag))"
    using find_separator_found [OF assms(4,5), of "colour @ [c, 32, 40] @ stamp @ [41, 32]" "msg @ reset @ [10]"]
    by (simp add: esp_log_line_def pc_def eval_nat_numeral)
  moreover have "message_end ?line (pc + 2 + length tag + 2) = Some (pc + 2 + length tag + 2 + length msg)"
    using message_end_found [OF assms(6), of "colour @ [c, 32, 40] @ stamp @ [41, 32] @ tag @ [58, 32]"]
    by (simp add: esp_log_line_def pc_def eval_nat_numeral add.assoc)
  moreover have "?line ! length colour = c" "?line ! (pc + 1) = 32" "pc + 2 < length ?line" "length colour < length ?line"
      "pc + 4 + length tag + length msg \<le> length ?line"
    by (simp_all add: esp_log_line_def pc_def nth_append)
  moreover have "drop (pc + 2) ?line = tag @ [58, 32] @ msg @ reset @ [10]"
    "drop (pc + 2 + length tag + 2) ?line = msg @ reset @ [10]"
    by (simp_all add: esp_log_line_def pc_def eval_nat_numeral)
  ultimately show ?thesis
    using ne p assms(2)
    by (simp add: parse_line_def nth_append copy_part_ok LOG_BUFFER_TAG_SIZE_def LOG_BUFFER_MSG_SIZE_def min_def)
qed

text \<open>The line \<open>I (42) wifi: up\<close>.\<close>

theorem standard_line_stored_witness:
  "parse_line (esp_log_line [] 73 [52, 50] [119, 105, 102, 105] [117, 112] []) = Some (Some (3, [119, 105, 102, 105], [117, 112]))"
  using standard_line_stored [of "[]" 73 3 "[52, 50]" "[119, 105, 102, 105]" "[117, 112]" "[]"]
  by (simp add: colour_ok_def level_of_char_def message_ok_def)

end
