(* ===== verification/Wifi_Drops.thy ===== *)
theory Wifi_Drops
  imports Prelude "HOL-Library.Signed_Division"
begin

text \<open>
  The WiFi drop tracker, \<open>main/wifi_drop_tracker.h\<close>: which outages reach the event log.

  \<open>tracker\<close> is the class state; the arrays \<open>pending_\<close> and \<open>short_ms_\<close> with their counters are
  lists whose length is the counter.  The millisecond clock is unbounded, the statistics counters
  are 32-bit and wrap.  Besides the functional model of every method there are histories of calls.  The
  policy in the header comment is stated of the module of \<open>main/wifi_drops.cpp\<close>: of the events its
  polls write to the event log (\<open>drops_log\<close>).  The proof goes through \<open>drop_run\<close>, the events each call
  adds to the queue of the tracker, which \<open>queue_step\<close> ties to what \<open>poll\<close> takes out of it.
\<close>

section \<open>The model\<close>

datatype drop_action = LOST | RESTORED | UNSTABLE

record drop_event =
  action :: drop_action
  payload :: u32

record drop_stats =
  drops :: u32
  short_drops :: u32
  long_drops :: u32
  last_reason :: u16
  st_down :: bool
  down_s :: u32

definition LONG_MS :: int where "LONG_MS = 60000"
definition UNSTABLE_WINDOW_MS :: int where "UNSTABLE_WINDOW_MS = 3600000"
definition UNSTABLE_COUNT :: nat where "UNSTABLE_COUNT = 3"
definition MAX_PENDING :: nat where "MAX_PENDING = 4"

lemmas drop_consts = LONG_MS_def UNSTABLE_WINDOW_MS_def UNSTABLE_COUNT_def MAX_PENDING_def

record tracker =
  ever_up :: bool
  down :: bool
  down_local :: bool
  lost_logged :: bool
  down_since_ms :: int
  reason :: u16
  short_ms :: "int list"
  quiet_until_ms :: int
  quiet_drops :: u32
  pending :: "drop_event list"
  stats :: drop_stats

definition tracker_init :: tracker where
  "tracker_init = \<lparr> ever_up = False, down = False, down_local = False, lost_logged = False,
     down_since_ms = 0, reason = 0, short_ms = [], quiet_until_ms = 0, quiet_drops = 0, pending = [],
     stats = \<lparr> drops = 0, short_drops = 0, long_drops = 0, last_reason = 0, st_down = False, down_s = 0 \<rparr> \<rparr>"

definition push :: "drop_action \<Rightarrow> u32 \<Rightarrow> tracker \<Rightarrow> tracker" where
  "push a p t =
     (let kept = (if length (pending t) = MAX_PENDING then drop 1 (pending t) else pending t)
      in t\<lparr> pending := kept @ [\<lparr> action = a, payload = p \<rparr>] \<rparr>)"

definition report_unstable :: "int \<Rightarrow> u32 \<Rightarrow> tracker \<Rightarrow> tracker" where
  "report_unstable now_ms count t = (push UNSTABLE count t)\<lparr> quiet_until_ms := now_ms + UNSTABLE_WINDOW_MS \<rparr>"

definition add_short :: "int \<Rightarrow> tracker \<Rightarrow> tracker" where
  "add_short now_ms t =
     (let kept = (if length (short_ms t) = UNSTABLE_COUNT then drop 1 (short_ms t) else short_ms t)
      in t\<lparr> short_ms := kept @ [now_ms] \<rparr>)"

definition prune :: "int \<Rightarrow> tracker \<Rightarrow> tracker" where
  "prune now_ms t = t\<lparr> short_ms := filter (\<lambda>s. now_ms - s < UNSTABLE_WINDOW_MS) (short_ms t) \<rparr>"

definition count_long :: "tracker \<Rightarrow> tracker" where
  "count_long t = t\<lparr> stats := stats t\<lparr> long_drops := long_drops (stats t) + 1 \<rparr> \<rparr>"

definition on_down :: "int \<Rightarrow> u16 \<Rightarrow> bool \<Rightarrow> tracker \<Rightarrow> tracker" where
  "on_down now_ms rsn local t =
     (if \<not> ever_up t \<or> down t then t
      else
        let t = t\<lparr> down := True, down_local := local, lost_logged := False, down_since_ms := now_ms \<rparr>
        in if local then t
           else t\<lparr> reason := rsn, stats := stats t\<lparr> drops := drops (stats t) + 1, last_reason := rsn \<rparr> \<rparr>)"

definition on_up :: "int \<Rightarrow> tracker \<Rightarrow> tracker" where
  "on_up now_ms t =
     (let t = t\<lparr> ever_up := True \<rparr> in
      if \<not> down t then t
      else
        let t = t\<lparr> down := False \<rparr> in
        if down_local t then t
        else
          let dur = now_ms - down_since_ms t in
          if lost_logged t \<or> dur \<ge> LONG_MS then
            let t = (if \<not> lost_logged t then count_long (push LOST (ucast (reason t)) t) else t)
            in push RESTORED (of_int (dur sdiv 1000)) t
          else
            let t = t\<lparr> stats := stats t\<lparr> short_drops := short_drops (stats t) + 1 \<rparr> \<rparr>
            in if quiet_until_ms t \<noteq> 0 then t\<lparr> quiet_drops := quiet_drops t + 1 \<rparr> else add_short now_ms t)"

text \<open>The three stages of \<open>poll\<close> that may push, then the drain into the caller's array.\<close>

definition poll_lost :: "int \<Rightarrow> tracker \<Rightarrow> tracker" where
  "poll_lost now_ms t =
     (if down t \<and> \<not> down_local t \<and> \<not> lost_logged t \<and> now_ms - down_since_ms t \<ge> LONG_MS
      then count_long ((push LOST (ucast (reason t)) t)\<lparr> lost_logged := True \<rparr>) else t)"

definition poll_quiet :: "int \<Rightarrow> tracker \<Rightarrow> tracker" where
  "poll_quiet now_ms t =
     (if quiet_until_ms t \<noteq> 0 \<and> now_ms \<ge> quiet_until_ms t then
        let t = (if quiet_drops t \<ge> of_nat UNSTABLE_COUNT then report_unstable now_ms (quiet_drops t) t
                 else t\<lparr> quiet_until_ms := 0 \<rparr>)
        in t\<lparr> quiet_drops := 0 \<rparr>
      else t)"

definition poll_short :: "int \<Rightarrow> tracker \<Rightarrow> tracker" where
  "poll_short now_ms t =
     (let t = prune now_ms t in
      if quiet_until_ms t = 0 \<and> length (short_ms t) \<ge> UNSTABLE_COUNT
      then (report_unstable now_ms (of_nat (length (short_ms t))) t)\<lparr> short_ms := [] \<rparr> else t)"

definition poll :: "int \<Rightarrow> int \<Rightarrow> tracker \<Rightarrow> drop_event list \<times> tracker" where
  "poll now_ms max_out t =
     (let t = poll_short now_ms (poll_quiet now_ms (poll_lost now_ms t));
          n = min (nat max_out) (length (pending t))
      in (take n (pending t), t\<lparr> pending := drop n (pending t) \<rparr>))"

definition stats_now :: "int \<Rightarrow> tracker \<Rightarrow> drop_stats" where
  "stats_now now_ms t =
     (let dn = down t \<and> \<not> down_local t in
      (stats t)\<lparr> st_down := dn, down_s := (if dn then of_int ((now_ms - down_since_ms t) sdiv 1000) else 0) \<rparr>)"

section \<open>Events pushed by a call\<close>

definition up_events :: "int \<Rightarrow> tracker \<Rightarrow> drop_event list" where
  "up_events now_ms t =
     (let dur = now_ms - down_since_ms t in
      if down t \<and> \<not> down_local t \<and> (lost_logged t \<or> dur \<ge> LONG_MS)
      then (if lost_logged t then [] else [\<lparr> action = LOST, payload = ucast (reason t) \<rparr>]) @
           [\<lparr> action = RESTORED, payload = of_int (dur sdiv 1000) \<rparr>]
      else [])"

definition lost_events :: "int \<Rightarrow> tracker \<Rightarrow> drop_event list" where
  "lost_events now_ms t =
     (if down t \<and> \<not> down_local t \<and> \<not> lost_logged t \<and> now_ms - down_since_ms t \<ge> LONG_MS
      then [\<lparr> action = LOST, payload = ucast (reason t) \<rparr>] else [])"

definition quiet_events :: "int \<Rightarrow> tracker \<Rightarrow> drop_event list" where
  "quiet_events now_ms t =
     (if quiet_until_ms t \<noteq> 0 \<and> now_ms \<ge> quiet_until_ms t \<and> quiet_drops t \<ge> of_nat UNSTABLE_COUNT
      then [\<lparr> action = UNSTABLE, payload = quiet_drops t \<rparr>] else [])"

definition short_events :: "int \<Rightarrow> tracker \<Rightarrow> drop_event list" where
  "short_events now_ms t =
     (let n = length (filter (\<lambda>s. now_ms - s < UNSTABLE_WINDOW_MS) (short_ms t)) in
      if quiet_until_ms t = 0 \<and> n \<ge> UNSTABLE_COUNT then [\<lparr> action = UNSTABLE, payload = of_nat n \<rparr>] else [])"

definition poll_events :: "int \<Rightarrow> tracker \<Rightarrow> drop_event list" where
  "poll_events now_ms t = lost_events now_ms t @ quiet_events now_ms t @ short_events now_ms (poll_quiet now_ms t)"

text \<open>The queue keeps the newest \<open>MAX_PENDING\<close> of what was pushed.\<close>

definition newest :: "'a list \<Rightarrow> 'a list" where
  "newest xs = drop (length xs - MAX_PENDING) xs"

lemma newest_le [simp]: "length (newest xs) \<le> MAX_PENDING"
  by (simp add: newest_def)

lemma newest_id: "length xs \<le> MAX_PENDING \<Longrightarrow> newest xs = xs"
  by (simp add: newest_def)

lemma newest_newest_append: "newest (newest xs @ ys) = newest (xs @ ys)"
  by (cases "length xs \<le> MAX_PENDING") (simp_all add: newest_def add.commute)

lemma pending_push: "length (pending t) \<le> MAX_PENDING \<Longrightarrow>
    pending (push a p t) = newest (pending t @ [\<lparr> action = a, payload = p \<rparr>])"
  by (auto simp: push_def newest_def Let_def MAX_PENDING_def)

lemma push_fields [simp]:
  "ever_up (push a p t) = ever_up t" "down (push a p t) = down t" "down_local (push a p t) = down_local t"
  "lost_logged (push a p t) = lost_logged t" "down_since_ms (push a p t) = down_since_ms t"
  "reason (push a p t) = reason t" "short_ms (push a p t) = short_ms t"
  "quiet_until_ms (push a p t) = quiet_until_ms t" "quiet_drops (push a p t) = quiet_drops t"
  "stats (push a p t) = stats t"
  by (simp_all add: push_def Let_def)

lemma count_long_fields [simp]:
  "ever_up (count_long t) = ever_up t" "down (count_long t) = down t" "down_local (count_long t) = down_local t"
  "lost_logged (count_long t) = lost_logged t" "down_since_ms (count_long t) = down_since_ms t"
  "reason (count_long t) = reason t" "short_ms (count_long t) = short_ms t"
  "quiet_until_ms (count_long t) = quiet_until_ms t" "quiet_drops (count_long t) = quiet_drops t"
  "pending (count_long t) = pending t"
  "drops (stats (count_long t)) = drops (stats t)" "short_drops (stats (count_long t)) = short_drops (stats t)"
  "long_drops (stats (count_long t)) = long_drops (stats t) + 1"
  by (simp_all add: count_long_def)

section \<open>Histories of calls\<close>

datatype drop_call = Down int u16 bool | Up int | Poll int int

fun call_time :: "drop_call \<Rightarrow> int" where
  "call_time (Down t _ _) = t"
| "call_time (Up t) = t"
| "call_time (Poll t _) = t"

fun after_call :: "drop_call \<Rightarrow> tracker \<Rightarrow> tracker" where
  "after_call (Down now r l) t = on_down now r l t"
| "after_call (Up now) t = on_up now t"
| "after_call (Poll now n) t = snd (poll now n t)"

fun call_events :: "drop_call \<Rightarrow> tracker \<Rightarrow> drop_event list" where
  "call_events (Down _ _ _) t = []"
| "call_events (Up now) t = up_events now t"
| "call_events (Poll now _) t = poll_events now t"

fun delivered :: "drop_call \<Rightarrow> tracker \<Rightarrow> drop_event list" where
  "delivered (Poll now n) t = fst (poll now n t)"
| "delivered _ t = []"

fun drop_run :: "tracker \<Rightarrow> drop_call list \<Rightarrow> (int \<times> drop_event) list" where
  "drop_run t [] = []"
| "drop_run t (c # cs) = map (Pair (call_time c)) (call_events c t) @ drop_run (after_call c t) cs"

inductive drop_reach :: "tracker \<Rightarrow> bool" where
  drop_reach_init: "drop_reach tracker_init"
| drop_reach_call: "drop_reach t \<Longrightarrow> drop_reach (after_call c t)"

text \<open>Each stage of a call adds its events to the queue and is otherwise described field by field.\<close>

lemma prune_fields [simp]:
  "ever_up (prune now t) = ever_up t" "down (prune now t) = down t" "down_local (prune now t) = down_local t"
  "lost_logged (prune now t) = lost_logged t" "down_since_ms (prune now t) = down_since_ms t"
  "reason (prune now t) = reason t" "quiet_until_ms (prune now t) = quiet_until_ms t"
  "quiet_drops (prune now t) = quiet_drops t" "pending (prune now t) = pending t" "stats (prune now t) = stats t"
  "short_ms (prune now t) = filter (\<lambda>s. now - s < UNSTABLE_WINDOW_MS) (short_ms t)"
  by (simp_all add: prune_def)

lemmas stage_defs = poll_lost_def poll_quiet_def poll_short_def report_unstable_def Let_def

lemma stage_fields [simp]:
  "down (poll_quiet now t) = down t" "down_local (poll_quiet now t) = down_local t"
  "lost_logged (poll_quiet now t) = lost_logged t" "stats (poll_quiet now t) = stats t"
  "short_ms (poll_quiet now t) = short_ms t" "ever_up (poll_quiet now t) = ever_up t"
  "down (poll_short now t) = down t" "down_local (poll_short now t) = down_local t"
  "lost_logged (poll_short now t) = lost_logged t" "stats (poll_short now t) = stats t"
  "quiet_drops (poll_short now t) = quiet_drops t" "ever_up (poll_short now t) = ever_up t"
  "down (poll_lost now t) = down t" "down_local (poll_lost now t) = down_local t"
  "quiet_until_ms (poll_lost now t) = quiet_until_ms t" "quiet_drops (poll_lost now t) = quiet_drops t"
  "short_ms (poll_lost now t) = short_ms t" "ever_up (poll_lost now t) = ever_up t"
  by (simp_all add: stage_defs)

lemma pending_stages:
  assumes "length (pending t) \<le> MAX_PENDING"
  shows "pending (poll_lost now t) = newest (pending t @ lost_events now t)"
    and "pending (poll_quiet now t) = newest (pending t @ quiet_events now t)"
    and "pending (poll_short now t) = newest (pending t @ short_events now t)"
  using assms
  by (simp_all add: stage_defs lost_events_def quiet_events_def short_events_def pending_push newest_id)

lemma pending_poll:
  assumes "length (pending t) \<le> MAX_PENDING"
  shows "newest (pending t @ poll_events now t) = fst (poll now n t) @ pending (snd (poll now n t))"
proof -
  let ?q = "poll_quiet now (poll_lost now t)"
  have e: "quiet_events now (poll_lost now t) = quiet_events now t"
    "short_events now ?q = short_events now (poll_quiet now t)"
    by (simp_all add: quiet_events_def short_events_def stage_defs)
  have "pending (poll_short now ?q) = newest (pending t @ poll_events now t)"
    using assms unfolding poll_events_def
    by (simp add: pending_stages newest_newest_append e flip: append_assoc)
  then show ?thesis by (simp add: poll_def Let_def)
qed

lemma pending_on_up:
  assumes "length (pending t) \<le> MAX_PENDING"
  shows "pending (on_up now t) = newest (pending t @ up_events now t)"
  using assms newest_newest_append [of "pending t @ _" "[_]"]
  by (auto simp: on_up_def up_events_def Let_def pending_push newest_id add_short_def)

lemma queue_step:
  assumes "length (pending t) \<le> MAX_PENDING"
  shows "newest (pending t @ call_events c t) = delivered c t @ pending (after_call c t)"
    and "length (pending (after_call c t)) \<le> MAX_PENDING"
proof -
  show *: "newest (pending t @ call_events c t) = delivered c t @ pending (after_call c t)"
    using assms
    by (cases c) (simp_all add: pending_poll pending_on_up newest_id on_down_def Let_def)
  have "length (delivered c t @ pending (after_call c t)) \<le> MAX_PENDING"
    unfolding * [symmetric] by simp
  then show "length (pending (after_call c t)) \<le> MAX_PENDING" by simp
qed


section \<open>The policy over histories\<close>

text \<open>\<open>alternates owed as\<close>: every RESTORED answers a LOST and no second LOST comes before it.\<close>

fun alternates :: "bool \<Rightarrow> drop_action list \<Rightarrow> bool" where
  "alternates owed [] \<longleftrightarrow> True"
| "alternates owed (LOST # as) \<longleftrightarrow> \<not> owed \<and> alternates True as"
| "alternates owed (RESTORED # as) \<longleftrightarrow> owed \<and> alternates False as"
| "alternates owed (UNSTABLE # as) \<longleftrightarrow> alternates owed as"

definition owed :: "tracker \<Rightarrow> bool" where
  "owed t \<longleftrightarrow> down t \<and> \<not> down_local t \<and> lost_logged t"

lemma lost_logged_poll_lost [simp]:
  "lost_logged (poll_lost now t) \<longleftrightarrow> lost_logged t \<or> lost_events now t \<noteq> []"
  by (simp add: poll_lost_def lost_events_def)

lemma poll_state:
  "down (snd (poll now n t)) = down t" "down_local (snd (poll now n t)) = down_local t"
  "lost_logged (snd (poll now n t)) \<longleftrightarrow> lost_logged t \<or> lost_events now t \<noteq> []"
  "ever_up (snd (poll now n t)) = ever_up t"
  by (simp_all add: poll_def Let_def)

lemma alternates_unstable [simp]:
  "set as \<subseteq> {UNSTABLE} \<Longrightarrow> alternates o1 (as @ bs) = alternates o1 bs"
  by (induction as) auto

lemma unstable_only:
  "set (map action (quiet_events now t)) \<subseteq> {UNSTABLE}" "set (map action (short_events now t)) \<subseteq> {UNSTABLE}"
  by (auto simp: quiet_events_def short_events_def Let_def)

lemma alternates_call:
  "alternates (owed t) (map action (call_events c t) @ as) = alternates (owed (after_call c t)) as"
proof (cases c)
  case (Down now r l)
  then show ?thesis by (simp add: owed_def on_down_def Let_def)
next
  case (Up now)
  have "\<not> owed (on_up now t)" by (simp add: owed_def on_up_def add_short_def Let_def)
  then show ?thesis using Up by (auto simp: owed_def up_events_def Let_def)
next
  case (Poll now n)
  then show ?thesis
    using unstable_only [of now t] unstable_only [of now "poll_quiet now t"]
    by (auto simp: poll_events_def owed_def poll_state lost_events_def simp del: set_map)
qed

lemma alternates_run: "alternates (owed t) (map (action \<circ> snd) (drop_run t cs))"
proof (induction cs arbitrary: t)
  case (Cons c cs)
  then show ?case
    using alternates_call [of t c "map (action \<circ> snd) (drop_run (after_call c t) cs)"]
    by (simp add: comp_def)
qed simp

definition unstable_times :: "(int \<times> drop_event) list \<Rightarrow> int list" where
  "unstable_times es = map fst (filter (\<lambda>(_, e). action e = UNSTABLE) es)"

lemma unstable_times_append [simp]:
  "unstable_times (es @ fs) = unstable_times es @ unstable_times fs"
  by (simp add: unstable_times_def)

lemma run_times: "tm \<in> fst ` set (drop_run t cs) \<Longrightarrow> \<exists>c\<in>set cs. tm = call_time c"
  by (induction cs arbitrary: t) auto

lemma unstable_run_times: "tm \<in> set (unstable_times (drop_run t cs)) \<Longrightarrow> \<exists>c\<in>set cs. tm = call_time c"
  using run_times [of tm t cs] by (force simp: unstable_times_def)

text \<open>A call reports UNSTABLE at most once, never inside a quiet window, and then opens a new one.\<close>

lemma unstable_call:
  fixes t :: tracker
  assumes "0 \<le> call_time c"
  defines "us \<equiv> unstable_times (map (Pair (call_time c)) (call_events c t))"
    and "q \<equiv> quiet_until_ms t" and "q' \<equiv> quiet_until_ms (after_call c t)"
  shows "(us = [call_time c] \<and> q' = call_time c + UNSTABLE_WINDOW_MS \<and> (q \<noteq> 0 \<longrightarrow> q \<le> call_time c)) \<or>
         (us = [] \<and> (q' = q \<or> q' = 0 \<and> q \<le> call_time c))"
proof (cases c)
  case (Down now r l)
  then show ?thesis unfolding us_def q_def q'_def
    by (simp add: on_down_def Let_def unstable_times_def)
next
  case (Up now)
  then show ?thesis unfolding us_def q_def q'_def
    by (simp add: on_up_def Let_def unstable_times_def up_events_def add_short_def)
next
  case (Poll now n)
  have l: "unstable_times (map (Pair now) (lost_events now t)) = []"
    by (simp add: unstable_times_def lost_events_def)
  show ?thesis unfolding us_def q_def q'_def using Poll assms(1)
    by (simp add: poll_def poll_events_def l)
      (simp add: Let_def poll_short_def poll_quiet_def report_unstable_def quiet_events_def
        short_events_def unstable_times_def drop_consts)
qed

lemma unstable_run:
  assumes "sorted (map call_time cs)" "\<forall>c\<in>set cs. 0 \<le> call_time c"
  shows "sorted_wrt (\<lambda>a b. a + UNSTABLE_WINDOW_MS \<le> b) (unstable_times (drop_run t cs)) \<and>
    (quiet_until_ms t \<noteq> 0 \<longrightarrow> (\<forall>u\<in>set (unstable_times (drop_run t cs)). quiet_until_ms t \<le> u))"
  using assms
proof (induction cs arbitrary: t)
  case Nil
  then show ?case by (simp add: unstable_times_def)
next
  case (Cons c cs)
  let ?t' = "after_call c t"
  have IH: "sorted_wrt (\<lambda>a b. a + UNSTABLE_WINDOW_MS \<le> b) (unstable_times (drop_run ?t' cs))"
    "quiet_until_ms ?t' \<noteq> 0 \<Longrightarrow> u \<in> set (unstable_times (drop_run ?t' cs)) \<Longrightarrow> quiet_until_ms ?t' \<le> u" for u
    using Cons.IH [of ?t'] Cons.prems by simp_all
  have later: "call_time c \<le> u" if "u \<in> set (unstable_times (drop_run ?t' cs))" for u
    using unstable_run_times [OF that] Cons.prems(1) by auto
  have pos: "0 \<le> call_time c" using Cons.prems by simp
  from unstable_call [OF pos, of t] show ?case
  proof (elim disjE conjE)
    assume us: "unstable_times (map (Pair (call_time c)) (call_events c t)) = [call_time c]"
      and q: "quiet_until_ms ?t' = call_time c + UNSTABLE_WINDOW_MS"
      and le: "quiet_until_ms t \<noteq> 0 \<longrightarrow> quiet_until_ms t \<le> call_time c"
    have "quiet_until_ms ?t' \<noteq> 0" using q pos by (simp add: drop_consts)
    then show ?thesis using IH us q le later by fastforce
  qed (use IH later in fastforce)+
qed


definition flapping :: "drop_call list" where
  "flapping = [Up 0, Down 1000 8 False, Up 2000, Down 3000 8 False, Up 4000, Down 5000 8 False, Up 6000,
     Poll 7000 4, Down 8000 200 False, Poll 70000 4, Up 71000]"

lemma flapping_run: "drop_run tracker_init flapping =
    [(7000, \<lparr> action = UNSTABLE, payload = 3 \<rparr>), (70000, \<lparr> action = LOST, payload = 200 \<rparr>),
     (71000, \<lparr> action = RESTORED, payload = 63 \<rparr>)]"
  by code_simp

section \<open>The state invariant\<close>

definition drop_ok :: "tracker \<Rightarrow> bool" where
  "drop_ok t \<longleftrightarrow> length (short_ms t) \<le> UNSTABLE_COUNT \<and> length (pending t) \<le> MAX_PENDING \<and>
     (quiet_until_ms t = 0 \<longrightarrow> quiet_drops t = 0) \<and> (down t \<longrightarrow> ever_up t) \<and>
     drops (stats t) = short_drops (stats t) + long_drops (stats t) +
       (if down t \<and> \<not> down_local t \<and> \<not> lost_logged t then 1 else 0)"

lemma drop_ok_init: "drop_ok tracker_init"
  by (simp add: drop_ok_def tracker_init_def)

lemma drop_ok_down: "drop_ok t \<Longrightarrow> drop_ok (on_down now r l t)"
  by (simp add: drop_ok_def on_down_def Let_def)

lemma drop_ok_up:
  assumes "drop_ok t"
  shows "drop_ok (on_up now t)"
proof -
  have "length (pending (on_up now t)) \<le> MAX_PENDING"
    using assms by (simp add: pending_on_up drop_ok_def)
  then show ?thesis using assms
    by (simp add: drop_ok_def on_up_def Let_def add_short_def algebra_simps UNSTABLE_COUNT_def)
qed

lemma poll_lost_stats:
  "drops (stats (poll_lost now t)) = drops (stats t)"
  "short_drops (stats (poll_lost now t)) = short_drops (stats t)"
  "long_drops (stats (poll_lost now t)) = long_drops (stats t) + (if lost_events now t = [] then 0 else 1)"
  by (simp_all add: poll_lost_def lost_events_def)

lemma drop_ok_poll:
  assumes "drop_ok t"
  shows "drop_ok (snd (poll now n t))"
proof -
  let ?t' = "poll_short now (poll_quiet now (poll_lost now t))"
  have "length (pending (snd (poll now n t))) \<le> MAX_PENDING"
    using queue_step(2) [of t "Poll now n"] assms by (simp add: drop_ok_def)
  moreover have "length (short_ms ?t') \<le> UNSTABLE_COUNT"
    using assms by (simp add: drop_ok_def poll_short_def Let_def le_trans [OF length_filter_le])
  moreover have "quiet_drops ?t' = 0" if "quiet_until_ms ?t' = 0"
    using that assms by (auto simp: drop_ok_def stage_defs split: if_splits)
  ultimately show ?thesis
    using assms unfolding drop_ok_def poll_state
    by (auto simp: poll_def Let_def poll_lost_stats lost_events_def algebra_simps)
qed

lemma drop_ok_call: "drop_ok t \<Longrightarrow> drop_ok (after_call c t)"
  by (cases c) (simp_all add: drop_ok_down drop_ok_up drop_ok_poll)

lemma drop_ok_reach: "drop_reach t \<Longrightarrow> drop_ok t"
  by (induction rule: drop_reach.induct) (simp_all add: drop_ok_init drop_ok_call)

text \<open>
  In every state the tracker can reach, the ring of short drops and the queue of pending
  events stay within their arrays, no drops are held back unless a quiet window is open, an outage
  is only open after the link was up, and the books balance: every counted outage is exactly one
  of short, long, or still open below the threshold (modulo the 32-bit counters).
\<close>

theorem wifi_drop_invariant:
  assumes "drop_reach t"
  shows "length (short_ms t) \<le> 3 \<and> length (pending t) \<le> 4 \<and>
    (quiet_until_ms t = 0 \<longrightarrow> quiet_drops t = 0) \<and> (down t \<longrightarrow> ever_up t) \<and>
    drops (stats t) = short_drops (stats t) + long_drops (stats t) +
      (if down t \<and> \<not> down_local t \<and> \<not> lost_logged t then 1 else 0)"
  using drop_ok_reach [OF assms] unfolding drop_ok_def by (simp add: drop_consts)

lemma drop_reach_fold: "drop_reach t \<Longrightarrow> drop_reach (fold after_call cs t)"
  by (induction cs arbitrary: t) (simp_all add: drop_reach_call)

theorem wifi_drop_invariant_witness:
  "let t = fold after_call (take 9 flapping) tracker_init in
     drop_reach t \<and> drops (stats t) = 4 \<and> short_drops (stats t) = 3 \<and> long_drops (stats t) = 0 \<and> down t \<and>
     drops (stats t) = short_drops (stats t) + long_drops (stats t) +
      (if down t \<and> \<not> down_local t \<and> \<not> lost_logged t then 1 else 0)"
proof -
  let ?t = "fold after_call (take 9 flapping) tracker_init"
  have r: "drop_reach ?t" by (rule drop_reach_fold [OF drop_reach_init])
  have "drops (stats ?t) = 4 \<and> short_drops (stats ?t) = 3 \<and> long_drops (stats ?t) = 0 \<and> down ?t"
    by code_simp
  then show ?thesis using wifi_drop_invariant [OF r] r unfolding Let_def by blast
qed

section \<open>What the polls deliver\<close>

fun drop_log :: "tracker \<Rightarrow> drop_call list \<Rightarrow> drop_event list" where
  "drop_log t [] = pending t"
| "drop_log t (c # cs) = delivered c t @ drop_log (after_call c t) cs"

text \<open>\<open>roomy\<close>: no call overruns the queue.\<close>

fun roomy :: "tracker \<Rightarrow> drop_call list \<Rightarrow> bool" where
  "roomy t [] \<longleftrightarrow> True"
| "roomy t (c # cs) \<longleftrightarrow> length (pending t @ call_events c t) \<le> MAX_PENDING \<and> roomy (after_call c t) cs"

lemma drop_log_lossless:
  assumes "length (pending t) \<le> MAX_PENDING" "roomy t cs"
  shows "drop_log t cs = pending t @ map snd (drop_run t cs)"
  using assms
proof (induction cs arbitrary: t)
  case (Cons c cs)
  have "delivered c t @ pending (after_call c t) = pending t @ call_events c t"
    using queue_step(1) [OF Cons.prems(1), of c] Cons.prems(2) by (simp add: newest_id)
  then show ?case using Cons queue_step(2) [OF Cons.prems(1), of c] by (simp add: comp_def flip: append_assoc)
qed simp

text \<open>
  Events reach the caller of \<open>poll\<close> in the order they arose, none lost and none twice: as
  long as no call finds more than the four places of the queue taken, what the polls of a history
  return, followed by what is still queued, is the list of events of the history.  When a call
  does overrun the queue, the newest four are kept.
\<close>

theorem wifi_drop_delivery:
  assumes "drop_reach t"
  shows "(roomy t cs \<longrightarrow> drop_log t cs = pending t @ map snd (drop_run t cs)) \<and>
    delivered c t @ pending (after_call c t) =
      (let q = pending t @ call_events c t in drop (length q - 4) q)"
  using drop_ok_reach [OF assms] drop_log_lossless [of t cs] queue_step(1) [of t c]
  by (simp add: drop_ok_def newest_def Let_def MAX_PENDING_def)

theorem wifi_drop_delivery_witness:
  "drop_reach tracker_init \<and> roomy tracker_init flapping \<and>
   drop_log tracker_init flapping = pending tracker_init @ map snd (drop_run tracker_init flapping) \<and>
   map action (drop_log tracker_init flapping) = [UNSTABLE, LOST, RESTORED]"
proof -
  have "roomy tracker_init flapping" by code_simp
  moreover have "pending tracker_init = []" by (simp add: tracker_init_def)
  ultimately show ?thesis
    using wifi_drop_delivery [OF drop_reach_init, of flapping "Up 0"] flapping_run drop_reach_init by simp
qed


section \<open>The module around the tracker\<close>

text \<open>
  \<open>main/wifi_drops.cpp\<close>: the tracker behind a critical section, with the flag for disconnects the
  controller asked for and the override used by the test endpoints.  A poll returns the calls of
  \<open>event_log_record\<close>.  The WiFi driver's constant for a beacon timeout is a parameter.
\<close>

datatype wifi_log_event = EVENT_WIFI_LOST u32 | EVENT_WIFI_RESTORED u32 | EVENT_WIFI_UNSTABLE u32

record drops_module =
  s_tracker :: tracker
  s_local_pending :: bool
  s_test_reason :: u16



definition wifi_drops_note_down :: "int \<Rightarrow> u16 \<Rightarrow> drops_module \<Rightarrow> drops_module" where
  "wifi_drops_note_down now r d =
     (let local = s_local_pending d;
          (r, local, d) = (if s_test_reason d \<noteq> 0 then (s_test_reason d, False, d\<lparr> s_test_reason := 0 \<rparr>)
                           else (r, local, d));
          d = d\<lparr> s_local_pending := False \<rparr>
      in d\<lparr> s_tracker := on_down now r local (s_tracker d) \<rparr>)"

definition wifi_drops_test_unplanned_next :: "u16 \<Rightarrow> u16 \<Rightarrow> drops_module \<Rightarrow> drops_module" where
  "wifi_drops_test_unplanned_next beacon_timeout r d =
     d\<lparr> s_test_reason := (if r \<noteq> 0 then r else beacon_timeout) \<rparr>"

definition wifi_drops_note_up :: "int \<Rightarrow> drops_module \<Rightarrow> drops_module" where
  "wifi_drops_note_up now d = d\<lparr> s_local_pending := False, s_tracker := on_up now (s_tracker d) \<rparr>"

definition wifi_drops_note_local_disconnect :: "drops_module \<Rightarrow> drops_module" where
  "wifi_drops_note_local_disconnect d = d\<lparr> s_local_pending := True \<rparr>"

fun log_event :: "drop_event \<Rightarrow> wifi_log_event" where
  "log_event e = (case action e of LOST \<Rightarrow> EVENT_WIFI_LOST (payload e)
     | RESTORED \<Rightarrow> EVENT_WIFI_RESTORED (payload e) | UNSTABLE \<Rightarrow> EVENT_WIFI_UNSTABLE (payload e))"

definition wifi_drops_poll :: "int \<Rightarrow> drops_module \<Rightarrow> wifi_log_event list \<times> drops_module" where
  "wifi_drops_poll now d =
     (let (ev, t) = poll now (int MAX_PENDING) (s_tracker d)
      in (map log_event ev, d\<lparr> s_tracker := t \<rparr>))"

definition wifi_drops_stats :: "int \<Rightarrow> drops_module \<Rightarrow> drop_stats" where
  "wifi_drops_stats now d = stats_now now (s_tracker d)"

text \<open>A poll of the module always empties the queue.\<close>

lemma wifi_drops_poll_empties:
  assumes "drop_reach (s_tracker d)"
  shows "pending (s_tracker (snd (wifi_drops_poll now d))) = []"
proof -
  let ?t = "poll_short now (poll_quiet now (poll_lost now (s_tracker d)))"
  have "length (pending (s_tracker d)) \<le> MAX_PENDING"
    using drop_ok_reach [OF assms] by (simp add: drop_ok_def)
  then have "length (pending ?t) \<le> MAX_PENDING" by (simp add: pending_stages)
  then show ?thesis by (simp add: wifi_drops_poll_def poll_def Let_def)
qed

text \<open>
  A disconnect the controller asked for is not a drop, and the excuse is used at most once.
  After \<open>wifi_drops_note_local_disconnect\<close> the next disconnect leaves every statistic as it was and
  can push no event, however long the link stays down; the disconnect after the link has come back
  is counted as an outage again.
\<close>

theorem wifi_drops_local_disconnect:
  assumes "drop_reach (s_tracker d)" "ever_up (s_tracker d)" "\<not> down (s_tracker d)" "s_test_reason d = 0"
  shows "let d1 = wifi_drops_note_down t1 r1 (wifi_drops_note_local_disconnect d);
    d2 = wifi_drops_note_up t2 d1 in
    stats (s_tracker d1) = stats (s_tracker d) \<and> lost_events now (s_tracker d1) = [] \<and>
    up_events now (s_tracker d1) = [] \<and> stats (s_tracker d2) = stats (s_tracker d) \<and>
    \<not> st_down (wifi_drops_stats now d1) \<and>
    drops (stats (s_tracker (wifi_drops_note_down t3 r3 d2))) = drops (stats (s_tracker d)) + 1 \<and>
    last_reason (stats (s_tracker (wifi_drops_note_down t3 r3 d2))) = r3"
  using assms
  by (simp add: wifi_drops_note_down_def wifi_drops_note_local_disconnect_def wifi_drops_note_up_def
      on_down_def on_up_def lost_events_def up_events_def wifi_drops_stats_def stats_now_def Let_def)

theorem wifi_drops_local_disconnect_witness:
  "drops (stats (s_tracker (wifi_drops_note_down 900 8 (wifi_drops_note_up 800
     (wifi_drops_note_down 100 204 (wifi_drops_note_local_disconnect
        \<lparr> s_tracker = on_up 0 tracker_init, s_local_pending = False, s_test_reason = 0 \<rparr>)))))) = 1"
  using wifi_drops_local_disconnect [of
      "\<lparr> s_tracker = on_up 0 tracker_init, s_local_pending = False, s_test_reason = 0 \<rparr>" 100 204 800 0 900 8]
    drop_reach_call [OF drop_reach_init, of "Up 0"]
  by (simp add: on_up_def tracker_init_def Let_def)

section \<open>The policy, in the event log\<close>

text \<open>What the polls of a history of tracker calls deliver, with the time of the poll.\<close>

fun recorded :: "tracker \<Rightarrow> drop_call list \<Rightarrow> (int \<times> drop_event) list" where
  "recorded t [] = []"
| "recorded t (c # cs) = map (Pair (call_time c)) (delivered c t) @ recorded (after_call c t) cs"

text \<open>Every call comes less than a minute after the last poll (or after \<open>p\<close>), and a poll takes all.\<close>

fun polled :: "int \<Rightarrow> drop_call list \<Rightarrow> bool" where
  "polled p [] \<longleftrightarrow> True"
| "polled p (Poll now n # cs) \<longleftrightarrow> now < p + LONG_MS \<and> int MAX_PENDING \<le> n \<and> polled now cs"
| "polled p (c # cs) \<longleftrightarrow> call_time c < p + LONG_MS \<and> polled p cs"

text \<open>
  The queue between two polls: at most the two events of one outage wait, and while they wait no
  other outage can get old enough to be reported.
\<close>

definition waiting_ok :: "int \<Rightarrow> tracker \<Rightarrow> bool" where
  "waiting_ok p t \<longleftrightarrow> length (pending t) \<le> 2 \<and> (\<forall>e \<in> set (pending t). action e \<noteq> UNSTABLE) \<and>
     (pending t \<noteq> [] \<and> down t \<longrightarrow> p \<le> down_since_ms t \<and> \<not> lost_logged t)"

lemma waiting_no_report:
  assumes "waiting_ok p t" "pending t \<noteq> []" "now < p + LONG_MS"
  shows "up_events now t = []" "lost_events now t = []"
  using assms by (auto simp: waiting_ok_def up_events_def lost_events_def Let_def)

lemma events_short:
  "length (up_events now t) \<le> 2" "length (lost_events now t) \<le> 1"
  "length (quiet_events now t) \<le> 1" "length (short_events now t) \<le> 1"
  by (simp_all add: up_events_def lost_events_def quiet_events_def short_events_def Let_def)

lemma up_not_unstable: "e \<in> set (up_events now t) \<Longrightarrow> action e \<noteq> UNSTABLE"
  by (auto simp: up_events_def Let_def split: if_splits)

lemma call_room:
  assumes "waiting_ok p t" "call_time c < p + LONG_MS"
  shows "length (pending t @ call_events c t) \<le> MAX_PENDING"
proof (cases c)
  case (Down now r l)
  then show ?thesis using assms(1) by (simp add: waiting_ok_def MAX_PENDING_def)
next
  case (Up now)
  then show ?thesis
    using assms waiting_no_report(1) [OF assms(1), of now] events_short(1) [of now t]
    by (cases "pending t = []") (auto simp: waiting_ok_def MAX_PENDING_def)
next
  case (Poll now n)
  then show ?thesis
    using assms waiting_no_report(2) [OF assms(1), of now] events_short(2,3) [of now t]
      events_short(4) [of now "poll_quiet now t"]
    by (cases "pending t = []") (auto simp: waiting_ok_def MAX_PENDING_def poll_events_def)
qed

lemma call_exact:
  assumes "waiting_ok p t" "call_time c < p + LONG_MS"
  shows "pending t @ call_events c t = delivered c t @ pending (after_call c t)"
  using queue_step(1) [of t c] call_room [OF assms] by (simp add: newest_id)

lemma poll_takes_all:
  assumes "waiting_ok p t" "now < p + LONG_MS" "int MAX_PENDING \<le> n"
  shows "pending (after_call (Poll now n) t) = []"
proof -
  have soon: "call_time (Poll now n) < p + LONG_MS" using assms(2) by simp
  have "length (delivered (Poll now n) t @ pending (after_call (Poll now n) t)) \<le> MAX_PENDING"
    using call_room [OF assms(1) soon] by (simp only: call_exact [OF assms(1) soon])
  then show ?thesis
    using assms(3) by (simp add: poll_def Let_def MAX_PENDING_def min_def) linarith
qed

lemma waiting_up:
  assumes "waiting_ok p t" "now < p + LONG_MS"
  shows "waiting_ok p (on_up now t)"
proof -
  have q: "pending (on_up now t) = pending t @ up_events now t"
    using call_exact [OF assms(1), of "Up now"] assms(2) by simp
  have "length (pending (on_up now t)) \<le> 2"
    unfolding q using assms waiting_no_report(1) [OF assms(1) _ assms(2)] events_short(1) [of now t]
    by (cases "pending t = []") (auto simp: waiting_ok_def)
  moreover have "\<not> down (on_up now t)"
    by (simp add: on_up_def add_short_def Let_def)
  ultimately show ?thesis
    using assms(1) up_not_unstable unfolding waiting_ok_def q by auto
qed

lemma waiting_down:
  assumes "waiting_ok p t" "p \<le> now"
  shows "waiting_ok p (on_down now r l t)"
  using assms by (auto simp: waiting_ok_def on_down_def Let_def)

lemma unstable_times_none: "\<forall>e \<in> set es. action e \<noteq> UNSTABLE \<Longrightarrow> unstable_times (map (Pair tm) es) = []"
  by (induction es) (auto simp: unstable_times_def)

lemma recorded_run:
  assumes "waiting_ok p t" "polled p cs" "sorted (p # map call_time cs)"
  shows "map snd (recorded t cs) @ pending (fold after_call cs t) = pending t @ map snd (drop_run t cs)"
    and "unstable_times (recorded t cs) = unstable_times (drop_run t cs)"
    and "cs \<noteq> [] \<and> last cs = Poll now n \<Longrightarrow> pending (fold after_call cs t) = []"
proof -
  have "map snd (recorded t cs) @ pending (fold after_call cs t) = pending t @ map snd (drop_run t cs) \<and>
    unstable_times (recorded t cs) = unstable_times (drop_run t cs) \<and>
    (\<forall>now n. cs \<noteq> [] \<and> last cs = Poll now n \<longrightarrow> pending (fold after_call cs t) = [])"
    using assms
  proof (induction cs arbitrary: p t)
    case Nil
    then show ?case by simp
  next
    case (Cons c cs)
    let ?t = "after_call c t"
    have soon: "call_time c < p + LONG_MS" and le: "p \<le> call_time c"
      using Cons.prems by (cases c; simp)+
    note exact = call_exact [OF Cons.prems(1) soon]
    have quiet: "\<forall>e \<in> set (pending t). action e \<noteq> UNSTABLE"
      using Cons.prems(1) by (simp add: waiting_ok_def)
    obtain p' where nx: "waiting_ok p' ?t" "polled p' cs" "sorted (p' # map call_time cs)"
      and us: "unstable_times (map (Pair (call_time c)) (delivered c t)) =
        unstable_times (map (Pair (call_time c)) (call_events c t))"
      and fin: "\<And>now n. c = Poll now n \<Longrightarrow> pending ?t = []"
    proof (cases c)
      case (Down now r l)
      then show thesis
        using Cons.prems waiting_down [OF Cons.prems(1)] le
        by (intro that [of p]) auto
    next
      case (Up now)
      then show thesis
        using Cons.prems waiting_up [OF Cons.prems(1)] soon up_not_unstable
        by (intro that [of p]) (auto simp: unstable_times_none, simp add: unstable_times_def)
    next
      case (Poll now n)
      have empty: "pending ?t = []"
        using poll_takes_all [OF Cons.prems(1), of now n] soon Cons.prems(2) Poll by simp
      then have "delivered c t = pending t @ call_events c t"
        using exact by simp
      then have "unstable_times (map (Pair now) (delivered c t)) =
          unstable_times (map (Pair now) (call_events c t))"
        by (simp add: unstable_times_none [OF quiet])
      then show thesis
        using Cons.prems Poll empty by (intro that [of now]) (auto simp: waiting_ok_def)
    qed
    note IH = Cons.IH [OF nx]
    have "map snd (recorded t (c # cs)) @ pending (fold after_call (c # cs) t) =
        pending t @ map snd (drop_run t (c # cs))"
      using IH exact by (simp add: comp_def flip: append_assoc) (simp add: exact)
    then show ?case
      using IH us fin by (auto split: if_splits)
  qed
  then show "map snd (recorded t cs) @ pending (fold after_call cs t) = pending t @ map snd (drop_run t cs)"
    "unstable_times (recorded t cs) = unstable_times (drop_run t cs)"
    "cs \<noteq> [] \<and> last cs = Poll now n \<Longrightarrow> pending (fold after_call cs t) = []"
    by blast+
qed

text \<open>Whether the last thing reported of the link is that it is lost.\<close>

fun reported_lost :: "bool \<Rightarrow> drop_action list \<Rightarrow> bool" where
  "reported_lost lost [] \<longleftrightarrow> lost"
| "reported_lost lost (LOST # as) \<longleftrightarrow> reported_lost True as"
| "reported_lost lost (RESTORED # as) \<longleftrightarrow> reported_lost False as"
| "reported_lost lost (UNSTABLE # as) \<longleftrightarrow> reported_lost lost as"

lemma reported_unstable [simp]:
  "set as \<subseteq> {UNSTABLE} \<Longrightarrow> reported_lost o1 (as @ bs) = reported_lost o1 bs"
  by (induction as) auto

lemma reported_call:
  "reported_lost (owed t) (map action (call_events c t) @ as) = reported_lost (owed (after_call c t)) as"
proof (cases c)
  case (Down now r l)
  then show ?thesis by (simp add: owed_def on_down_def Let_def)
next
  case (Up now)
  have "\<not> owed (on_up now t)" by (simp add: owed_def on_up_def add_short_def Let_def)
  then show ?thesis using Up by (auto simp: owed_def up_events_def Let_def)
next
  case (Poll now n)
  then show ?thesis
    using unstable_only [of now t] unstable_only [of now "poll_quiet now t"]
    by (auto simp: poll_events_def owed_def poll_state lost_events_def simp del: set_map)
qed

lemma reported_run: "reported_lost (owed t) (map (action \<circ> snd) (drop_run t cs)) = owed (fold after_call cs t)"
proof (induction cs arbitrary: t)
  case (Cons c cs)
  then show ?case
    using reported_call [of t c "map (action \<circ> snd) (drop_run (after_call c t) cs)"]
    by (simp add: comp_def)
qed simp

lemma alternates_prefix: "alternates o1 (as @ bs) \<Longrightarrow> alternates o1 as"
  by (induction o1 as rule: alternates.induct) auto

text \<open>An outage is reported exactly when it is a minute old, seen from a poll.\<close>

definition old_outage :: "int \<Rightarrow> tracker \<Rightarrow> bool" where
  "old_outage now t \<longleftrightarrow> down t \<and> \<not> down_local t \<and> LONG_MS \<le> now - down_since_ms t"

lemma owed_old_call: "(owed t \<longrightarrow> old_outage p t) \<Longrightarrow> p \<le> call_time c \<Longrightarrow>
    owed (after_call c t) \<longrightarrow> old_outage (call_time c) (after_call c t)"
proof (cases c)
  case (Poll now n)
  assume "owed t \<longrightarrow> old_outage p t" "p \<le> call_time c"
  moreover have "down_since_ms (snd (poll now n t)) = down_since_ms t"
    by (simp add: poll_def stage_defs)
  ultimately show ?thesis
    using Poll by (auto simp: owed_def old_outage_def poll_state lost_events_def)
qed (auto simp: owed_def old_outage_def on_down_def on_up_def add_short_def Let_def)

lemma owed_old_run:
  "(owed t \<longrightarrow> old_outage p t) \<Longrightarrow> sorted (p # map call_time cs) \<Longrightarrow> cs \<noteq> [] \<Longrightarrow>
     owed (fold after_call cs t) \<longrightarrow> old_outage (call_time (last cs)) (fold after_call cs t)"
proof (induction cs arbitrary: t p)
  case (Cons c cs)
  then have "owed (after_call c t) \<longrightarrow> old_outage (call_time c) (after_call c t)"
    by (intro owed_old_call [of t p]) simp_all
  then show ?case
    using Cons.IH [of "after_call c t" "call_time c"] Cons.prems(2) by (cases "cs = []") simp_all
qed simp

lemma old_owed_poll: "old_outage now (after_call (Poll now n) t) \<Longrightarrow> owed (after_call (Poll now n) t)"
proof -
  have "down_since_ms (snd (poll now n t)) = down_since_ms t"
    by (simp add: poll_def stage_defs)
  then show "old_outage now (after_call (Poll now n) t) \<Longrightarrow> owed (after_call (Poll now n) t)"
    by (auto simp: owed_def old_outage_def poll_state lost_events_def)
qed


text \<open>
  Histories of the module: the callbacks of the WiFi driver, the disconnects the controller asks for,
  the test hook and the polls of the supervisor.  \<open>drops_log\<close> is what the polls write to the event
  log, with the time of the poll.
\<close>

datatype drops_call =
  Note_down int u16 | Note_up int | Note_local_disconnect | Test_unplanned_next u16 u16 | Drops_poll int

fun drops_step :: "drops_call \<Rightarrow> drops_module \<Rightarrow> wifi_log_event list \<times> drops_module" where
  "drops_step (Note_down now r) d = ([], wifi_drops_note_down now r d)"
| "drops_step (Note_up now) d = ([], wifi_drops_note_up now d)"
| "drops_step Note_local_disconnect d = ([], wifi_drops_note_local_disconnect d)"
| "drops_step (Test_unplanned_next beacon r) d = ([], wifi_drops_test_unplanned_next beacon r d)"
| "drops_step (Drops_poll now) d = wifi_drops_poll now d"

fun drops_times :: "drops_call \<Rightarrow> int list" where
  "drops_times (Note_down now _) = [now]"
| "drops_times (Note_up now) = [now]"
| "drops_times (Drops_poll now) = [now]"
| "drops_times _ = []"

fun drops_log :: "drops_module \<Rightarrow> drops_call list \<Rightarrow> (int \<times> wifi_log_event) list" where
  "drops_log d [] = []"
| "drops_log d (Drops_poll now # cs) =
     (case wifi_drops_poll now d of (es, d') \<Rightarrow> map (Pair now) es @ drops_log d' cs)"
| "drops_log d (c # cs) = drops_log (snd (drops_step c d)) cs"

definition drops_init :: drops_module where
  "drops_init = \<lparr> s_tracker = tracker_init, s_local_pending = False, s_test_reason = 0 \<rparr>"

definition drops_after :: "drops_call list \<Rightarrow> drops_module" where
  "drops_after cs = fold (\<lambda>c d. snd (drops_step c d)) cs drops_init"

text \<open>The supervisor polls at least once a minute (it sleeps 15 s at most between two passes).\<close>

fun drops_polled :: "int \<Rightarrow> drops_call list \<Rightarrow> bool" where
  "drops_polled p [] \<longleftrightarrow> True"
| "drops_polled p (Drops_poll now # cs) \<longleftrightarrow> now < p + 60000 \<and> drops_polled now cs"
| "drops_polled p (c # cs) \<longleftrightarrow> (\<forall>now \<in> set (drops_times c). now < p + 60000) \<and> drops_polled p cs"

fun kind :: "wifi_log_event \<Rightarrow> drop_action" where
  "kind (EVENT_WIFI_LOST _) = LOST"
| "kind (EVENT_WIFI_RESTORED _) = RESTORED"
| "kind (EVENT_WIFI_UNSTABLE _) = UNSTABLE"

definition unstable_log_times :: "(int \<times> wifi_log_event) list \<Rightarrow> int list" where
  "unstable_log_times es = map fst (filter (\<lambda>(_, e). kind e = UNSTABLE) es)"

text \<open>The calls of the tracker behind a call of the module.\<close>

fun tracker_calls :: "drops_module \<Rightarrow> drops_call \<Rightarrow> drop_call list" where
  "tracker_calls d (Note_down now r) =
     [if s_test_reason d \<noteq> 0 then Down now (s_test_reason d) False else Down now r (s_local_pending d)]"
| "tracker_calls d (Note_up now) = [Up now]"
| "tracker_calls d (Drops_poll now) = [Poll now (int MAX_PENDING)]"
| "tracker_calls d _ = []"

fun translate :: "drops_module \<Rightarrow> drops_call list \<Rightarrow> drop_call list" where
  "translate d [] = []"
| "translate d (c # cs) = tracker_calls d c @ translate (snd (drops_step c d)) cs"

lemma step_tracker: "s_tracker (snd (drops_step c d)) = fold after_call (tracker_calls d c) (s_tracker d)"
  by (cases c) (auto simp: wifi_drops_note_down_def wifi_drops_note_up_def wifi_drops_note_local_disconnect_def
      wifi_drops_test_unplanned_next_def wifi_drops_poll_def Let_def split: prod.splits)

lemma after_tracker:
  "s_tracker (fold (\<lambda>c d. snd (drops_step c d)) cs d) = fold after_call (translate d cs) (s_tracker d)"
  by (induction cs arbitrary: d) (simp_all add: step_tracker)

lemma kind_log_event [simp]: "kind (log_event e) = action e"
  by (cases "action e") simp_all

lemma log_recorded: "drops_log d cs = map (apsnd log_event) (recorded (s_tracker d) (translate d cs))"
proof (induction d cs rule: drops_log.induct)
  case (2 d now cs)
  then show ?case
    by (cases "poll now (int MAX_PENDING) (s_tracker d)") (simp add: wifi_drops_poll_def)
qed (auto simp: wifi_drops_note_down_def wifi_drops_note_up_def wifi_drops_note_local_disconnect_def
    wifi_drops_test_unplanned_next_def Let_def)

lemma translate_times: "map call_time (translate d cs) = concat (map drops_times cs)"
proof (induction cs arbitrary: d)
  case (Cons c cs)
  then show ?case by (cases c) simp_all
qed simp

lemma translate_polled: "drops_polled p cs \<Longrightarrow> polled p (translate d cs)"
proof (induction p cs arbitrary: d rule: drops_polled.induct)
  case (2 p now cs)
  then show ?case by (simp add: LONG_MS_def)
qed (simp_all add: LONG_MS_def)

text \<open>
  C12: The event-log policy of the WiFi drops.  In every history of the module in which it is
  polled at least once a minute, on a clock that does not run backwards: the events its polls write
  to the event log alternate strictly between LOST and RESTORED, starting with LOST, so no outage is
  reported lost twice and none restored that was not reported lost; two UNSTABLE events are at least
  an hour apart; and after a poll the last of LOST and RESTORED is LOST exactly when an outage the
  controller did not ask for is in progress and at least a minute old.
\<close>

theorem wifi_drop_policy:
  assumes "drops_polled 0 cs" "sorted (0 # concat (map drops_times cs))"
  shows "alternates False (map (kind \<circ> snd) (drops_log drops_init cs)) \<and>
    sorted_wrt (\<lambda>a b. a + 3600000 \<le> b) (unstable_log_times (drops_log drops_init cs)) \<and>
    (cs \<noteq> [] \<and> last cs = Drops_poll now \<longrightarrow>
       reported_lost False (map (kind \<circ> snd) (drops_log drops_init cs)) =
         old_outage now (s_tracker (drops_after cs)))"
proof (intro conjI impI)
  let ?ds = "translate drops_init cs"
  let ?es = "recorded tracker_init ?ds"
  have start: "s_tracker drops_init = tracker_init" "waiting_ok 0 tracker_init" "pending tracker_init = []"
    "\<not> owed tracker_init"
    by (simp_all add: drops_init_def tracker_init_def waiting_ok_def owed_def)
  have sorted: "sorted (0 # map call_time ?ds)"
    using assms(2) by (simp add: translate_times)
  note run = recorded_run [OF start(2) translate_polled [OF assms(1)] sorted]
  have kinds: "map (kind \<circ> snd) (drops_log drops_init cs) = map action (map snd ?es)"
    by (simp add: log_recorded start(1) comp_def del: log_event.simps)
  have whole: "map action (map snd ?es) @ map action (pending (fold after_call ?ds tracker_init)) =
      map (action \<circ> snd) (drop_run tracker_init ?ds)"
    using arg_cong [OF run(1), of "map action"] by (simp add: start(3))
  show "alternates False (map (kind \<circ> snd) (drops_log drops_init cs))"
    using alternates_run [of tracker_init ?ds] start(4) unfolding kinds whole [symmetric]
    by (simp add: alternates_prefix)
  have "unstable_log_times (drops_log drops_init cs) = unstable_times ?es"
    by (simp add: log_recorded start(1) unstable_log_times_def unstable_times_def filter_map comp_def
        case_prod_unfold del: log_event.simps)
  then show "sorted_wrt (\<lambda>a b. a + 3600000 \<le> b) (unstable_log_times (drops_log drops_init cs))"
    using unstable_run [of ?ds tracker_init] sorted run(2) by (simp add: UNSTABLE_WINDOW_MS_def)
  assume last: "cs \<noteq> [] \<and> last cs = Drops_poll now"
  define es where "es = translate drops_init (butlast cs)"
  have ds: "?ds = es @ [Poll now (int MAX_PENDING)]"
  proof -
    have "translate d (xs @ [Drops_poll now]) = translate d xs @ [Poll now (int MAX_PENDING)]" for d xs
      by (induction xs arbitrary: d) simp_all
    then show ?thesis
      using last append_butlast_last_id [of cs] unfolding es_def by metis
  qed
  let ?t = "fold after_call ?ds tracker_init"
  have "pending ?t = []"
    using run(3) [of now "int MAX_PENDING"] ds by simp
  then have "reported_lost False (map action (map snd ?es)) = owed ?t"
    using whole reported_run [of tracker_init ?ds] start(4) by simp
  moreover have "owed ?t \<longrightarrow> old_outage now ?t"
    using owed_old_run [of tracker_init 0 ?ds] sorted start(4) ds by simp
  moreover have "old_outage now ?t \<longrightarrow> owed ?t"
    using old_owed_poll [of now "int MAX_PENDING" "fold after_call es tracker_init"] by (simp add: ds)
  moreover have "s_tracker (drops_after cs) = ?t"
    by (simp add: drops_after_def after_tracker start(1))
  ultimately show "reported_lost False (map (kind \<circ> snd) (drops_log drops_init cs)) =
      old_outage now (s_tracker (drops_after cs))"
    unfolding kinds by auto
qed

definition flapping_link :: "drops_call list" where
  "flapping_link = [Note_up 0, Note_down 1000 8, Note_up 2000, Note_down 3000 8, Note_up 4000,
     Note_down 5000 8, Note_up 6000, Drops_poll 7000, Note_down 8000 200, Drops_poll 50000,
     Drops_poll 70000, Note_up 71000, Note_local_disconnect, Note_down 72000 8, Note_up 73000,
     Note_down 74000 201, Drops_poll 80000, Drops_poll 120000, Drops_poll 150000]"

lemma poll_keeps_flags [simp]:
  "s_local_pending (snd (wifi_drops_poll now d)) = s_local_pending d"
  "s_test_reason (snd (wifi_drops_poll now d)) = s_test_reason d"
  by (simp_all add: wifi_drops_poll_def split: prod.splits)

lemma flapping_link_calls: "translate drops_init flapping_link =
    [Up 0, Down 1000 8 False, Up 2000, Down 3000 8 False, Up 4000, Down 5000 8 False, Up 6000, Poll 7000 4,
     Down 8000 200 False, Poll 50000 4, Poll 70000 4, Up 71000, Down 72000 8 True, Up 73000,
     Down 74000 201 False, Poll 80000 4, Poll 120000 4, Poll 150000 4]"
  by (simp add: flapping_link_def drops_init_def wifi_drops_note_down_def wifi_drops_note_up_def
      wifi_drops_note_local_disconnect_def MAX_PENDING_def Let_def)

lemma flapping_link_recorded: "recorded tracker_init
    [Up 0, Down 1000 8 False, Up 2000, Down 3000 8 False, Up 4000, Down 5000 8 False, Up 6000, Poll 7000 4,
     Down 8000 200 False, Poll 50000 4, Poll 70000 4, Up 71000, Down 72000 8 True, Up 73000,
     Down 74000 201 False, Poll 80000 4, Poll 120000 4, Poll 150000 4] =
    [(7000, \<lparr> action = UNSTABLE, payload = 3 \<rparr>), (70000, \<lparr> action = LOST, payload = 200 \<rparr>),
     (80000, \<lparr> action = RESTORED, payload = 63 \<rparr>), (150000, \<lparr> action = LOST, payload = 201 \<rparr>)]"
  by code_simp

lemma flapping_link_log: "drops_log drops_init flapping_link =
    [(7000, EVENT_WIFI_UNSTABLE 3), (70000, EVENT_WIFI_LOST 200), (80000, EVENT_WIFI_RESTORED 63),
     (150000, EVENT_WIFI_LOST 201)]"
proof -
  have init: "s_tracker drops_init = tracker_init" by (simp add: drops_init_def)
  show ?thesis
    by (simp only: log_recorded flapping_link_calls init flapping_link_recorded) simp
qed

theorem wifi_drop_policy_witness:
  "alternates False (map (kind \<circ> snd) (drops_log drops_init flapping_link)) \<and>
   sorted_wrt (\<lambda>a b. a + 3600000 \<le> b) (unstable_log_times (drops_log drops_init flapping_link)) \<and>
   length (drops_log drops_init flapping_link) = 4 \<and>
   old_outage 150000 (s_tracker (drops_after flapping_link))"
proof -
  have "drops_polled 0 flapping_link" "sorted (0 # concat (map drops_times flapping_link))"
    "flapping_link \<noteq> [] \<and> last flapping_link = Drops_poll 150000"
    by (simp_all add: flapping_link_def)
  from wifi_drop_policy [OF this(1,2), of 150000] this(3) show ?thesis
    by (simp add: flapping_link_log)
qed

end
