(* ===== verification/Wifi_Roam.thy ===== *)
theory Wifi_Roam
  imports Prelude
begin

text \<open>
  WiFi roaming: the policy of \<open>main/wifi_roam_policy.h\<close> (when to scan, which access point to move
  to) and its driver \<open>main/wifi_roam.cpp\<close> (the sequence of WiFi-manager calls of one roam).

  The WiFi manager is a parameter: \<open>roam_env\<close> lists what its calls answer during one \<open>roam\<close>, and
  the model returns the calls that change the link (\<open>link_call\<close>).  Signal strengths are integers:
  the code widens its \<open>int8_t\<close> readings to \<open>int\<close> before every comparison.
\<close>

section \<open>The policy\<close>

record bss =
  bssid :: "u8 list"
  rssi :: int
  channel :: u8

definition WEAK_RSSI :: int where "WEAK_RSSI = -70"
definition GOOD_RSSI :: int where "GOOD_RSSI = -60"
definition WEAK_FOR_MS :: int where "WEAK_FOR_MS = 60000"
definition SETTLE_MS :: int where "SETTLE_MS = 120000"
definition RESCAN_MS :: int where "RESCAN_MS = 900000"
definition MIN_GAIN_DB :: int where "MIN_GAIN_DB = 10"

lemmas roam_consts = WEAK_RSSI_def GOOD_RSSI_def WEAK_FOR_MS_def SETTLE_MS_def RESCAN_MS_def MIN_GAIN_DB_def

record roam_policy =
  connected_since :: int
  weak_since :: int
  last_scan :: int
  connect_checked :: bool

definition policy_init :: roam_policy where
  "policy_init = \<lparr> connected_since = -1, weak_since = -1, last_scan = -1, connect_checked = False \<rparr>"

text \<open>The rule for weak links, the tail of \<open>sample\<close> after the one-off check.\<close>

definition sample_weak :: "int \<Rightarrow> int \<Rightarrow> roam_policy \<Rightarrow> bool \<times> roam_policy" where
  "sample_weak now r p =
     (if r = 0 \<or> r > WEAK_RSSI then (False, p\<lparr> weak_since := -1 \<rparr>)
      else
        let p = (if weak_since p < 0 then p\<lparr> weak_since := now \<rparr> else p) in
        if now - weak_since p < WEAK_FOR_MS then (False, p)
        else if last_scan p \<ge> 0 \<and> now - last_scan p < RESCAN_MS then (False, p)
        else (True, p))"

definition sample :: "int \<Rightarrow> bool \<Rightarrow> int \<Rightarrow> roam_policy \<Rightarrow> bool \<times> roam_policy" where
  "sample now connected r p =
     (if \<not> connected then (False, p\<lparr> connected_since := -1, weak_since := -1, connect_checked := False \<rparr>)
      else
        let p = (if connected_since p < 0 then p\<lparr> connected_since := now \<rparr> else p) in
        if now - connected_since p < SETTLE_MS then
          (False, if r = 0 \<or> r > WEAK_RSSI then p\<lparr> weak_since := -1 \<rparr>
                  else if weak_since p < 0 then p\<lparr> weak_since := now \<rparr> else p)
        else if \<not> connect_checked p then
          let p = p\<lparr> connect_checked := True \<rparr> in
          if r \<noteq> 0 \<and> r \<le> GOOD_RSSI then (True, p) else sample_weak now r p
        else sample_weak now r p)"

text \<open>The loop of \<open>pick\<close> over \<open>c[i..]\<close>, with the best candidate so far.\<close>

fun pick_from :: "u8 list \<Rightarrow> int \<Rightarrow> bool \<Rightarrow> bss list \<Rightarrow> nat \<Rightarrow> nat option \<Rightarrow> nat \<Rightarrow> nat option" where
  "pick_from cur cur_rssi any c i best 0 = best"
| "pick_from cur cur_rssi any c i best (Suc k) =
     (if bssid (c ! i) = cur then pick_from cur cur_rssi any c (Suc i) best k
      else if \<not> any \<and> rssi (c ! i) < cur_rssi + MIN_GAIN_DB then pick_from cur cur_rssi any c (Suc i) best k
      else pick_from cur cur_rssi any c (Suc i)
        (case best of None \<Rightarrow> Some i | Some b \<Rightarrow> if rssi (c ! i) > rssi (c ! b) then Some i else best) k)"

definition pick :: "int \<Rightarrow> u8 list \<Rightarrow> int \<Rightarrow> bss list \<Rightarrow> bool \<Rightarrow> roam_policy \<Rightarrow> int \<times> roam_policy" where
  "pick now cur cur_rssi c any p =
     ((case pick_from cur cur_rssi any c 0 None (length c) of None \<Rightarrow> -1 | Some i \<Rightarrow> int i),
      p\<lparr> last_scan := now \<rparr>)"

definition on_roam :: "int \<Rightarrow> roam_policy \<Rightarrow> roam_policy" where
  "on_roam now p = p\<lparr> connected_since := now, weak_since := -1, last_scan := now, connect_checked := True \<rparr>"

section \<open>The driver\<close>

definition wifi_roam_pack :: "int \<Rightarrow> int \<Rightarrow> u8 \<Rightarrow> u32" where
  "wifi_roam_pack from_rssi to_rssi ch =
     (ucast (of_int (- from_rssi) :: u8) :: u32) OR
     push_bit 8 (ucast (of_int (- to_rssi) :: u8) :: u32) OR push_bit 16 (ucast ch :: u32)"

definition wifi_roam_from_rssi :: "u32 \<Rightarrow> int" where
  "wifi_roam_from_rssi p = - uint (p AND 0xFF)"

definition wifi_roam_to_rssi :: "u32 \<Rightarrow> int" where
  "wifi_roam_to_rssi p = - uint (drop_bit 8 p AND 0xFF)"

definition wifi_roam_channel :: "u32 \<Rightarrow> nat" where
  "wifi_roam_channel p = unat (drop_bit 16 p AND 0xFF)"

datatype link_call = Disconnect | Connect_bss "u8 list" u8 | Connect_any

datatype roam_result = Not_connected | No_credentials | Scan_failed | No_better | Dry_run | Roamed | Roam_failed | Busy

text \<open>
  What the world answers during one roam: the current access point, whether credentials are
  stored, the access points found (\<open>None\<close> for a failed scan), the outcome of the pinned connect,
  the link state at each 200 ms probe (associated and holding an address), the access point after
  the move, and the clock at the two places the code reads it.
\<close>

record roam_env =
  current_bss :: "bss option"
  credentials :: bool
  found :: "bss list option"
  connect_ok :: bool
  link_up :: "nat \<Rightarrow> bool"
  now_on :: "bss option"
  pick_ms :: int
  roam_ms :: int

record roam_state =
  s_policy :: roam_policy
  s_busy :: bool
  s_roams :: u32

definition CONNECT_TIMEOUT_MS :: nat where "CONNECT_TIMEOUT_MS = 20000"

function wait_from :: "(nat \<Rightarrow> bool) \<Rightarrow> nat \<Rightarrow> nat \<Rightarrow> nat \<Rightarrow> bool" where
  "wait_from up timeout waited k =
     (if waited < timeout then (if up k then True else wait_from up timeout (waited + 200) (Suc k)) else False)"
  by pat_completeness auto
termination by (relation "measure (\<lambda>(up, timeout, waited, k). timeout - waited)") auto

declare wait_from.simps [simp del]

definition wait_connected :: "(nat \<Rightarrow> bool) \<Rightarrow> nat \<Rightarrow> bool" where
  "wait_connected up timeout_ms = wait_from up timeout_ms 0 0"

definition NOWHERE :: "u8 list" where "NOWHERE = [2, 0, 0, 0, 0, 1]"

definition roam_move :: "bss \<Rightarrow> bss \<Rightarrow> roam_env \<Rightarrow> roam_state \<Rightarrow>
    roam_result \<times> link_call list \<times> u32 list \<times> roam_state" where
  "roam_move cur target e s =
     (let ok = connect_ok e \<and> wait_connected (link_up e) CONNECT_TIMEOUT_MS;
          s = s\<lparr> s_policy := on_roam (roam_ms e) (s_policy s) \<rparr>;
          calls = [Disconnect, Connect_bss (bssid target) (channel target)]
      in if ok then
           let r = (case now_on e of Some b \<Rightarrow> rssi b | None \<Rightarrow> rssi target)
           in (Roamed, calls, [wifi_roam_pack (rssi cur) r (channel target)], s\<lparr> s_roams := s_roams s + 1 \<rparr>)
         else (Roam_failed, calls @ [Disconnect, Connect_any], [], s))"

definition roam :: "bool \<Rightarrow> bool \<Rightarrow> bool \<Rightarrow> roam_env \<Rightarrow> roam_state \<Rightarrow>
    roam_result \<times> link_call list \<times> u32 list \<times> roam_state" where
  "roam any bogus dry e s =
     (case current_bss e of None \<Rightarrow> (Not_connected, [], [], s)
      | Some cur \<Rightarrow>
        if \<not> credentials e then (No_credentials, [], [], s)
        else
          let c = (case found e of None \<Rightarrow> [] | Some c \<Rightarrow> c);
              (idx, p) = pick (pick_ms e) (bssid cur) (rssi cur) c any (s_policy s);
              s = s\<lparr> s_policy := p \<rparr>
          in if found e = None then (Scan_failed, [], [], s)
             else if bogus then
               let target = \<lparr> bssid = NOWHERE, rssi = rssi cur, channel = channel cur \<rparr>
               in if dry then (Dry_run, [], [], s) else roam_move cur target e s
             else if idx < 0 then (No_better, [], [], s)
             else
               let target = c ! nat idx
               in if dry then (Dry_run, [], [], s) else roam_move cur target e s)"

text \<open>\<open>busy_now\<close> is what the exchange on \<open>s_busy\<close> sees; only this task clears the flag it set.\<close>

definition wifi_roam_poll :: "int \<Rightarrow> bool \<Rightarrow> int \<Rightarrow> roam_env \<Rightarrow> roam_state \<Rightarrow>
    (roam_result \<times> link_call list \<times> u32 list) option \<times> roam_state" where
  "wifi_roam_poll now connected mgr_rssi e s =
     (let r = (if connected then mgr_rssi else 0);
          (due, p) = sample now connected r (s_policy s);
          s = s\<lparr> s_policy := p \<rparr>
      in if \<not> due then (None, s)
         else if s_busy s then (None, s)
         else
           let (res, calls, evs, s) = roam False False False e (s\<lparr> s_busy := True \<rparr>)
           in (Some (res, calls, evs), s\<lparr> s_busy := False \<rparr>))"

definition wifi_roam_test_run :: "bool \<Rightarrow> bool \<Rightarrow> bool \<Rightarrow> roam_env \<Rightarrow> roam_state \<Rightarrow>
    (roam_result \<times> link_call list \<times> u32 list) \<times> roam_state" where
  "wifi_roam_test_run any bogus dry e s =
     (if s_busy s then ((Busy, [], []), s)
      else
        let (res, calls, evs, s) = roam any bogus dry e (s\<lparr> s_busy := True \<rparr>)
        in ((res, calls, evs), s\<lparr> s_busy := False \<rparr>))"

definition wifi_roam_count :: "roam_state \<Rightarrow> u32" where "wifi_roam_count s = s_roams s"

definition wifi_roam_in_progress :: "roam_state \<Rightarrow> bool" where "wifi_roam_in_progress s = s_busy s"

section \<open>Choosing the access point\<close>

definition qualifies :: "u8 list \<Rightarrow> int \<Rightarrow> bool \<Rightarrow> bss \<Rightarrow> bool" where
  "qualifies cur cur_rssi any b \<longleftrightarrow> bssid b \<noteq> cur \<and> (any \<or> rssi b \<ge> cur_rssi + MIN_GAIN_DB)"

text \<open>\<open>best_upto c i best\<close>: among the first \<open>i\<close> candidates, \<open>best\<close> is the first strongest that qualifies.\<close>

definition best_upto :: "(bss \<Rightarrow> bool) \<Rightarrow> bss list \<Rightarrow> nat \<Rightarrow> nat option \<Rightarrow> bool" where
  "best_upto Q c i best \<longleftrightarrow>
     (case best of None \<Rightarrow> \<forall>j<i. \<not> Q (c ! j)
      | Some b \<Rightarrow> b < i \<and> Q (c ! b) \<and> (\<forall>j<i. Q (c ! j) \<longrightarrow> rssi (c ! j) \<le> rssi (c ! b)) \<and>
          (\<forall>j<b. Q (c ! j) \<longrightarrow> rssi (c ! j) < rssi (c ! b)))"

lemma best_upto_skip: "best_upto Q c i best \<Longrightarrow> \<not> Q (c ! i) \<Longrightarrow> best_upto Q c (Suc i) best"
  by (auto simp: best_upto_def less_Suc_eq split: option.splits)

lemma best_upto_step:
  assumes "best_upto Q c i best" "Q (c ! i)"
  shows "best_upto Q c (Suc i)
    (case best of None \<Rightarrow> Some i | Some b \<Rightarrow> if rssi (c ! i) > rssi (c ! b) then Some i else best)"
  using assms by (cases best) (fastforce simp: best_upto_def less_Suc_eq)+

lemma pick_from_best:
  "best_upto (qualifies cur r any) c i best \<Longrightarrow>
   best_upto (qualifies cur r any) c (i + k) (pick_from cur r any c i best k)"
proof (induction k arbitrary: i best)
  case (Suc k)
  show ?case
  proof (cases "qualifies cur r any (c ! i)")
    case True
    then show ?thesis
      using Suc.IH [OF best_upto_step [OF Suc.prems True]] by (auto simp: qualifies_def)
  next
    case False
    then show ?thesis
      using Suc.IH [OF best_upto_skip [OF Suc.prems False]] by (auto simp: qualifies_def)
  qed
qed simp

lemma pick_best:
  "best_upto (qualifies cur r any) c (length c) (pick_from cur r any c 0 None (length c))"
  using pick_from_best [of cur r any c 0 None "length c"] by (simp add: best_upto_def)

lemma pick_result:
  assumes "pick now cur cur_rssi c any p = (i, p')"
  shows "p' = p\<lparr> last_scan := now \<rparr>"
    and "i = -1 \<longleftrightarrow> pick_from cur cur_rssi any c 0 None (length c) = None"
    and "i \<noteq> -1 \<Longrightarrow> 0 \<le> i \<and> pick_from cur cur_rssi any c 0 None (length c) = Some (nat i)"
  using assms by (auto simp: pick_def split: option.splits)

lemma pick_best_index:
  assumes "pick now cur cur_rssi c False p = (i, p')" "i \<noteq> -1"
  shows "0 \<le> i \<and> nat i < length c \<and> bssid (c ! nat i) \<noteq> cur \<and> rssi (c ! nat i) \<ge> cur_rssi + 10 \<and>
     (\<forall>b\<in>set c. bssid b \<noteq> cur \<longrightarrow> rssi b \<le> rssi (c ! nat i)) \<and>
     (\<forall>j<nat i. bssid (c ! j) \<noteq> cur \<longrightarrow> rssi (c ! j) < rssi (c ! nat i))"
proof -
  define k where "k = nat i"
  have "pick_from cur cur_rssi False c 0 None (length c) = Some k" "0 \<le> i"
    using pick_result(3) [OF assms] by (auto simp: k_def)
  with pick_best [of cur cur_rssi False c]
  have k: "k < length c" "qualifies cur cur_rssi False (c ! k)"
    and le: "\<And>j. j < length c \<Longrightarrow> qualifies cur cur_rssi False (c ! j) \<Longrightarrow> rssi (c ! j) \<le> rssi (c ! k)"
    and first: "\<And>j. j < k \<Longrightarrow> qualifies cur cur_rssi False (c ! j) \<Longrightarrow> rssi (c ! j) < rssi (c ! k)"
    by (auto simp: best_upto_def)
  have q: "bssid (c ! k) \<noteq> cur" "cur_rssi + 10 \<le> rssi (c ! k)"
    using k by (auto simp: qualifies_def MIN_GAIN_DB_def)
  have "rssi (c ! j) \<le> rssi (c ! k)" if "j < length c" "bssid (c ! j) \<noteq> cur" for j
    using le [OF that(1)] that(2) q(2)
    by (cases "qualifies cur cur_rssi False (c ! j)") (auto simp: qualifies_def MIN_GAIN_DB_def)
  moreover have "rssi (c ! j) < rssi (c ! k)" if "j < k" "bssid (c ! j) \<noteq> cur" for j
    using first [OF that(1)] that(2) q(2)
    by (cases "qualifies cur cur_rssi False (c ! j)") (auto simp: qualifies_def MIN_GAIN_DB_def)
  ultimately show ?thesis using k q \<open>0 \<le> i\<close> unfolding k_def by (metis in_set_conv_nth)
qed

text \<open>
  \<open>pick\<close> chooses the access point to roam to.  It answers \<open>-1\<close> exactly when no access point
  other than the current one is at least 10 dB stronger; otherwise it answers the index of the
  strongest such access point, the first one on a tie.  Either way the scan is recorded and
  nothing else of the policy changes.
\<close>

theorem pick_spec:
  assumes "pick now cur cur_rssi c False p = (i, p')"
  shows "p' = p\<lparr> last_scan := now \<rparr> \<and>
   (i = -1 \<longleftrightarrow> (\<forall>b\<in>set c. bssid b = cur \<or> rssi b < cur_rssi + 10)) \<and>
   (i \<noteq> -1 \<longrightarrow> 0 \<le> i \<and> nat i < length c \<and> bssid (c ! nat i) \<noteq> cur \<and> rssi (c ! nat i) \<ge> cur_rssi + 10 \<and>
     (\<forall>b\<in>set c. bssid b \<noteq> cur \<longrightarrow> rssi b \<le> rssi (c ! nat i)) \<and>
     (\<forall>j<nat i. bssid (c ! j) \<noteq> cur \<longrightarrow> rssi (c ! j) < rssi (c ! nat i)))"
proof (cases "i = -1")
  case True
  then have "best_upto (qualifies cur cur_rssi False) c (length c) None"
    using pick_best [of cur cur_rssi False c] pick_result(2) [OF assms] by simp
  then have "\<forall>b\<in>set c. bssid b = cur \<or> rssi b < cur_rssi + 10"
    by (auto simp: best_upto_def qualifies_def MIN_GAIN_DB_def in_set_conv_nth not_le)
  then show ?thesis using pick_result(1) [OF assms] True by simp
next
  case False
  note b = pick_best_index [OF assms False]
  then have "\<not> (\<forall>b\<in>set c. bssid b = cur \<or> rssi b < cur_rssi + 10)"
    using nth_mem [of "nat i" c] by fastforce
  then show ?thesis using pick_result(1) [OF assms] b False by blast
qed

definition sample_aps :: "bss list" where
  "sample_aps = [\<lparr> bssid = [1, 1, 1, 1, 1, 1], rssi = -75, channel = 1 \<rparr>,
     \<lparr> bssid = [2, 2, 2, 2, 2, 2], rssi = -64, channel = 6 \<rparr>,
     \<lparr> bssid = [3, 3, 3, 3, 3, 3], rssi = -58, channel = 11 \<rparr>]"

theorem pick_spec_witness:
  "fst (pick 5 [1, 1, 1, 1, 1, 1] (-75) sample_aps False policy_init) = 2 \<and>
   list_all (\<lambda>b. rssi b \<le> rssi (sample_aps ! 2)) (tl sample_aps)"
proof -
  have p: "pick 5 [1, 1, 1, 1, 1, 1] (-75) sample_aps False policy_init = (2, policy_init\<lparr> last_scan := 5 \<rparr>)"
    by (simp add: pick_def sample_aps_def MIN_GAIN_DB_def)
  have "\<forall>b\<in>set sample_aps. bssid b \<noteq> [1, 1, 1, 1, 1, 1] \<longrightarrow> rssi b \<le> rssi (sample_aps ! 2)"
    using pick_spec [OF p] by (simp add: nat_eq_iff)
  then show ?thesis using p by (simp add: sample_aps_def)
qed


section \<open>When to scan\<close>

text \<open>One tick of the supervisor while the link is up, and whether it scanned.\<close>

definition scans :: "(roam_result \<times> link_call list \<times> u32 list) option \<Rightarrow> bool" where
  "scans o1 \<longleftrightarrow> (\<exists>res calls evs. o1 = Some (res, calls, evs) \<and> res \<noteq> Not_connected \<and> res \<noteq> No_credentials)"

lemma sample_weak_due:
  assumes "sample_weak now r p = (True, p')"
  shows "r \<noteq> 0" "r \<le> WEAK_RSSI" "last_scan p < 0 \<or> now - last_scan p \<ge> RESCAN_MS"
  using assms by (auto simp: sample_weak_def Let_def split: if_splits)

lemma sample_weak_keeps [simp]:
  "last_scan (snd (sample_weak now r p)) = last_scan p"
  "connected_since (snd (sample_weak now r p)) = connected_since p"
  "connect_checked (snd (sample_weak now r p)) = connect_checked p"
  by (simp_all add: sample_weak_def Let_def)

lemma sample_keeps:
  "last_scan (snd (sample now conn r p)) = last_scan p"
  "conn \<Longrightarrow> connect_checked p \<Longrightarrow> connect_checked (snd (sample now conn r p))"
  by (simp_all add: sample_def Let_def)

text \<open>A scan is due only after the settling time, on a known signal, for one of two reasons.\<close>

lemma sample_due:
  assumes "sample now conn r p = (True, p')"
  shows "conn \<and> r \<noteq> 0 \<and> r \<le> GOOD_RSSI \<and> connected_since p' \<le> now - SETTLE_MS \<and> connect_checked p' \<and>
    (\<not> connect_checked p \<or> r \<le> WEAK_RSSI \<and> (last_scan p < 0 \<or> now - last_scan p \<ge> RESCAN_MS))"
proof -
  have weak: "r \<noteq> 0 \<and> r \<le> GOOD_RSSI \<and> r \<le> WEAK_RSSI \<and> (last_scan q < 0 \<or> now - last_scan q \<ge> RESCAN_MS) \<and>
      connected_since p' = connected_since q \<and> connect_checked p' = connect_checked q"
    if "sample_weak now r q = (True, p')" for q
    using sample_weak_due [OF that] sample_weak_keeps(2,3) [of now r q] that
    by (simp add: GOOD_RSSI_def WEAK_RSSI_def)
  from assms show ?thesis
    by (auto simp: sample_def Let_def split: if_splits dest!: weak)
qed

lemma roam_policy_scan:
  assumes "roam any bogus dry e s = (res, calls, evs, s')"
  shows "s_policy s' = s_policy s \<and> (res = Not_connected \<or> res = No_credentials) \<or>
    (last_scan (s_policy s') = pick_ms e \<or> last_scan (s_policy s') = roam_ms e) \<and>
    (connect_checked (s_policy s) \<longrightarrow> connect_checked (s_policy s'))"
  using assms
  by (auto simp: roam_def roam_move_def pick_def on_roam_def Let_def split: option.splits if_splits)

text \<open>A supervisor history: for each tick the clock, the signal and what a roam would meet.\<close>

record tick =
  tick_ms :: int
  tick_rssi :: int
  tick_env :: roam_env

fun scan_times :: "roam_state \<Rightarrow> tick list \<Rightarrow> int list" where
  "scan_times s [] = []"
| "scan_times s (k # ks) =
     (let (r, s') = wifi_roam_poll (tick_ms k) True (tick_rssi k) (tick_env k) s
      in (if scans r then [pick_ms (tick_env k)] else []) @ scan_times s' ks)"

text \<open>Time moves forward: inside a tick from the sample to the scan to the end of a move, and between ticks.\<close>

fun forward :: "int \<Rightarrow> tick list \<Rightarrow> bool" where
  "forward t [] \<longleftrightarrow> True"
| "forward t (k # ks) \<longleftrightarrow> t \<le> tick_ms k \<and> tick_ms k \<le> pick_ms (tick_env k) \<and>
     pick_ms (tick_env k) \<le> roam_ms (tick_env k) \<and> forward (roam_ms (tick_env k)) ks"

lemma poll_scan:
  assumes "wifi_roam_poll now True r e s = (out, s')" "connect_checked (s_policy s)" "scans out"
  shows "(last_scan (s_policy s') = pick_ms e \<or> last_scan (s_policy s') = roam_ms e) \<and>
    connect_checked (s_policy s') \<and> (last_scan (s_policy s) < 0 \<or> now - last_scan (s_policy s) \<ge> RESCAN_MS)"
proof -
  obtain due p where sm: "sample now True r (s_policy s) = (due, p)" by fastforce
  let ?s = "s\<lparr> s_policy := p, s_busy := True \<rparr>"
  obtain res calls evs s1 where rm: "roam False False False e ?s = (res, calls, evs, s1)"
    by (metis prod_cases4)
  have "due" using assms sm by (auto simp: wifi_roam_poll_def scans_def Let_def split: if_splits)
  then have out: "out = Some (res, calls, evs)" "s' = s1\<lparr> s_busy := False \<rparr>"
    using assms sm rm by (auto simp: wifi_roam_poll_def scans_def Let_def split: if_splits)
  have "connect_checked p" using sample_keeps(2) [of True "s_policy s" now r] sm assms(2) by simp
  then show ?thesis
    using sample_due [of now True r "s_policy s" p] sm \<open>due\<close> roam_policy_scan [OF rm] assms(2,3) out
    by (auto simp: scans_def)
qed

lemma poll_no_scan:
  assumes "wifi_roam_poll now True r e s = (out, s')" "connect_checked (s_policy s)" "\<not> scans out"
  shows "last_scan (s_policy s') = last_scan (s_policy s) \<and> connect_checked (s_policy s')"
proof -
  obtain due p where sm: "sample now True r (s_policy s) = (due, p)" by fastforce
  let ?s = "s\<lparr> s_policy := p, s_busy := True \<rparr>"
  obtain res calls evs s1 where rm: "roam False False False e ?s = (res, calls, evs, s1)"
    by (metis prod_cases4)
  have p: "connect_checked p" "last_scan p = last_scan (s_policy s)"
    using sample_keeps(1) [of now True r "s_policy s"] sample_keeps(2) [of True "s_policy s" now r] sm assms(2)
    by simp_all
  show ?thesis
  proof (cases "due \<and> \<not> s_busy s")
    case True
    then have "out = Some (res, calls, evs)" "s' = s1\<lparr> s_busy := False \<rparr>"
      using assms(1) sm rm by (auto simp: wifi_roam_poll_def Let_def)
    moreover from this assms(3) have "s_policy s1 = p"
      using rm by (auto simp: scans_def roam_def pick_def roam_move_def Let_def split: option.splits if_splits)
    ultimately show ?thesis using p by simp
  next
    case False
    then show ?thesis using assms(1) sm p by (auto simp: wifi_roam_poll_def Let_def split: if_splits)
  qed
qed


lemma scan_times_after:
  assumes "forward t ks" "u \<in> set (scan_times s ks)"
  shows "t \<le> u"
  using assms
proof (induction ks arbitrary: s t)
  case (Cons k ks)
  obtain out s' where w: "wifi_roam_poll (tick_ms k) True (tick_rssi k) (tick_env k) s = (out, s')" by fastforce
  then show ?case using Cons.IH [of "roam_ms (tick_env k)" s'] Cons.prems by (auto split: if_splits)
qed simp

lemma scan_times_spaced:
  assumes "forward t ks" "0 \<le> t" "connect_checked (s_policy s)" "last_scan (s_policy s) \<le> t"
  shows "sorted_wrt (\<lambda>a b. a + RESCAN_MS \<le> b) (scan_times s ks) \<and>
    (0 \<le> last_scan (s_policy s) \<longrightarrow> (\<forall>u\<in>set (scan_times s ks). last_scan (s_policy s) + RESCAN_MS \<le> u))"
  using assms
proof (induction ks arbitrary: s t)
  case (Cons k ks)
  let ?t' = "roam_ms (tick_env k)"
  obtain out s' where w: "wifi_roam_poll (tick_ms k) True (tick_rssi k) (tick_env k) s = (out, s')" by fastforce
  have f: "forward ?t' ks" "0 \<le> ?t'" "0 \<le> pick_ms (tick_env k)" "tick_ms k \<le> pick_ms (tick_env k)"
    "pick_ms (tick_env k) \<le> ?t'" "t \<le> ?t'"
    using Cons.prems by auto
  show ?case
  proof (cases "scans out")
    case True
    from poll_scan [OF w Cons.prems(3) True]
    have s': "last_scan (s_policy s') = pick_ms (tick_env k) \<or> last_scan (s_policy s') = ?t'"
      "connect_checked (s_policy s')"
      and due: "last_scan (s_policy s) < 0 \<or> tick_ms k - last_scan (s_policy s) \<ge> RESCAN_MS" by auto
    have b: "pick_ms (tick_env k) \<le> last_scan (s_policy s')" "last_scan (s_policy s') \<le> ?t'"
      using s'(1) f by auto
    have IH: "sorted_wrt (\<lambda>a b. a + RESCAN_MS \<le> b) (scan_times s' ks)"
      "\<And>u. u \<in> set (scan_times s' ks) \<Longrightarrow> last_scan (s_policy s') + RESCAN_MS \<le> u"
      using Cons.IH [OF f(1,2) s'(2) b(2)] b(1) f(3) by auto
    have "0 \<le> RESCAN_MS" by (simp add: RESCAN_MS_def)
    then show ?thesis using w True IH b due f by (auto dest!: IH(2))
  next
    case False
    then show ?thesis
      using w poll_no_scan [OF w Cons.prems(3) False] Cons.IH [OF f(1,2), of s'] Cons.prems(4) f by auto
  qed
qed simp

text \<open>
  C31: Roam scans are rate limited.  While the link stays up, once the one-off check of the new
  connection has been made, the access-point scans the supervisor starts are at least 15 minutes
  apart, and the first is at least 15 minutes after the last scan or roam before it, whatever the
  signal does and whatever each roam meets.
\<close>

theorem roam_scans_limited:
  assumes "forward t ks" "0 \<le> t" "connect_checked (s_policy s)" "last_scan (s_policy s) \<le> t"
  shows "sorted_wrt (\<lambda>a b. a + 900000 \<le> b) (scan_times s ks) \<and>
    (0 \<le> last_scan (s_policy s) \<longrightarrow> (\<forall>u\<in>set (scan_times s ks). last_scan (s_policy s) + 900000 \<le> u))"
  using scan_times_spaced [OF assms] by (simp add: RESCAN_MS_def)

definition weak_env :: "int \<Rightarrow> roam_env" where
  "weak_env t = \<lparr> current_bss = Some (sample_aps ! 0), credentials = True, found = Some (take 1 sample_aps),
     connect_ok = True, link_up = (\<lambda>_. True), now_on = None, pick_ms = t + 2000, roam_ms = t + 5000 \<rparr>"

definition weak_ticks :: "tick list" where
  "weak_ticks = map (\<lambda>t. \<lparr> tick_ms = t, tick_rssi = -75, tick_env = weak_env t \<rparr>)
     [200000, 260000, 320000, 900000, 1200000, 2200000]"

definition checked_state :: roam_state where
  "checked_state = \<lparr> s_policy = \<lparr> connected_since = 0, weak_since = -1, last_scan = -1, connect_checked = True \<rparr>,
     s_busy = False, s_roams = 0 \<rparr>"

theorem roam_scans_limited_witness:
  "forward 0 weak_ticks \<and> connect_checked (s_policy checked_state) \<and>
   scan_times checked_state weak_ticks = [262000, 1202000, 2202000] \<and>
   sorted_wrt (\<lambda>a b. a + 900000 \<le> b) (scan_times checked_state weak_ticks)"
proof -
  have f: "forward 0 weak_ticks" by (simp add: weak_ticks_def weak_env_def)
  have c: "connect_checked (s_policy checked_state)" "last_scan (s_policy checked_state) \<le> 0"
    by (simp_all add: checked_state_def)
  have "scan_times checked_state weak_ticks = [262000, 1202000, 2202000]"
    by (simp add: weak_ticks_def weak_env_def checked_state_def wifi_roam_poll_def sample_def sample_weak_def
        roam_def pick_def sample_aps_def scans_def roam_consts)
  then show ?thesis using roam_scans_limited [OF f _ c] f c by simp
qed

section \<open>What a roam does to the link\<close>

lemma wait_from_iff:
  "wait_from up timeout waited k \<longleftrightarrow> (\<exists>j. waited + 200 * j < timeout \<and> up (k + j))"
proof (induction up timeout waited k rule: wait_from.induct)
  case (1 up timeout waited k)
  have split: "(\<exists>j. waited + 200 * j < timeout \<and> up (k + j)) \<longleftrightarrow>
      waited < timeout \<and> up k \<or> (\<exists>j. waited + 200 + 200 * j < timeout \<and> up (Suc k + j))"
    (is "?L \<longleftrightarrow> ?R")
  proof
    assume ?L
    then obtain j where "waited + 200 * j < timeout \<and> up (k + j)" ..
    then show ?R by (cases j) auto
  next
    assume ?R
    then show ?L
    proof (elim disjE exE)
      fix j assume "waited + 200 + 200 * j < timeout \<and> up (Suc k + j)"
      then show ?L by (intro exI [of _ "Suc j"]) simp
    qed (auto intro: exI [of _ 0])
  qed
  show ?case
    unfolding wait_from.simps [of up timeout waited k] split using 1 by auto
qed

text \<open>\<open>wait_connected\<close> gives up after 100 probes, and reports success exactly when one of them was good.\<close>

lemma wait_connected_iff: "wait_connected up CONNECT_TIMEOUT_MS \<longleftrightarrow> (\<exists>j<100. up j)"
  by (auto simp: wait_connected_def wait_from_iff CONNECT_TIMEOUT_MS_def)

text \<open>
  C16: A supervisor roam touches the link only to move to the strongest access point that beats
  the current one by at least 10 dB, and it never leaves the controller pinned to an access point
  that did not take it.  Every roam ends in one of three ways: the link is not touched and neither
  a roam nor an event is recorded; the link is dropped and pinned to such an access point, which
  answered within the 100 probes, and exactly one roam is counted and logged; or the pinned
  attempt failed and the last call is an ordinary connect.
\<close>

theorem roam_link_safe:
  assumes "roam False False False e s = (res, calls, evs, s')"
  shows "(calls = [] \<and> evs = [] \<and> s_roams s' = s_roams s \<and> res \<noteq> Roamed) \<or>
    (\<exists>cur c b. current_bss e = Some cur \<and> found e = Some c \<and> b \<in> set c \<and> bssid b \<noteq> bssid cur \<and>
       rssi b \<ge> rssi cur + 10 \<and> (\<forall>x\<in>set c. bssid x \<noteq> bssid cur \<longrightarrow> rssi x \<le> rssi b) \<and>
       (if connect_ok e \<and> (\<exists>j<100. link_up e j)
        then res = Roamed \<and> calls = [Disconnect, Connect_bss (bssid b) (channel b)] \<and>
          length evs = 1 \<and> s_roams s' = s_roams s + 1
        else res = Roam_failed \<and> calls = [Disconnect, Connect_bss (bssid b) (channel b), Disconnect, Connect_any] \<and>
          evs = [] \<and> s_roams s' = s_roams s))"
proof (cases "calls = []")
  case True
  with assms show ?thesis
    by (auto simp: roam_def roam_move_def Let_def pick_def split: option.splits if_splits)
next
  case False
  with assms obtain cur c where e: "current_bss e = Some cur" "found e = Some c" "credentials e"
    by (auto simp: roam_def Let_def pick_def split: option.splits if_splits)
  obtain i p where pk: "pick (pick_ms e) (bssid cur) (rssi cur) c False (s_policy s) = (i, p)" by fastforce
  have "\<not> i < 0" using False assms e pk by (auto simp: roam_def Let_def)
  then have "i \<noteq> -1" by auto
  let ?b = "c ! nat i"
  have "bssid ?b \<noteq> bssid cur" "nat i < length c" "rssi cur + 10 \<le> rssi ?b"
    "\<forall>x\<in>set c. bssid x \<noteq> bssid cur \<longrightarrow> rssi x \<le> rssi ?b"
    using pick_best_index [OF pk \<open>i \<noteq> -1\<close>] by auto
  moreover have "roam_move cur ?b e (s\<lparr> s_policy := p \<rparr>) = (res, calls, evs, s')"
    using assms e pk \<open>\<not> i < 0\<close> by (simp add: roam_def Let_def)
  ultimately show ?thesis
    using e by (intro disjI2 exI [of _ cur] exI [of _ c] exI [of _ ?b])
      (auto simp: roam_move_def wait_connected_iff Let_def split: if_splits)
qed

theorem roam_link_safe_witness:
  "let e = (weak_env 0)\<lparr> found := Some sample_aps, connect_ok := False \<rparr> in
   fst (snd (roam False False False e checked_state)) =
     [Disconnect, Connect_bss [3, 3, 3, 3, 3, 3] 11, Disconnect, Connect_any] \<and>
   s_roams (snd (snd (snd (roam False False False e checked_state)))) = s_roams checked_state"
proof -
  let ?e = "(weak_env 0)\<lparr> found := Some sample_aps, connect_ok := False \<rparr>"
  obtain res calls evs s' where r: "roam False False False ?e checked_state = (res, calls, evs, s')"
    by (metis prod_cases4)
  then have "calls = [Disconnect, Connect_bss [3, 3, 3, 3, 3, 3] 11, Disconnect, Connect_any]"
    by (simp add: roam_def roam_move_def pick_def weak_env_def sample_aps_def MIN_GAIN_DB_def)
  then show ?thesis using roam_link_safe [OF r] r by (auto simp: Let_def)
qed


section \<open>The event payload\<close>

lemma pack_fields:
  fixes a b c :: u8
  defines "p \<equiv> (ucast a :: u32) OR push_bit 8 (ucast b) OR push_bit 16 (ucast c)"
  shows "p AND 0xFF = ucast a" "drop_bit 8 p AND 0xFF = ucast b" "drop_bit 16 p AND 0xFF = ucast c"
proof -
  have m: "(0xFF :: u32) = mask 8" by (simp add: mask_eq_exp_minus_1)
  show "p AND 0xFF = ucast a" "drop_bit 8 p AND 0xFF = ucast b" "drop_bit 16 p AND 0xFF = ucast c"
    unfolding p_def m
    by (rule bit_word_eqI; auto simp: bit_simps dest: bit_imp_le_length)+
qed

lemma neg_rssi_byte: "-255 \<le> r \<Longrightarrow> r \<le> 0 \<Longrightarrow> - uint (ucast (of_int (- r) :: u8) :: u32) = r"
  using uint_word_of_int_eq [where 'a = 8, of "- r"]
  by (simp add: unsigned_ucast_eq take_bit_int_eq_self del: of_int_minus)

text \<open>
  The payload of a roam event reads back: for signal strengths of 0 to \<open>-255\<close> dBm, the
  accessors used by the event log return the two strengths and the channel that were packed.
\<close>

theorem wifi_roam_pack_roundtrip:
  assumes "-255 \<le> f" "f \<le> 0" "-255 \<le> t" "t \<le> 0"
  shows "wifi_roam_from_rssi (wifi_roam_pack f t ch) = f \<and> wifi_roam_to_rssi (wifi_roam_pack f t ch) = t \<and>
    wifi_roam_channel (wifi_roam_pack f t ch) = unat ch"
  using assms neg_rssi_byte [of f] neg_rssi_byte [of t]
  unfolding wifi_roam_from_rssi_def wifi_roam_to_rssi_def wifi_roam_channel_def wifi_roam_pack_def pack_fields
  by (simp add: unsigned_ucast_eq take_bit_nat_eq_self_iff unsigned_less [THEN less_trans])

theorem wifi_roam_pack_roundtrip_witness:
  "wifi_roam_pack (-75) (-58) 11 = 0xB3A4B \<and> wifi_roam_to_rssi (wifi_roam_pack (-75) (-58) 11) = -58"
  using wifi_roam_pack_roundtrip [of "-75" "-58" 11] by (simp add: wifi_roam_pack_def)

end
