(* ===== verification/Wifi_Supervisor.thy ===== *)
theory Wifi_Supervisor
  imports Prelude "HOL-Library.Signed_Division"
begin

text \<open>
  The WiFi health supervisor, \<open>main/wifi_supervisor.cpp\<close>: the task that reconnects a lost
  association, bounces the link when the gateway stops answering, restarts the web server when it
  stops, and reboots the controller as a last resort.

  \<^item> \<open>api_watch\<close> is \<open>ApiWatch\<close>; \<open>rtc\<close> holds the three words of RTC no-init memory that survive a
    software reset; \<open>sup\<close> holds the locals of the task and the atomic \<open>s_link_up_seen\<close>.
  \<^item> A pass of the task's endless loop is \<open>wifi_supervisor_check\<close>.  What the functions of the other
    modules answer during the pass (manager state, server state, ping, clock) is an input record,
    one field per call; the calls it makes are the list of actions it returns, in order, up to and
    including the wait that ends the pass.  \<open>Safe_restart\<close> never returns, so it ends the list.
  \<^item> \<open>sup_run\<close> runs one boot over a list of inputs (passes and link-up notifications) until a
    restart, \<open>api_reboot_chain\<close> follows the reboots of the web-server safety net across boots.

  Times are \<open>esp_timer_get_time\<close> microseconds, unbounded here (a 64-bit counter since boot); the
  \<open>(int)\<close> casts of millisecond differences wrap at 32 bits as the code's do.
\<close>

section \<open>Constants and data\<close>

definition CHECK_INTERVAL_MS :: int where "CHECK_INTERVAL_MS = 15000"
definition FAST_RECONNECT_MS :: int where "FAST_RECONNECT_MS = 2000"
definition GRACE_MS :: int where "GRACE_MS = 60000"
definition RECONNECT_EVERY_MS :: int where "RECONNECT_EVERY_MS = 30000"
definition REBOOT_AFTER_MS :: int where "REBOOT_AFTER_MS = 900000"
definition NOTABLE_MS :: int where "NOTABLE_MS = 30000"
definition REACH_GRACE_MS :: int where "REACH_GRACE_MS = 90000"
definition BOUNCE_STEP_MS :: int where "BOUNCE_STEP_MS = 45000"
definition MAX_BOUNCES :: int where "MAX_BOUNCES = 2"
definition API_BOOT_GRACE_MS :: int where "API_BOOT_GRACE_MS = 120000"
definition API_DOWN_REBOOT_MS :: int where "API_DOWN_REBOOT_MS = 90000"
definition API_HEALTHY_RESET_MS :: int where "API_HEALTHY_RESET_MS = 600000"
definition API_MAX_REBOOTS :: u32 where "API_MAX_REBOOTS = 2"
definition API_REBOOT_MAGIC :: u32 where "API_REBOOT_MAGIC = 0x41504952"
definition API_PROBE_EVERY_MS :: int where "API_PROBE_EVERY_MS = 60000"
definition API_PROBE_FAILS_TO_ACT :: int where "API_PROBE_FAILS_TO_ACT = 3"
definition API_REPAIR_EVERY_MS :: int where "API_REPAIR_EVERY_MS = 60000"

lemmas sup_consts =
  CHECK_INTERVAL_MS_def FAST_RECONNECT_MS_def GRACE_MS_def RECONNECT_EVERY_MS_def
  REBOOT_AFTER_MS_def NOTABLE_MS_def REACH_GRACE_MS_def BOUNCE_STEP_MS_def MAX_BOUNCES_def
  API_BOOT_GRACE_MS_def API_DOWN_REBOOT_MS_def API_HEALTHY_RESET_MS_def API_MAX_REBOOTS_def
  API_REBOOT_MAGIC_def API_PROBE_EVERY_MS_def API_PROBE_FAILS_TO_ACT_def API_REPAIR_EVERY_MS_def

datatype wifi_mgr_state = NOT_INITIALIZED | DISCONNECTED | CONNECTING | CONNECTED | ERROR

datatype api_start_error =
  ERR_NONE | ERR_NO_MEMORY | ERR_NO_IDENTITY | ERR_FAILED | ERR_INJECTED | ERR_BAD_CERT
| ERR_UNRESPONSIVE

datatype web_cause =
  CAUSE_UNKNOWN | CAUSE_NO_MEMORY | CAUSE_NO_IDENTITY | CAUSE_START_FAILED | CAUSE_TEST
| CAUSE_BAD_CERT | CAUSE_UNRESPONSIVE

datatype web_recovery = WEB_RESTARTED | WEB_REBOOT

datatype net_recovery = NET_SELF | NET_WIFI_BOUNCE | NET_REBOOT

datatype sup_event =
  NETWORK_UNREACHABLE
| NETWORK_RECOVERED net_recovery
| WEB_SERVER_DOWN web_cause
| WEB_SERVER_RECOVERED web_recovery

datatype reset_reason = RST_POWERON | RST_SW | RST_OTHER

text \<open>The calls that have an effect outside the supervisor.\<close>

datatype sup_action =
  Drops_poll
| Event_record sup_event
| Flush_log
| Api_ensure_running
| Api_probe
| Api_restart bool
| Wifi_connect
| Wifi_disconnect
| Roam_poll
| Task_delay int
| Notify_wait int
| Safe_restart

record api_watch =
  w_down_since_us :: int
  w_healthy_since_us :: int
  w_last_probe_us :: int
  w_last_repair_us :: int
  w_ever_healthy :: bool
  w_down_logged :: bool
  w_budget_note_logged :: bool
  w_degraded_logged :: bool
  w_attempts :: int
  w_probe_failures :: int

definition api_watch_init :: api_watch where
  "api_watch_init = \<lparr> w_down_since_us = 0, w_healthy_since_us = 0, w_last_probe_us = 0,
     w_last_repair_us = 0, w_ever_healthy = False, w_down_logged = False,
     w_budget_note_logged = False, w_degraded_logged = False, w_attempts = 0, w_probe_failures = 0 \<rparr>"

record rtc =
  r_magic :: u32
  r_count :: u32
  r_ours :: u32

text \<open>The answers of the web server's module during one pass.\<close>

record api_env =
  a_shut_down :: bool
  a_now :: int
  a_running :: bool
  a_prior_error :: api_start_error
  a_ensure_ok :: bool
  a_error_after :: api_start_error
  a_later :: int
  a_probe_ok :: bool
  a_https :: bool
  a_healthy :: bool

definition elapsed_ms :: "int \<Rightarrow> int \<Rightarrow> int" where
  "elapsed_ms now since = (now - since) sdiv 1000"

section \<open>The web-server safety net\<close>

fun api_server_start_error_event_cause :: "api_start_error \<Rightarrow> web_cause" where
  "api_server_start_error_event_cause ERR_NO_MEMORY = CAUSE_NO_MEMORY"
| "api_server_start_error_event_cause ERR_NO_IDENTITY = CAUSE_NO_IDENTITY"
| "api_server_start_error_event_cause ERR_FAILED = CAUSE_START_FAILED"
| "api_server_start_error_event_cause ERR_INJECTED = CAUSE_TEST"
| "api_server_start_error_event_cause ERR_BAD_CERT = CAUSE_BAD_CERT"
| "api_server_start_error_event_cause ERR_UNRESPONSIVE = CAUSE_UNRESPONSIVE"
| "api_server_start_error_event_cause ERR_NONE = CAUSE_UNKNOWN"

definition api_episode_begin :: "int \<Rightarrow> api_watch \<Rightarrow> api_watch" where
  "api_episode_begin now w =
     (if w_down_since_us w = 0
      then w\<lparr> w_down_since_us := now, w_down_logged := False, w_budget_note_logged := False,
              w_attempts := 0 \<rparr>
      else w)"

definition api_episode_end :: "api_watch \<Rightarrow> sup_action list \<times> api_watch" where
  "api_episode_end w =
     ((if w_down_since_us w \<noteq> 0 \<and> w_down_logged w
       then [Event_record (WEB_SERVER_RECOVERED WEB_RESTARTED)] else []),
      w\<lparr> w_down_since_us := 0, w_probe_failures := 0 \<rparr>)"

definition api_log_down :: "web_cause \<Rightarrow> api_watch \<Rightarrow> sup_action list \<times> api_watch" where
  "api_log_down cause w =
     (if w_down_logged w then ([], w)
      else ([Event_record (WEB_SERVER_DOWN cause), Flush_log], w\<lparr> w_down_logged := True \<rparr>))"

definition api_maybe_reboot ::
  "int \<Rightarrow> api_watch \<Rightarrow> rtc \<Rightarrow> sup_action list \<times> api_watch \<times> rtc" where
  "api_maybe_reboot now w r =
     (let down_ms = s32 (elapsed_ms now (w_down_since_us w)) in
      if down_ms < API_DOWN_REBOOT_MS then ([], w, r)
      else
        let r = (if r_magic r \<noteq> API_REBOOT_MAGIC
                 then r\<lparr> r_magic := API_REBOOT_MAGIC, r_count := 0 \<rparr> else r)
        in if r_count r \<ge> API_MAX_REBOOTS then ([], w\<lparr> w_budget_note_logged := True \<rparr>, r)
           else ([Event_record (WEB_SERVER_RECOVERED WEB_REBOOT), Flush_log, Task_delay 500,
                  Safe_restart],
                 w, r\<lparr> r_count := r_count r + 1, r_ours := API_REBOOT_MAGIC \<rparr>))"

definition api_handle_down ::
  "api_env \<Rightarrow> api_watch \<Rightarrow> rtc \<Rightarrow> sup_action list \<times> api_watch \<times> rtc" where
  "api_handle_down a w r =
     (let w = api_episode_begin (a_now a) w;
          w = w\<lparr> w_attempts := w_attempts w + 1 \<rparr>;
          ok = a_ensure_ok a;
          (logged, w) = api_log_down
            (api_server_start_error_event_cause (if ok then a_prior_error a else a_error_after a)) w
      in if ok then
           let (ended, w) = api_episode_end (w\<lparr> w_ever_healthy := True, w_last_probe_us := 0 \<rparr>)
           in (Api_ensure_running # logged @ ended, w, r)
         else
           let (reboot, w, r) = api_maybe_reboot (a_later a) w r
           in (Api_ensure_running # logged @ reboot, w, r))"

definition api_handle_unresponsive ::
  "api_env \<Rightarrow> api_watch \<Rightarrow> rtc \<Rightarrow> sup_action list \<times> api_watch \<times> rtc" where
  "api_handle_unresponsive a w r =
     (let (logged, w) = api_log_down CAUSE_UNRESPONSIVE (w\<lparr> w_probe_failures := 0 \<rparr>);
          fall_back = (w_attempts w > 0 \<and> a_https a);
          (reboot, w, r) = api_maybe_reboot (a_later a) (w\<lparr> w_attempts := w_attempts w + 1 \<rparr>) r
      in (logged @ Api_restart fall_back # reboot, w, r))"

definition api_repair_secondary :: "api_env \<Rightarrow> api_watch \<Rightarrow> sup_action list \<times> api_watch" where
  "api_repair_secondary a w =
     (if a_healthy a then ([], w\<lparr> w_degraded_logged := False \<rparr>)
      else if w_last_repair_us w \<noteq> 0 \<and>
              elapsed_ms (a_now a) (w_last_repair_us w) < API_REPAIR_EVERY_MS then ([], w)
      else ([Api_ensure_running],
            w\<lparr> w_last_repair_us := a_now a, w_degraded_logged := True \<rparr>))"

definition api_probe_due :: "int \<Rightarrow> api_watch \<Rightarrow> bool" where
  "api_probe_due now w \<longleftrightarrow>
     w_probe_failures w > 0 \<or> w_down_since_us w \<noteq> 0 \<or> w_last_probe_us w = 0 \<or>
     elapsed_ms now (w_last_probe_us w) \<ge> API_PROBE_EVERY_MS"

text \<open>The three ways through \<open>supervise_api_server\<close> once the server is running: the probe was due
  and failed; otherwise the tail that counts the time served.\<close>

definition api_probe_failed ::
  "api_env \<Rightarrow> api_watch \<Rightarrow> rtc \<Rightarrow> sup_action list \<times> api_watch \<times> rtc" where
  "api_probe_failed a w r =
     (let w = w\<lparr> w_healthy_since_us := 0, w_probe_failures := w_probe_failures w + 1 \<rparr>;
          w = api_episode_begin (a_now a) w
      in if w_probe_failures w \<ge> API_PROBE_FAILS_TO_ACT then api_handle_unresponsive a w r
         else if w_down_logged w then api_maybe_reboot (a_later a) w r
         else ([], w, r))"

definition api_answering ::
  "api_env \<Rightarrow> api_watch \<Rightarrow> rtc \<Rightarrow> sup_action list \<times> api_watch \<times> rtc" where
  "api_answering a w r =
     (let w = w\<lparr> w_ever_healthy := True \<rparr>;
          w = (if w_healthy_since_us w = 0 then w\<lparr> w_healthy_since_us := a_now a \<rparr> else w);
          r = (if r_count r \<noteq> 0 \<and>
                  elapsed_ms (a_now a) (w_healthy_since_us w) \<ge> API_HEALTHY_RESET_MS
               then r\<lparr> r_count := 0 \<rparr> else r);
          (repaired, w) = api_repair_secondary a w
      in (repaired, w, r))"

definition supervise_api_server ::
  "api_env \<Rightarrow> api_watch \<Rightarrow> rtc \<Rightarrow> sup_action list \<times> api_watch \<times> rtc" where
  "supervise_api_server a w r =
     (if a_shut_down a then ([], w, r)
      else if \<not> a_running a then
        let w = w\<lparr> w_healthy_since_us := 0, w_probe_failures := 0 \<rparr>
        in if \<not> w_ever_healthy w \<and> a_now a sdiv 1000 < API_BOOT_GRACE_MS then ([], w, r)
           else api_handle_down a w r
      else if api_probe_due (a_now a) w then
        let w = w\<lparr> w_last_probe_us := a_now a \<rparr>
        in if \<not> a_probe_ok a then
             let (acts, w, r) = api_probe_failed a w r in (Api_probe # acts, w, r)
           else
             let (ended, w) = api_episode_end (w\<lparr> w_probe_failures := 0 \<rparr>);
                 (acts, w, r) = api_answering a w r
             in (Api_probe # ended @ acts, w, r)
      else api_answering a w r)"

text \<open>The first lines of the task: the reboot count is kept only when this boot follows a reboot of
  the safety net itself.\<close>

definition api_reboot_count_boot :: "reset_reason \<Rightarrow> rtc \<Rightarrow> rtc" where
  "api_reboot_count_boot reason r =
     (let r = (if r_magic r \<noteq> API_REBOOT_MAGIC \<or> r_ours r \<noteq> API_REBOOT_MAGIC \<or> reason \<noteq> RST_SW
               then r\<lparr> r_magic := API_REBOOT_MAGIC, r_count := 0 \<rparr> else r)
      in r\<lparr> r_ours := 0 \<rparr>)"


section \<open>One pass of the task\<close>

text \<open>The ping: what each call of \<open>probe_gateway_reachable\<close> answers.  \<open>p_replies\<close> is \<open>None\<close> when the
  ping session never reported its end.\<close>

record ping_env =
  p_netif :: bool
  p_ip_info :: bool
  p_gateway :: u32
  p_semaphore :: bool
  p_session :: bool
  p_started :: bool
  p_replies :: "u32 option"

definition probe_gateway_reachable :: "ping_env \<Rightarrow> bool" where
  "probe_gateway_reachable p =
     (if \<not> p_netif p then True
      else if \<not> p_ip_info p then True
      else if p_gateway p = 0 then True
      else if \<not> p_semaphore p then True
      else if \<not> p_session p then True
      else if \<not> p_started p then True
      else (case p_replies p of Some received \<Rightarrow> received > 0 | None \<Rightarrow> False))"

text \<open>The answers of one pass; \<open>c_now\<close> is the clock where the branch taken reads it.\<close>

record check_env =
  c_state :: wifi_mgr_state
  c_has_creds :: bool
  c_now :: int
  c_drops_down :: bool
  c_roaming :: bool
  c_load_ok :: bool
  c_ip :: "string option"
  c_api :: api_env
  c_ping :: ping_env

record sup =
  s_down_since_us :: int
  s_last_attempt_us :: int
  s_fast_tried :: bool
  s_unreachable_since_us :: int
  s_unreachable_logged :: bool
  s_bounces :: int
  s_ever_reachable :: bool
  s_link_up_seen :: bool
  s_watch :: api_watch

definition sup_init :: sup where
  "sup_init = \<lparr> s_down_since_us = 0, s_last_attempt_us = 0, s_fast_tried = False,
     s_unreachable_since_us = 0, s_unreachable_logged = False, s_bounces = 0,
     s_ever_reachable = False, s_link_up_seen = False, s_watch = api_watch_init \<rparr>"

definition wait_for_next_check :: "int \<Rightarrow> sup_action" where
  "wait_for_next_check ms = Notify_wait (if ms > 0 then ms else 1)"

definition wifi_supervisor_notify_connected :: "sup \<Rightarrow> sup" where
  "wifi_supervisor_notify_connected s = s\<lparr> s_link_up_seen := True \<rparr>"

definition have_ip :: "check_env \<Rightarrow> bool" where
  "have_ip e = (case c_ip e of None \<Rightarrow> False | Some ip \<Rightarrow> ip \<noteq> [] \<and> ip \<noteq> ''0.0.0.0'')"

definition reconnect :: "check_env \<Rightarrow> sup_action list" where
  "reconnect e = (if c_load_ok e then [Wifi_connect] else [])"

definition assoc_reset :: "sup \<Rightarrow> sup" where
  "assoc_reset s = s\<lparr> s_down_since_us := 0, s_last_attempt_us := 0, s_fast_tried := False \<rparr>"

definition reach_reset :: "sup \<Rightarrow> sup" where
  "reach_reset s = s\<lparr> s_unreachable_since_us := 0, s_unreachable_logged := False, s_bounces := 0 \<rparr>"

text \<open>Not connected: the outage's start, then the retry decision, then the reboot backstop.\<close>

definition assoc_outage :: "check_env \<Rightarrow> sup \<Rightarrow> sup" where
  "assoc_outage e s =
     (let s = (if s_link_up_seen s then assoc_reset s else s);
          s = s\<lparr> s_link_up_seen := False \<rparr>
      in if s_down_since_us s = 0 then s\<lparr> s_down_since_us := c_now e \<rparr> else s)"

definition assoc_down_ms :: "check_env \<Rightarrow> sup \<Rightarrow> int" where
  "assoc_down_ms e s = s32 (elapsed_ms (c_now e) (s_down_since_us s))"

definition fast_due :: "check_env \<Rightarrow> sup \<Rightarrow> bool" where
  "fast_due e s \<longleftrightarrow> \<not> s_fast_tried s \<and> c_drops_down e \<and> \<not> c_roaming e"

definition slow_due :: "check_env \<Rightarrow> sup \<Rightarrow> bool" where
  "slow_due e s \<longleftrightarrow> assoc_down_ms e s \<ge> GRACE_MS \<and>
     (s_last_attempt_us s = 0 \<or> elapsed_ms (c_now e) (s_last_attempt_us s) \<ge> RECONNECT_EVERY_MS)"

definition retry_due :: "check_env \<Rightarrow> sup \<Rightarrow> bool" where
  "retry_due e s \<longleftrightarrow> c_state e \<noteq> CONNECTING \<and>
     (fast_due e s \<and> assoc_down_ms e s \<ge> FAST_RECONNECT_MS \<or> slow_due e s)"

definition assoc_retry :: "check_env \<Rightarrow> sup \<Rightarrow> sup_action list \<times> sup" where
  "assoc_retry e s =
     (if retry_due e s
      then (reconnect e, s\<lparr> s_last_attempt_us := c_now e, s_fast_tried := True \<rparr>)
      else ([], s))"

text \<open>The wait is short only while the quick retry is still to come.\<close>

definition assoc_wait_ms :: "check_env \<Rightarrow> sup \<Rightarrow> bool \<Rightarrow> int" where
  "assoc_wait_ms e s fast =
     (if \<not> s_fast_tried s \<and> fast \<and> c_state e \<noteq> CONNECTING
      then FAST_RECONNECT_MS - assoc_down_ms e s else CHECK_INTERVAL_MS)"

definition assoc_check :: "check_env \<Rightarrow> sup \<Rightarrow> sup_action list \<times> sup" where
  "assoc_check e s =
     (let s = assoc_outage e s;
          fast = fast_due e s;
          (tried, s) = assoc_retry e s
      in if assoc_down_ms e s \<ge> REBOOT_AFTER_MS
         then (tried @ [Flush_log, Task_delay 500, Safe_restart], s)
         else (tried @ [wait_for_next_check (assoc_wait_ms e s fast)], s))"

text \<open>Connected, with an address, and the gateway answered.\<close>

definition reach_answered :: "sup \<Rightarrow> sup_action list \<times> sup" where
  "reach_answered s =
     ((if s_unreachable_since_us s \<noteq> 0 \<and> s_unreachable_logged s
       then [Event_record (NETWORK_RECOVERED (if s_bounces s > 0 then NET_WIFI_BOUNCE else NET_SELF))]
       else []) @
      [Roam_poll, wait_for_next_check CHECK_INTERVAL_MS],
      reach_reset (s\<lparr> s_ever_reachable := True \<rparr>))"

text \<open>Connected, with an address, and the gateway did not answer.\<close>

definition reach_note :: "int \<Rightarrow> sup \<Rightarrow> sup_action list \<times> sup" where
  "reach_note down_ms s =
     (if \<not> s_unreachable_logged s \<and> down_ms \<ge> NOTABLE_MS
      then ([Event_record NETWORK_UNREACHABLE, Flush_log], s\<lparr> s_unreachable_logged := True \<rparr>)
      else ([], s))"

definition reach_outage :: "check_env \<Rightarrow> sup \<Rightarrow> sup" where
  "reach_outage e s =
     (if s_unreachable_since_us s = 0 then s\<lparr> s_unreachable_since_us := c_now e \<rparr> else s)"

definition reach_recover :: "check_env \<Rightarrow> int \<Rightarrow> sup \<Rightarrow> sup_action list \<times> sup" where
  "reach_recover e down_ms s =
     (if s_bounces s < MAX_BOUNCES \<and> down_ms \<ge> REACH_GRACE_MS + s_bounces s * BOUNCE_STEP_MS
      then ([Flush_log, Wifi_disconnect, Task_delay 1500] @ reconnect e @
              [wait_for_next_check CHECK_INTERVAL_MS],
            s\<lparr> s_bounces := s_bounces s + 1 \<rparr>)
      else if s_bounces s \<ge> MAX_BOUNCES \<and> down_ms \<ge> REACH_GRACE_MS + MAX_BOUNCES * BOUNCE_STEP_MS
      then ([Event_record (NETWORK_RECOVERED NET_REBOOT), Flush_log, Task_delay 500, Safe_restart], s)
      else ([wait_for_next_check CHECK_INTERVAL_MS], s))"

definition reach_failed :: "check_env \<Rightarrow> sup \<Rightarrow> sup_action list \<times> sup" where
  "reach_failed e s =
     (if \<not> s_ever_reachable s then ([wait_for_next_check CHECK_INTERVAL_MS], s)
      else
        let s = reach_outage e s;
            down_ms = s32 (elapsed_ms (c_now e) (s_unreachable_since_us s));
            (noted, s) = reach_note down_ms s;
            (acted, s) = reach_recover e down_ms s
        in (noted @ acted, s))"

definition restarting :: "sup_action list \<Rightarrow> bool" where
  "restarting acts \<longleftrightarrow> Safe_restart \<in> set acts"

definition online_check :: "check_env \<Rightarrow> rtc \<Rightarrow> sup \<Rightarrow> sup_action list \<times> rtc \<times> sup" where
  "online_check e r s =
     (let (served, w, r) = supervise_api_server (c_api e) (s_watch s) r;
          s = s\<lparr> s_watch := w \<rparr>
      in if restarting served then (served, r, s)
         else
           let (acts, s) = (if probe_gateway_reachable (c_ping e) then reach_answered s
                            else reach_failed e s)
           in (served @ acts, r, s))"

definition wifi_supervisor_check :: "check_env \<Rightarrow> rtc \<Rightarrow> sup \<Rightarrow> sup_action list \<times> rtc \<times> sup" where
  "wifi_supervisor_check e r s =
     (if \<not> c_has_creds e
      then ([Drops_poll, Task_delay CHECK_INTERVAL_MS], r, reach_reset (assoc_reset s))
      else if c_state e \<noteq> CONNECTED
      then let (acts, s) = assoc_check e s in (Drops_poll # acts, r, s)
      else
        let s = assoc_reset (s\<lparr> s_link_up_seen := False \<rparr>)
        in if \<not> have_ip e then ([Drops_poll, wait_for_next_check CHECK_INTERVAL_MS], r, s)
           else let (acts, r, s) = online_check e r s in (Drops_poll # acts, r, s))"

section \<open>Runs of a boot and chains of boots\<close>

datatype sup_input = Check check_env | Link_up

fun sup_step :: "sup_input \<Rightarrow> rtc \<Rightarrow> sup \<Rightarrow> sup_action list \<times> rtc \<times> sup" where
  "sup_step (Check e) r s = wifi_supervisor_check e r s"
| "sup_step Link_up r s = ([], r, wifi_supervisor_notify_connected s)"

text \<open>A run performs the inputs in order and stops at a restart.\<close>

fun sup_run :: "sup_input list \<Rightarrow> rtc \<Rightarrow> sup \<Rightarrow> sup_action list \<times> rtc \<times> sup" where
  "sup_run [] r s = ([], r, s)"
| "sup_run (i # ins) r s =
     (let (acts, r, s) = sup_step i r s in
      if restarting acts then (acts, r, s)
      else let (later, r, s) = sup_run ins r s in (acts @ later, r, s))"

definition wifi_supervisor_boot :: "reset_reason \<Rightarrow> sup_input list \<Rightarrow> rtc \<Rightarrow> sup_action list \<times> rtc \<times> sup" where
  "wifi_supervisor_boot reason ins r =
     (let (acts, r, s) = sup_run ins (api_reboot_count_boot reason r) sup_init
      in (Task_delay CHECK_INTERVAL_MS # acts, r, s))"

definition api_rebooted :: "sup_action list \<Rightarrow> bool" where
  "api_rebooted acts \<longleftrightarrow> Event_record (WEB_SERVER_RECOVERED WEB_REBOOT) \<in> set acts"

text \<open>How many boots in a row, from one started for \<open>reason\<close> with memory \<open>r\<close>, end in a reboot of the
  safety net.  Each such reboot is a software reset, which RTC no-init memory survives.\<close>

fun api_reboot_chain :: "reset_reason \<Rightarrow> sup_input list list \<Rightarrow> rtc \<Rightarrow> nat" where
  "api_reboot_chain reason [] r = 0"
| "api_reboot_chain reason (b # bs) r =
     (case wifi_supervisor_boot reason b r of
        (acts, r', s) \<Rightarrow> if api_rebooted acts then Suc (api_reboot_chain RST_SW bs r') else 0)"


section \<open>What the safety net does to the reboot count\<close>

lemmas api_simps =
  api_episode_begin_def api_episode_end_def api_log_down_def api_maybe_reboot_def
  api_handle_down_def api_handle_unresponsive_def api_repair_secondary_def api_probe_failed_def
  api_answering_def supervise_api_server_def

lemma elapsed_under:
  assumes "now < 1000 * k" "0 \<le> since" "0 < k"
  shows "elapsed_ms now since < k"
  using assms
  by (auto simp: elapsed_ms_def signed_divide_int_def sgn_if zdiv_zminus1_eq_if div_less_iff_less_mult
      split: if_splits)

text \<open>The contract of a step on the reboot count while the boot is younger than ten minutes.\<close>

definition count_step :: "sup_action list \<Rightarrow> rtc \<Rightarrow> rtc \<Rightarrow> bool" where
  "count_step acts r r' \<longleftrightarrow>
     (if api_rebooted acts
      then restarting acts \<and> r_count r < API_MAX_REBOOTS \<and> r_count r' = r_count r + 1 \<and>
           r_magic r' = API_REBOOT_MAGIC \<and> r_ours r' = API_REBOOT_MAGIC
      else r' = r)"

lemma count_step_none: "\<not> api_rebooted acts \<Longrightarrow> count_step acts r r"
  by (simp add: count_step_def)

definition young :: "int \<Rightarrow> bool" where
  "young now \<longleftrightarrow> 0 \<le> now \<and> now < 600000000"

lemma maybe_reboot_count:
  assumes "api_maybe_reboot now w r = (acts, w', r')" "r_magic r = API_REBOOT_MAGIC"
  shows "count_step acts r r' \<and> w_healthy_since_us w' = w_healthy_since_us w \<and>
         (restarting acts \<longrightarrow> api_rebooted acts)"
  using assms
  by (auto simp: api_maybe_reboot_def count_step_def api_rebooted_def restarting_def Let_def
      split: if_splits)

lemma api_rebooted_simps [simp]:
  "\<not> api_rebooted []"
  "api_rebooted (xs @ ys) \<longleftrightarrow> api_rebooted xs \<or> api_rebooted ys"
  "api_rebooted (a # ys) \<longleftrightarrow> a = Event_record (WEB_SERVER_RECOVERED WEB_REBOOT) \<or> api_rebooted ys"
  by (auto simp: api_rebooted_def)

lemma restarting_simps [simp]:
  "\<not> restarting []"
  "restarting (xs @ ys) \<longleftrightarrow> restarting xs \<or> restarting ys"
  "restarting (a # ys) \<longleftrightarrow> a = Safe_restart \<or> restarting ys"
  by (auto simp: restarting_def)

lemma count_step_wrap:
  "count_step acts r r' \<Longrightarrow> \<not> api_rebooted pre \<Longrightarrow> count_step (pre @ acts) r r'"
  "count_step acts r r' \<Longrightarrow> a \<noteq> Event_record (WEB_SERVER_RECOVERED WEB_REBOOT) \<Longrightarrow>
     count_step (a # acts) r r'"
  by (auto simp: count_step_def)

lemma log_down_quiet:
  assumes "api_log_down c w = (acts, w')"
  shows "\<not> api_rebooted acts \<and> \<not> restarting acts \<and> w_healthy_since_us w' = w_healthy_since_us w"
  using assms by (auto simp: api_log_down_def split: if_splits)

lemma episode_end_quiet:
  assumes "api_episode_end w = (acts, w')"
  shows "\<not> api_rebooted acts \<and> \<not> restarting acts \<and> w_healthy_since_us w' = w_healthy_since_us w"
  using assms by (auto simp: api_episode_end_def split: if_splits)

lemma episode_begin_healthy [simp]:
  "w_healthy_since_us (api_episode_begin now w) = w_healthy_since_us w"
  by (simp add: api_episode_begin_def)

lemma handle_down_count:
  assumes "api_handle_down a w r = (acts, w', r')" "r_magic r = API_REBOOT_MAGIC"
  shows "count_step acts r r' \<and> w_healthy_since_us w' = w_healthy_since_us w \<and>
         (restarting acts \<longrightarrow> api_rebooted acts)"
  using assms
  by (auto simp: api_handle_down_def Let_def split: prod.splits if_splits
      dest!: log_down_quiet episode_end_quiet maybe_reboot_count
      intro!: count_step_wrap count_step_none)

lemma handle_unresponsive_count:
  assumes "api_handle_unresponsive a w r = (acts, w', r')" "r_magic r = API_REBOOT_MAGIC"
  shows "count_step acts r r' \<and> w_healthy_since_us w' = w_healthy_since_us w \<and>
         (restarting acts \<longrightarrow> api_rebooted acts)"
  using assms
  by (auto simp: api_handle_unresponsive_def Let_def split: prod.splits if_splits
      dest!: log_down_quiet maybe_reboot_count intro!: count_step_wrap)

lemma probe_failed_count:
  assumes "api_probe_failed a w r = (acts, w', r')" "r_magic r = API_REBOOT_MAGIC"
  shows "count_step acts r r' \<and> w_healthy_since_us w' = 0 \<and> (restarting acts \<longrightarrow> api_rebooted acts)"
  using assms
  by (auto simp: api_probe_failed_def Let_def count_step_none split: if_splits
      dest!: handle_unresponsive_count maybe_reboot_count)

lemma answering_count:
  assumes "api_answering a w r = (acts, w', r')" "young (a_now a)" "0 \<le> w_healthy_since_us w"
  shows "count_step acts r r' \<and> 0 \<le> w_healthy_since_us w' \<and> (restarting acts \<longrightarrow> api_rebooted acts)"
proof -
  have *: "\<not> API_HEALTHY_RESET_MS \<le> elapsed_ms (a_now a) h" if "0 \<le> h" for h
    using assms(2) elapsed_under [of "a_now a" API_HEALTHY_RESET_MS h] that
    by (simp add: young_def API_HEALTHY_RESET_MS_def)
  have "\<not> API_HEALTHY_RESET_MS \<le> elapsed_ms (a_now a) (a_now a)"
    "\<not> API_HEALTHY_RESET_MS \<le> elapsed_ms (a_now a) (w_healthy_since_us w)"
    using assms(2,3) by (auto intro!: * simp: young_def)
  then show ?thesis
    using assms
    by (auto simp: api_answering_def api_repair_secondary_def Let_def young_def
        split: if_splits intro!: count_step_none)
qed

lemma supervise_count:
  assumes "supervise_api_server a w r = (acts, w', r')" "r_magic r = API_REBOOT_MAGIC"
    "young (a_now a)" "0 \<le> w_healthy_since_us w"
  shows "count_step acts r r' \<and> 0 \<le> w_healthy_since_us w' \<and> (restarting acts \<longrightarrow> api_rebooted acts)"
  using assms
  by (auto simp: supervise_api_server_def Let_def count_step_none split: prod.splits if_splits
      dest!: handle_down_count probe_failed_count answering_count episode_end_quiet
      intro!: count_step_wrap)


section \<open>The reboot cap\<close>

lemma reconnect_quiet [simp]: "\<not> api_rebooted (reconnect e)" "\<not> restarting (reconnect e)"
  by (simp_all add: reconnect_def)

lemma wait_quiet [simp]:
  "wait_for_next_check ms \<noteq> Safe_restart" "wait_for_next_check ms \<noteq> Event_record v"
  by (simp_all add: wait_for_next_check_def)

lemma assoc_outage_watch [simp]: "s_watch (assoc_outage e s) = s_watch s"
  by (simp add: assoc_outage_def assoc_reset_def Let_def)

lemma assoc_retry_quiet:
  "assoc_retry e s = (acts, s') \<Longrightarrow>
     \<not> api_rebooted acts \<and> \<not> restarting acts \<and> s_watch s' = s_watch s"
  by (auto simp: assoc_retry_def split: if_splits)

lemma assoc_check_no_api: "assoc_check e s = (acts, s') \<Longrightarrow> \<not> api_rebooted acts \<and> s_watch s' = s_watch s"
  by (auto simp: assoc_check_def Let_def split: prod.splits if_splits dest!: assoc_retry_quiet)

lemma reach_note_quiet:
  "reach_note d s = (acts, s') \<Longrightarrow>
     \<not> api_rebooted acts \<and> \<not> restarting acts \<and> s' = s\<lparr> s_unreachable_logged := s_unreachable_logged s' \<rparr>"
  by (auto simp: reach_note_def split: if_splits)

lemma reach_recover_no_api:
  "reach_recover e d s = (acts, s') \<Longrightarrow> \<not> api_rebooted acts \<and> s_watch s' = s_watch s"
  by (auto simp: reach_recover_def split: if_splits)

lemma reach_outage_watch [simp]: "s_watch (reach_outage e s) = s_watch s"
  by (simp add: reach_outage_def)

lemma reach_note_watch: "reach_note d s = (acts, s') \<Longrightarrow> s_watch s' = s_watch s"
  by (auto simp: reach_note_def split: if_splits)

lemma reach_failed_no_api: "reach_failed e s = (acts, s') \<Longrightarrow> \<not> api_rebooted acts \<and> s_watch s' = s_watch s"
  by (auto simp: reach_failed_def Let_def split: prod.splits if_splits
      dest!: reach_recover_no_api dest: reach_note_quiet reach_note_watch)

lemma reach_answered_no_api:
  "reach_answered s = (acts, s') \<Longrightarrow>
     \<not> api_rebooted acts \<and> \<not> restarting acts \<and> s_watch s' = s_watch s"
  by (auto simp: reach_answered_def reach_reset_def wait_for_next_check_def split: if_splits)

text \<open>The invariant of a young boot: the magic word is set and no healthy time lies before boot.\<close>

definition watch_ok :: "rtc \<Rightarrow> sup \<Rightarrow> bool" where
  "watch_ok r s \<longleftrightarrow> r_magic r = API_REBOOT_MAGIC \<and> 0 \<le> w_healthy_since_us (s_watch s)"

fun young_input :: "sup_input \<Rightarrow> bool" where
  "young_input (Check e) = young (a_now (c_api e))"
| "young_input Link_up = True"

lemma count_step_append:
  "count_step acts r r' \<Longrightarrow> \<not> api_rebooted post \<Longrightarrow> count_step (acts @ post) r r'"
  by (auto simp: count_step_def)

lemma online_check_count:
  assumes "online_check e r s = (acts, r', s')" "watch_ok r s" "young (a_now (c_api e))"
  shows "count_step acts r r' \<and> 0 \<le> w_healthy_since_us (s_watch s')"
proof -
  obtain served w r1 where sup: "supervise_api_server (c_api e) (s_watch s) r = (served, w, r1)"
    by (metis prod_cases3)
  have c: "count_step served r r1" "0 \<le> w_healthy_since_us w"
    using supervise_count [OF sup] assms(2,3) by (auto simp: watch_ok_def)
  show ?thesis
    using assms(1) c
    by (auto simp: online_check_def sup Let_def split: prod.splits if_splits
        dest!: reach_answered_no_api reach_failed_no_api intro!: count_step_append)
qed

lemma check_count:
  assumes "wifi_supervisor_check e r s = (acts, r', s')" "watch_ok r s" "young (a_now (c_api e))"
  shows "count_step acts r r' \<and> 0 \<le> w_healthy_since_us (s_watch s')"
proof -
  have online: "watch_ok r (assoc_reset (s\<lparr> s_link_up_seen := False \<rparr>))"
    using assms(2) by (simp add: watch_ok_def assoc_reset_def)
  show ?thesis
    using assms(1,2)
    by (auto simp: wifi_supervisor_check_def Let_def watch_ok_def assoc_reset_def reach_reset_def
        wait_for_next_check_def split: prod.splits if_splits
        dest!: assoc_check_no_api online_check_count [OF _ online [unfolded assoc_reset_def] assms(3)]
        intro!: count_step_none count_step_wrap)
qed

lemma step_count:
  assumes "sup_step i r s = (acts, r', s')" "watch_ok r s" "young_input i"
  shows "count_step acts r r' \<and> 0 \<le> w_healthy_since_us (s_watch s')"
  using assms check_count [of _ r s acts r' s']
  by (cases i) (auto simp: wifi_supervisor_notify_connected_def watch_ok_def intro!: count_step_none)

lemma run_count:
  assumes "sup_run ins r s = (acts, r', s')" "watch_ok r s" "\<forall>i\<in>set ins. young_input i"
  shows "count_step acts r r'"
  using assms
proof (induction ins arbitrary: r s acts r' s')
  case Nil
  then show ?case by (simp add: count_step_none)
next
  case (Cons i ins)
  obtain a1 r1 s1 where st: "sup_step i r s = (a1, r1, s1)"
    by (metis prod_cases3)
  have c: "count_step a1 r r1" "0 \<le> w_healthy_since_us (s_watch s1)"
    using step_count [OF st] Cons.prems by auto
  show ?case
  proof (cases "restarting a1")
    case True
    then show ?thesis using Cons.prems(1) c st by simp
  next
    case False
    then have quiet: "\<not> api_rebooted a1" "r1 = r"
      using c(1) by (auto simp: count_step_def split: if_splits)
    obtain a2 r2 s2 where rest: "sup_run ins r1 s1 = (a2, r2, s2)"
      by (metis prod_cases3)
    have "count_step a2 r1 r2"
      using Cons.IH [OF rest] Cons.prems c quiet by (simp add: watch_ok_def)
    then show ?thesis
      using Cons.prems(1) st rest False quiet by (auto intro: count_step_wrap)
  qed
qed

lemma boot_count:
  assumes "wifi_supervisor_boot reason ins r = (acts, r', s')" "\<forall>i\<in>set ins. young_input i"
  shows "count_step acts (api_reboot_count_boot reason r) r'"
proof -
  have "watch_ok (api_reboot_count_boot reason r) sup_init"
    by (simp add: watch_ok_def api_reboot_count_boot_def sup_init_def api_watch_init_def Let_def)
  then show ?thesis
    using assms run_count
    by (fastforce simp: wifi_supervisor_boot_def split: prod.splits intro: count_step_wrap)
qed

lemma chain_count:
  "\<forall>b\<in>set bs. \<forall>i\<in>set b. young_input i \<Longrightarrow>
   api_reboot_chain reason bs r \<le> 2 - unat (r_count (api_reboot_count_boot reason r))"
proof (induction bs arbitrary: reason r)
  case Nil
  then show ?case by simp
next
  case (Cons b bs)
  obtain acts r' s' where boot: "wifi_supervisor_boot reason b r = (acts, r', s')"
    by (metis prod_cases3)
  show ?case
  proof (cases "api_rebooted acts")
    case True
    define c where "c = r_count (api_reboot_count_boot reason r)"
    have "c < 2" "r_count r' = c + 1" "r_magic r' = API_REBOOT_MAGIC" "r_ours r' = API_REBOOT_MAGIC"
      using boot_count [OF boot] Cons.prems True by (auto simp: count_step_def API_MAX_REBOOTS_def c_def)
    then have kept: "r_count (api_reboot_count_boot RST_SW r') = c + 1"
      by (simp add: api_reboot_count_boot_def Let_def)
    have "unat (c + 1) = unat c + 1" "unat c < 2"
      using \<open>c < 2\<close> by (simp_all add: unat_arith_simps)
    then show ?thesis
      using Cons.IH [of RST_SW r'] Cons.prems True boot kept by (simp add: c_def)
  qed (simp add: boot)
qed

text \<open>
  C14: A fault of the web server that survives a reboot cannot boot-loop the controller.  Whatever is
  in the RTC memory and whatever caused the first reset, if every boot lasts less than ten minutes
  then at most two boots in a row end in a reboot by the safety net, and the next boot, whatever its
  checks find, does not.
\<close>

theorem no_api_boot_loop:
  assumes "\<forall>b\<in>set bs. \<forall>i\<in>set b. young_input i"
  shows "api_reboot_chain reason bs r \<le> 2"
  by (rule order_trans [OF chain_count [OF assms]]) simp


section \<open>A wedged network ends in a restart\<close>

definition online :: "check_env \<Rightarrow> bool" where
  "online e \<longleftrightarrow> c_has_creds e \<and> c_state e = CONNECTED \<and> have_ip e"

definition gateway_answered :: "check_env \<Rightarrow> bool" where
  "gateway_answered e \<longleftrightarrow> online e \<and> probe_gateway_reachable (c_ping e)"

definition gateway_silent :: "check_env \<Rightarrow> bool" where
  "gateway_silent e \<longleftrightarrow> online e \<and> \<not> probe_gateway_reachable (c_ping e)"

text \<open>Inputs that may occur during a wedge: the gateway never answers, the credentials stay.\<close>

fun unanswered :: "sup_input \<Rightarrow> bool" where
  "unanswered (Check e) \<longleftrightarrow> c_has_creds e \<and> \<not> gateway_answered e"
| "unanswered Link_up \<longleftrightarrow> True"

text \<open>A pass that finds the gateway silent, three minutes or more after \<open>t0\<close> (and less than the 24.8
  days at which the 32-bit millisecond difference wraps).\<close>

fun silent_late :: "int \<Rightarrow> sup_input \<Rightarrow> bool" where
  "silent_late t0 (Check e) \<longleftrightarrow>
     gateway_silent e \<and> 180000 \<le> elapsed_ms (c_now e) t0 \<and> elapsed_ms (c_now e) t0 < 2 ^ 31"
| "silent_late t0 Link_up \<longleftrightarrow> False"

definition wedged :: "int \<Rightarrow> int \<Rightarrow> sup \<Rightarrow> bool" where
  "wedged t0 b s \<longleftrightarrow>
     s_ever_reachable s \<and> s_unreachable_since_us s = t0 \<and> b \<le> s_bounces s \<and> 0 \<le> s_bounces s"

lemma assoc_check_wedged:
  assumes "assoc_check e s = (acts, s')"
  shows "wedged t0 b s' \<longleftrightarrow> wedged t0 b s"
  using assms
  by (auto simp: assoc_check_def assoc_retry_def assoc_outage_def assoc_reset_def Let_def wedged_def
      split: prod.splits if_splits)

lemma reach_note_wedged:
  "reach_note d s = (acts, s') \<Longrightarrow> wedged t0 b s' \<longleftrightarrow> wedged t0 b s"
  by (auto simp: reach_note_def wedged_def split: if_splits)

lemma reach_recover_wedged:
  assumes "reach_recover e d s = (acts, s')" "wedged t0 b s" "0 \<le> b"
  shows "wedged t0 b s'" "180000 \<le> d \<Longrightarrow> restarting acts \<or> wedged t0 (b + 1) s' \<and> b < MAX_BOUNCES"
proof -
  show "wedged t0 b s'"
    using assms by (auto simp: reach_recover_def wedged_def split: if_splits)
  show "restarting acts \<or> wedged t0 (b + 1) s' \<and> b < MAX_BOUNCES" if "180000 \<le> d"
  proof (cases "s_bounces s < MAX_BOUNCES")
    case True
    then have "REACH_GRACE_MS + s_bounces s * BOUNCE_STEP_MS \<le> d"
      using that by (simp add: sup_consts)
    then show ?thesis
      using assms True by (auto simp: reach_recover_def wedged_def)
  next
    case False
    then show ?thesis
      using assms(1) that by (auto simp: reach_recover_def sup_consts)
  qed
qed

lemma reach_failed_wedged:
  assumes "reach_failed e s = (acts, s')" "wedged t0 b s" "0 \<le> b" "t0 \<noteq> 0"
  shows "wedged t0 b s'"
    "180000 \<le> elapsed_ms (c_now e) t0 \<Longrightarrow> elapsed_ms (c_now e) t0 < 2 ^ 31 \<Longrightarrow>
       restarting acts \<or> wedged t0 (b + 1) s' \<and> b < MAX_BOUNCES"
proof -
  define d where "d = s32 (elapsed_ms (c_now e) t0)"
  have s: "s_ever_reachable s" "reach_outage e s = s" "s_unreachable_since_us s = t0"
    using assms(2,4) by (simp_all add: wedged_def reach_outage_def)
  obtain noted s1 acted where n: "reach_note d s = (noted, s1)"
    and r: "reach_recover e d s1 = (acted, s')" and acts: "acts = noted @ acted"
    using assms(1) s by (auto simp: reach_failed_def Let_def d_def split: prod.splits)
  have w: "wedged t0 b s1"
    using reach_note_wedged [OF n] assms(2) by simp
  show "wedged t0 b s'"
    by (rule reach_recover_wedged(1) [OF r w assms(3)])
  show "restarting acts \<or> wedged t0 (b + 1) s' \<and> b < MAX_BOUNCES"
    if "180000 \<le> elapsed_ms (c_now e) t0" "elapsed_ms (c_now e) t0 < 2 ^ 31"
    using reach_recover_wedged(2) [OF r w assms(3)] that acts by (simp add: d_def s32_id_nonneg)
qed

lemma wedged_upd [simp]:
  "wedged t0 b (s\<lparr> s_watch := w \<rparr>) \<longleftrightarrow> wedged t0 b s"
  "wedged t0 b (s\<lparr> s_link_up_seen := l \<rparr>) \<longleftrightarrow> wedged t0 b s"
  "wedged t0 b (assoc_reset s) \<longleftrightarrow> wedged t0 b s"
  by (simp_all add: wedged_def assoc_reset_def)

lemma check_wedged:
  assumes "wifi_supervisor_check e r s = (acts, r', s')" "wedged t0 b s" "0 \<le> b" "t0 \<noteq> 0"
    "c_has_creds e" "\<not> gateway_answered e"
  shows "restarting acts \<or> wedged t0 b s'"
    "silent_late t0 (Check e) \<Longrightarrow> restarting acts \<or> wedged t0 (b + 1) s' \<and> b < MAX_BOUNCES"
proof -
  have w: "wedged t0 b ((assoc_reset (s\<lparr> s_link_up_seen := False \<rparr>))\<lparr> s_watch := w \<rparr>)" for w
    using assms(2) by simp
  note failed = reach_failed_wedged [OF _ w assms(3,4)]
  show "restarting acts \<or> wedged t0 b s'"
    using assms(1,2,5,6)
    by (auto simp: wifi_supervisor_check_def online_check_def gateway_answered_def online_def Let_def
        assoc_check_wedged split: prod.splits if_splits dest!: failed(1))
  show "restarting acts \<or> wedged t0 (b + 1) s' \<and> b < MAX_BOUNCES" if "silent_late t0 (Check e)"
    using assms(1) that
    by (auto simp: wifi_supervisor_check_def online_check_def gateway_silent_def online_def Let_def
        split: prod.splits if_splits dest!: failed(2))
qed

lemma run_wedged:
  assumes "wedged t0 b s" "0 \<le> b" "t0 \<noteq> 0" "\<forall>i\<in>set ins. unanswered i"
    "nat (MAX_BOUNCES + 1 - b) \<le> length (filter (silent_late t0) ins)" "b \<le> MAX_BOUNCES"
  shows "restarting (fst (sup_run ins r s))"
  using assms
proof (induction ins arbitrary: b r s)
  case Nil
  then show ?case by simp
next
  case (Cons i ins)
  obtain acts r1 s1 where st: "sup_step i r s = (acts, r1, s1)"
    by (metis prod_cases3)
  have keep: "restarting acts \<or> wedged t0 b s1"
    using st Cons.prems check_wedged(1) [of _ r s acts r1 s1 t0 b]
    by (cases i) (auto simp: wifi_supervisor_notify_connected_def)
  have late: "restarting acts \<or> wedged t0 (b + 1) s1 \<and> b < MAX_BOUNCES" if "silent_late t0 i"
    using st Cons.prems that check_wedged(2) [of _ r s acts r1 s1 t0 b] by (cases i) auto
  have "restarting acts \<or> restarting (fst (sup_run ins r1 s1))"
  proof (cases "silent_late t0 i")
    case True
    then have "restarting acts \<or> wedged t0 (b + 1) s1 \<and> b < MAX_BOUNCES"
      by (rule late)
    moreover have "nat (MAX_BOUNCES + 1 - (b + 1)) \<le> length (filter (silent_late t0) ins)"
      using Cons.prems(5) True by simp
    ultimately show ?thesis
      using Cons.IH [of "b + 1" s1 r1] Cons.prems by auto
  next
    case False
    then show ?thesis
      using keep Cons.IH [of b s1 r1] Cons.prems by auto
  qed
  then show ?case
    using st by (auto split: prod.splits)
qed


lemma restarting_run_Cons:
  "restarting (fst (sup_run (i # ins) r s)) \<longleftrightarrow>
     (case sup_step i r s of (acts, r1, s1) \<Rightarrow>
        restarting acts \<or> restarting (fst (sup_run ins r1 s1)))"
  by (auto split: prod.splits)

lemma restarting_run_append:
  assumes "\<And>r s. restarting (fst (sup_run ys r s))"
  shows "restarting (fst (sup_run (xs @ ys) r s))"
proof (induction xs arbitrary: r s)
  case (Cons i xs)
  then show ?case
    by (simp add: restarting_run_Cons del: sup_run.simps split: prod.splits)
qed (simp add: assms)

lemma check_answered:
  assumes "wifi_supervisor_check e r s = (acts, r', s')" "gateway_answered e"
  shows "restarting acts \<or> s_ever_reachable s' \<and> s_unreachable_since_us s' = 0 \<and> s_bounces s' = 0"
  using assms
  by (auto simp: wifi_supervisor_check_def online_check_def gateway_answered_def online_def
      reach_answered_def reach_reset_def Let_def split: prod.splits if_splits)

lemma check_first_silent:
  assumes "wifi_supervisor_check e r s = (acts, r', s')" "gateway_silent e" "c_now e \<noteq> 0"
    "s_ever_reachable s" "s_unreachable_since_us s = 0" "s_bounces s = 0"
  shows "restarting acts \<or> wedged (c_now e) 0 s'"
proof -
  have failed: "wedged (c_now e) 0 s2"
    if "reach_failed e s1 = (acted, s2)" "s_ever_reachable s1" "s_unreachable_since_us s1 = 0"
      "s_bounces s1 = 0" for s1 s2 acted
    using that
    by (auto simp: reach_failed_def reach_outage_def reach_note_def reach_recover_def wedged_def Let_def
        split: prod.splits if_splits)
  show ?thesis
    using assms
    by (auto simp: wifi_supervisor_check_def online_check_def gateway_silent_def online_def
        assoc_reset_def Let_def split: prod.splits if_splits dest!: failed)
qed

lemma boot_restarts:
  assumes "\<And>r s. restarting (fst (sup_run xs r s))"
  shows "restarting (fst (wifi_supervisor_boot reason (pre @ xs) r))"
  using restarting_run_append [OF assms, of pre "api_reboot_count_boot reason r" sup_init]
  by (auto simp: wifi_supervisor_boot_def split: prod.splits)

lemma silence_restarts:
  assumes "s_ever_reachable s" "s_unreachable_since_us s = 0" "s_bounces s = 0"
    "gateway_silent e0" "c_now e0 \<noteq> 0" "\<forall>i\<in>set ins. unanswered i"
    "3 \<le> length (filter (silent_late (c_now e0)) ins)"
  shows "restarting (fst (sup_run (Check e0 # ins) r s))"
proof -
  obtain acts r1 s1 where c: "wifi_supervisor_check e0 r s = (acts, r1, s1)"
    by (metis prod_cases3)
  have "restarting acts \<or> wedged (c_now e0) 0 s1"
    using check_first_silent [OF c assms(4,5,1-3)] .
  moreover have "restarting (fst (sup_run ins r1 s1))" if "wedged (c_now e0) 0 s1"
    using run_wedged [OF that _ assms(5,6)] assms(7) by (simp add: MAX_BOUNCES_def)
  ultimately show ?thesis
    by (auto simp: restarting_run_Cons c simp del: sup_run.simps)
qed

text \<open>
  C13: A wedged network stack does not stay wedged.  In any boot, whatever came before: once the
  gateway has answered and then falls silent, and no later pass gets an answer while the credentials
  stay saved, the device restarts by the third pass that finds it associated, with an address, and
  still silent three minutes or more after the outage began.  Passes that find the link down (after
  a bounce, say) may come in between in any number.
\<close>

theorem wedge_ends_in_restart:
  assumes "gateway_answered e1" "gateway_silent e0" "c_now e0 \<noteq> 0"
    "\<forall>i\<in>set ins. unanswered i" "3 \<le> length (filter (silent_late (c_now e0)) ins)"
  shows "restarting (fst (wifi_supervisor_boot reason (pre @ Check e1 # Check e0 # ins) r))"
proof (rule boot_restarts)
  fix r s
  obtain acts r1 s1 where c: "wifi_supervisor_check e1 r s = (acts, r1, s1)"
    by (metis prod_cases3)
  show "restarting (fst (sup_run (Check e1 # Check e0 # ins) r s))"
    using check_answered [OF c assms(1)] silence_restarts [OF _ _ _ assms(2-5)]
    by (auto simp: restarting_run_Cons [of "Check e1"] c simp del: sup_run.simps)
qed

text \<open>
  C39: Forgetting a network does not disarm the wedge supervision.  A pass without credentials is
  meant to reset all state, but the flag that the gateway has been reachable survives it: after an
  answer from one network, a pass without credentials and a move to a network whose gateway never
  answers a ping, the device is restarted although no gateway it is now supervising was ever
  reachable.
\<close>

theorem armed_across_networks:
  assumes "gateway_answered e1" "\<not> c_has_creds en" "gateway_silent e0" "c_now e0 \<noteq> 0"
    "\<forall>i\<in>set ins. unanswered i" "3 \<le> length (filter (silent_late (c_now e0)) ins)"
  shows "restarting (fst (wifi_supervisor_boot reason (pre @ Check e1 # Check en # Check e0 # ins) r))"
proof (rule boot_restarts)
  fix r s
  obtain acts r1 s1 where c: "wifi_supervisor_check e1 r s = (acts, r1, s1)"
    by (metis prod_cases3)
  then have c': "sup_step (Check e1) r s = (acts, r1, s1)"
    by simp
  have kept: "sup_step (Check en) r1 s1 = ([Drops_poll, Task_delay CHECK_INTERVAL_MS], r1,
      reach_reset (assoc_reset s1))"
    using assms(2) by (simp add: wifi_supervisor_check_def)
  have "restarting acts \<or> restarting (fst (sup_run (Check e0 # ins) r1 (reach_reset (assoc_reset s1))))"
    using check_answered [OF c assms(1)] silence_restarts [OF _ _ _ assms(3-6)]
    by (auto simp: reach_reset_def assoc_reset_def simp del: sup_run.simps)
  then show "restarting (fst (sup_run (Check e1 # Check en # Check e0 # ins) r s))"
    by (auto simp: restarting_run_Cons [of "Check e1"] restarting_run_Cons [of "Check en"] c' kept
        simp del: sup_run.simps sup_step.simps(1))
qed

section \<open>Every restart has an outage behind it\<close>

text \<open>The start of the server's episode through the safety net.\<close>

definition serves :: "api_env \<Rightarrow> bool" where
  "serves a \<longleftrightarrow> \<not> a_shut_down a \<and> a_running a \<and> a_probe_ok a"

lemma log_down_since: "api_log_down c w = (acts, w') \<Longrightarrow> w_down_since_us w' = w_down_since_us w"
  by (auto simp: api_log_down_def split: if_splits)

lemma episode_end_since:
  "api_episode_end w = (acts, w') \<Longrightarrow> w_down_since_us w' = 0 \<and> \<not> restarting acts"
  by (auto simp: api_episode_end_def split: if_splits)

lemma episode_begin_since [simp]:
  "w_down_since_us (api_episode_begin now w) = (if w_down_since_us w = 0 then now else w_down_since_us w)"
  by (simp add: api_episode_begin_def)

lemma elapsed_nonneg: "since \<le> now \<Longrightarrow> 0 \<le> elapsed_ms now since"
  by (auto simp: elapsed_ms_def signed_divide_int_def sgn_if pos_imp_zdiv_nonneg_iff)

lemma s32_elapsed: "since \<le> now \<Longrightarrow> k \<le> s32 (elapsed_ms now since) \<Longrightarrow> k \<le> elapsed_ms now since"
  using s32_le [OF elapsed_nonneg] by fastforce

lemma maybe_reboot_since:
  assumes "api_maybe_reboot now w r = (acts, w', r')" "w_down_since_us w \<le> now"
  shows "w_down_since_us w' = w_down_since_us w \<and>
         (restarting acts \<longrightarrow> API_DOWN_REBOOT_MS \<le> elapsed_ms now (w_down_since_us w))"
  using assms s32_elapsed [OF assms(2), of API_DOWN_REBOOT_MS]
  by (auto simp: api_maybe_reboot_def Let_def split: if_splits)

lemma handle_down_since:
  assumes "api_handle_down a w r = (acts, w', r')" "w_down_since_us w \<le> a_now a" "a_now a \<le> a_later a"
  shows "(w_down_since_us w' = 0 \<or> w_down_since_us w' = w_down_since_us (api_episode_begin (a_now a) w)) \<and>
         (restarting acts \<longrightarrow> w_down_since_us w' = w_down_since_us (api_episode_begin (a_now a) w) \<and>
            API_DOWN_REBOOT_MS \<le> elapsed_ms (a_later a) (w_down_since_us w'))"
proof -
  obtain logged w1 where l: "api_log_down
      (api_server_start_error_event_cause (if a_ensure_ok a then a_prior_error a else a_error_after a))
      ((api_episode_begin (a_now a) w)\<lparr> w_attempts := w_attempts (api_episode_begin (a_now a) w) + 1 \<rparr>) =
      (logged, w1)"
    by (metis surj_pair)
  have w1: "w_down_since_us w1 = w_down_since_us (api_episode_begin (a_now a) w)"
    "w_down_since_us w1 \<le> a_later a"
    using log_down_since [OF l] assms(2,3) by auto
  show ?thesis
    using assms(1) w1 log_down_quiet [OF l]
    by (auto simp: api_handle_down_def Let_def l split: prod.splits if_splits
        dest!: episode_end_since maybe_reboot_since)
qed

lemma probe_failed_since:
  assumes "api_probe_failed a w r = (acts, w', r')" "w_down_since_us w \<le> a_now a" "a_now a \<le> a_later a"
  shows "w_down_since_us w' = w_down_since_us (api_episode_begin (a_now a) w) \<and>
         (restarting acts \<longrightarrow> API_DOWN_REBOOT_MS \<le> elapsed_ms (a_later a) (w_down_since_us w'))"
proof -
  have unresponsive: "w_down_since_us w2 = w_down_since_us w1 \<and>
      (restarting acts \<longrightarrow> API_DOWN_REBOOT_MS \<le> elapsed_ms (a_later a) (w_down_since_us w2))"
    if h: "api_handle_unresponsive a w1 r = (acts, w2, r2)" "w_down_since_us w1 \<le> a_later a" for w1 w2 r2
  proof -
    obtain logged w3 where l: "api_log_down CAUSE_UNRESPONSIVE (w1\<lparr> w_probe_failures := 0 \<rparr>) = (logged, w3)"
      by (metis surj_pair)
    show ?thesis
      using h log_down_since [OF l] log_down_quiet [OF l]
      by (auto simp: api_handle_unresponsive_def Let_def l split: prod.splits dest!: maybe_reboot_since)
  qed
  show ?thesis
    using assms
    by (auto simp: api_probe_failed_def Let_def split: if_splits
        dest!: unresponsive maybe_reboot_since)
qed

lemma answering_since:
  assumes "api_answering a w r = (acts, w', r')"
  shows "w_down_since_us w' = w_down_since_us w \<and> \<not> restarting acts"
  using assms by (auto simp: api_answering_def api_repair_secondary_def Let_def split: if_splits)

lemma supervise_since:
  assumes "supervise_api_server a w r = (acts, w', r')" "w_down_since_us w \<le> a_now a" "a_now a \<le> a_later a"
  shows "serves a \<longrightarrow> w_down_since_us w' = 0"
    "w_down_since_us w' = 0 \<or> w_down_since_us w' = w_down_since_us w \<or>
       \<not> a_shut_down a \<and> w_down_since_us w' = a_now a"
    "restarting acts \<longrightarrow> \<not> serves a \<and>
       (w_down_since_us w' = a_now a \<or> w_down_since_us w' = w_down_since_us w \<and> w_down_since_us w \<noteq> 0) \<and>
       API_DOWN_REBOOT_MS \<le> elapsed_ms (a_later a) (w_down_since_us w')"
proof -
  note dests = handle_down_since [where a = a] probe_failed_since [where a = a]
  show "serves a \<longrightarrow> w_down_since_us w' = 0"
    using assms
    by (auto simp: supervise_api_server_def serves_def Let_def api_probe_due_def
        split: prod.splits if_splits dest!: answering_since episode_end_since)
  show "w_down_since_us w' = 0 \<or> w_down_since_us w' = w_down_since_us w \<or>
       \<not> a_shut_down a \<and> w_down_since_us w' = a_now a"
    using assms
    by (auto simp: supervise_api_server_def Let_def split: prod.splits if_splits
        dest!: dests answering_since episode_end_since)
  show "restarting acts \<longrightarrow> \<not> serves a \<and>
       (w_down_since_us w' = a_now a \<or> w_down_since_us w' = w_down_since_us w \<and> w_down_since_us w \<noteq> 0) \<and>
       API_DOWN_REBOOT_MS \<le> elapsed_ms (a_later a) (w_down_since_us w')"
    using assms
    by (auto simp: supervise_api_server_def serves_def Let_def split: prod.splits if_splits
        dest!: dests answering_since episode_end_since)
qed


text \<open>An outage in a history of inputs: it starts at a pass \<open>x\<close> and no pass since ends it.\<close>

definition down_throughout ::
  "(check_env \<Rightarrow> bool) \<Rightarrow> (check_env \<Rightarrow> bool) \<Rightarrow> sup_input list \<Rightarrow> check_env \<Rightarrow> bool" where
  "down_throughout st up ins x \<longleftrightarrow>
     (\<exists>p q. ins = p @ Check x # q \<and> st x \<and> (\<forall>y. Check y \<in> set q \<longrightarrow> \<not> up y))"

definition link_down :: "check_env \<Rightarrow> bool" where
  "link_down e \<longleftrightarrow> c_has_creds e \<and> c_state e \<noteq> CONNECTED"

definition gateway_cleared :: "check_env \<Rightarrow> bool" where
  "gateway_cleared e \<longleftrightarrow> gateway_answered e \<or> \<not> c_has_creds e"

definition server_answers :: "check_env \<Rightarrow> bool" where
  "server_answers e \<longleftrightarrow> online e \<and> serves (c_api e)"

definition server_silent :: "check_env \<Rightarrow> bool" where
  "server_silent e \<longleftrightarrow> online e \<and> \<not> a_shut_down (c_api e) \<and> \<not> serves (c_api e)"

abbreviation link_outage :: "sup_input list \<Rightarrow> check_env \<Rightarrow> bool" where
  "link_outage \<equiv> down_throughout link_down (\<lambda>e. \<not> link_down e)"

abbreviation gateway_outage :: "sup_input list \<Rightarrow> check_env \<Rightarrow> bool" where
  "gateway_outage \<equiv> down_throughout gateway_silent gateway_cleared"

abbreviation server_outage :: "sup_input list \<Rightarrow> check_env \<Rightarrow> bool" where
  "server_outage \<equiv> down_throughout server_silent server_answers"

text \<open>The clock values of a run: positive and never going back.\<close>

fun pass_times :: "sup_input \<Rightarrow> int list" where
  "pass_times (Check e) = [a_now (c_api e), a_later (c_api e), c_now e]"
| "pass_times Link_up = []"

definition clock_ok :: "int \<Rightarrow> sup_input list \<Rightarrow> bool" where
  "clock_ok t ins \<longleftrightarrow> sorted (t # concat (map pass_times ins))"

lemma clock_ok_Check:
  "clock_ok t (Check e # ins) \<longleftrightarrow>
     t \<le> a_now (c_api e) \<and> a_now (c_api e) \<le> a_later (c_api e) \<and> a_later (c_api e) \<le> c_now e \<and>
     clock_ok (c_now e) ins"
  by (simp add: clock_ok_def sorted2 del: sorted_wrt.simps)

lemma clock_ok_Link_up [simp]: "clock_ok t (Link_up # ins) \<longleftrightarrow> clock_ok t ins"
  by (simp add: clock_ok_def)

text \<open>A start time the task keeps is 0 or the time of the pass that began the outage.\<close>

definition since_ok ::
  "(sup_input list \<Rightarrow> check_env \<Rightarrow> bool) \<Rightarrow> (check_env \<Rightarrow> int) \<Rightarrow> int \<Rightarrow> sup_input list \<Rightarrow> bool" where
  "since_ok outage tm since ins \<longleftrightarrow> since \<noteq> 0 \<longrightarrow> (\<exists>x. outage ins x \<and> tm x = since)"

lemma since_ok_zero [simp]: "since_ok outage tm 0 ins"
  by (simp add: since_ok_def)

lemma down_throughout_start: "st e \<Longrightarrow> down_throughout st up (ins @ [Check e]) e"
  unfolding down_throughout_def by (rule exI [of _ ins], rule exI [of _ "[]"]) simp

lemma since_ok_start:
  "st e \<Longrightarrow> since_ok (down_throughout st up) tm (tm e) (ins @ [Check e])"
  by (auto simp: since_ok_def intro: down_throughout_start)

lemma down_throughout_snoc:
  assumes "down_throughout st up ins x" "\<And>e. i = Check e \<Longrightarrow> \<not> up e"
  shows "down_throughout st up (ins @ [i]) x"
proof -
  obtain p q where "ins = p @ Check x # q" "st x" "\<forall>y. Check y \<in> set q \<longrightarrow> \<not> up y"
    using assms(1) unfolding down_throughout_def by blast
  then have "ins @ [i] = p @ Check x # (q @ [i]) \<and> st x \<and> (\<forall>y. Check y \<in> set (q @ [i]) \<longrightarrow> \<not> up y)"
    using assms(2) by auto
  then show ?thesis
    unfolding down_throughout_def by blast
qed

lemma since_ok_snoc:
  assumes "since_ok (down_throughout st up) tm since ins" "\<And>e. i = Check e \<Longrightarrow> \<not> up e"
  shows "since_ok (down_throughout st up) tm since (ins @ [i])"
  unfolding since_ok_def
proof
  assume "since \<noteq> 0"
  then obtain x where x: "down_throughout st up ins x" "tm x = since"
    using assms(1) unfolding since_ok_def by blast
  have "down_throughout st up (ins @ [i]) x"
    by (rule down_throughout_snoc [OF x(1)]) (rule assms(2))
  with x(2) show "\<exists>x. down_throughout st up (ins @ [i]) x \<and> tm x = since"
    by blast
qed

text \<open>The invariant of a boot after the inputs \<open>ins\<close>, the last of them at time \<open>t\<close>.\<close>

definition outages_ok :: "sup_input list \<Rightarrow> int \<Rightarrow> sup \<Rightarrow> bool" where
  "outages_ok ins t s \<longleftrightarrow>
     since_ok link_outage c_now (s_down_since_us s) ins \<and> s_down_since_us s \<le> t \<and>
     since_ok gateway_outage c_now (s_unreachable_since_us s) ins \<and> s_unreachable_since_us s \<le> t \<and>
     since_ok server_outage (\<lambda>e. a_now (c_api e)) (w_down_since_us (s_watch s)) ins \<and>
     w_down_since_us (s_watch s) \<le> t \<and>
     (s_ever_reachable s \<longrightarrow> (\<exists>y. Check y \<in> set ins \<and> gateway_answered y))"

text \<open>Why a pass restarted the device.\<close>

definition restart_justified :: "sup_input list \<Rightarrow> check_env \<Rightarrow> bool" where
  "restart_justified ins e \<longleftrightarrow>
     (\<exists>x. link_outage ins x \<and> 900000 \<le> elapsed_ms (c_now e) (c_now x)) \<or>
     (\<exists>x. gateway_outage ins x \<and> 180000 \<le> elapsed_ms (c_now e) (c_now x)) \<and>
       (\<exists>y. Check y \<in> set ins \<and> gateway_answered y) \<or>
     (\<exists>x. server_outage ins x \<and> 90000 \<le> elapsed_ms (a_later (c_api e)) (a_now (c_api x)))"

text \<open>The passes that leave the start of an outage alone, per branch.\<close>

lemma assoc_check_since:
  assumes "assoc_check e s = (acts, s')" "s_down_since_us s \<le> c_now e"
  shows "(s_down_since_us s' = s_down_since_us s \<or> s_down_since_us s' = c_now e) \<and>
         s_unreachable_since_us s' = s_unreachable_since_us s \<and> s_watch s' = s_watch s \<and>
         s_ever_reachable s' = s_ever_reachable s \<and> (c_now e \<noteq> 0 \<longrightarrow> s_down_since_us s' \<noteq> 0) \<and>
         (restarting acts \<longrightarrow> REBOOT_AFTER_MS \<le> elapsed_ms (c_now e) (s_down_since_us s'))"
proof -
  define s1 where "s1 = assoc_outage e s"
  have s1: "s_down_since_us s1 = s_down_since_us s \<or> s_down_since_us s1 = c_now e"
    "s_down_since_us s1 \<le> c_now e" "s_unreachable_since_us s1 = s_unreachable_since_us s"
    "s_watch s1 = s_watch s" "s_ever_reachable s1 = s_ever_reachable s"
    "c_now e \<noteq> 0 \<longrightarrow> s_down_since_us s1 \<noteq> 0"
    using assms(2) by (auto simp: s1_def assoc_outage_def assoc_reset_def Let_def)
  obtain tried s2 where t: "assoc_retry e s1 = (tried, s2)"
    by (metis surj_pair)
  have s2: "s_down_since_us s2 = s_down_since_us s1" "s_unreachable_since_us s2 = s_unreachable_since_us s1"
    "s_watch s2 = s_watch s1" "s_ever_reachable s2 = s_ever_reachable s1" "\<not> restarting tried"
    using t assoc_retry_quiet [OF t] by (auto simp: assoc_retry_def split: if_splits)
  have "REBOOT_AFTER_MS \<le> assoc_down_ms e s2 \<Longrightarrow>
      REBOOT_AFTER_MS \<le> elapsed_ms (c_now e) (s_down_since_us s2)"
    using s32_elapsed [of "s_down_since_us s2" "c_now e"] s1 s2 by (simp add: assoc_down_ms_def)
  then show ?thesis
    using assms(1) s1 s2
    by (auto simp: assoc_check_def Let_def t simp flip: s1_def split: if_splits)
qed

lemma reach_failed_since:
  assumes "reach_failed e s = (acts, s')" "s_unreachable_since_us s \<le> c_now e"
  shows "(s_unreachable_since_us s' = s_unreachable_since_us s \<or> s_unreachable_since_us s' = c_now e) \<and>
         s_down_since_us s' = s_down_since_us s \<and> s_watch s' = s_watch s \<and>
         s_ever_reachable s' = s_ever_reachable s \<and>
         (restarting acts \<longrightarrow> s_ever_reachable s \<and> (c_now e \<noteq> 0 \<longrightarrow> s_unreachable_since_us s' \<noteq> 0) \<and>
            180000 \<le> elapsed_ms (c_now e) (s_unreachable_since_us s'))"
proof (cases "s_ever_reachable s")
  case True
  define s1 where "s1 = reach_outage e s"
  define d where "d = s32 (elapsed_ms (c_now e) (s_unreachable_since_us s1))"
  have s1: "s_unreachable_since_us s1 = s_unreachable_since_us s \<or> s_unreachable_since_us s1 = c_now e"
    "s_unreachable_since_us s1 \<le> c_now e" "s_down_since_us s1 = s_down_since_us s"
    "s_watch s1 = s_watch s" "s_ever_reachable s1 = s_ever_reachable s"
    "c_now e \<noteq> 0 \<longrightarrow> s_unreachable_since_us s1 \<noteq> 0"
    using assms(2) by (auto simp: s1_def reach_outage_def)
  obtain noted s2 acted where n: "reach_note d s1 = (noted, s2)"
    and r: "reach_recover e d s2 = (acted, s')" and acts: "acts = noted @ acted"
    using assms(1) True by (auto simp: reach_failed_def Let_def d_def s1_def split: prod.splits)
  have s2: "s_unreachable_since_us s2 = s_unreachable_since_us s1" "s_down_since_us s2 = s_down_since_us s1"
    "s_watch s2 = s_watch s1" "s_ever_reachable s2 = s_ever_reachable s1" "\<not> restarting noted"
    using n by (auto simp: reach_note_def split: if_splits)
  have s': "s_unreachable_since_us s' = s_unreachable_since_us s2" "s_down_since_us s' = s_down_since_us s2"
    "s_watch s' = s_watch s2" "s_ever_reachable s' = s_ever_reachable s2"
    "restarting acted \<longrightarrow> 180000 \<le> d"
    using r by (auto simp: reach_recover_def sup_consts split: if_splits)
  show ?thesis
    using True s1 s2 s' acts s32_elapsed [OF s1(2), of 180000] by (auto simp: d_def)
qed (use assms in \<open>auto simp: reach_failed_def\<close>)


lemma outages_passive:
  assumes "outages_ok ins t s" "t \<le> t'" "\<And>e. i = Check e \<Longrightarrow> \<not> server_answers e"
    "s_down_since_us s' = 0 \<or> s_down_since_us s' = s_down_since_us s \<and> (\<forall>e. i = Check e \<longrightarrow> link_down e)"
    "s_unreachable_since_us s' = 0 \<or> s_unreachable_since_us s' = s_unreachable_since_us s \<and>
       (\<forall>e. i = Check e \<longrightarrow> \<not> gateway_cleared e)"
    "s_watch s' = s_watch s" "s_ever_reachable s' = s_ever_reachable s" "0 \<le> t'"
  shows "outages_ok (ins @ [i]) t' s'"
  using assms by (auto simp: outages_ok_def intro: since_ok_snoc)

text \<open>A pass that finds the link down.\<close>

lemma outages_link_down:
  assumes "outages_ok ins t s" "assoc_check e s = (acts, s')" "link_down e" "t \<le> c_now e" "1 \<le> t"
  shows "outages_ok (ins @ [Check e]) (c_now e) s'"
    "restarting acts \<Longrightarrow> restart_justified (ins @ [Check e]) e"
proof -
  have "s_down_since_us s \<le> c_now e"
    using assms(1,4) by (simp add: outages_ok_def)
  note since = assoc_check_since [OF assms(2) this]
  have off: "\<not> server_answers e" "\<not> gateway_cleared e"
    using assms(3) by (auto simp: link_down_def server_answers_def online_def gateway_cleared_def
        gateway_answered_def)
  have link: "since_ok link_outage c_now (s_down_since_us s') (ins @ [Check e])"
    using since assms(1,3) by (auto simp: outages_ok_def intro: since_ok_snoc since_ok_start)
  then show inv: "outages_ok (ins @ [Check e]) (c_now e) s'"
    using since assms(1,4) off by (auto simp: outages_ok_def intro: since_ok_snoc)
  show "restart_justified (ins @ [Check e]) e" if "restarting acts"
  proof -
    have long: "900000 \<le> elapsed_ms (c_now e) (s_down_since_us s')"
      using since that by (simp add: REBOOT_AFTER_MS_def)
    have "s_down_since_us s' \<noteq> 0"
      using since assms(4,5) by simp
    then show ?thesis
      using link long by (auto simp: since_ok_def restart_justified_def)
  qed
qed

text \<open>A pass that finds the link up and an address: the server first, then the gateway.\<close>

lemma outages_served:
  assumes "outages_ok ins t s" "supervise_api_server (c_api e) (s_watch s) r = (served, w, r')"
    "online e" "clock_ok t [Check e]" "1 \<le> t"
  shows "since_ok server_outage (\<lambda>e. a_now (c_api e)) (w_down_since_us w) (ins @ [Check e])"
    "w_down_since_us w \<le> c_now e"
    "restarting served \<Longrightarrow> restart_justified (ins @ [Check e]) e"
proof -
  have times: "t \<le> a_now (c_api e)" "a_now (c_api e) \<le> a_later (c_api e)" "a_later (c_api e) \<le> c_now e"
    using assms(4) by (simp_all add: clock_ok_Check)
  have "w_down_since_us (s_watch s) \<le> a_now (c_api e)"
    using assms(1) times by (simp add: outages_ok_def)
  note since = supervise_since [OF assms(2) this times(2)]
  have old: "since_ok server_outage (\<lambda>e. a_now (c_api e)) (w_down_since_us (s_watch s)) ins"
    using assms(1) by (simp add: outages_ok_def)
  show ok: "since_ok server_outage (\<lambda>e. a_now (c_api e)) (w_down_since_us w) (ins @ [Check e])"
  proof (cases "serves (c_api e)")
    case True
    then show ?thesis using since(1) by simp
  next
    case False
    have kept: "since_ok server_outage (\<lambda>e. a_now (c_api e)) (w_down_since_us (s_watch s)) (ins @ [Check e])"
      by (rule since_ok_snoc [OF old]) (use False in \<open>auto simp: server_answers_def\<close>)
    have new: "since_ok server_outage (\<lambda>e. a_now (c_api e)) (a_now (c_api e)) (ins @ [Check e])"
      if "\<not> a_shut_down (c_api e)"
      using False assms(3) that
        since_ok_start [of server_silent e server_answers "\<lambda>e. a_now (c_api e)" ins]
      by (simp add: server_silent_def)
    show ?thesis
      using since(2) kept new by auto
  qed
  show "w_down_since_us w \<le> c_now e"
    using since(2) assms(1,5) times by (auto simp: outages_ok_def)
  show "restart_justified (ins @ [Check e]) e" if "restarting served"
    using since(3) that ok times assms(5)
    by (auto simp: since_ok_def restart_justified_def API_DOWN_REBOOT_MS_def)
qed

lemma outages_reach:
  assumes old: "since_ok gateway_outage c_now (s_unreachable_since_us s) ins"
    "s_unreachable_since_us s \<le> c_now e"
    "s_ever_reachable s \<longrightarrow> (\<exists>y. Check y \<in> set ins \<and> gateway_answered y)"
    and server: "since_ok server_outage (\<lambda>e. a_now (c_api e)) (w_down_since_us (s_watch s)) (ins @ [Check e])"
    "w_down_since_us (s_watch s) \<le> c_now e"
    and "s_down_since_us s = 0" "online e" "1 \<le> c_now e"
    and run: "(if probe_gateway_reachable (c_ping e) then reach_answered s else reach_failed e s) = (acts, s')"
  shows "outages_ok (ins @ [Check e]) (c_now e) s' \<and>
         (restarting acts \<longrightarrow> restart_justified (ins @ [Check e]) e)"
proof (cases "probe_gateway_reachable (c_ping e)")
  case True
  have "gateway_answered e"
    using True \<open>online e\<close> by (simp add: gateway_answered_def)
  have up: "reach_answered s = (acts, s')"
    using run True by simp
  have "outages_ok (ins @ [Check e]) (c_now e) s'"
    using up server \<open>gateway_answered e\<close> \<open>s_down_since_us s = 0\<close> \<open>1 \<le> c_now e\<close>
    by (auto simp: outages_ok_def reach_answered_def reach_reset_def)
  then show ?thesis
    using reach_answered_no_api [OF up] by blast
next
  case False
  have st: "gateway_silent e" "\<not> gateway_cleared e"
    using False \<open>online e\<close> by (auto simp: gateway_silent_def gateway_cleared_def gateway_answered_def online_def)
  have "reach_failed e s = (acts, s')"
    using run False by simp
  note since = reach_failed_since [OF this old(2)]
  have "since_ok gateway_outage c_now (s_unreachable_since_us s) (ins @ [Check e])"
    by (rule since_ok_snoc [OF old(1)]) (use st in auto)
  moreover have "since_ok gateway_outage c_now (c_now e) (ins @ [Check e])"
    by (rule since_ok_start) (rule st)
  ultimately have gw: "since_ok gateway_outage c_now (s_unreachable_since_us s') (ins @ [Check e])"
    using since by auto
  have "outages_ok (ins @ [Check e]) (c_now e) s'"
    using since gw assms by (auto simp: outages_ok_def)
  moreover have "restart_justified (ins @ [Check e]) e" if "restarting acts"
  proof -
    have "s_unreachable_since_us s' \<noteq> 0" "180000 \<le> elapsed_ms (c_now e) (s_unreachable_since_us s')"
      "s_ever_reachable s"
      using since that \<open>1 \<le> c_now e\<close> by auto
    then show ?thesis
      using gw old(3) by (auto simp: since_ok_def restart_justified_def)
  qed
  ultimately show ?thesis by blast
qed

lemma outages_online:
  assumes "outages_ok ins t s" "online e" "clock_ok t [Check e]" "1 \<le> t"
    "online_check e r (assoc_reset (s\<lparr> s_link_up_seen := False \<rparr>)) = (acts, r', s')"
  shows "(restarting acts \<longrightarrow> restart_justified (ins @ [Check e]) e) \<and>
         (\<not> restarting acts \<longrightarrow> outages_ok (ins @ [Check e]) (c_now e) s')"
proof -
  obtain served w r1 where sup: "supervise_api_server (c_api e) (s_watch s) r = (served, w, r1)"
    by (metis prod_cases3)
  note served = outages_served [OF assms(1) sup assms(2-4)]
  define s1 where "s1 = (assoc_reset (s\<lparr> s_link_up_seen := False \<rparr>))\<lparr> s_watch := w \<rparr>"
  obtain acted s2 where reach:
    "(if probe_gateway_reachable (c_ping e) then reach_answered s1 else reach_failed e s1) = (acted, s2)"
    by (metis surj_pair)
  have t: "t \<le> c_now e"
    using assms(3) by (simp add: clock_ok_Check)
  have step: "outages_ok (ins @ [Check e]) (c_now e) s2 \<and>
      (restarting acted \<longrightarrow> restart_justified (ins @ [Check e]) e)"
    by (rule outages_reach [OF _ _ _ _ _ _ assms(2) _ reach])
      (use assms(1,4) t served in \<open>auto simp: s1_def assoc_reset_def outages_ok_def\<close>)
  have watch: "s_watch (assoc_reset (s\<lparr> s_link_up_seen := False \<rparr>)) = s_watch s"
    by (simp add: assoc_reset_def)
  show ?thesis
  proof (cases "restarting served")
    case True
    then show ?thesis
      using assms(5) served(3) by (simp add: online_check_def watch sup)
  next
    case False
    then have "acts = served @ acted" "s' = s2"
      using assms(5) reach by (simp_all add: online_check_def watch sup s1_def [symmetric])
    then show ?thesis
      using step False by auto
  qed
qed

lemma outages_check:
  assumes "outages_ok ins t s" "clock_ok t [Check e]" "1 \<le> t"
    "wifi_supervisor_check e r s = (acts, r', s')"
  shows "(restarting acts \<longrightarrow> restart_justified (ins @ [Check e]) e) \<and>
         (\<not> restarting acts \<longrightarrow> outages_ok (ins @ [Check e]) (c_now e) s')"
proof -
  have t: "t \<le> c_now e"
    using assms(2) by (simp add: clock_ok_Check)
  consider (no_creds) "\<not> c_has_creds e" | (link) "link_down e" | (online) "online e"
    | (no_ip) "c_has_creds e" "c_state e = CONNECTED" "\<not> have_ip e"
    unfolding link_down_def online_def by blast
  then show ?thesis
  proof cases
    case no_creds
    have "outages_ok (ins @ [Check e]) (c_now e) (reach_reset (assoc_reset s))"
      by (rule outages_passive [OF assms(1) t])
        (use no_creds t assms(3) in \<open>auto simp: server_answers_def online_def reach_reset_def assoc_reset_def\<close>)
    then show ?thesis
      using assms(4) no_creds by (auto simp: wifi_supervisor_check_def)
  next
    case link
    obtain acted s2 where a: "assoc_check e s = (acted, s2)"
      by (metis surj_pair)
    then show ?thesis
      using outages_link_down [OF assms(1) a link t assms(3)] assms(4) link
      by (auto simp: wifi_supervisor_check_def link_down_def)
  next
    case online
    obtain acted r2 s2 where a:
      "online_check e r (assoc_reset (s\<lparr> s_link_up_seen := False \<rparr>)) = (acted, r2, s2)"
      by (metis prod_cases3)
    show ?thesis
      using outages_online [OF assms(1) online assms(2,3) a] assms(4) online a
      by (auto simp: wifi_supervisor_check_def online_def Let_def)
  next
    case no_ip
    have "outages_ok (ins @ [Check e]) (c_now e) (assoc_reset (s\<lparr> s_link_up_seen := False \<rparr>))"
      by (rule outages_passive [OF assms(1) t])
        (use no_ip t assms(3) in \<open>auto simp: server_answers_def online_def assoc_reset_def
          gateway_cleared_def gateway_answered_def\<close>)
    then show ?thesis
      using assms(4) no_ip by (auto simp: wifi_supervisor_check_def Let_def)
  qed
qed

lemma run_justified:
  assumes "outages_ok past t s" "clock_ok t ins" "1 \<le> t" "restarting (fst (sup_run ins r s))"
  shows "\<exists>pre e post. ins = pre @ Check e # post \<and> restart_justified (past @ pre @ [Check e]) e"
  using assms
proof (induction ins arbitrary: past t r s)
  case Nil
  then show ?case by simp
next
  case (Cons i ins)
  obtain acts r1 s1 where st: "sup_step i r s = (acts, r1, s1)"
    by (metis prod_cases3)
  have now_or_later: "restarting acts \<or> restarting (fst (sup_run ins r1 s1))"
    using Cons.prems(4) st by (auto split: prod.splits if_splits)
  have later: "\<exists>pre e post. i # ins = pre @ Check e # post \<and> restart_justified (past @ pre @ [Check e]) e"
    if "outages_ok (past @ [i]) t1 s1" "clock_ok t1 ins" "1 \<le> t1" "restarting (fst (sup_run ins r1 s1))" for t1
  proof -
    note ih = Cons.IH [OF that]
    obtain pre e post where "ins = pre @ Check e # post" "restart_justified ((past @ [i]) @ pre @ [Check e]) e"
      using ih by auto
    then have "i # ins = (i # pre) @ Check e # post" "restart_justified (past @ (i # pre) @ [Check e]) e"
      by simp_all
    then show ?thesis by blast
  qed
  show ?case
  proof (cases i)
    case (Check e)
    have clock: "clock_ok t [Check e]" "clock_ok (c_now e) ins" "1 \<le> c_now e"
      using Cons.prems(2,3) Check by (auto simp: clock_ok_Check clock_ok_def [of _ "[]"])
    note step = outages_check [OF Cons.prems(1) clock(1) Cons.prems(3) st [unfolded Check sup_step.simps]]
    show ?thesis
    proof (cases "restarting acts")
      case True
      then have "i # ins = [] @ Check e # ins" "restart_justified (past @ [] @ [Check e]) e"
        using step Check by simp_all
      then show ?thesis by blast
    next
      case False
      then show ?thesis
        using step now_or_later clock later Check by blast
    qed
  next
    case Link_up
    have "outages_ok (past @ [i]) t s1"
      by (rule outages_passive [OF Cons.prems(1)])
        (use st Link_up Cons.prems(3) in \<open>auto simp: wifi_supervisor_notify_connected_def\<close>)
    moreover have "\<not> restarting acts"
      using st Link_up by auto
    ultimately show ?thesis
      using later [of t] now_or_later Cons.prems(2,3) Link_up by auto
  qed
qed

text \<open>
  C9: The supervisor never reboots a healthy device.  In any boot whose clock is positive and never
  goes back, a restart happens at a pass \<open>e\<close> that ends an outage of the full length: the link was
  found down at a pass fifteen minutes earlier and at every pass since; or the gateway, which had
  answered earlier in this boot, was found silent three minutes earlier and has answered no pass
  since; or the web server was found not serving ninety seconds earlier and no pass since found it
  serving.
\<close>

theorem restart_needs_outage:
  assumes "clock_ok 1 ins" "restarting (fst (wifi_supervisor_boot reason ins r))"
  shows "\<exists>pre e post. ins = pre @ Check e # post \<and> restart_justified (pre @ [Check e]) e"
proof -
  have "outages_ok [] 1 sup_init"
    by (simp add: outages_ok_def sup_init_def api_watch_init_def)
  moreover have "restarting (fst (sup_run ins (api_reboot_count_boot reason r) sup_init))"
    using assms(2) by (simp add: wifi_supervisor_boot_def split: prod.splits)
  ultimately show ?thesis
    using run_justified [of "[]" 1 sup_init ins] assms(1) by simp
qed

section \<open>What a single pass may do\<close>

text \<open>The safety net of the web server never touches the link.\<close>

definition link_quiet :: "sup_action list \<Rightarrow> bool" where
  "link_quiet acts \<longleftrightarrow> Wifi_connect \<notin> set acts \<and> Wifi_disconnect \<notin> set acts"

lemma link_quiet_simps [simp]:
  "link_quiet []"
  "link_quiet (xs @ ys) \<longleftrightarrow> link_quiet xs \<and> link_quiet ys"
  "link_quiet (a # ys) \<longleftrightarrow> a \<noteq> Wifi_connect \<and> a \<noteq> Wifi_disconnect \<and> link_quiet ys"
  by (auto simp: link_quiet_def)

lemma serve_link_quiet:
  assumes "supervise_api_server a w r = (acts, w', r')"
  shows "link_quiet acts"
proof -
  have log: "link_quiet l"
    if "api_log_down c v = (l, v')" for c v l v'
    using that by (auto simp: api_log_down_def split: if_splits)
  have ended: "link_quiet l"
    if "api_episode_end v = (l, v')" for v l v'
    using that by (auto simp: api_episode_end_def split: if_splits)
  have reboot: "link_quiet l"
    if "api_maybe_reboot now v q = (l, v', q')" for now v q l v' q'
    using that by (auto simp: api_maybe_reboot_def Let_def split: if_splits)
  have repair: "link_quiet l"
    if "api_repair_secondary a v = (l, v')" for v l v'
    using that by (auto simp: api_repair_secondary_def split: if_splits)
  have unresponsive: "link_quiet l"
    if "api_handle_unresponsive a v q = (l, v', q')" for v q l v' q'
    using that by (auto simp: api_handle_unresponsive_def Let_def split: prod.splits dest!: log reboot)
  have failed: "link_quiet l"
    if "api_probe_failed a v q = (l, v', q')" for v q l v' q'
    using that by (auto simp: api_probe_failed_def Let_def split: if_splits dest!: unresponsive reboot)
  have down: "link_quiet l"
    if "api_handle_down a v q = (l, v', q')" for v q l v' q'
    using that by (auto simp: api_handle_down_def Let_def split: prod.splits if_splits dest!: log reboot ended)
  have answering: "link_quiet l"
    if "api_answering a v q = (l, v', q')" for v q l v' q'
    using that by (auto simp: api_answering_def Let_def split: prod.splits dest!: repair)
  show ?thesis
    using assms
    by (auto simp: supervise_api_server_def Let_def split: prod.splits if_splits
        dest!: failed down answering ended)
qed

lemma assoc_check_connect:
  assumes "assoc_check e s = (acts, s')"
  shows "Wifi_disconnect \<notin> set acts \<and>
         (Wifi_connect \<in> set acts \<longrightarrow> c_load_ok e \<and> c_state e \<noteq> CONNECTING)"
  using assms
  by (auto simp: assoc_check_def assoc_retry_def retry_due_def reconnect_def wait_for_next_check_def
      Let_def split: prod.splits if_splits)

lemma reach_failed_connect:
  assumes "reach_failed e s = (acts, s')"
  shows "Wifi_connect \<in> set acts \<longrightarrow> c_load_ok e \<and> Wifi_disconnect \<in> set acts"
  using assms
  by (auto simp: reach_failed_def reach_note_def reach_recover_def reconnect_def wait_for_next_check_def
      Let_def split: prod.splits if_splits)

lemma reach_answered_connect: "reach_answered s = (acts, s') \<Longrightarrow> Wifi_connect \<notin> set acts"
  by (auto simp: reach_answered_def wait_for_next_check_def split: if_splits)

text \<open>
  C30: The supervisor never competes with another connection.  A pass asks the WiFi manager to connect
  only with saved credentials that loaded, and only in one of two situations: the link is idle (no
  attempt in flight, not connected), or the link is up but its gateway does not answer and the same
  pass has just taken the link down.
\<close>

theorem no_competing_connect:
  assumes "wifi_supervisor_check e r s = (acts, r', s')" "Wifi_connect \<in> set acts"
  shows "c_has_creds e \<and> c_load_ok e \<and>
         (c_state e \<noteq> CONNECTING \<and> c_state e \<noteq> CONNECTED \<or>
          gateway_silent e \<and> Wifi_disconnect \<in> set acts)"
  using assms
  by (auto simp: wifi_supervisor_check_def online_check_def gateway_silent_def online_def Let_def
      wait_for_next_check_def split: prod.splits if_splits
      dest!: assoc_check_connect reach_failed_connect reach_answered_connect
        serve_link_quiet [unfolded link_quiet_def])

text \<open>
  C0: A pass that does not restart the device ends by sleeping between 1 ms and 15 s, so the
  supervisor neither spins nor oversleeps; the clock must not have gone back since the link was
  found down, nor have run on for the 24.8 days at which the millisecond difference wraps.
\<close>

theorem pass_sleeps:
  assumes "wifi_supervisor_check e r s = (acts, r', s')" "\<not> restarting acts"
    "s_down_since_us s \<noteq> 0 \<Longrightarrow> s_down_since_us s \<le> c_now e \<and>
       elapsed_ms (c_now e) (s_down_since_us s) < 2 ^ 31"
  shows "\<exists>ms. (last acts = Notify_wait ms \<or> last acts = Task_delay ms) \<and> 1 \<le> ms \<and> ms \<le> 15000"
proof -
  have wait: "\<exists>ms. wait_for_next_check k = Notify_wait ms \<and> 1 \<le> ms \<and> ms \<le> 15000" if "k \<le> 15000" for k
    using that by (auto simp: wait_for_next_check_def)
  consider (no_creds) "\<not> c_has_creds e" | (link) "link_down e" | (online) "online e"
    | (no_ip) "c_has_creds e" "c_state e = CONNECTED" "\<not> have_ip e"
    unfolding link_down_def online_def by blast
  then show ?thesis
  proof cases
    case no_creds
    then show ?thesis
      using assms(1) by (auto simp: wifi_supervisor_check_def CHECK_INTERVAL_MS_def)
  next
    case no_ip
    then show ?thesis
      using assms(1) by (auto simp: wifi_supervisor_check_def Let_def wait_for_next_check_def CHECK_INTERVAL_MS_def)
  next
    case link
    have "0 \<le> assoc_down_ms e (assoc_outage e s)"
      using assms(3) elapsed_nonneg s32_id_nonneg
      by (auto simp: assoc_down_ms_def assoc_outage_def assoc_reset_def Let_def elapsed_ms_def s32_def)
    moreover have "assoc_down_ms e s2 = assoc_down_ms e s1" if "assoc_retry e s1 = (l, s2)" for s1 s2 l
      using that by (auto simp: assoc_retry_def assoc_down_ms_def split: if_splits)
    ultimately have "\<exists>k. last acts = wait_for_next_check k \<and> k \<le> 15000"
      using assms(1,2) link
      by (auto simp: wifi_supervisor_check_def link_down_def assoc_check_def assoc_wait_ms_def
          sup_consts Let_def split: prod.splits if_splits)
    then show ?thesis
      using wait by metis
  next
    case online
    have failed: "last l = wait_for_next_check CHECK_INTERVAL_MS \<and> l \<noteq> [] \<or> restarting l"
      if "reach_failed e v = (l, v')" for v l v'
      using that by (auto simp: reach_failed_def reach_recover_def Let_def split: prod.splits if_splits)
    have answered: "last l = wait_for_next_check CHECK_INTERVAL_MS \<and> l \<noteq> []"
      if "reach_answered v = (l, v')" for v l v'
      using that by (auto simp: reach_answered_def)
    have "last acts = wait_for_next_check CHECK_INTERVAL_MS"
      using assms(1,2) online
      by (auto simp: wifi_supervisor_check_def online_def online_check_def Let_def
          split: prod.splits if_splits dest!: failed answered)
    then show ?thesis
      using wait [of CHECK_INTERVAL_MS] by (auto simp: CHECK_INTERVAL_MS_def)
  qed
qed

text \<open>
  C38: The boot grace covers one of the two faults of the web server only.  Before 120 s of uptime,
  with a server that has never been healthy, a server that is down is left alone, but one that is
  running and fails its third self-probe in a row is restarted at once.
\<close>

theorem boot_grace_only_when_down:
  assumes "\<not> a_shut_down a" "\<not> w_ever_healthy w" "a_now a sdiv 1000 < API_BOOT_GRACE_MS"
    "w_probe_failures w = API_PROBE_FAILS_TO_ACT - 1" "\<not> a_probe_ok a"
  shows "if a_running a then (\<exists>fall_back. Api_restart fall_back \<in> set (fst (supervise_api_server a w r)))
         else fst (supervise_api_server a w r) = []"
proof (cases "a_running a")
  case True
  have "\<exists>fall_back. Api_restart fall_back \<in> set (fst (api_handle_unresponsive a v q))" for v q
    by (auto simp: api_handle_unresponsive_def Let_def split: prod.splits)
  moreover have "api_probe_due (a_now a) w"
    using assms(4) by (simp add: api_probe_due_def API_PROBE_FAILS_TO_ACT_def)
  ultimately show ?thesis
    using True assms
    by (auto simp: supervise_api_server_def api_probe_failed_def api_episode_begin_def Let_def
        split: prod.splits) (metis fst_conv list.set_intros(2))+
qed (use assms in \<open>simp add: supervise_api_server_def\<close>)


section \<open>Concrete runs\<close>

text \<open>A server that is running (or not) and answers its own request (or not) at \<open>t\<close> seconds; a pass
  that finds the link up with an address and a gateway that replies to the ping or not.\<close>

definition sample_api :: "int \<Rightarrow> bool \<Rightarrow> bool \<Rightarrow> api_env" where
  "sample_api t running answers =
     \<lparr> a_shut_down = False, a_now = t * 1000000, a_running = running, a_prior_error = ERR_NONE,
       a_ensure_ok = False, a_error_after = ERR_NO_MEMORY, a_later = t * 1000000 + 1000,
       a_probe_ok = answers, a_https = True, a_healthy = True \<rparr>"

definition sample_pass :: "int \<Rightarrow> wifi_mgr_state \<Rightarrow> bool \<Rightarrow> u32 \<Rightarrow> check_env" where
  "sample_pass t state running replies =
     \<lparr> c_state = state, c_has_creds = True, c_now = t * 1000000 + 2000, c_drops_down = True,
       c_roaming = False, c_load_ok = True, c_ip = Some ''10.0.0.7'',
       c_api = sample_api t running True,
       c_ping = \<lparr> p_netif = True, p_ip_info = True, p_gateway = 16777226, p_semaphore = True,
                  p_session = True, p_started = True, p_replies = Some replies \<rparr> \<rparr>"

abbreviation gateway_up :: "int \<Rightarrow> sup_input" where
  "gateway_up t \<equiv> Check (sample_pass t CONNECTED True 3)"

abbreviation gateway_gone :: "int \<Rightarrow> sup_input" where
  "gateway_gone t \<equiv> Check (sample_pass t CONNECTED True 0)"

text \<open>A server that cannot be started: found down at 130 s and again at 225 s of uptime.\<close>

definition broken_boot :: "sup_input list" where
  "broken_boot = [Check (sample_pass 130 CONNECTED False 3), Check (sample_pass 225 CONNECTED False 3)]"

definition garbage_rtc :: rtc where
  "garbage_rtc = \<lparr> r_magic = 0xdeadbeef, r_count = 77, r_ours = 3 \<rparr>"

theorem no_api_boot_loop_witness:
  "api_reboot_chain RST_POWERON [broken_boot, broken_boot, broken_boot, broken_boot] garbage_rtc \<le> 2 \<and>
   api_reboot_chain RST_POWERON [broken_boot, broken_boot, broken_boot, broken_boot] garbage_rtc = 2"
proof
  show "api_reboot_chain RST_POWERON [broken_boot, broken_boot, broken_boot, broken_boot] garbage_rtc \<le> 2"
    by (rule no_api_boot_loop) (simp add: broken_boot_def sample_pass_def sample_api_def young_def)
  show "api_reboot_chain RST_POWERON [broken_boot, broken_boot, broken_boot, broken_boot] garbage_rtc = 2"
    by code_simp
qed

theorem wedge_ends_in_restart_witness:
  "restarting (fst (wifi_supervisor_boot RST_POWERON
     ([] @ gateway_up 20 # gateway_gone 35 #
        [gateway_gone 220, Check (sample_pass 240 CONNECTING True 0), Link_up, gateway_gone 265,
         gateway_gone 310]) garbage_rtc))"
  by (rule wedge_ends_in_restart)
    (simp_all add: gateway_answered_def gateway_silent_def online_def have_ip_def sample_pass_def
      probe_gateway_reachable_def elapsed_ms_def signed_divide_int_def)

theorem armed_across_networks_witness:
  "restarting (fst (wifi_supervisor_boot RST_POWERON
     ([] @ gateway_up 20 # Check ((sample_pass 35 DISCONNECTED True 0)\<lparr> c_has_creds := False \<rparr>) #
        gateway_gone 95 # [gateway_gone 290, gateway_gone 335, gateway_gone 380]) garbage_rtc))"
  by (rule armed_across_networks)
    (simp_all add: gateway_answered_def gateway_silent_def online_def have_ip_def sample_pass_def
      probe_gateway_reachable_def elapsed_ms_def signed_divide_int_def)

definition wedge_history :: "sup_input list" where
  "wedge_history = [gateway_up 20, gateway_gone 35, gateway_gone 130, gateway_gone 175, gateway_gone 220]"

theorem restart_needs_outage_witness:
  "restarting (fst (wifi_supervisor_boot RST_POWERON wedge_history garbage_rtc)) \<and>
   (\<exists>pre e post. wedge_history = pre @ Check e # post \<and> restart_justified (pre @ [Check e]) e)"
proof
  show restart: "restarting (fst (wifi_supervisor_boot RST_POWERON wedge_history garbage_rtc))"
    by code_simp
  show "\<exists>pre e post. wedge_history = pre @ Check e # post \<and> restart_justified (pre @ [Check e]) e"
    by (rule restart_needs_outage [OF _ restart])
      (simp add: clock_ok_def wedge_history_def sample_pass_def sample_api_def)
qed

theorem no_competing_connect_witness:
  "c_has_creds (sample_pass 100 ERROR True 0) \<and> c_load_ok (sample_pass 100 ERROR True 0) \<and>
   (c_state (sample_pass 100 ERROR True 0) \<noteq> CONNECTING \<and> c_state (sample_pass 100 ERROR True 0) \<noteq> CONNECTED \<or>
    gateway_silent (sample_pass 100 ERROR True 0) \<and>
    Wifi_disconnect \<in> set [Drops_poll, Wifi_connect, Notify_wait 15000])"
proof (rule no_competing_connect)
  show "wifi_supervisor_check (sample_pass 100 ERROR True 0) garbage_rtc (sup_init\<lparr> s_down_since_us := 1 \<rparr>) =
      ([Drops_poll, Wifi_connect, Notify_wait 15000], garbage_rtc,
       sup_init\<lparr> s_down_since_us := 1, s_last_attempt_us := 100002000, s_fast_tried := True \<rparr>)"
    by code_simp
qed simp

theorem pass_sleeps_witness:
  "\<exists>ms. (last [Drops_poll, Notify_wait 2000] = Notify_wait ms \<or>
         last [Drops_poll, Notify_wait 2000] = Task_delay ms) \<and> 1 \<le> ms \<and> ms \<le> 15000"
proof (rule pass_sleeps)
  show "wifi_supervisor_check (sample_pass 100 DISCONNECTED True 0) garbage_rtc sup_init =
      ([Drops_poll, Notify_wait 2000], garbage_rtc, sup_init\<lparr> s_down_since_us := 100002000 \<rparr>)"
    by code_simp
qed (simp_all add: sup_init_def)

theorem boot_grace_only_when_down_witness:
  "\<exists>fall_back. Api_restart fall_back \<in> set (fst (supervise_api_server (sample_api 60 True False)
     (api_watch_init\<lparr> w_probe_failures := 2, w_last_probe_us := 45000000 \<rparr>) garbage_rtc))"
  using boot_grace_only_when_down [of "sample_api 60 True False"
      "api_watch_init\<lparr> w_probe_failures := 2, w_last_probe_us := 45000000 \<rparr>" garbage_rtc]
  by (simp add: sample_api_def api_watch_init_def API_BOOT_GRACE_MS_def API_PROBE_FAILS_TO_ACT_def
      signed_divide_int_def)

end
