(* ===== verification/Energy_Date.thy ===== *)
theory Energy_Date
  imports Prelude "HOL-Library.Signed_Division"
begin

text \<open>
  The calendar arithmetic of the energy ledgers: \<open>days_from_date\<close> (\<open>main/energy_ledger.h\<close>),
  \<open>date_from_days\<close> and \<open>date_add_days\<close> (\<open>main/run_ledger.h\<close>).  Dates are packed as the decimal
  number YYYYMMDD in a \<open>uint32_t\<close>; the arithmetic is on \<open>int64_t\<close>, far from its limits, so it is
  unbounded here, with the truncating division of C.  The reference is the Gregorian calendar,
  given by its month lengths and the successor of a day.
\<close>

section \<open>The code\<close>

definition days_from_date :: "u32 \<Rightarrow> int" where
  "days_from_date date =
     (let y = uint (date div 10000);
          m = uint (date div 100 mod 100);
          d = uint (date mod 100);
          y = y - (if m \<le> 2 then 1 else 0);
          era = (if y \<ge> 0 then y else y - 399) sdiv 400;
          yoe = y - era * 400;
          doy = (153 * (m + (if m > 2 then -3 else 9)) + 2) sdiv 5 + d - 1;
          doe = yoe * 365 + yoe sdiv 4 - yoe sdiv 100 + doy
      in era * 146097 + doe - 719468)"

definition date_from_days :: "int \<Rightarrow> u32" where
  "date_from_days z0 =
     (let z = z0 + 719468;
          era = (if z \<ge> 0 then z else z - 146096) sdiv 146097;
          doe = z - era * 146097;
          yoe = (doe - doe sdiv 1460 + doe sdiv 36524 - doe sdiv 146096) sdiv 365;
          doy = doe - (365 * yoe + yoe sdiv 4 - yoe sdiv 100);
          mp = (5 * doy + 2) sdiv 153;
          d = doy - (153 * mp + 2) sdiv 5 + 1;
          m = mp + (if mp < 10 then 3 else -9);
          y = yoe + era * 400 + (if m \<le> 2 then 1 else 0)
      in of_int (y * 10000 + m * 100 + d))"

definition date_add_days :: "u32 \<Rightarrow> int \<Rightarrow> u32" where
  "date_add_days date days = date_from_days (days_from_date date + days)"

section \<open>The Gregorian calendar\<close>

definition leap :: "int \<Rightarrow> bool" where
  "leap y \<longleftrightarrow> 4 dvd y \<and> (\<not> 100 dvd y \<or> 400 dvd y)"

definition month_length :: "int \<Rightarrow> int \<Rightarrow> int" where
  "month_length y m =
     (if m = 2 then (if leap y then 29 else 28) else if m \<in> {4, 6, 9, 11} then 30 else 31)"

definition valid_date :: "int \<Rightarrow> int \<Rightarrow> int \<Rightarrow> bool" where
  "valid_date y m d \<longleftrightarrow> 0 \<le> y \<and> y \<le> 9999 \<and> 1 \<le> m \<and> m \<le> 12 \<and> 1 \<le> d \<and> d \<le> month_length y m"

fun next_date :: "int \<times> int \<times> int \<Rightarrow> int \<times> int \<times> int" where
  "next_date (y, m, d) =
     (if d < month_length y m then (y, m, d + 1) else if m < 12 then (y, m + 1, 1) else (y + 1, 1, 1))"

definition ymd :: "int \<Rightarrow> int \<Rightarrow> int \<Rightarrow> u32" where
  "ymd y m d = of_int (y * 10000 + m * 100 + d)"

section \<open>Arithmetic\<close>

lemma sdiv_pos: "0 \<le> a \<Longrightarrow> 0 < b \<Longrightarrow> a sdiv b = a div (b::int)"
  by (simp add: signed_divide_int_def sgn_if)

lemma sdiv_floor:
  fixes a b :: int
  assumes "0 < b"
  shows "(if a \<ge> 0 then a else a - (b - 1)) sdiv b = a div b"
proof (cases "a \<ge> 0")
  case False
  have "(b - 1 - a) div b = - (a div b)"
  proof -
    have "a = b * (a div b) + a mod b" by simp
    moreover have "0 \<le> a mod b" "a mod b < b" using assms by auto
    ultimately have "b - 1 - a = b * (- (a div b)) + (b - 1 - a mod b)" "0 \<le> b - 1 - a mod b" "b - 1 - a mod b < b"
      by (auto simp: algebra_simps)
    then show ?thesis using assms by (metis int_div_pos_eq)
  qed
  then show ?thesis using False assms by (simp add: signed_divide_int_def sgn_if algebra_simps)
qed (use assms in \<open>simp add: sdiv_pos\<close>)

text \<open>Days before the March-based year \<open>y\<close>, counted from the start of year 0.\<close>

definition year_days :: "int \<Rightarrow> int" where
  "year_days y = 365 * y + y div 4 - y div 100 + y div 400"

lemma era_days:
  "y div 400 * 146097 + ((y mod 400) * 365 + (y mod 400) div 4 - (y mod 400) div 100) = year_days y"
proof -
  define e r where "e = y div 400" and "r = y mod 400"
  have y: "y = r + 400 * e" unfolding e_def r_def by simp
  have "y = r + 100 * e * 4" "y = r + 4 * e * 100" "y = r + e * 400" using y by simp_all
  then have "y div 4 = 100 * e + r div 4" "y div 100 = 4 * e + r div 100" "y div 400 = e + r div 400"
    by (metis div_mult_self1 zero_neq_numeral)+
  moreover have "r div 400 = 0" unfolding r_def by simp
  ultimately show ?thesis unfolding year_days_def e_def [symmetric] r_def [symmetric] using y by simp
qed

definition month_days :: "int \<Rightarrow> int" where
  "month_days m = (153 * (m + (if m > 2 then -3 else 9)) + 2) div 5"

lemma ymd_parts:
  assumes "valid_date y m d"
  shows "uint (ymd y m d div 10000) = y" "uint (ymd y m d div 100 mod 100) = m" "uint (ymd y m d mod 100) = d"
proof -
  have b: "0 \<le> y" "y \<le> 9999" "1 \<le> m" "m \<le> 12" "1 \<le> d" "d \<le> 31"
    using assms by (auto simp: valid_date_def month_length_def split: if_splits)
  have u: "uint (ymd y m d) = y * 10000 + m * 100 + d"
    using b by (simp add: ymd_def uint_word_of_int_eq take_bit_int_eq_self del: of_int_add of_int_mult)
  have q: "(y * 10000 + m * 100 + d) div 10000 = y" "(y * 10000 + m * 100 + d) div 100 mod 100 = m"
    "(y * 10000 + m * 100 + d) mod 100 = d"
  proof -
    show "(y * 10000 + m * 100 + d) div 10000 = y"
      by (rule int_div_pos_eq [where r = "m * 100 + d"]) (use b in auto)
    have "(y * 10000 + m * 100 + d) div 100 = y * 100 + m"
      by (rule int_div_pos_eq [where r = d]) (use b in auto)
    moreover have "(y * 100 + m) mod 100 = m" by (rule int_mod_pos_eq [where q = y]) (use b in auto)
    ultimately show "(y * 10000 + m * 100 + d) div 100 mod 100 = m" by simp
    show "(y * 10000 + m * 100 + d) mod 100 = d"
      by (rule int_mod_pos_eq [where q = "y * 100 + m"]) (use b in auto)
  qed
  show "uint (ymd y m d div 10000) = y" "uint (ymd y m d div 100 mod 100) = m" "uint (ymd y m d mod 100) = d"
    using q by (simp_all add: uint_div uint_mod u)
qed

lemma days_from_date_closed:
  assumes "valid_date y m d"
  shows "days_from_date (ymd y m d) =
    year_days (y - (if m \<le> 2 then 1 else 0)) + month_days m + d - 1 - 719468"
proof -
  define y' where "y' = y - (if m \<le> 2 then 1 else 0)"
  have m: "1 \<le> m" "m \<le> 12" using assms by (auto simp: valid_date_def)
  have era: "(if y' \<ge> 0 then y' else y' - 399) sdiv 400 = y' div 400"
    using sdiv_floor [of 400 y'] by (cases "0 \<le> y'") simp_all
  have yoe: "y' - y' div 400 * 400 = y' mod 400" by (simp add: minus_div_mult_eq_mod)
  have doy: "(153 * (m + (if m > 2 then -3 else 9)) + 2) sdiv 5 = month_days m"
    unfolding month_days_def by (rule sdiv_pos) (use m in auto)
  have "0 \<le> y' mod 400" by simp
  then have "(y' mod 400) sdiv 4 = (y' mod 400) div 4" "(y' mod 400) sdiv 100 = (y' mod 400) div 100"
    by (simp_all add: sdiv_pos del: pos_mod_sign)
  then show ?thesis
    using era_days [of y']
    unfolding days_from_date_def Let_def ymd_parts [OF assms] y'_def [symmetric] era yoe doy by linarith
qed


section \<open>The day count follows the calendar\<close>

lemma leap_count:
  fixes a a' b b' c c' y :: int
  assumes "a - a' = (if 4 dvd y then 1 else 0)" "b - b' = (if 100 dvd y then 1 else 0)"
    "c - c' = (if 400 dvd y then 1 else 0)"
  shows "365 * y + a - b + c = 365 * (y - 1) + a' - b' + c' + (if leap y then 366 else 365)"
proof -
  have "400 dvd y \<Longrightarrow> 100 dvd y" "100 dvd y \<Longrightarrow> 4 dvd y"
    using dvd_trans [of 100 400 y] dvd_trans [of 4 100 y] by simp_all
  then show ?thesis using assms unfolding leap_def
    by (cases "4 dvd y"; cases "100 dvd y"; cases "400 dvd y") simp_all
qed

lemma year_days_Suc: "year_days y = year_days (y - 1) + (if leap y then 366 else 365)"
proof -
  have step: "y div k - (y - 1) div k = (if k dvd y then 1 else 0)" if k: "0 < k" for k
  proof (cases "k dvd y")
    case True
    then have "y - 1 = k * (y div k - 1) + (k - 1)" by (simp add: algebra_simps)
    then have "(y - 1) div k = y div k - 1" by (rule int_div_pos_eq) (use k in auto)
    then show ?thesis using True by simp
  next
    case False
    then have "y mod k \<noteq> 0" by (simp add: dvd_eq_mod_eq_0)
    then have "0 < y mod k" "y mod k < k"
      using pos_mod_sign [OF k, of y] pos_mod_bound [OF k, of y] by linarith+
    then have "(y - 1) div k = y div k" by (intro int_div_pos_eq [where r = "y mod k - 1"]) simp_all
    then show ?thesis using False by simp
  qed
  show ?thesis
    using leap_count [of "y div 4" "(y - 1) div 4" y "y div 100" "(y - 1) div 100" "y div 400" "(y - 1) div 400",
        OF step step step]
    unfolding year_days_def by simp
qed

lemma month_cases:
  assumes "1 \<le> m" "m \<le> (12::int)"
  obtains "m = 1" | "m = 2" | "m = 3" | "m = 4" | "m = 5" | "m = 6" | "m = 7" | "m = 8" | "m = 9"
    | "m = 10" | "m = 11" | "m = 12"
proof -
  have "m = 1 \<or> m = 2 \<or> m = 3 \<or> m = 4 \<or> m = 5 \<or> m = 6 \<or> m = 7 \<or> m = 8 \<or> m = 9 \<or> m = 10 \<or> m = 11 \<or> m = 12"
    using assms by arith
  then show thesis using that by blast
qed

lemma days_next:
  assumes "valid_date y m d" "next_date (y, m, d) = (y', m', d')" "y' \<le> 9999"
  shows "valid_date y' m' d' \<and> days_from_date (ymd y' m' d') = days_from_date (ymd y m d) + 1"
proof -
  have m: "1 \<le> m" "m \<le> 12" using assms(1) by (auto simp: valid_date_def)
  have v: "valid_date y' m' d'"
    using assms by (auto simp: valid_date_def month_length_def split: if_splits)
  have "days_from_date (ymd y' m' d') = days_from_date (ymd y m d) + 1"
    using assms(1,2) year_days_Suc [of y] m
    unfolding days_from_date_closed [OF assms(1)] days_from_date_closed [OF v]
    by (cases rule: month_cases [OF m])
      (auto simp: valid_date_def month_length_def month_days_def split: if_splits)
  with v show ?thesis by blast
qed

lemma days_epoch: "days_from_date (ymd 1970 1 1) = 0"
  by (subst days_from_date_closed) (simp_all add: valid_date_def month_length_def year_days_def month_days_def)


section \<open>The inverse\<close>

lemma yoe_of_doe:
  assumes y: "0 \<le> yoe" "yoe < 400" and d: "0 \<le> doy" "doy \<le> 364 \<or> doy = 365 \<and> leap (yoe + 1)"
  shows "let doe = yoe * 365 + yoe div 4 - yoe div 100 + doy in
    0 \<le> doe \<and> doe < 146097 \<and> (doe - doe div 1460 + doe div 36524 - doe div 146096) div 365 = yoe"
proof -
  define c q r where "c = yoe div 100" and "q = yoe mod 100 div 4" and "r = yoe mod 100 mod 4"
  have b: "0 \<le> c" "c \<le> 3" "0 \<le> q" "q \<le> 24" "0 \<le> r" "r \<le> 3"
    using y unfolding c_def q_def r_def by auto
  have yoe: "yoe = 100 * c + 4 * q + r" "yoe div 100 = c" unfolding c_def q_def r_def by simp_all
  have yoe4: "yoe div 4 = 25 * c + q" by (rule int_div_pos_eq [where r = r]) (use yoe(1) b in auto)
  define doe where "doe = 36524 * c + (1461 * q + 365 * r + doy)"
  have doe: "yoe * 365 + yoe div 4 - yoe div 100 + doy = doe" unfolding doe_def yoe4 yoe(2) by (simp add: yoe(1))
  have full: "r = 3 \<and> (q = 24 \<longrightarrow> c = 3)" if "doy = 365"
  proof -
    have l: "leap (yoe + 1)" using d(2) that by simp
    then have "4 dvd 4 * (25 * c + q) + (r + 1)" unfolding yoe(1) leap_def by (simp add: algebra_simps)
    then have "4 dvd r + 1" by (metis dvd_add_right_iff dvd_triv_left)
    then have r: "r = 3" using b(5,6) by presburger
    have "c = 3" if "q = 24"
    proof -
      have "yoe + 1 = 100 * (c + 1)" using yoe(1) r that by simp
      then have "400 dvd 100 * (c + 1)" using l unfolding leap_def by (simp add: add.commute)
      moreover have "c = 0 \<or> c = 1 \<or> c = 2 \<or> c = 3" using b(1,2) by arith
      ultimately show ?thesis by auto
    qed
    with r show ?thesis by blast
  qed
  have top: "1461 * q + 365 * r + doy \<le> 36523 \<or> q = 24 \<and> r = 3 \<and> doy = 365 \<and> c = 3"
    using b d full by linarith
  have e: "doe div 1460 = 25 * c + q + (if 24 * c + q + 365 * r + doy < 1460 then 0 else 1)"
  proof (cases "24 * c + q + 365 * r + doy < 1460")
    case True
    have "doe div 1460 = 25 * c + q"
      by (rule int_div_pos_eq [where r = "24 * c + q + 365 * r + doy"]) (use True b d in \<open>auto simp: doe_def\<close>)
    then show ?thesis using True by simp
  next
    case False
    have "doe div 1460 = 25 * c + q + 1"
      by (rule int_div_pos_eq [where r = "24 * c + q + 365 * r + doy - 1460"]) (use False b d in \<open>auto simp: doe_def\<close>)
    then show ?thesis using False by simp
  qed
  have "doe div 36524 - doe div 146096 = c \<and> 0 \<le> doe \<and> doe < 146097"
  proof (cases "1461 * q + 365 * r + doy \<le> 36523")
    case True
    have "doe div 36524 = c"
      by (rule int_div_pos_eq [where r = "1461 * q + 365 * r + doy"]) (use True b d in \<open>auto simp: doe_def\<close>)
    moreover have "doe div 146096 = 0" using True b d by (intro div_pos_pos_trivial) (auto simp: doe_def)
    ultimately show ?thesis using True b d by (auto simp: doe_def)
  next
    case False
    then have "doe = 146096" "c = 3" using top unfolding doe_def by auto
    then show ?thesis by simp
  qed
  moreover have "(365 * yoe + (doy - (if 24 * c + q + 365 * r + doy < 1460 then 0 else 1))) div 365 = yoe"
    by (rule int_div_pos_eq [OF refl]) (use b d full in auto)
  moreover have "doe - doe div 1460 + c = 365 * yoe + (doy - (if 24 * c + q + 365 * r + doy < 1460 then 0 else 1))"
    unfolding e yoe(1) unfolding doe_def by simp
  ultimately show ?thesis unfolding Let_def doe by (metis add_diff_eq)
qed

text \<open>The month and day of a March-based day of the year.\<close>

lemma month_of_doy:
  assumes "valid_date y m d"
  shows "let doy = month_days m + d - 1; mp = (5 * doy + 2) div 153 in
    0 \<le> doy \<and> (doy \<le> 364 \<or> doy = 365 \<and> leap y \<and> m = 2) \<and> 0 \<le> mp \<and>
    mp + (if mp < 10 then 3 else -9) = m \<and> doy - (153 * mp + 2) div 5 + 1 = d"
proof -
  have m: "1 \<le> m" "m \<le> 12" using assms by (auto simp: valid_date_def)
  have mp: "(5 * (month_days m + d - 1) + 2) div 153 = m + (if m > 2 then -3 else 9)"
    by (rule int_div_pos_eq [where r = "5 * (month_days m + d - 1) + 2 - 153 * (m + (if m > 2 then -3 else 9))"];
      cases rule: month_cases [OF m]; use assms in \<open>auto simp: valid_date_def month_length_def month_days_def split: if_splits\<close>)
  show ?thesis unfolding Let_def mp
    by (cases rule: month_cases [OF m])
      (use assms in \<open>auto simp: valid_date_def month_length_def month_days_def split: if_splits\<close>)
qed

lemma date_from_days_from_date:
  assumes "valid_date y m d"
  shows "date_from_days (days_from_date (ymd y m d)) = ymd y m d"
proof -
  define y' where "y' = y - (if m \<le> 2 then 1 else 0)"
  define doy where "doy = month_days m + d - 1"
  define yoe era where "yoe = y' mod 400" and "era = y' div 400"
  define doe where "doe = yoe * 365 + yoe div 4 - yoe div 100 + doy"
  define z where "z = era * 146097 + doe"
  have z: "days_from_date (ymd y m d) + 719468 = z"
    unfolding z_def days_from_date_closed [OF assms] doe_def doy_def yoe_def era_def
    using era_days [of y'] y'_def by simp
  have doy: "0 \<le> doy" "doy \<le> 364 \<or> doy = 365 \<and> leap y \<and> m = 2" "0 \<le> (5 * doy + 2) div 153"
    "(5 * doy + 2) div 153 + (if (5 * doy + 2) div 153 < 10 then 3 else -9) = m"
    "doy - (153 * ((5 * doy + 2) div 153) + 2) div 5 + 1 = d"
    using month_of_doy [OF assms] unfolding doy_def Let_def by blast+
  have s: "0 \<le> yoe" "yoe < 400" unfolding yoe_def by simp_all
  have "doy \<le> 364 \<or> doy = 365 \<and> leap (yoe + 1)"
  proof -
    have "y' + 1 = (y' mod 400 + 1) + 400 * (y' div 400)" by simp
    moreover have "4 dvd 400 * (y' div 400)" "100 dvd 400 * (y' div 400)" "400 dvd 400 * (y' div 400)"
      by (simp_all add: dvd_mult2)
    ultimately have "leap (y' mod 400 + 1) = leap (y' + 1)"
      unfolding leap_def by (metis dvd_add_left_iff)
    then show ?thesis using doy(2) unfolding yoe_def y'_def by auto
  qed
  then have doe: "0 \<le> doe" "doe < 146097" "(doe - doe div 1460 + doe div 36524 - doe div 146096) div 365 = yoe"
    using yoe_of_doe [OF s doy(1)] unfolding doe_def Let_def by blast+
  have era: "(if z \<ge> 0 then z else z - 146096) sdiv 146097 = era"
  proof -
    have "z div 146097 = era" by (rule int_div_pos_eq [where r = doe]) (use doe in \<open>auto simp: z_def\<close>)
    then show ?thesis using sdiv_floor [of 146097 z] by (cases "0 \<le> z") simp_all
  qed
  have doe': "z - era * 146097 = doe" by (simp add: z_def)
  have "0 \<le> doe - doe div 1460 + doe div 36524 - doe div 146096"
    using doe(3) s by (metis div_neg_pos_less0 linorder_not_less zero_less_numeral)
  then have y2: "(doe - doe sdiv 1460 + doe sdiv 36524 - doe sdiv 146096) sdiv 365 = yoe"
    using doe by (simp add: sdiv_pos)
  have doy': "doe - (365 * yoe + yoe sdiv 4 - yoe sdiv 100) = doy" using s by (simp add: doe_def sdiv_pos)
  have mp: "(5 * doy + 2) sdiv 153 = (5 * doy + 2) div 153"
    "(153 * ((5 * doy + 2) div 153) + 2) sdiv 5 = (153 * ((5 * doy + 2) div 153) + 2) div 5"
    using doy(1,3) by (simp_all add: sdiv_pos)
  have yy: "yoe + era * 400 + (if m \<le> 2 then 1 else 0) = y" unfolding yoe_def era_def y'_def by simp
  show ?thesis
    unfolding date_from_days_def Let_def z era doe' y2 doy' mp doy(4,5) yy by (simp only: ymd_def)
qed


text \<open>
  C19: The packed-date arithmetic is the Gregorian calendar.  For every date of the years 0 to
  9999 the day count converts back to the date, and adding one day gives the next day of the
  calendar, through month ends, leap days and century rules; day 0 is 1 January 1970.
\<close>

theorem calendar_correct:
  assumes "valid_date y m d"
  shows "date_from_days (days_from_date (ymd y m d)) = ymd y m d \<and>
    days_from_date (ymd 1970 1 1) = 0 \<and>
    (case next_date (y, m, d) of (y', m', d') \<Rightarrow>
       y' \<le> 9999 \<longrightarrow> date_add_days (ymd y m d) 1 = ymd y' m' d' \<and>
         days_from_date (ymd y' m' d') = days_from_date (ymd y m d) + 1)"
proof -
  obtain y' m' d' where n: "next_date (y, m, d) = (y', m', d')" by (metis prod_cases3)
  show ?thesis
    using date_from_days_from_date [OF assms] days_epoch days_next [OF assms n]
      date_from_days_from_date [of y' m' d']
    by (auto simp: n date_add_days_def simp del: next_date.simps)
qed

theorem calendar_correct_witness:
  "date_add_days (ymd 2024 2 29) 1 = 20240301 \<and> date_from_days (days_from_date (ymd 2024 2 29)) = 20240229"
proof -
  have v: "valid_date 2024 2 29" by (simp add: valid_date_def month_length_def leap_def)
  show ?thesis
    using calendar_correct [OF v] by (simp add: month_length_def leap_def ymd_def)
qed

text \<open>Moving by several days composes.\<close>

lemma date_add_days_add:
  assumes "valid_date y m d" "date_add_days date a = ymd y m d" "days_from_date date + a = days_from_date (ymd y m d)"
  shows "date_add_days (date_add_days date a) b = date_add_days date (a + b)"
  using assms by (simp add: date_add_days_def add.assoc [symmetric])

end
