(* ===== verification/Energy_Ledger.thy ===== *)
theory Energy_Ledger
  imports Energy_Date
begin

text \<open>
  The daily energy ledger, \<open>main/energy_ledger.h\<close>: the class \<open>EnergyLedger\<close> with its accumulator
  and report, and the rules by which a reading's interval is booked to the day it falls in.

  Unsigned counters are words of their C width.  The \<open>int64_t\<close> sums are integers, far from their
  limits (\<open>outdoor_sum_deci_s\<close> stays between the day's extremes times the seconds booked); the sum of
  the outdoor temperatures while running is an \<open>int32_t\<close> and wraps (\<open>s32\<close>), as does the negated power
  of a cooling estimate; a conversion to \<open>int16_t\<close> is \<open>s16\<close>.  The fixed-size arrays are lists; the two
  \<open>reserved\<close> padding fields of the persisted layouts carry nothing and are left out.
\<close>

section \<open>Readings, days and totals\<close>

datatype bucket = BUCKET_HEATING | BUCKET_COOLING | BUCKET_HOT_WATER | BUCKET_STANDBY

fun bix :: "bucket \<Rightarrow> nat" where
  "bix BUCKET_HEATING = 0" | "bix BUCKET_COOLING = 1" | "bix BUCKET_HOT_WATER = 2" | "bix BUCKET_STANDBY = 3"

definition kBuckets :: nat where "kBuckets = 4"
definition kModes :: nat where "kModes = 3"

datatype source = SOURCE_UNIT | SOURCE_EXTERNAL | SOURCE_FALLBACK | SOURCE_SETTLING

fun six :: "source \<Rightarrow> nat" where
  "six SOURCE_UNIT = 0" | "six SOURCE_EXTERNAL = 1" | "six SOURCE_FALLBACK = 2" | "six SOURCE_SETTLING = 3"

definition kSources :: nat where "kSources = 4"

record input =
  connected :: bool
  power_valid :: bool
  power_w :: u32
  running :: bool
  defrost :: bool
  bucket :: bucket
  thermal_valid :: bool
  thermal_w :: int
  source :: source
  defrost_thermal_valid :: bool
  defrost_thermal_w :: int
  outdoor_valid :: bool
  outdoor_c :: int
  in_flow_lpm_x10 :: u16
  in_glycol_pct :: u8

definition input_init :: input where
  "input_init = \<lparr> connected = False, power_valid = False, power_w = 0, running = False, defrost = False,
     bucket = BUCKET_STANDBY, thermal_valid = False, thermal_w = 0, source = SOURCE_UNIT,
     defrost_thermal_valid = False, defrost_thermal_w = 0, outdoor_valid = False, outdoor_c = 0,
     in_flow_lpm_x10 = 0, in_glycol_pct = 0 \<rparr>"

record day =
  day_date :: u32
  day_start_s :: int
  day_utc_offset_min :: int
  day_end_s :: int

definition day_end :: "day \<Rightarrow> int" where
  "day_end d = (if day_end_s d \<noteq> 0 then day_end_s d else day_start_s d + 86400)"

definition DAY_MIXED_SETTINGS :: u8 where "DAY_MIXED_SETTINGS = push_bit 0 1"
definition DAY_SETTINGS_SET :: u8 where "DAY_SETTINGS_SET = push_bit 1 1"
definition DAY_OUTDOOR_SET :: u8 where "DAY_OUTDOOR_SET = push_bit 2 1"
definition DAY_RUN_OUTDOOR_SET :: u8 where "DAY_RUN_OUTDOOR_SET = push_bit 3 1"

record day_record =
  rec_date :: u32
  rec_utc_offset_min :: int
  rec_flags :: u8
  rec_glycol_pct :: u8
  rec_flow_lpm_x10 :: u16
  rec_starts :: u16
  rec_elec_wh :: "u32 list"
  rec_elec_unattributed_wh :: u32
  rec_thermal_wh :: "u32 list"
  rec_covered_elec_wh :: "u32 list"
  rec_defrost_thermal_wh :: int
  rec_defrosts :: u16
  rec_defrost_s :: u32
  rec_power_s :: u32
  rec_thermal_s :: u32
  rec_source_s :: "u32 list"
  rec_run_s :: "u32 list"
  rec_outdoor_min_deci :: int
  rec_outdoor_max_deci :: int
  rec_outdoor_avg_deci :: int
  rec_outdoor_run_avg_deci :: int

record day_accum =
  date :: u32
  utc_offset_min :: int
  flags :: u8
  glycol_pct :: u8
  flow_lpm_x10 :: u16
  starts :: u16
  defrosts :: u16
  elec_ws :: "u64 list"
  elec_unattributed_ws :: u64
  thermal_ws :: "u64 list"
  covered_elec_ws :: "u64 list"
  defrost_thermal_ws :: int
  defrost_s :: u32
  power_s :: u32
  thermal_s :: u32
  source_s :: "u32 list"
  run_s :: "u32 list"
  outdoor_min_deci :: int
  outdoor_max_deci :: int
  run_outdoor_sum_deci_s :: int
  outdoor_sum_deci_s :: int
  outdoor_s :: u32
  run_outdoor_s :: u32

definition accum_zero :: day_accum where
  "accum_zero = \<lparr> date = 0, utc_offset_min = 0, flags = 0, glycol_pct = 0, flow_lpm_x10 = 0, starts = 0,
     defrosts = 0, elec_ws = replicate kBuckets 0, elec_unattributed_ws = 0, thermal_ws = replicate kModes 0,
     covered_elec_ws = replicate kModes 0, defrost_thermal_ws = 0, defrost_s = 0, power_s = 0, thermal_s = 0,
     source_s = replicate kSources 0, run_s = replicate kModes 0, outdoor_min_deci = 0, outdoor_max_deci = 0,
     run_outdoor_sum_deci_s = 0, outdoor_sum_deci_s = 0, outdoor_s = 0, run_outdoor_s = 0 \<rparr>"

section \<open>The report\<close>

definition ws_to_wh :: "u64 \<Rightarrow> u32" where
  "ws_to_wh ws = ucast ((ws + 1800) div 3600)"

definition ws_to_wh_signed :: "int \<Rightarrow> int" where
  "ws_to_wh_signed ws = s32 (if ws \<ge> 0 then (ws + 1800) sdiv 3600 else - ((- ws + 1800) sdiv 3600))"

definition to_record :: "day_accum \<Rightarrow> day_record" where
  "to_record a =
     (let o_set = 0 < outdoor_s a; ro_set = 0 < run_outdoor_s a in
     \<lparr> rec_date = date a, rec_utc_offset_min = utc_offset_min a,
       rec_flags = (if ro_set then flags a OR DAY_RUN_OUTDOOR_SET else flags a AND NOT DAY_RUN_OUTDOOR_SET),
       rec_glycol_pct = glycol_pct a, rec_flow_lpm_x10 = flow_lpm_x10 a, rec_starts = starts a,
       rec_elec_wh = map ws_to_wh (elec_ws a), rec_elec_unattributed_wh = ws_to_wh (elec_unattributed_ws a),
       rec_thermal_wh = map ws_to_wh (thermal_ws a), rec_covered_elec_wh = map ws_to_wh (covered_elec_ws a),
       rec_defrost_thermal_wh = ws_to_wh_signed (defrost_thermal_ws a), rec_defrosts = defrosts a,
       rec_defrost_s = defrost_s a, rec_power_s = power_s a, rec_thermal_s = thermal_s a,
       rec_source_s = source_s a, rec_run_s = run_s a,
       rec_outdoor_min_deci = (if o_set then outdoor_min_deci a else 0),
       rec_outdoor_max_deci = (if o_set then outdoor_max_deci a else 0),
       rec_outdoor_avg_deci = (if o_set then s16 (outdoor_sum_deci_s a sdiv uint (outdoor_s a)) else 0),
       rec_outdoor_run_avg_deci =
         (if ro_set then s16 (run_outdoor_sum_deci_s a sdiv sint (run_outdoor_s a)) else 0) \<rparr>)"

definition total_elec_wh :: "day_record \<Rightarrow> u32" where
  "total_elec_wh r = fold (\<lambda>b t. t + rec_elec_wh r ! b) [0..<kBuckets] (rec_elec_unattributed_wh r)"

section \<open>Booking an interval\<close>

definition bump :: "'a::plus list \<Rightarrow> nat \<Rightarrow> 'a \<Rightarrow> 'a list" where
  "bump xs i v = xs[i := xs ! i + v]"

definition is_mode :: "input \<Rightarrow> bool" where "is_mode p \<longleftrightarrow> bix (bucket p) < kModes"

definition book_power :: "u32 \<Rightarrow> input \<Rightarrow> day_accum \<Rightarrow> day_accum" where
  "book_power dt p c =
     (if power_valid p then c\<lparr> elec_ws := bump (elec_ws c) (bix (bucket p)) (ucast (power_w p) * ucast dt),
        power_s := power_s c + dt \<rparr> else c)"

definition book_run :: "u32 \<Rightarrow> input \<Rightarrow> day_accum \<Rightarrow> day_accum" where
  "book_run dt p c =
     (let c = (if running p \<and> is_mode p then c\<lparr> run_s := bump (run_s c) (bix (bucket p)) dt \<rparr> else c)
      in if running p \<and> \<not> defrost p then c\<lparr> source_s := bump (source_s c) (six (source p)) dt \<rparr> else c)"

definition book_defrost :: "u32 \<Rightarrow> input \<Rightarrow> day_accum \<Rightarrow> day_accum" where
  "book_defrost dt p c =
     (if defrost p then
        let c = c\<lparr> defrost_s := defrost_s c + dt \<rparr>
        in if defrost_thermal_valid p
           then c\<lparr> defrost_thermal_ws := defrost_thermal_ws c + defrost_thermal_w p * uint dt \<rparr> else c
      else c)"

definition note_settings :: "input \<Rightarrow> day_accum \<Rightarrow> day_accum" where
  "note_settings p c =
     (if flags c AND DAY_SETTINGS_SET = 0
      then c\<lparr> flow_lpm_x10 := in_flow_lpm_x10 p, glycol_pct := in_glycol_pct p,
              flags := flags c OR DAY_SETTINGS_SET \<rparr>
      else if flow_lpm_x10 c \<noteq> in_flow_lpm_x10 p \<or> glycol_pct c \<noteq> in_glycol_pct p
      then c\<lparr> flags := flags c OR DAY_MIXED_SETTINGS \<rparr> else c)"

definition heat_w :: "input \<Rightarrow> int" where
  "heat_w p = (if bucket p = BUCKET_COOLING then s32 (- thermal_w p) else thermal_w p)"

definition book_thermal :: "u32 \<Rightarrow> input \<Rightarrow> day_accum \<Rightarrow> day_accum" where
  "book_thermal dt p c =
     (if thermal_valid p \<and> power_valid p \<and> is_mode p then
        let c = (if heat_w p > 0
                 then c\<lparr> thermal_ws := bump (thermal_ws c) (bix (bucket p)) (of_int (heat_w p) * ucast dt) \<rparr> else c);
            c = c\<lparr> covered_elec_ws := bump (covered_elec_ws c) (bix (bucket p)) (ucast (power_w p) * ucast dt),
                   thermal_s := thermal_s c + dt \<rparr>
        in note_settings p c
      else c)"

definition kMaxStepSeconds :: int where "kMaxStepSeconds = 120"
definition kSaveIntervalSeconds :: int where "kSaveIntervalSeconds = 600"
definition kPostDefrostSeconds :: int where "kPostDefrostSeconds = 120"

definition out_from :: "int \<Rightarrow> int \<Rightarrow> int" where
  "out_from defrost_end a =
     (if a > defrost_end + kPostDefrostSeconds then a else defrost_end + kPostDefrostSeconds)"

definition book_outdoor :: "int \<Rightarrow> int \<Rightarrow> int \<Rightarrow> input \<Rightarrow> day_accum \<Rightarrow> day_accum" where
  "book_outdoor defrost_end a b p c =
     (let from = out_from defrost_end a in
      if outdoor_valid p \<and> \<not> defrost p \<and> b > from then
        let deci = s16 (outdoor_c p * 10);
            out_dt = (of_int (b - from) :: u32);
            c = (if flags c AND DAY_OUTDOOR_SET = 0
                 then c\<lparr> outdoor_min_deci := deci, outdoor_max_deci := deci, flags := flags c OR DAY_OUTDOOR_SET \<rparr> else c);
            c = (if deci < outdoor_min_deci c then c\<lparr> outdoor_min_deci := deci \<rparr> else c);
            c = (if deci > outdoor_max_deci c then c\<lparr> outdoor_max_deci := deci \<rparr> else c);
            c = c\<lparr> outdoor_sum_deci_s := outdoor_sum_deci_s c + deci * uint out_dt,
                   outdoor_s := outdoor_s c + out_dt \<rparr>
        in if running p \<and> is_mode p
           then c\<lparr> run_outdoor_sum_deci_s := s32 (run_outdoor_sum_deci_s c + s32 (deci * sint out_dt)),
                  run_outdoor_s := run_outdoor_s c + out_dt \<rparr> else c
      else c)"

definition book_accum :: "int \<Rightarrow> int \<Rightarrow> int \<Rightarrow> input \<Rightarrow> day_accum \<Rightarrow> day_accum" where
  "book_accum defrost_end a b p c =
     (if b \<le> a \<or> \<not> connected p then c
      else
        let dt = of_int (b - a)
        in book_outdoor defrost_end a b p (book_thermal dt p (book_defrost dt p (book_run dt p (book_power dt p c)))))"

section \<open>The ledger\<close>

record ledger =
  cur :: day_accum
  is_open :: bool
  start_s :: int
  end_s :: int
  span_exact :: bool
  prev :: input
  prev_s :: int
  has_prev :: bool
  defrost_end_s :: int
  finished :: day_record
  has_finished :: bool
  saved :: day_accum
  has_saved :: bool
  last_save_s :: int

definition ledger_init :: ledger where
  "ledger_init = \<lparr> cur = accum_zero, is_open = False, start_s = 0, end_s = 0, span_exact = False,
     prev = input_init, prev_s = 0, has_prev = False, defrost_end_s = - (2 ^ 63) sdiv 2,
     finished = to_record accum_zero, has_finished = False, saved = accum_zero, has_saved = False, last_save_s = 0 \<rparr>"

definition set_span :: "day \<Rightarrow> ledger \<Rightarrow> ledger" where
  "set_span d l = l\<lparr> start_s := day_start_s d, end_s := day_end d, span_exact := True \<rparr>"

definition open_day :: "day \<Rightarrow> ledger \<Rightarrow> ledger" where
  "open_day d l = set_span d
     (l\<lparr> cur := accum_zero\<lparr> date := day_date d, utc_offset_min := day_utc_offset_min d \<rparr>, is_open := True \<rparr>)"

definition close_and_open :: "day \<Rightarrow> ledger \<Rightarrow> ledger" where
  "close_and_open d l = open_day d (l\<lparr> finished := to_record (cur l), has_finished := True \<rparr>)"

definition set_reference :: "int \<Rightarrow> input \<Rightarrow> ledger \<Rightarrow> ledger" where
  "set_reference now inp l = l\<lparr> prev := inp, prev_s := now, has_prev := True \<rparr>"

definition ledger_book :: "int \<Rightarrow> int \<Rightarrow> input \<Rightarrow> ledger \<Rightarrow> ledger" where
  "ledger_book a b p l = l\<lparr> cur := book_accum (defrost_end_s l) a b p (cur l) \<rparr>"

definition count_edges :: "input \<Rightarrow> input \<Rightarrow> day_accum \<Rightarrow> day_accum" where
  "count_edges before inp c =
     (let c = (if running inp \<and> \<not> running before \<and> starts c < 65535 then c\<lparr> starts := starts c + 1 \<rparr> else c)
      in if defrost inp \<and> \<not> defrost before \<and> defrosts c < 65535 then c\<lparr> defrosts := defrosts c + 1 \<rparr> else c)"

text \<open>The last part of \<open>add\<close>: a reading that follows a reference point, first its booking.\<close>

definition book_step :: "int \<Rightarrow> day \<Rightarrow> ledger \<Rightarrow> ledger" where
  "book_step now d l =
     (let in_step = now - prev_s l \<le> kMaxStepSeconds in
      if now \<ge> end_s l then
        let boundary = end_s l;
            l = (if in_step \<and> prev_s l < boundary then ledger_book (prev_s l) boundary (prev l) l else l);
            l = close_and_open d l
        in (if in_step
            then ledger_book (if prev_s l > boundary then prev_s l else boundary) now (prev l) l else l)
      else if in_step then ledger_book (prev_s l) now (prev l) l else l)"

definition ledger_step :: "int \<Rightarrow> day \<Rightarrow> input \<Rightarrow> ledger \<Rightarrow> ledger" where
  "ledger_step now d inp l =
     (let in_step = now - prev_s l \<le> kMaxStepSeconds;
          l = book_step now d l;
          l = (if in_step \<and> connected inp \<and> connected (prev l)
               then l\<lparr> cur := count_edges (prev l) inp (cur l) \<rparr> else l);
          l = (if defrost (prev l) \<and> \<not> defrost inp then l\<lparr> defrost_end_s := now \<rparr> else l)
      in set_reference now inp l)"

text \<open>Before that, \<open>add\<close> settles the span of the open day.\<close>

definition fix_span :: "day \<Rightarrow> ledger \<Rightarrow> ledger" where
  "fix_span d l = (if \<not> span_exact l \<and> day_date d = date (cur l) then set_span d l else l)"

definition extend_end :: "int \<Rightarrow> day \<Rightarrow> ledger \<Rightarrow> ledger" where
  "extend_end now d l = (if now \<ge> end_s l \<and> day_date d \<le> date (cur l) then l\<lparr> end_s := day_end d \<rparr> else l)"

definition ledger_add :: "int \<Rightarrow> day \<Rightarrow> input \<Rightarrow> ledger \<Rightarrow> bool \<times> ledger" where
  "ledger_add now d inp l =
     (let l = l\<lparr> has_finished := False \<rparr> in
      if \<not> is_open l then (False, set_reference now inp (open_day d l))
      else
        let l = fix_span d l in
        if now < start_s l then (False, l\<lparr> has_prev := False \<rparr>)
        else
          let l = extend_end now d l;
              day_over = now \<ge> end_s l;
              l = (if \<not> has_prev l \<or> now < prev_s l
                   then let l = set_reference now inp l in (if day_over then close_and_open d l else l)
                   else ledger_step now d inp l)
          in (has_finished l, l))"

definition ledger_pause :: "ledger \<Rightarrow> ledger" where "ledger_pause l = l\<lparr> has_prev := False \<rparr>"

definition ledger_restore :: "day_accum \<Rightarrow> ledger \<Rightarrow> ledger" where
  "ledger_restore a l =
     (if is_open l then l
      else
        let st = days_from_date (date a) * 86400 - utc_offset_min a * 60
        in l\<lparr> cur := a, is_open := True, has_prev := False, saved := a, has_saved := True,
             start_s := st, end_s := st + 86400, span_exact := False \<rparr>)"

definition add_unattributed :: "u64 \<Rightarrow> ledger \<Rightarrow> ledger" where
  "add_unattributed ws l = l\<lparr> cur := (cur l)\<lparr> elec_unattributed_ws := elec_unattributed_ws (cur l) + ws \<rparr> \<rparr>"

definition take_finished :: "ledger \<Rightarrow> day_record option" where
  "take_finished l = (if has_finished l then Some (finished l) else None)"

definition save_due :: "int \<Rightarrow> bool \<Rightarrow> ledger \<Rightarrow> bool" where
  "save_due now force l =
     (if \<not> is_open l \<or> (has_saved l \<and> saved l = cur l) then False
      else force \<or> \<not> has_saved l \<or> date (saved l) \<noteq> date (cur l) \<or> now - last_save_s l \<ge> kSaveIntervalSeconds)"

definition mark_saved :: "int \<Rightarrow> day_accum \<Rightarrow> ledger \<Rightarrow> ledger" where
  "mark_saved now what l = l\<lparr> saved := what, has_saved := True, last_save_s := now \<rparr>"

definition replace_totals :: "day_accum \<Rightarrow> ledger \<Rightarrow> bool \<times> ledger" where
  "replace_totals a l =
     (if \<not> is_open l then (False, l)
      else (True, l\<lparr> cur := a\<lparr> date := date (cur l), utc_offset_min := utc_offset_min (cur l) \<rparr> \<rparr>))"

definition today :: "ledger \<Rightarrow> day_record" where "today l = to_record (cur l)"

definition today_elec_wh :: "ledger \<Rightarrow> u32" where
  "today_elec_wh l = fold (\<lambda>b t. t + ws_to_wh (elec_ws (cur l) ! b)) [0..<kBuckets] (ws_to_wh (elec_unattributed_ws (cur l)))"


section \<open>Booked energy is conserved\<close>

text \<open>
  The three energies the ledger keeps per bucket, read from the totals, and the rate in watts at
  which a reading books them.
\<close>

datatype quantity = Elec bucket | Heat bucket | Covered bucket

fun amount :: "quantity \<Rightarrow> day_accum \<Rightarrow> u64" where
  "amount (Elec b) c = elec_ws c ! bix b"
| "amount (Heat b) c = (if bix b < kModes then thermal_ws c ! bix b else 0)"
| "amount (Covered b) c = (if bix b < kModes then covered_elec_ws c ! bix b else 0)"

fun rate :: "quantity \<Rightarrow> input \<Rightarrow> u64" where
  "rate (Elec b) p = (if connected p \<and> power_valid p \<and> bucket p = b then ucast (power_w p) else 0)"
| "rate (Heat b) p = (if connected p \<and> thermal_valid p \<and> power_valid p \<and> is_mode p \<and> bucket p = b \<and> heat_w p > 0
     then of_int (heat_w p) else 0)"
| "rate (Covered b) p = (if connected p \<and> thermal_valid p \<and> power_valid p \<and> is_mode p \<and> bucket p = b
     then ucast (power_w p) else 0)"

definition shape :: "day_accum \<Rightarrow> bool" where
  "shape c \<longleftrightarrow> length (elec_ws c) = kBuckets \<and> length (thermal_ws c) = kModes \<and>
     length (covered_elec_ws c) = kModes \<and> length (source_s c) = kSources \<and> length (run_s c) = kModes"

lemma length_bump [simp]: "length (bump xs i v) = length xs"
  by (simp add: bump_def)

lemma bump_nth: "k < length xs \<Longrightarrow> bump xs i v ! k = (if k = i then xs ! k + v else xs ! k)"
  by (simp add: bump_def)

lemma bix_less [simp]: "bix b < 4" by (cases b) simp_all

lemma bix_eq [simp]: "bix a = bix b \<longleftrightarrow> a = b" by (cases a; cases b) simp_all

lemma note_settings_keeps [simp]:
  "elec_ws (note_settings p c) = elec_ws c" "thermal_ws (note_settings p c) = thermal_ws c"
  "covered_elec_ws (note_settings p c) = covered_elec_ws c" "source_s (note_settings p c) = source_s c"
  "run_s (note_settings p c) = run_s c" "power_s (note_settings p c) = power_s c"
  "thermal_s (note_settings p c) = thermal_s c" "outdoor_s (note_settings p c) = outdoor_s c"
  "run_outdoor_s (note_settings p c) = run_outdoor_s c" "outdoor_sum_deci_s (note_settings p c) = outdoor_sum_deci_s c"
  "outdoor_min_deci (note_settings p c) = outdoor_min_deci c" "outdoor_max_deci (note_settings p c) = outdoor_max_deci c"
  "date (note_settings p c) = date c" "run_outdoor_sum_deci_s (note_settings p c) = run_outdoor_sum_deci_s c"
  by (simp_all add: note_settings_def)

lemma book_outdoor_keeps [simp]:
  "elec_ws (book_outdoor de a b p c) = elec_ws c" "thermal_ws (book_outdoor de a b p c) = thermal_ws c"
  "covered_elec_ws (book_outdoor de a b p c) = covered_elec_ws c" "source_s (book_outdoor de a b p c) = source_s c"
  "run_s (book_outdoor de a b p c) = run_s c" "power_s (book_outdoor de a b p c) = power_s c"
  "thermal_s (book_outdoor de a b p c) = thermal_s c" "date (book_outdoor de a b p c) = date c"
  by (simp_all add: book_outdoor_def Let_def)

lemmas book_stage_defs = book_power_def book_run_def book_defrost_def book_thermal_def Let_def

lemma shape_book: "shape c \<Longrightarrow> shape (book_accum de a b p c)"
  by (simp add: shape_def book_accum_def book_stage_defs)

lemma elec_book: "elec_ws (book_accum de a b p c) =
    (if a < b \<and> connected p \<and> power_valid p
     then bump (elec_ws c) (bix (bucket p)) (ucast (power_w p) * ucast (of_int (b - a) :: u32)) else elec_ws c)"
  by (auto simp: book_accum_def book_stage_defs)

lemma heat_book: "thermal_ws (book_accum de a b p c) =
    (if a < b \<and> connected p \<and> thermal_valid p \<and> power_valid p \<and> is_mode p \<and> heat_w p > 0
     then bump (thermal_ws c) (bix (bucket p)) (of_int (heat_w p) * ucast (of_int (b - a) :: u32)) else thermal_ws c)"
  by (auto simp: book_accum_def book_stage_defs)

lemma covered_book: "covered_elec_ws (book_accum de a b p c) =
    (if a < b \<and> connected p \<and> thermal_valid p \<and> power_valid p \<and> is_mode p
     then bump (covered_elec_ws c) (bix (bucket p)) (ucast (power_w p) * ucast (of_int (b - a) :: u32))
     else covered_elec_ws c)"
  by (auto simp: book_accum_def book_stage_defs)

lemma ucast_dt: "0 \<le> n \<Longrightarrow> n < 2 ^ 32 \<Longrightarrow> ucast (of_int n :: u32) = (of_int n :: u64)"
  by (simp add: word_uint_eq_iff unsigned_ucast_eq uint_word_of_int_eq take_bit_int_eq_self)

lemma amount_book:
  assumes "shape c" "a \<le> b" "b - a < 2 ^ 32"
  shows "amount q (book_accum de a b p c) = amount q c + rate q p * of_int (b - a)"
proof (cases "a < b")
  case True
  have dt: "ucast (of_int (b - a) :: u32) = (of_int (b - a) :: u64)"
    using assms by (intro ucast_dt) auto
  have len: "bix x < length (elec_ws c)" "bix x < kModes \<Longrightarrow> bix x < length (thermal_ws c)"
    "bix x < kModes \<Longrightarrow> bix x < length (covered_elec_ws c)" for x
    using assms(1) by (simp_all add: shape_def kBuckets_def)
  show ?thesis using True
    by (cases q) (auto simp add: elec_book heat_book covered_book dt bump_nth len is_mode_def simp del: of_int_diff)
next
  case False
  then show ?thesis using assms by (simp add: book_accum_def)
qed


text \<open>Opening, closing and counting leave the energies of a day alone.\<close>

lemma shape_zero [simp]: "shape (accum_zero\<lparr> date := x, utc_offset_min := y \<rparr>)"
  by (simp add: shape_def accum_zero_def)

lemma amount_zero [simp]: "amount q (accum_zero\<lparr> date := x, utc_offset_min := y \<rparr>) = 0"
  by (cases q) (simp_all add: accum_zero_def kBuckets_def)

lemma count_edges_keeps [simp]:
  "amount q (count_edges p i c) = amount q c" "shape (count_edges p i c) = shape c"
  by (cases q) (simp_all add: count_edges_def shape_def Let_def)

text \<open>The totals at the moment a reading closes the open day.\<close>

definition closed_accum :: "int \<Rightarrow> ledger \<Rightarrow> day_accum" where
  "closed_accum now l =
     (if has_prev l \<and> prev_s l \<le> now \<and> now - prev_s l \<le> kMaxStepSeconds \<and> prev_s l < end_s l
      then book_accum (defrost_end_s l) (prev_s l) (end_s l) (prev l) (cur l) else cur l)"

definition step_energy :: "quantity \<Rightarrow> int \<Rightarrow> input \<Rightarrow> int \<Rightarrow> u64" where
  "step_energy q t p now = (if now - t \<le> kMaxStepSeconds then rate q p * of_int (now - t) else 0)"

lemma of_int_split: "(x :: u64) * of_int (b - a) + x * of_int (c - b) = x * of_int (c - a)"
  by (simp add: algebra_simps)

lemma amount_book_step:
  assumes "shape c" "a \<le> b" "b - a \<le> kMaxStepSeconds"
  shows "amount q (book_accum de a b p c) = amount q c + rate q p * of_int (b - a)"
  using assms by (intro amount_book) (auto simp: kMaxStepSeconds_def)

text \<open>\<open>ledger_step\<close>, field by field.\<close>

definition booked_cur :: "int \<Rightarrow> day \<Rightarrow> ledger \<Rightarrow> day_accum" where
  "booked_cur now d l =
     (if now - prev_s l \<le> kMaxStepSeconds
      then if end_s l \<le> now
           then book_accum (defrost_end_s l) (max (prev_s l) (end_s l)) now (prev l)
             (accum_zero\<lparr> date := day_date d, utc_offset_min := day_utc_offset_min d \<rparr>)
           else book_accum (defrost_end_s l) (prev_s l) now (prev l) (cur l)
      else if end_s l \<le> now then accum_zero\<lparr> date := day_date d, utc_offset_min := day_utc_offset_min d \<rparr>
      else cur l)"

lemmas ledger_defs = close_and_open_def open_day_def set_span_def set_reference_def ledger_book_def Let_def

lemma book_step_fields [simp]:
  "cur (book_step now d l) = booked_cur now d l"
  "is_open l \<Longrightarrow> is_open (book_step now d l)"
  "prev (book_step now d l) = prev l" "prev_s (book_step now d l) = prev_s l"
  "has_prev (book_step now d l) = has_prev l" "defrost_end_s (book_step now d l) = defrost_end_s l"
  "start_s (book_step now d l) = (if end_s l \<le> now then day_start_s d else start_s l)"
  "has_finished (book_step now d l) \<longleftrightarrow> end_s l \<le> now \<or> has_finished l"
  "has_prev l \<Longrightarrow> prev_s l \<le> now \<Longrightarrow> end_s l \<le> now \<Longrightarrow>
     finished (book_step now d l) = to_record (closed_accum now l)"
  by (simp_all add: book_step_def booked_cur_def closed_accum_def max_def ledger_defs)

lemma ledger_step_fields:
  "cur (ledger_step now d inp l) =
     (if now - prev_s l \<le> kMaxStepSeconds \<and> connected inp \<and> connected (prev l)
      then count_edges (prev l) inp (booked_cur now d l) else booked_cur now d l)"
  "is_open l \<Longrightarrow> is_open (ledger_step now d inp l)"
  "prev (ledger_step now d inp l) = inp" "prev_s (ledger_step now d inp l) = now" "has_prev (ledger_step now d inp l)"
  "start_s (ledger_step now d inp l) = (if end_s l \<le> now then day_start_s d else start_s l)"
  "has_finished (ledger_step now d inp l) \<longleftrightarrow> end_s l \<le> now \<or> has_finished l"
  "has_prev l \<Longrightarrow> prev_s l \<le> now \<Longrightarrow> end_s l \<le> now \<Longrightarrow>
     finished (ledger_step now d inp l) = to_record (closed_accum now l)"
  by (simp_all add: ledger_step_def set_reference_def Let_def)

lemma shape_booked_cur: "shape (cur l) \<Longrightarrow> shape (booked_cur now d l)"
  by (simp add: booked_cur_def shape_book)

lemma amount_booked_cur:
  assumes l: "shape (cur l)" "has_prev l" "prev_s l \<le> now"
  shows "amount q (booked_cur now d l) + (if end_s l \<le> now then amount q (closed_accum now l) else 0)
      = amount q (cur l) + step_energy q (prev_s l) (prev l) now"
proof (cases "now - prev_s l \<le> kMaxStepSeconds")
  case False
  then show ?thesis using l by (simp add: booked_cur_def step_energy_def closed_accum_def)
next
  case step: True
  show ?thesis
  proof (cases "end_s l \<le> now")
    case over: True
    let ?z = "accum_zero\<lparr> date := day_date d, utc_offset_min := day_utc_offset_min d \<rparr>"
    let ?m = "max (prev_s l) (end_s l)"
    have m: "?m \<le> now" "now - ?m \<le> kMaxStepSeconds" using over l(3) step by auto
    have new: "amount q (booked_cur now d l) = rate q (prev l) * of_int (now - ?m)"
      using amount_book_step [OF _ m, of ?z q] step over by (simp add: booked_cur_def)
    have old: "amount q (closed_accum now l) = amount q (cur l) + rate q (prev l) * of_int (?m - prev_s l)"
      using l step over unfolding closed_accum_def by (auto simp: amount_book_step not_less max_def)
    show ?thesis
      using of_int_split [of "rate q (prev l)" ?m "prev_s l" now] step over
      unfolding new old step_energy_def by (simp add: add.commute add.left_commute)
  next
    case False
    then show ?thesis
      using step amount_book_step [OF l(1,3) step, of q "defrost_end_s l" "prev l"]
      by (simp add: booked_cur_def step_energy_def)
  qed
qed

lemma ledger_step_conserves:
  assumes l: "shape (cur l)" "has_prev l" "prev_s l \<le> now"
  shows "amount q (cur (ledger_step now d inp l)) + (if end_s l \<le> now then amount q (closed_accum now l) else 0)
      = amount q (cur l) + step_energy q (prev_s l) (prev l) now"
    and "shape (cur (ledger_step now d inp l))"
  using amount_booked_cur [OF l, of q d] shape_booked_cur [OF l(1)] 
  by (cases "end_s l \<le> now"; simp add: ledger_step_fields(1))+

text \<open>A history of readings, each with the local day it falls in, and the days it closes.\<close>

type_synonym reading = "int \<times> day \<times> input"

fun ledger_run :: "ledger \<Rightarrow> reading list \<Rightarrow> ledger" where
  "ledger_run l [] = l"
| "ledger_run l ((now, d, inp) # rs) = ledger_run (snd (ledger_add now d inp l)) rs"

text \<open>The adjustments \<open>add\<close> makes to the span of the open day before it books.\<close>

definition ledger_ready :: "int \<Rightarrow> day \<Rightarrow> ledger \<Rightarrow> ledger" where
  "ledger_ready now d l = extend_end now d (fix_span d (l\<lparr> has_finished := False \<rparr>))"

fun closed_days :: "ledger \<Rightarrow> reading list \<Rightarrow> day_accum list" where
  "closed_days l [] = []"
| "closed_days l ((now, d, inp) # rs) =
     (let (fin, l') = ledger_add now d inp l
      in (if fin then [closed_accum now (ledger_ready now d l)] else []) @ closed_days l' rs)"

fun published_days :: "ledger \<Rightarrow> reading list \<Rightarrow> day_record list" where
  "published_days l [] = []"
| "published_days l ((now, d, inp) # rs) =
     (let l' = snd (ledger_add now d inp l)
      in (case take_finished l' of Some r \<Rightarrow> [r] | None \<Rightarrow> []) @ published_days l' rs)"

fun energy_of :: "quantity \<Rightarrow> int \<Rightarrow> input \<Rightarrow> reading list \<Rightarrow> u64" where
  "energy_of q t p [] = 0"
| "energy_of q t p ((now, d, inp) # rs) = step_energy q t p now + energy_of q now inp rs"

text \<open>Readings move forward in time and lie in their days.\<close>

fun readings_ok :: "int \<Rightarrow> reading list \<Rightarrow> bool" where
  "readings_ok t [] \<longleftrightarrow> True"
| "readings_ok t ((now, d, inp) # rs) \<longleftrightarrow> t \<le> now \<and> day_start_s d \<le> now \<and> readings_ok now rs"

definition tracking :: "int \<Rightarrow> input \<Rightarrow> ledger \<Rightarrow> bool" where
  "tracking t p l \<longleftrightarrow> is_open l \<and> has_prev l \<and> prev_s l = t \<and> prev l = p \<and> start_s l \<le> t \<and> shape (cur l)"

lemma span_keeps [simp]:
  "cur (fix_span d l) = cur l" "prev (fix_span d l) = prev l" "prev_s (fix_span d l) = prev_s l"
  "has_prev (fix_span d l) = has_prev l" "is_open (fix_span d l) = is_open l"
  "has_finished (fix_span d l) = has_finished l"
  "cur (extend_end now d l) = cur l" "prev (extend_end now d l) = prev l" "prev_s (extend_end now d l) = prev_s l"
  "has_prev (extend_end now d l) = has_prev l" "is_open (extend_end now d l) = is_open l"
  "has_finished (extend_end now d l) = has_finished l" "start_s (extend_end now d l) = start_s l"
  by (simp_all add: fix_span_def extend_end_def set_span_def)

lemma ledger_ready_keeps [simp]:
  "cur (ledger_ready now d l) = cur l" "prev (ledger_ready now d l) = prev l"
  "prev_s (ledger_ready now d l) = prev_s l" "has_prev (ledger_ready now d l) = has_prev l"
  "is_open (ledger_ready now d l) = is_open l" "\<not> has_finished (ledger_ready now d l)"
  by (simp_all add: ledger_ready_def)

lemma ledger_add_open:
  assumes "is_open l"
  shows "ledger_add now d inp l =
    (let r = ledger_ready now d l in
     if now < start_s r then (False, (fix_span d (l\<lparr> has_finished := False \<rparr>))\<lparr> has_prev := False \<rparr>)
     else
       let l' = (if \<not> has_prev l \<or> now < prev_s l
                 then if now \<ge> end_s r then close_and_open d (set_reference now inp r) else set_reference now inp r
                 else ledger_step now d inp r)
       in (has_finished l', l'))"
  using assms by (simp add: ledger_add_def ledger_ready_def Let_def)

lemma ledger_ready_start: "start_s (ledger_ready now d l) \<in> {start_s l, day_start_s d}"
  by (simp add: ledger_ready_def fix_span_def set_span_def)

lemma ledger_add_tracking:
  assumes "tracking t p l" "t \<le> now" "day_start_s d \<le> now"
  shows "ledger_add now d inp l =
    (let l' = ledger_step now d inp (ledger_ready now d l) in (has_finished l', l'))"
proof -
  have "is_open l" "has_prev l" "prev_s l \<le> now" "start_s l \<le> now" using assms by (auto simp: tracking_def)
  moreover have "\<not> now < start_s (ledger_ready now d l)"
    using ledger_ready_start [of now d l] calculation assms(3) by auto
  ultimately show ?thesis by (simp add: ledger_add_open Let_def)
qed

lemma ledger_add_conserves:
  assumes "tracking t p l" "t \<le> now" "day_start_s d \<le> now" "ledger_add now d inp l = (fin, l')"
  defines "closed \<equiv> closed_accum now (ledger_ready now d l)"
  shows "tracking now inp l'"
    and "amount q (cur l') + (if fin then amount q closed else 0) = amount q (cur l) + step_energy q t p now"
    and "take_finished l' = (if fin then Some (to_record closed) else None)"
proof -
  let ?r = "ledger_ready now d l"
  have r: "shape (cur ?r)" "has_prev ?r" "prev_s ?r \<le> now" "\<not> has_finished ?r" "is_open ?r" "start_s ?r \<le> now"
    using assms(1-3) ledger_ready_start [of now d l] by (auto simp: tracking_def)
  have l': "l' = ledger_step now d inp ?r" "fin \<longleftrightarrow> end_s ?r \<le> now"
    using assms(4) r(4) unfolding ledger_add_tracking [OF assms(1-3)] Let_def by (auto simp: ledger_step_fields)
  show "tracking now inp l'"
    using r ledger_step_conserves(2) [OF r(1-3), of d inp] assms(3)
    unfolding tracking_def l' by (simp add: ledger_step_fields(2-6))
  have "prev_s ?r = t" "prev ?r = p" using assms(1) by (simp_all add: tracking_def)
  then show "amount q (cur l') + (if fin then amount q closed else 0) = amount q (cur l) + step_energy q t p now"
    using ledger_step_conserves(1) [OF r(1-3), of q d inp] unfolding l' closed_def by simp
  show "take_finished l' = (if fin then Some (to_record closed) else None)"
    using r unfolding l' closed_def take_finished_def by (simp add: ledger_step_fields)
qed

lemma add_chain:
  fixes k :: u64
  assumes "a' + k = a + s" "c + r = a' + e"
  shows "k + (c + r) = a + (s + e)"
proof -
  have "k + (c + r) = (a' + k) + e" unfolding assms(2) by simp
  then show ?thesis unfolding assms(1) by simp
qed

lemma ledger_run_conserves:
  assumes "tracking t p l" "readings_ok t rs"
  shows "sum_list (map (amount q) (closed_days l rs)) + amount q (cur (ledger_run l rs)) =
      amount q (cur l) + energy_of q t p rs \<and>
    published_days l rs = map to_record (closed_days l rs)"
  using assms
proof (induction rs arbitrary: t p l)
  case (Cons r rs)
  obtain now d inp where r: "r = (now, d, inp)" by (metis prod_cases3)
  obtain fin l' where a: "ledger_add now d inp l = (fin, l')" by fastforce
  have c: "tracking now inp l'"
    "amount q (cur l') + (if fin then amount q (closed_accum now (ledger_ready now d l)) else 0) =
       amount q (cur l) + step_energy q t p now"
    "take_finished l' = (if fin then Some (to_record (closed_accum now (ledger_ready now d l))) else None)"
    using ledger_add_conserves [OF Cons.prems(1) _ _ a] Cons.prems(2) by (simp_all add: r)
  have IH: "sum_list (map (amount q) (closed_days l' rs)) + amount q (cur (ledger_run l' rs)) =
      amount q (cur l') + energy_of q now inp rs" "published_days l' rs = map to_record (closed_days l' rs)"
    using Cons.IH [OF c(1)] Cons.prems by (auto simp: r)
  show ?case
  proof (cases fin)
    case True
    then show ?thesis using c(2,3) IH(2) add_chain [OF _ IH(1)] by (simp add: r a add.assoc)
  next
    case False
    then show ?thesis using c(2,3) IH by (simp add: r a add.assoc)
  qed
qed simp


text \<open>
  C11: The ledger neither loses nor invents energy.  For every history of readings that moves
  forward in time, and for each of electricity, estimated heat and covered electricity in each
  bucket, the totals of the days closed on the way plus the open day's total are exactly the sum,
  over all steps of at most 120 s between consecutive readings, of the earlier reading's watts
  times the seconds to the next: a step across midnight is split between the two days, a longer
  gap books nothing.  The records handed out are the reports of exactly those closed days.
\<close>

theorem ledger_conserves:
  assumes "day_start_s d \<le> t" "readings_ok t rs"
  shows "let l = snd (ledger_add t d p ledger_init) in
    sum_list (map (amount q) (closed_days l rs)) + amount q (cur (ledger_run l rs)) = energy_of q t p rs \<and>
    published_days l rs = map to_record (closed_days l rs)"
proof -
  let ?l = "snd (ledger_add t d p ledger_init)"
  have l: "?l = set_reference t p (open_day d (ledger_init\<lparr> has_finished := False \<rparr>))"
    by (simp add: ledger_add_def ledger_init_def)
  have "tracking t p ?l" "amount q (cur ?l) = 0"
    using assms(1) unfolding l by (simp_all add: tracking_def ledger_defs)
  then show ?thesis using ledger_run_conserves [OF _ assms(2), of p ?l q] by (simp add: Let_def)
qed

definition heating_at :: "u32 \<Rightarrow> input" where
  "heating_at w = input_init\<lparr> connected := True, power_valid := True, power_w := w, running := True,
     bucket := BUCKET_HEATING, thermal_valid := True, thermal_w := 3 * uint w \<rparr>"

definition day_n :: "int \<Rightarrow> day" where
  "day_n n = \<lparr> day_date = 20240101 + of_int n, day_start_s = 86400 * n, day_utc_offset_min = 0, day_end_s = 0 \<rparr>"

theorem ledger_conserves_witness:
  "readings_ok 86340 [(86430, day_n 1, heating_at 2000), (86500, day_n 1, heating_at 1000)] \<and>
   (let l = snd (ledger_add 86340 (day_n 0) (heating_at 1000) ledger_init);
        rs = [(86430, day_n 1, heating_at 2000), (86500, day_n 1, heating_at 1000)] in
    map (amount (Elec BUCKET_HEATING)) (closed_days l rs) = [60000] \<and>
    amount (Elec BUCKET_HEATING) (cur (ledger_run l rs)) = 170000 \<and>
    energy_of (Elec BUCKET_HEATING) 86340 (heating_at 1000) rs = 230000)"
proof -
  let ?l = "snd (ledger_add 86340 (day_n 0) (heating_at 1000) ledger_init)"
  let ?rs = "[(86430, day_n 1, heating_at 2000), (86500, day_n 1, heating_at 1000)]"
  have ok: "readings_ok 86340 ?rs" "day_start_s (day_n 0) \<le> 86340" by (simp_all add: day_n_def)
  have e: "energy_of (Elec BUCKET_HEATING) 86340 (heating_at 1000) ?rs = 230000" by code_simp
  have c: "map (amount (Elec BUCKET_HEATING)) (closed_days ?l ?rs) = [60000]" by code_simp
  then have "amount (Elec BUCKET_HEATING) (cur (ledger_run ?l ?rs)) = 170000"
    using ledger_conserves [OF ok(2,1), of "heating_at 1000" "Elec BUCKET_HEATING"] e
    by (simp add: Let_def eq_diff_eq [symmetric] add.commute)
  then show ?thesis using ok e c by (simp add: Let_def)
qed

end
