(* ===== verification/Energy_Report.thy ===== *)
theory Energy_Report
  imports Energy_Ledger
begin

text \<open>
  What the daily report of \<open>main/energy_ledger.h\<close> can be trusted for.  An invariant of the open
  day's totals, kept by every reading, bounds them by the seconds booked since the day opened:
  covered electricity never exceeds electricity, estimate time never exceeds power time, and the
  outdoor averages lie between the day's extremes, so that no sum leaves the range of its C type
  on a real day.
\<close>

section \<open>The report is honest\<close>

definition secs_ok :: "nat \<Rightarrow> day_accum \<Rightarrow> bool" where
  "secs_ok n c \<longleftrightarrow> unat (power_s c) \<le> n \<and> unat (thermal_s c) \<le> unat (power_s c)"

definition cover_ok :: "nat \<Rightarrow> day_accum \<Rightarrow> bool" where
  "cover_ok n c \<longleftrightarrow> shape c \<and> (\<forall>b. unat (amount (Covered b) c) \<le> unat (amount (Elec b) c) \<and>
     unat (amount (Elec b) c) \<le> n * 2 ^ 32)"

text \<open>
  The sum of the outdoor temperatures while running is an \<open>int32_t\<close>: it is exact as long as the
  largest temperature of the day, held for all the seconds booked to it, would fit.  For a sensor that
  stays within 99 degrees that is 25 days.
\<close>

definition sum_fits :: "int \<Rightarrow> int \<Rightarrow> int \<Rightarrow> bool" where
  "sum_fits lo hi t \<longleftrightarrow> max \<bar>lo\<bar> \<bar>hi\<bar> * t < 2 ^ 31"

definition run_sum_fits :: "day_accum \<Rightarrow> bool" where
  "run_sum_fits c \<longleftrightarrow> sum_fits (outdoor_min_deci c) (outdoor_max_deci c) (uint (run_outdoor_s c))"

definition outdoor_ok :: "nat \<Rightarrow> day_accum \<Rightarrow> bool" where
  "outdoor_ok n c \<longleftrightarrow> unat (outdoor_s c) \<le> n \<and> unat (run_outdoor_s c) \<le> unat (outdoor_s c) \<and>
     (if flags c AND DAY_OUTDOOR_SET = 0
      then outdoor_s c = 0 \<and> outdoor_sum_deci_s c = 0 \<and> run_outdoor_sum_deci_s c = 0
      else - 32768 \<le> outdoor_min_deci c \<and> outdoor_min_deci c \<le> outdoor_max_deci c \<and> outdoor_max_deci c \<le> 32767 \<and>
        outdoor_min_deci c * uint (outdoor_s c) \<le> outdoor_sum_deci_s c \<and>
        outdoor_sum_deci_s c \<le> outdoor_max_deci c * uint (outdoor_s c) \<and>
        (run_sum_fits c \<longrightarrow>
           outdoor_min_deci c * uint (run_outdoor_s c) \<le> run_outdoor_sum_deci_s c \<and>
           run_outdoor_sum_deci_s c \<le> outdoor_max_deci c * uint (run_outdoor_s c)))"

definition accum_ok :: "nat \<Rightarrow> day_accum \<Rightarrow> bool" where
  "accum_ok n c \<longleftrightarrow> secs_ok n c \<and> cover_ok n c \<and> outdoor_ok n c"

lemma uint_dt: "0 \<le> k \<Longrightarrow> k < 2 ^ 32 \<Longrightarrow> uint (of_int k :: u32) = k"
  by (simp add: uint_word_of_int_eq take_bit_int_eq_self)

lemma unat_dt: "0 \<le> k \<Longrightarrow> k < 2 ^ 32 \<Longrightarrow> unat (of_int k :: u32) = nat k"
  by (simp only: unat_eq_nat_uint uint_dt)

lemma unat_add_dt:
  fixes x :: u32
  assumes "0 \<le> k" "unat x + nat k < 2 ^ 32"
  shows "unat (x + of_int k) = unat x + nat k"
proof -
  have "unat (of_int k :: u32) = nat k" using assms by (intro unat_dt) auto
  then show ?thesis using assms(2) unat_add_lem [of x "of_int k"] by simp
qed

lemma secs_ok_book:
  assumes "secs_ok n c" "b - a \<le> kMaxStepSeconds" "n + 120 < 2 ^ 31"
  shows "secs_ok (n + 120) (book_accum de a b p c)"
proof (cases "a < b \<and> connected p \<and> power_valid p")
  case True
  let ?c = "book_accum de a b p c"
  have c: "unat (power_s c) \<le> n" "unat (thermal_s c) \<le> unat (power_s c)" using assms(1) by (auto simp: secs_ok_def)
  have k: "0 \<le> b - a" "nat (b - a) \<le> 120" "n + nat (b - a) < 2 ^ 32"
    using True assms(2,3) by (auto simp: kMaxStepSeconds_def)
  have p: "power_s ?c = power_s c + of_int (b - a)"
    using True by (simp add: book_accum_def book_stage_defs)
  have t: "thermal_s ?c = thermal_s c \<or> thermal_s ?c = thermal_s c + of_int (b - a)"
    using True by (simp add: book_accum_def book_stage_defs)
  have "unat (power_s ?c) = unat (power_s c) + nat (b - a)"
    unfolding p using c k by (intro unat_add_dt) linarith+
  moreover have "unat (thermal_s c + of_int (b - a)) = unat (thermal_s c) + nat (b - a)"
    using c k by (intro unat_add_dt) linarith+
  ultimately show ?thesis using c k t unfolding secs_ok_def by auto
next
  case False
  then have "power_s (book_accum de a b p c) = power_s c" "thermal_s (book_accum de a b p c) = thermal_s c"
    by (auto simp: book_accum_def book_stage_defs)
  then show ?thesis using assms(1) by (simp add: secs_ok_def)
qed

lemma amount_add_le:
  fixes x y :: u64
  assumes "unat x \<le> unat y" "unat y + m < 2 ^ 64" "unat (v :: u64) = m"
  shows "unat (x + v) \<le> unat (y + v)" "unat (y + v) = unat y + m"
  using assms unat_add_lem [of x v] unat_add_lem [of y v] by auto

lemma rate_bound: "unat (rate (Elec b) p) < 2 ^ 32"
proof -
  have "unat (power_w p) < 2 ^ LENGTH(32)" by (rule unsigned_less)
  then show ?thesis
    by (auto simp: unsigned_ucast_eq intro: order.strict_trans1 [OF take_bit_nat_less_eq_self])
qed

lemma cover_ok_book:
  assumes "cover_ok n c" "b - a \<le> kMaxStepSeconds" "n + 120 < 2 ^ 31"
  shows "cover_ok (n + 120) (book_accum de a b p c)"
proof (cases "a < b")
  case True
  let ?c = "book_accum de a b p c"
  have sh: "shape c" using assms(1) by (simp add: cover_ok_def)
  have "unat (amount (Covered x) ?c) \<le> unat (amount (Elec x) ?c) \<and> unat (amount (Elec x) ?c) \<le> (n + 120) * 2 ^ 32" for x
  proof -
    let ?e = "rate (Elec x) p * of_int (b - a)" and ?k = "rate (Covered x) p * of_int (b - a)"
    have old: "unat (amount (Covered x) c) \<le> unat (amount (Elec x) c)" "unat (amount (Elec x) c) \<le> n * 2 ^ 32"
      using assms(1) by (auto simp: cover_ok_def)
    have dt: "unat (of_int (b - a) :: u64) = nat (b - a)" "nat (b - a) \<le> 120"
      using True assms(2) by (auto simp: unat_eq_nat_uint uint_word_of_int_eq take_bit_int_eq_self kMaxStepSeconds_def
          simp del: of_int_diff)
    have m: "unat (rate (Elec x) p) * nat (b - a) \<le> 120 * 2 ^ 32"
      using mult_le_mono [of "unat (rate (Elec x) p)" "2 ^ 32" "nat (b - a)" 120] rate_bound [of x p] dt(2) by linarith
    then have e: "unat ?e = unat (rate (Elec x) p) * nat (b - a)"
      using unat_mult_lem [of "rate (Elec x) p" "of_int (b - a)"] dt(1) by simp
    have k: "?k = 0 \<or> ?k = ?e" by simp
    have s: "unat (amount (Elec x) c) + unat ?e < 2 ^ 64"
      unfolding e using old(2) m assms(3) by simp
    note new = amount_add_le(2) [OF order_refl s refl] amount_add_le(1) [OF old(1) s refl]
    have "b - a < 2 ^ 32" using assms(2) by (simp add: kMaxStepSeconds_def)
    then have "amount (Covered x) ?c = amount (Covered x) c + ?k" "amount (Elec x) ?c = amount (Elec x) c + ?e"
      using True by (intro amount_book [OF sh]; simp)+
    moreover have "unat (amount (Covered x) c + ?k) \<le> unat (amount (Elec x) c + ?e)"
      using k new old(1) by (elim disjE) (simp_all only: add_0_right)
    moreover have "unat (amount (Elec x) c + ?e) \<le> (n + 120) * 2 ^ 32"
      unfolding new(1) e using old(2) m by simp
    ultimately show ?thesis by simp
  qed
  then show ?thesis using shape_book [OF sh] by (simp add: cover_ok_def)
next
  case False
  then show ?thesis using assms(1) by (auto simp: book_accum_def cover_ok_def intro: le_trans)
qed


text \<open>The outdoor sums: only \<open>book_outdoor\<close> changes them.\<close>

lemma outdoor_stage_keeps:
  "outdoor_ok n (book_power dt p c) = outdoor_ok n c" "outdoor_ok n (book_run dt p c) = outdoor_ok n c"
  "outdoor_ok n (book_defrost dt p c) = outdoor_ok n c"
  by (simp_all add: outdoor_ok_def run_sum_fits_def book_stage_defs)

lemma settings_keep_outdoor: "flags (note_settings p c) AND DAY_OUTDOOR_SET = flags c AND DAY_OUTDOOR_SET"
  by (simp add: note_settings_def DAY_OUTDOOR_SET_def DAY_SETTINGS_SET_def DAY_MIXED_SETTINGS_def
      bit.conj_disj_distrib2)

lemma outdoor_thermal_keeps: "outdoor_ok n (book_thermal dt p c) = outdoor_ok n c"
  by (simp add: outdoor_ok_def run_sum_fits_def book_thermal_def Let_def settings_keep_outdoor)

lemma s16_range: "- 32768 \<le> s16 x" "s16 x \<le> 32767"
  using signed_take_bit_int_greater_eq_minus_exp [of 15 x] signed_take_bit_int_less_exp [of 15 x]
  by (simp_all add: s16_def)

text \<open>Adding \<open>k\<close> seconds at temperature \<open>x\<close> keeps a weighted sum between the widened extremes.\<close>

lemma weighted_sum_step:
  fixes lo hi x k s t :: int
  assumes "lo * t \<le> s" "s \<le> hi * t" "0 \<le> t" "0 \<le> k" "lo' \<le> lo" "lo' \<le> x" "hi \<le> hi'" "x \<le> hi'"
  shows "lo' * (t + k) \<le> s + x * k" "s + x * k \<le> hi' * (t + k)"
proof -
  have "lo' * t \<le> lo * t" "lo' * k \<le> x * k" "hi * t \<le> hi' * t" "x * k \<le> hi' * k"
    using assms by (simp_all add: mult_right_mono)
  then show "lo' * (t + k) \<le> s + x * k" "s + x * k \<le> hi' * (t + k)"
    using assms(1,2) by (simp_all add: distrib_left)
qed


text \<open>The same for the wrapping sum, as long as it fits.\<close>

lemma sum_fits_bounds:
  assumes "sum_fits lo hi t" "0 \<le> t" "lo * t \<le> s" "s \<le> hi * t"
  shows "- (2 ^ 31) \<le> s \<and> s < 2 ^ 31"
proof -
  let ?M = "max \<bar>lo\<bar> \<bar>hi\<bar>"
  have "- ?M \<le> lo" "hi \<le> ?M" by auto
  then have "- ?M * t \<le> lo * t" "hi * t \<le> ?M * t"
    using assms(2) by (blast intro: mult_right_mono)+
  then show ?thesis
    using assms by (simp add: sum_fits_def)
qed

lemma sum_fits_narrow:
  assumes "sum_fits lo' hi' t'" "lo' \<le> lo" "lo \<le> hi" "hi \<le> hi'" "0 \<le> t" "t \<le> t'"
  shows "sum_fits lo hi t"
proof -
  have "max \<bar>lo\<bar> \<bar>hi\<bar> \<le> max \<bar>lo'\<bar> \<bar>hi'\<bar>"
    using assms(2-4) by linarith
  then have "max \<bar>lo\<bar> \<bar>hi\<bar> * t \<le> max \<bar>lo'\<bar> \<bar>hi'\<bar> * t'"
    using assms(5,6) by (intro mult_mono) auto
  then show ?thesis
    using assms(1) by (simp add: sum_fits_def)
qed

lemma wrapping_sum_step:
  fixes lo hi x k s t :: int
  assumes "sum_fits lo hi t \<longrightarrow> lo * t \<le> s \<and> s \<le> hi * t" "lo \<le> hi" "0 \<le> t" "0 \<le> k"
    "lo' \<le> lo" "lo' \<le> x" "hi \<le> hi'" "x \<le> hi'" "sum_fits lo' hi' (t + k)"
  shows "lo' * (t + k) \<le> s32 (s + s32 (x * k)) \<and> s32 (s + s32 (x * k)) \<le> hi' * (t + k)"
proof -
  have "sum_fits lo hi t"
    using assms(2-5,7,9) by (intro sum_fits_narrow [OF assms(9)]) simp_all
  then have b: "lo' * (t + k) \<le> s + x * k" "s + x * k \<le> hi' * (t + k)"
    using weighted_sum_step [of lo t s hi k lo' x hi'] assms(1,3-8) by blast+
  have "s32 (s + x * k) = s + x * k"
    using sum_fits_bounds [OF assms(9) _ b] assms(3,4) by (intro s32_id) simp_all
  then show ?thesis
    using b by (simp add: s32_add_s32)
qed

lemma outdoor_flag: "(x OR DAY_OUTDOOR_SET) AND DAY_OUTDOOR_SET \<noteq> 0"
  by (simp add: DAY_OUTDOOR_SET_def)

lemma book_outdoor_fields:
  fixes c :: day_accum
  assumes "outdoor_valid p" "\<not> defrost p" "out_from de a < b"
  defines "c' \<equiv> book_outdoor de a b p c" and "x \<equiv> s16 (outdoor_c p * 10)" and "k \<equiv> (of_int (b - out_from de a) :: u32)"
    and "fresh \<equiv> flags c AND DAY_OUTDOOR_SET = 0"
  shows "outdoor_min_deci c' = (if fresh then x else min (outdoor_min_deci c) x)"
    and "outdoor_max_deci c' = (if fresh then x else max (outdoor_max_deci c) x)"
    and "flags c' AND DAY_OUTDOOR_SET \<noteq> 0"
    and "outdoor_sum_deci_s c' = outdoor_sum_deci_s c + x * uint k" and "outdoor_s c' = outdoor_s c + k"
    and "run_outdoor_sum_deci_s c' = (if running p \<and> is_mode p then s32 (run_outdoor_sum_deci_s c + s32 (x * sint k)) else run_outdoor_sum_deci_s c)"
    and "run_outdoor_s c' = run_outdoor_s c + (if running p \<and> is_mode p then k else 0)"
  using assms(1-3) outdoor_flag unfolding c'_def x_def k_def fresh_def
  by (simp_all add: book_outdoor_def Let_def min_def max_def)

lemma sint_dt: "0 \<le> k \<Longrightarrow> k < 2 ^ 31 \<Longrightarrow> sint (of_int k :: u32) = k"
  by (simp add: signed_take_bit_int_eq_self sint_sbintrunc')

lemma uint_add_dt:
  fixes x :: u32
  assumes "0 \<le> k" "unat x + nat k < 2 ^ 32"
  shows "uint (x + of_int k) = uint x + k"
  by (simp only: uint_nat unat_add_dt [OF assms] of_nat_add) (use assms in simp)

lemma outdoor_ok_outdoor:
  assumes c: "outdoor_ok n c" and k: "b - a \<le> kMaxStepSeconds" "n + 120 < 2 ^ 31"
  shows "outdoor_ok (n + 120) (book_outdoor de a b p c)"
proof (cases "outdoor_valid p \<and> \<not> defrost p \<and> out_from de a < b")
  case False
  then have "book_outdoor de a b p c = c" by (simp only: book_outdoor_def Let_def False if_False)
  then show ?thesis using c by (auto simp: outdoor_ok_def)
next
  case True
  define j where "j = b - out_from de a"
  have j: "0 < j" "j \<le> 120" using True k(1) by (auto simp: j_def out_from_def kMaxStepSeconds_def)
  have s: "unat (outdoor_s c) \<le> n" "unat (run_outdoor_s c) \<le> unat (outdoor_s c)"
    using c by (auto simp: outdoor_ok_def)
  have us: "unat (outdoor_s c + of_int j) = unat (outdoor_s c) + nat j"
    "unat (run_outdoor_s c + of_int j) = unat (run_outdoor_s c) + nat j"
    "uint (outdoor_s c + of_int j) = uint (outdoor_s c) + j"
    "uint (run_outdoor_s c + of_int j) = uint (run_outdoor_s c) + j"
    using s k(2) j by (intro unat_add_dt uint_add_dt; auto)+
  have ju: "uint (of_int j :: u32) = j" "sint (of_int j :: u32) = j" using j by (auto simp: uint_dt sint_dt)
  note f = book_outdoor_fields [of p de a b c, folded j_def, OF conjunct1 [OF True]
      conjunct1 [OF conjunct2 [OF True]] conjunct2 [OF conjunct2 [OF True]]]
  let ?x = "s16 (outdoor_c p * 10)"
  show ?thesis
  proof (cases "flags c AND DAY_OUTDOOR_SET = 0")
    case fresh: True
    then have "outdoor_s c = 0" "outdoor_sum_deci_s c = 0" "run_outdoor_sum_deci_s c = 0" "run_outdoor_s c = 0"
      using c s(2) by (auto simp: outdoor_ok_def unat_eq_0)
    then show ?thesis
      using f fresh us ju j s16_range [of "outdoor_c p * 10"] wrapping_sum_step [of ?x ?x 0 0 j ?x ?x ?x]
      unfolding outdoor_ok_def run_sum_fits_def by auto
  next
    case False
    let ?lo = "min (outdoor_min_deci c) ?x" and ?hi = "max (outdoor_max_deci c) ?x"
    have old: "outdoor_min_deci c * uint (outdoor_s c) \<le> outdoor_sum_deci_s c"
      "outdoor_sum_deci_s c \<le> outdoor_max_deci c * uint (outdoor_s c)"
      "- 32768 \<le> outdoor_min_deci c" "outdoor_min_deci c \<le> outdoor_max_deci c" "outdoor_max_deci c \<le> 32767"
      using c False by (auto simp: outdoor_ok_def)
    have old_run: "run_sum_fits c \<longrightarrow> outdoor_min_deci c * uint (run_outdoor_s c) \<le> run_outdoor_sum_deci_s c \<and>
        run_outdoor_sum_deci_s c \<le> outdoor_max_deci c * uint (run_outdoor_s c)"
      using c False by (simp add: outdoor_ok_def)
    note w = weighted_sum_step [OF old(1,2), of j ?lo ?x ?hi]
    have run: "sum_fits ?lo ?hi (uint (run_outdoor_s c') ) \<longrightarrow>
        ?lo * uint (run_outdoor_s c') \<le> run_outdoor_sum_deci_s c' \<and>
        run_outdoor_sum_deci_s c' \<le> ?hi * uint (run_outdoor_s c')" if c': "c' = book_outdoor de a b p c" for c'
    proof (cases "running p \<and> is_mode p")
      case True
      then show ?thesis
        using wrapping_sum_step [OF old_run [unfolded run_sum_fits_def] old(4), of j ?lo ?x ?hi] j
        by (simp add: c' f(6,7) us ju)
    next
      case False
      have "run_sum_fits c" if "sum_fits ?lo ?hi (uint (run_outdoor_s c))"
        using sum_fits_narrow [OF that _ old(4)] by (simp add: run_sum_fits_def)
      then show ?thesis
        using False old_run weighted_sum_step [of "outdoor_min_deci c" "uint (run_outdoor_s c)"
            "run_outdoor_sum_deci_s c" "outdoor_max_deci c" 0 ?lo ?x ?hi]
        by (auto simp: c' f(6,7))
    qed
    have r: "- 32768 \<le> ?lo" "?lo \<le> ?hi" "?hi \<le> 32767"
      using old(3-5) s16_range [of "outdoor_c p * 10"] by auto
    have "unat (outdoor_s (book_outdoor de a b p c)) \<le> n + 120"
      "unat (run_outdoor_s (book_outdoor de a b p c)) \<le> unat (outdoor_s (book_outdoor de a b p c))"
      using f us s j by auto
    then show ?thesis
      unfolding outdoor_ok_def run_sum_fits_def using f(3) r w j run [OF refl]
      by (simp add: f(1,2,4,5) False us ju)
  qed
qed


lemma accum_ok_mono: "accum_ok n c \<Longrightarrow> n \<le> m \<Longrightarrow> accum_ok m c"
  unfolding accum_ok_def secs_ok_def cover_ok_def outdoor_ok_def
  by (auto intro: le_trans)

lemma accum_ok_zero: "accum_ok n (accum_zero\<lparr> date := x, utc_offset_min := y \<rparr>)"
proof -
  have "cover_ok n (accum_zero\<lparr> date := x, utc_offset_min := y \<rparr>)"
    unfolding cover_ok_def amount_zero by simp
  then show ?thesis by (simp add: accum_ok_def secs_ok_def outdoor_ok_def accum_zero_def)
qed

lemma accum_ok_book:
  assumes "accum_ok n c" "b - a \<le> kMaxStepSeconds" "n + 120 < 2 ^ 31"
  shows "accum_ok (n + 120) (book_accum de a b p c)"
proof -
  have "outdoor_ok (n + 120) (book_accum de a b p c)"
  proof (cases "a < b \<and> connected p")
    case True
    have "book_accum de a b p c = book_outdoor de a b p (book_thermal (of_int (b - a)) p
        (book_defrost (of_int (b - a)) p (book_run (of_int (b - a)) p (book_power (of_int (b - a)) p c))))"
      using True by (simp add: book_accum_def Let_def)
    then show ?thesis
      using outdoor_ok_outdoor [OF _ assms(2,3), of _ de p] assms(1)
      by (simp only: accum_ok_def outdoor_stage_keeps outdoor_thermal_keeps)
  next
    case False
    then have "book_accum de a b p c = c" by (auto simp: book_accum_def)
    then show ?thesis using assms(1) by (auto simp: accum_ok_def outdoor_ok_def)
  qed
  then show ?thesis
    using secs_ok_book [OF _ assms(2,3)] cover_ok_book [OF _ assms(2,3)] assms(1) by (simp add: accum_ok_def)
qed

lemma accum_ok_edges: "accum_ok n (count_edges p i c) = accum_ok n c"
  unfolding accum_ok_def secs_ok_def cover_ok_def outdoor_ok_def run_sum_fits_def count_edges_keeps
  by (simp add: count_edges_def Let_def)

text \<open>
  The states the ledger reaches, with the number of readings since its day opened.  A reboot comes
  back with the checkpoint of an earlier state.
\<close>

inductive ledger_reach :: "nat \<Rightarrow> ledger \<Rightarrow> bool" where
  reach_init: "ledger_reach 0 ledger_init"
| reach_add: "ledger_reach n l \<Longrightarrow> ledger_add now d inp l = (fin, l') \<Longrightarrow>
    ledger_reach (if fin \<or> \<not> is_open l then 1 else Suc n) l'"
| reach_pause: "ledger_reach n l \<Longrightarrow> ledger_reach n (ledger_pause l)"
| reach_unattributed: "ledger_reach n l \<Longrightarrow> ledger_reach n (add_unattributed ws l)"
| reach_saved: "ledger_reach n l \<Longrightarrow> ledger_reach n (mark_saved now what l)"
| reach_reboot: "ledger_reach n l \<Longrightarrow> ledger_reach n (ledger_restore (cur l) ledger_init)"

lemma booked_cur_fresh:
  assumes "end_s l \<le> now" "prev_s l \<le> now"
  shows "accum_ok 120 (booked_cur now d l)"
proof -
  have "now - max (prev_s l) (end_s l) \<le> now - prev_s l" by simp
  then show ?thesis
    using assms accum_ok_book [OF accum_ok_zero [of 0], of now "max (prev_s l) (end_s l)"] accum_ok_zero
    by (auto simp: booked_cur_def)
qed

lemma booked_cur_ok:
  assumes "accum_ok n (cur l)" "now < end_s l" "n + 120 < 2 ^ 31"
  shows "accum_ok (n + 120) (booked_cur now d l)"
  using assms accum_ok_book [OF assms(1) _ assms(3)] accum_ok_mono [OF assms(1), of "n + 120"]
  by (auto simp: booked_cur_def)

text \<open>What one reading does to the totals of the open day.\<close>

lemma ledger_add_cur:
  assumes "ledger_add now d inp l = (fin, l')"
  obtains (same) "is_open l" "\<not> fin" "cur l' = cur l"
  | (fresh) "fin \<or> \<not> is_open l" "cur l' = accum_zero\<lparr> date := day_date d, utc_offset_min := day_utc_offset_min d \<rparr>"
  | (booked) r where "is_open l" "cur r = cur l" "prev_s r \<le> now" "fin \<longleftrightarrow> end_s r \<le> now"
      "cur l' = booked_cur now d r \<or> cur l' = count_edges (prev r) inp (booked_cur now d r)"
proof (cases "is_open l")
  case False
  then have "cur l' = accum_zero\<lparr> date := day_date d, utc_offset_min := day_utc_offset_min d \<rparr>"
    using assms by (auto simp: ledger_add_def ledger_defs)
  then show thesis using fresh False by blast
next
  case True
  let ?r = "ledger_ready now d l"
  note add = ledger_add_open [OF True, of now d inp, unfolded assms Let_def]
  consider "now < start_s ?r" | "\<not> now < start_s ?r" "\<not> has_prev l \<or> now < prev_s l" "now \<ge> end_s ?r"
    | "\<not> now < start_s ?r" "\<not> has_prev l \<or> now < prev_s l" "\<not> now \<ge> end_s ?r"
    | "\<not> now < start_s ?r" "has_prev l \<and> \<not> now < prev_s l" by blast
  then show thesis
  proof cases
    case 1
    then show thesis using add by (intro same [OF True]) simp_all
  next
    case 2
    then show thesis using add by (intro fresh) (simp_all add: ledger_defs)
  next
    case 3
    then show thesis using add by (intro same [OF True]) (simp_all add: ledger_defs)
  next
    case 4
    then have l': "l' = ledger_step now d inp ?r" "fin \<longleftrightarrow> end_s ?r \<le> now"
      using add by (simp_all add: ledger_step_fields)
    show thesis by (rule booked [of ?r]) (use True 4 l' in \<open>auto simp: ledger_step_fields(1)\<close>)
  qed
qed

lemma accum_ok_new_day:
  assumes "ledger_add now d inp l = (fin, l')" "fin \<or> \<not> is_open l"
  shows "accum_ok 120 (cur l')"
  using assms(1)
proof (cases rule: ledger_add_cur)
  case (booked r)
  then show ?thesis using assms(2) booked_cur_fresh [of r now d] by (auto simp: accum_ok_edges)
qed (use assms(2) accum_ok_zero in auto)

lemma accum_ok_same_day:
  assumes "accum_ok n (cur l)" "ledger_add now d inp l = (fin, l')" "\<not> fin" "is_open l" "n + 120 < 2 ^ 31"
  shows "accum_ok (n + 120) (cur l')"
  using assms(2)
proof (cases rule: ledger_add_cur)
  case (booked r)
  then show ?thesis using assms(1,3,5) booked_cur_ok [of n r now d] by (auto simp: accum_ok_edges)
qed (use assms(3,4) accum_ok_mono [OF assms(1)] in auto)

lemma other_calls_cur:
  "cur (ledger_restore a ledger_init) = a" "cur (ledger_pause l) = cur l" "cur (mark_saved now what l) = cur l"
  "cur (add_unattributed ws l) = (cur l)\<lparr> elec_unattributed_ws := elec_unattributed_ws (cur l) + ws \<rparr>"
  by (simp_all add: ledger_restore_def ledger_pause_def mark_saved_def add_unattributed_def ledger_init_def Let_def)

lemma accum_ok_unattributed: "accum_ok n (c\<lparr> elec_unattributed_ws := x \<rparr>) = accum_ok n c"
  by (simp add: accum_ok_def secs_ok_def cover_ok_def outdoor_ok_def run_sum_fits_def shape_def)

lemma ledger_reach_ok: "ledger_reach n l \<Longrightarrow> 120 * n < 2 ^ 31 \<Longrightarrow> accum_ok (120 * n) (cur l)"
proof (induction rule: ledger_reach.induct)
  case reach_init
  show ?case using accum_ok_zero [of 0 0 0] by (simp add: ledger_init_def accum_zero_def)
next
  case (reach_add n l now d inp fin l')
  then show ?case
    using accum_ok_new_day [OF reach_add.hyps(2)] accum_ok_same_day [OF _ reach_add.hyps(2), of "120 * n"]
    by (cases "fin \<or> \<not> is_open l") (simp_all add: add.commute)
qed (simp_all add: other_calls_cur accum_ok_unattributed)


lemma sdiv_between:
  fixes lo hi s t :: int
  assumes "0 < t" "lo * t \<le> s" "s \<le> hi * t"
  shows "lo \<le> s sdiv t" "s sdiv t \<le> hi"
proof -
  have div: "a \<le> x div t \<and> x div t \<le> b" if "a * t \<le> x" "x \<le> b * t" for a b x
    using zdiv_mono1 [OF that(1) assms(1)] zdiv_mono1 [OF that(2) assms(1)] assms(1) by simp
  have "lo \<le> s sdiv t \<and> s sdiv t \<le> hi"
  proof (cases "0 \<le> s")
    case True
    then show ?thesis using div [OF assms(2,3)] assms(1) by (simp add: sdiv_pos)
  next
    case False
    then have "s sdiv t = - ((- s) div t)" using assms(1) by (simp add: signed_divide_int_def sgn_if)
    then show ?thesis using div [of "- hi" "- s" "- lo"] assms(2,3) by auto
  qed
  then show "lo \<le> s sdiv t" "s sdiv t \<le> hi" by blast+
qed

lemma s16_id: "- 32768 \<le> x \<Longrightarrow> x \<le> 32767 \<Longrightarrow> s16 x = x"
  unfolding s16_def by (rule signed_take_bit_int_eq_self) simp_all

lemma today_elec_wh_total:
  assumes "shape (cur l)"
  shows "today_elec_wh l = total_elec_wh (today l)"
  using assms unfolding today_elec_wh_def total_elec_wh_def today_def
  by (intro fold_cong) (auto simp: to_record_def Let_def shape_def)

lemma outdoor_average_between:
  assumes "outdoor_ok n c" "n < 2 ^ 31" "0 < outdoor_s c"
  shows "outdoor_min_deci c \<le> rec_outdoor_avg_deci (to_record c) \<and> rec_outdoor_avg_deci (to_record c) \<le> outdoor_max_deci c"
    and "0 < run_outdoor_s c \<Longrightarrow> run_sum_fits c \<Longrightarrow> outdoor_min_deci c \<le> rec_outdoor_run_avg_deci (to_record c) \<and>
      rec_outdoor_run_avg_deci (to_record c) \<le> outdoor_max_deci c"
proof -
  have c: "- 32768 \<le> outdoor_min_deci c" "outdoor_max_deci c \<le> 32767"
    "outdoor_min_deci c * uint (outdoor_s c) \<le> outdoor_sum_deci_s c"
    "outdoor_sum_deci_s c \<le> outdoor_max_deci c * uint (outdoor_s c)"
    "run_sum_fits c \<Longrightarrow> outdoor_min_deci c * uint (run_outdoor_s c) \<le> run_outdoor_sum_deci_s c"
    "run_sum_fits c \<Longrightarrow> run_outdoor_sum_deci_s c \<le> outdoor_max_deci c * uint (run_outdoor_s c)"
    using assms(1,3) by (auto simp: outdoor_ok_def split: if_splits)
  have "0 < uint (outdoor_s c)" using assms(3) by (simp add: word_less_def)
  note d = sdiv_between [OF this c(3,4)]
  show "outdoor_min_deci c \<le> rec_outdoor_avg_deci (to_record c) \<and> rec_outdoor_avg_deci (to_record c) \<le> outdoor_max_deci c"
    using d c(1,2) assms(3) by (simp add: to_record_def Let_def s16_id)
  assume r: "0 < run_outdoor_s c" and fits: "run_sum_fits c"
  then have "0 < uint (run_outdoor_s c)" by (simp add: word_less_def)
  note d = sdiv_between [OF this c(5) [OF fits] c(6) [OF fits]]
  have "unat (run_outdoor_s c) < 2 ^ 31" using assms(1,2) by (auto simp: outdoor_ok_def)
  then have "uint (run_outdoor_s c) < 2 ^ 31"
    using of_nat_less_iff [where 'a = int, of "unat (run_outdoor_s c)" "2 ^ 31"]
    by (simp only: uint_nat of_nat_power of_nat_numeral)
  then have "signed_take_bit (LENGTH(32) - Suc 0) (uint (run_outdoor_s c)) = uint (run_outdoor_s c)"
    by (intro signed_take_bit_int_eq_self order_trans [OF _ unsigned_greater_eq]) simp_all
  then have "sint (run_outdoor_s c) = uint (run_outdoor_s c)" by (simp only: sint_uint)
  then show "outdoor_min_deci c \<le> rec_outdoor_run_avg_deci (to_record c) \<and>
      rec_outdoor_run_avg_deci (to_record c) \<le> outdoor_max_deci c"
    using d c(1,2) r by (simp add: to_record_def Let_def s16_id)
qed

text \<open>
  C18: The daily report is honest.  In every state the ledger reaches, through readings, gaps,
  clock jumps, day changes and reboots, in which fewer than \<open>17.8\<close> million readings came since the
  day opened: covered electricity is at most the electricity of the mode, estimate seconds are at most
  power seconds, and when an outdoor temperature was booked, the reported average lies between the
  reported minimum and maximum.  So does the average while running, as long as its 32-bit sum cannot
  have wrapped: the largest temperature of the day in tenths, times the running seconds, stays below
  \<open>2 ^ 31\<close>.  The total shown live, \<open>today_elec_wh\<close>, is the total of the report.
\<close>

theorem ledger_report_honest:
  assumes "ledger_reach n l" "120 * n < 2 ^ 31"
  shows "amount (Covered b) (cur l) \<le> amount (Elec b) (cur l) \<and>
    rec_thermal_s (today l) \<le> rec_power_s (today l) \<and>
    (0 < outdoor_s (cur l) \<longrightarrow>
       rec_outdoor_min_deci (today l) \<le> rec_outdoor_avg_deci (today l) \<and>
       rec_outdoor_avg_deci (today l) \<le> rec_outdoor_max_deci (today l)) \<and>
    (0 < run_outdoor_s (cur l) \<and>
     max \<bar>rec_outdoor_min_deci (today l)\<bar> \<bar>rec_outdoor_max_deci (today l)\<bar> * uint (run_outdoor_s (cur l)) < 2 ^ 31 \<longrightarrow>
       rec_outdoor_min_deci (today l) \<le> rec_outdoor_run_avg_deci (today l) \<and>
       rec_outdoor_run_avg_deci (today l) \<le> rec_outdoor_max_deci (today l)) \<and>
    today_elec_wh l = total_elec_wh (today l)"
proof -
  have ok: "accum_ok (120 * n) (cur l)" using ledger_reach_ok [OF assms] .
  then have o: "outdoor_ok (120 * n) (cur l)" by (simp add: accum_ok_def)
  have "0 < outdoor_s (cur l)" if "0 < run_outdoor_s (cur l)"
    using o that by (auto simp: outdoor_ok_def word_less_nat_alt)
  moreover have "today_elec_wh l = total_elec_wh (today l)"
    using ok by (intro today_elec_wh_total) (simp add: accum_ok_def cover_ok_def)
  ultimately show ?thesis
    using ok outdoor_average_between [OF o assms(2)]
    by (auto simp: accum_ok_def secs_ok_def cover_ok_def today_def to_record_def Let_def word_le_nat_alt
        run_sum_fits_def sum_fits_def)
qed

theorem ledger_report_honest_witness:
  "let l = snd (ledger_add 1060 (day_n 0) (heating_at 1000)
             (snd (ledger_add 1000 (day_n 0) ((heating_at 1000)\<lparr> outdoor_valid := True, outdoor_c := -7 \<rparr>) ledger_init))) in
   ledger_reach 2 l \<and> rec_outdoor_run_avg_deci (today l) = -70 \<and>
   rec_outdoor_min_deci (today l) \<le> rec_outdoor_run_avg_deci (today l) \<and>
   rec_outdoor_run_avg_deci (today l) \<le> rec_outdoor_max_deci (today l) \<and>
   amount (Covered BUCKET_HEATING) (cur l) \<le> amount (Elec BUCKET_HEATING) (cur l)"
proof -
  let ?a = "ledger_add 1000 (day_n 0) ((heating_at 1000)\<lparr> outdoor_valid := True, outdoor_c := -7 \<rparr>) ledger_init"
  let ?b = "ledger_add 1060 (day_n 0) (heating_at 1000) (snd ?a)"
  have "ledger_reach 1 (snd ?a)"
    using reach_add [OF reach_init surjective_pairing, of 1000 "day_n 0"] by (simp add: ledger_init_def)
  note b = reach_add [OF this surjective_pairing, of 1060 "day_n 0" "heating_at 1000"]
  have "\<not> fst ?b" "is_open (snd ?a)" by code_simp+
  then have r: "ledger_reach 2 (snd ?b)" using b by (simp add: numeral_2_eq_2)
  have "rec_outdoor_run_avg_deci (today (snd ?b)) = -70" by code_simp
  moreover have "0 < run_outdoor_s (cur (snd ?b)) \<and>
      max \<bar>rec_outdoor_min_deci (today (snd ?b))\<bar> \<bar>rec_outdoor_max_deci (today (snd ?b))\<bar> *
        uint (run_outdoor_s (cur (snd ?b))) < 2 ^ 31"
    by code_simp
  ultimately show ?thesis
    using ledger_report_honest [OF r, of BUCKET_HEATING] r unfolding Let_def by simp
qed

end
