(* ===== verification/Energy_Run.thy ===== *)
theory Energy_Run
  imports Energy_Ledger
begin

text \<open>
  Per-run energy summaries, \<open>main/run_ledger.h\<close>: \<open>RunTracker\<close> sums each compressor run live from
  the readings the daily ledger sees, \<open>best_run\<close> attaches a summary to one run of the telemetry,
  \<open>RunTotals\<close> combines the summaries of a run.  Times are integers, the energies 64-bit words, the
  seconds 32-bit words, as in the daily ledger.
\<close>

section \<open>The tracker\<close>

definition RUN_OPEN :: u8 where "RUN_OPEN = push_bit 0 1"
definition kRunCopMinCoveredWh :: u32 where "kRunCopMinCoveredWh = 100"

record run_record =
  rr_date :: u32
  rr_start_s :: u32
  rr_end_s :: u32
  rr_elec_wh :: u32
  rr_thermal_wh :: u32
  rr_covered_elec_wh :: u32
  rr_outdoor_s :: u32
  rr_outdoor_avg_deci :: int
  rr_bucket :: nat
  rr_flags :: u8

definition run_record_zero :: run_record where
  "run_record_zero = \<lparr> rr_date = 0, rr_start_s = 0, rr_end_s = 0, rr_elec_wh = 0, rr_thermal_wh = 0,
     rr_covered_elec_wh = 0, rr_outdoor_s = 0, rr_outdoor_avg_deci = 0, rr_bucket = 0, rr_flags = 0 \<rparr>"

record run_tracker =
  r_open :: bool
  r_date :: u32
  r_start_s :: int
  r_end_s :: int
  first_bucket :: bucket
  r_elec_ws :: u64
  r_thermal_ws :: u64
  r_covered_ws :: u64
  r_outdoor_sum_deci_s :: int
  r_outdoor_s :: u32
  r_run_s :: "u32 list"
  r_prev :: input
  r_prev_s :: int
  r_has_prev :: bool
  r_defrost_end_s :: int
  r_finished :: run_record
  r_has_finished :: bool

definition run_init :: run_tracker where
  "run_init = \<lparr> r_open = False, r_date = 0, r_start_s = 0, r_end_s = 0, first_bucket = BUCKET_STANDBY,
     r_elec_ws = 0, r_thermal_ws = 0, r_covered_ws = 0, r_outdoor_sum_deci_s = 0, r_outdoor_s = 0,
     r_run_s = replicate kModes 0, r_prev = input_init, r_prev_s = 0, r_has_prev = False,
     r_defrost_end_s = - (2 ^ 63) sdiv 2, r_finished = run_record_zero, r_has_finished = False \<rparr>"

text \<open>The mode the run was in longest: the loop at the end of \<open>record\<close>.\<close>

fun longest_mode :: "u32 list \<Rightarrow> nat \<Rightarrow> u32 \<Rightarrow> nat \<Rightarrow> nat" where
  "longest_mode [] m best b = b"
| "longest_mode (s # ss) m best b = (if s > best then longest_mode ss (Suc m) s m else longest_mode ss (Suc m) best b)"

definition run_record_of :: "run_tracker \<Rightarrow> run_record" where
  "run_record_of t =
     \<lparr> rr_date = r_date t, rr_start_s = of_int (r_start_s t), rr_end_s = of_int (r_end_s t),
       rr_elec_wh = ws_to_wh (r_elec_ws t), rr_thermal_wh = ws_to_wh (r_thermal_ws t),
       rr_covered_elec_wh = ws_to_wh (r_covered_ws t), rr_outdoor_s = r_outdoor_s t,
       rr_outdoor_avg_deci =
         (if r_outdoor_s t > 0 then s16 (r_outdoor_sum_deci_s t sdiv uint (r_outdoor_s t)) else 0),
       rr_bucket = longest_mode (r_run_s t) 0 0
         (if bix (first_bucket t) < kModes then bix (first_bucket t) else bix BUCKET_HEATING),
       rr_flags = 0 \<rparr>"

definition run_start :: "int \<Rightarrow> u32 \<Rightarrow> input \<Rightarrow> run_tracker \<Rightarrow> run_tracker" where
  "run_start now dt inp t = t\<lparr> r_open := True, r_date := dt, r_start_s := now, r_end_s := now,
     first_bucket := bucket inp, r_elec_ws := 0, r_thermal_ws := 0, r_covered_ws := 0,
     r_outdoor_sum_deci_s := 0, r_outdoor_s := 0, r_run_s := replicate kModes 0 \<rparr>"

definition run_finish :: "run_tracker \<Rightarrow> run_tracker" where
  "run_finish t =
     (let t = t\<lparr> r_open := False \<rparr> in
      if r_end_s t \<le> r_start_s t then t
      else t\<lparr> r_finished := run_record_of t, r_has_finished := True \<rparr>)"

definition run_book :: "int \<Rightarrow> int \<Rightarrow> input \<Rightarrow> run_tracker \<Rightarrow> run_tracker" where
  "run_book a b p t =
     (let t = t\<lparr> r_end_s := b \<rparr> in
      if \<not> connected p then t
      else
        let dt = (of_int (b - a) :: u32);
            t = (if power_valid p then t\<lparr> r_elec_ws := r_elec_ws t + ucast (power_w p) * ucast dt \<rparr> else t);
            t = (if running p \<and> is_mode p then t\<lparr> r_run_s := bump (r_run_s t) (bix (bucket p)) dt \<rparr> else t);
            t = (if thermal_valid p \<and> power_valid p \<and> is_mode p then
                   let t = (if heat_w p > 0
                            then t\<lparr> r_thermal_ws := r_thermal_ws t + of_int (heat_w p) * ucast dt \<rparr> else t)
                   in t\<lparr> r_covered_ws := r_covered_ws t + ucast (power_w p) * ucast dt \<rparr>
                 else t)
        in if outdoor_valid p \<and> running p \<and> is_mode p \<and> \<not> defrost p \<and> b > out_from (r_defrost_end_s t) a then
             let run_dt = (of_int (b - out_from (r_defrost_end_s t) a) :: u32)
             in t\<lparr> r_outdoor_sum_deci_s := r_outdoor_sum_deci_s t + outdoor_c p * 10 * uint run_dt,
                  r_outdoor_s := r_outdoor_s t + run_dt \<rparr>
           else t)"

text \<open>What a reading does to the run in progress: book the step before it, and end the run if it is over.\<close>

definition run_advance :: "int \<Rightarrow> input \<Rightarrow> run_tracker \<Rightarrow> run_tracker" where
  "run_advance now inp t =
     (let in_step = r_has_prev t \<and> now \<ge> r_prev_s t \<and> now - r_prev_s t \<le> kMaxStepSeconds
      in if r_open t then
           if in_step then
             let t = run_book (r_prev_s t) now (r_prev t) t
             in if \<not> running inp \<or> \<not> connected inp then run_finish t else t
           else run_finish t
         else t)"

definition run_add :: "int \<Rightarrow> u32 \<Rightarrow> input \<Rightarrow> run_tracker \<Rightarrow> bool \<times> run_tracker" where
  "run_add now dt inp t =
     (let t = run_advance now inp (t\<lparr> r_has_finished := False \<rparr>);
          t = (if r_has_prev t \<and> defrost (r_prev t) \<and> \<not> defrost inp then t\<lparr> r_defrost_end_s := now \<rparr> else t);
          t = (if \<not> r_open t \<and> running inp \<and> connected inp then run_start now dt inp t else t);
          t = t\<lparr> r_prev := inp, r_prev_s := now, r_has_prev := True \<rparr>
      in (r_has_finished t, t))"

definition run_pause :: "run_tracker \<Rightarrow> run_tracker" where "run_pause t = t\<lparr> r_has_prev := False \<rparr>"

definition run_take_finished :: "run_tracker \<Rightarrow> run_record option" where
  "run_take_finished t = (if r_has_finished t then Some (r_finished t) else None)"

definition run_current :: "run_tracker \<Rightarrow> run_record option" where
  "run_current t =
     (if r_open t then Some ((run_record_of t)\<lparr> rr_flags := rr_flags (run_record_of t) OR RUN_OPEN \<rparr>) else None)"

section \<open>Attaching summaries to runs\<close>

fun best_run_from :: "run_record \<Rightarrow> u32 list \<Rightarrow> u32 list \<Rightarrow> u32 \<Rightarrow> nat \<Rightarrow> int \<Rightarrow> int \<Rightarrow> nat \<Rightarrow> int" where
  "best_run_from r ss es pad i best best_overlap 0 = best"
| "best_run_from r ss es pad i best best_overlap (Suc k) =
     (let lo = uint (ss ! i) - uint pad;
          hi = uint (es ! i) + uint pad;
          a = (if uint (rr_start_s r) > lo then uint (rr_start_s r) else lo);
          b = (if uint (rr_end_s r) < hi then uint (rr_end_s r) else hi)
      in if b - a > best_overlap then best_run_from r ss es pad (Suc i) (int i) (b - a) k
         else best_run_from r ss es pad (Suc i) best best_overlap k)"

definition best_run :: "run_record \<Rightarrow> u32 list \<Rightarrow> u32 list \<Rightarrow> u32 \<Rightarrow> int" where
  "best_run r ss es pad = best_run_from r ss es pad 0 (-1) 0 (length ss)"

record run_totals =
  rt_thermal_wh :: u32
  rt_covered_elec_wh :: u32
  rt_outdoor_sum_deci_s :: int
  rt_outdoor_s :: u32
  rt_any :: bool

definition run_totals_zero :: run_totals where
  "run_totals_zero = \<lparr> rt_thermal_wh = 0, rt_covered_elec_wh = 0, rt_outdoor_sum_deci_s = 0, rt_outdoor_s = 0, rt_any = False \<rparr>"

definition totals_add :: "run_record \<Rightarrow> run_totals \<Rightarrow> run_totals" where
  "totals_add r t = t\<lparr> rt_any := True, rt_thermal_wh := rt_thermal_wh t + rr_thermal_wh r,
     rt_covered_elec_wh := rt_covered_elec_wh t + rr_covered_elec_wh r,
     rt_outdoor_sum_deci_s := rt_outdoor_sum_deci_s t + rr_outdoor_avg_deci r * uint (rr_outdoor_s r),
     rt_outdoor_s := rt_outdoor_s t + rr_outdoor_s r \<rparr>"

definition cop_x10 :: "run_totals \<Rightarrow> int" where
  "cop_x10 t =
     (if rt_covered_elec_wh t < kRunCopMinCoveredWh then -1
      else s32 (uint ((ucast (rt_thermal_wh t) * 10 + ucast (rt_covered_elec_wh t div 2) :: u64)
                        div ucast (rt_covered_elec_wh t))))"

definition totals_outdoor :: "run_totals \<Rightarrow> int option" where
  "totals_outdoor t =
     (if rt_outdoor_s t = 0 then None else Some (s16 (rt_outdoor_sum_deci_s t sdiv uint (rt_outdoor_s t))))"

section \<open>The same booking rules as the daily ledger\<close>

lemma ucast_step: "a \<le> b \<Longrightarrow> b - a \<le> 120 \<Longrightarrow> ucast (of_int (b - a) :: u32) = (of_int (b - a) :: u64)"
  by (rule ucast_dt) simp_all

lemma run_book_energy:
  assumes "a \<le> b" "b - a \<le> 120"
  shows "r_elec_ws (run_book a b p t) = r_elec_ws t + rate (Elec (bucket p)) p * of_int (b - a)"
    and "r_thermal_ws (run_book a b p t) = r_thermal_ws t + rate (Heat (bucket p)) p * of_int (b - a)"
    and "r_covered_ws (run_book a b p t) = r_covered_ws t + rate (Covered (bucket p)) p * of_int (b - a)"
  using ucast_step [OF assms] by (simp_all add: run_book_def Let_def del: of_int_diff)

definition run_outdoor_gain :: "int \<Rightarrow> int \<Rightarrow> int \<Rightarrow> input \<Rightarrow> bool" where
  "run_outdoor_gain de a b p \<longleftrightarrow>
     connected p \<and> outdoor_valid p \<and> running p \<and> is_mode p \<and> \<not> defrost p \<and> b > out_from de a"

lemma run_book_seconds:
  fixes a b :: int and t :: run_tracker
  defines "k \<equiv> (of_int (b - out_from (r_defrost_end_s t) a) :: u32)"
  shows "r_outdoor_s (run_book a b p t) =
      r_outdoor_s t + (if run_outdoor_gain (r_defrost_end_s t) a b p then k else 0)"
    and "r_outdoor_sum_deci_s (run_book a b p t) = r_outdoor_sum_deci_s t +
      (if run_outdoor_gain (r_defrost_end_s t) a b p then outdoor_c p * 10 * uint k else 0)"
    and "r_run_s (run_book a b p t) =
      (if connected p \<and> running p \<and> is_mode p then bump (r_run_s t) (bix (bucket p)) (of_int (b - a)) else r_run_s t)"
  unfolding k_def by (simp_all add: run_book_def run_outdoor_gain_def Let_def)

lemma stages_keep_outdoor:
  "run_outdoor_s (book_thermal k p (book_defrost k p (book_run k p (book_power k p c)))) = run_outdoor_s c"
  "run_outdoor_sum_deci_s (book_thermal k p (book_defrost k p (book_run k p (book_power k p c)))) = run_outdoor_sum_deci_s c"
  by (simp_all add: book_stage_defs)

lemma ledger_book_seconds:
  assumes "a < b"
  shows "run_outdoor_s (book_accum de a b p c) =
      run_outdoor_s c + (if run_outdoor_gain de a b p then of_int (b - out_from de a) else 0)"
    and "run_outdoor_sum_deci_s (book_accum de a b p c) =
      (if run_outdoor_gain de a b p
       then s32 (run_outdoor_sum_deci_s c + s16 (outdoor_c p * 10) * sint (of_int (b - out_from de a) :: u32))
       else run_outdoor_sum_deci_s c)"
    and "run_s (book_accum de a b p c) =
      (if connected p \<and> running p \<and> is_mode p then bump (run_s c) (bix (bucket p)) (of_int (b - a)) else run_s c)"
proof -
  show "run_outdoor_s (book_accum de a b p c) =
      run_outdoor_s c + (if run_outdoor_gain de a b p then of_int (b - out_from de a) else 0)"
    using assms by (simp add: book_accum_def book_outdoor_def run_outdoor_gain_def stages_keep_outdoor Let_def)
  show "run_outdoor_sum_deci_s (book_accum de a b p c) =
      (if run_outdoor_gain de a b p
       then s32 (run_outdoor_sum_deci_s c + s16 (outdoor_c p * 10) * sint (of_int (b - out_from de a) :: u32))
       else run_outdoor_sum_deci_s c)"
    using assms by (simp add: book_accum_def book_outdoor_def run_outdoor_gain_def stages_keep_outdoor
        s32_add_s32 Let_def)
  show "run_s (book_accum de a b p c) =
      (if connected p \<and> running p \<and> is_mode p then bump (run_s c) (bix (bucket p)) (of_int (b - a)) else run_s c)"
    using assms by (simp add: book_accum_def book_stage_defs)
qed

lemma small_dt: "0 < k \<Longrightarrow> k \<le> 120 \<Longrightarrow> sint (of_int k :: u32) = k \<and> uint (of_int k :: u32) = k"
  by (simp add: signed_take_bit_int_eq_self sint_sbintrunc' uint_word_of_int_eq take_bit_int_eq_self)

text \<open>
  C32: The run summary follows the daily ledger's booking rules.  Over any interval of at most
  120 s, and with the same end of the last defrost, the electricity, heat and covered electricity
  a run gains are what the day's bucket gains, the run seconds grow alike, and the seconds and the
  sum of the running outdoor average grow alike (for outdoor temperatures an \<open>int16_t\<close> can hold in
  tenths).  The day keeps that sum in 32 bits and the run in 64: the two gains agree modulo \<open>2 ^ 32\<close>,
  and are equal whenever the day's sum with the gain stays in range.
\<close>

theorem run_book_like_ledger:
  assumes "shape c" "length (r_run_s t) = kModes" "a < b" "b - a \<le> 120"
    "r_defrost_end_s t = de" "s16 (outdoor_c p * 10) = outdoor_c p * 10"
  shows "let t' = run_book a b p t; c' = book_accum de a b p c;
        gain = r_outdoor_sum_deci_s t' - r_outdoor_sum_deci_s t in
    r_elec_ws t' - r_elec_ws t = amount (Elec (bucket p)) c' - amount (Elec (bucket p)) c \<and>
    r_thermal_ws t' - r_thermal_ws t = amount (Heat (bucket p)) c' - amount (Heat (bucket p)) c \<and>
    r_covered_ws t' - r_covered_ws t = amount (Covered (bucket p)) c' - amount (Covered (bucket p)) c \<and>
    r_outdoor_s t' - r_outdoor_s t = run_outdoor_s c' - run_outdoor_s c \<and>
    s32 gain = s32 (run_outdoor_sum_deci_s c' - run_outdoor_sum_deci_s c) \<and>
    (- (2 ^ 31) \<le> run_outdoor_sum_deci_s c + gain \<and> run_outdoor_sum_deci_s c + gain < 2 ^ 31 \<longrightarrow>
       gain = run_outdoor_sum_deci_s c' - run_outdoor_sum_deci_s c) \<and>
    (is_mode p \<longrightarrow> r_run_s t' ! bix (bucket p) - r_run_s t ! bix (bucket p) =
       run_s c' ! bix (bucket p) - run_s c ! bix (bucket p))"
proof -
  have le: "a \<le> b" "b - a < 2 ^ 32" using assms(3,4) by simp_all
  have dt: "sint (of_int (b - out_from de a) :: u32) = b - out_from de a \<and>
      uint (of_int (b - out_from de a) :: u32) = b - out_from de a" if "run_outdoor_gain de a b p"
    using that assms(4) by (intro small_dt) (auto simp: run_outdoor_gain_def out_from_def)
  have len: "is_mode p \<Longrightarrow> bix (bucket p) < length (run_s c) \<and> bix (bucket p) < length (r_run_s t)"
    using assms(1,2) by (simp add: is_mode_def shape_def)
  show ?thesis
    unfolding Let_def run_book_energy [OF le(1) assms(4)] amount_book [OF assms(1) le] run_book_seconds
      ledger_book_seconds [OF assms(3)] assms(5)
    using dt len assms(6) by (auto simp: bump_nth s32_diff_s32 s32_id simp del: of_int_diff)
qed


theorem run_book_like_ledger_witness:
  "let t = run_start 0 20240101 (heating_at 1000) run_init; p = heating_at 1000;
       t' = run_book 0 60 p t; c' = book_accum (r_defrost_end_s t) 0 60 p accum_zero in
   r_elec_ws t' = 60000 \<and> r_elec_ws t' - r_elec_ws t = amount (Elec (bucket p)) c' - amount (Elec (bucket p)) accum_zero"
proof -
  let ?t = "run_start 0 20240101 (heating_at 1000) run_init"
  have "shape accum_zero" by (simp add: shape_def accum_zero_def)
  moreover have "length (r_run_s ?t) = kModes" by (simp add: run_start_def)
  moreover have "s16 (outdoor_c (heating_at 1000) * 10) = outdoor_c (heating_at 1000) * 10"
    by (simp add: heating_at_def input_init_def s16_def)
  moreover have "r_elec_ws (run_book 0 60 (heating_at 1000) ?t) = 60000" by code_simp
  ultimately show ?thesis
    using run_book_like_ledger [of accum_zero ?t 0 60 "r_defrost_end_s ?t" "heating_at 1000"]
    unfolding Let_def by simp
qed

section \<open>Runs do not overlap\<close>

fun finished_runs :: "run_tracker \<Rightarrow> (int \<times> u32 \<times> input) list \<Rightarrow> (int \<times> int) list" where
  "finished_runs t [] = []"
| "finished_runs t ((now, dt, inp) # rs) =
     (let (fin, t') = run_add now dt inp t
      in (if fin then [(uint (rr_start_s (r_finished t')), uint (rr_end_s (r_finished t')))] else []) @ finished_runs t' rs)"

fun times_ok :: "int \<Rightarrow> (int \<times> u32 \<times> input) list \<Rightarrow> bool" where
  "times_ok t [] \<longleftrightarrow> True"
| "times_ok t ((now, dt, inp) # rs) \<longleftrightarrow> t \<le> now \<and> now < 2 ^ 32 \<and> times_ok now rs"

definition run_ok :: "int \<Rightarrow> run_tracker \<Rightarrow> bool" where
  "run_ok now t \<longleftrightarrow> 0 \<le> now \<and> now < 2 ^ 32 \<and> (r_open t \<longrightarrow> 0 \<le> r_start_s t \<and> r_start_s t \<le> r_end_s t \<and> r_end_s t \<le> now)"

text \<open>Where an open run can begin at the earliest, seen from a state.\<close>

definition run_from :: "int \<Rightarrow> run_tracker \<Rightarrow> int" where
  "run_from now t = (if r_open t then r_start_s t else now)"

lemma run_book_span [simp]:
  "r_open (run_book a b p t) = r_open t" "r_start_s (run_book a b p t) = r_start_s t"
  "r_end_s (run_book a b p t) = b" "r_has_finished (run_book a b p t) = r_has_finished t"
  "r_prev (run_book a b p t) = r_prev t" "r_has_prev (run_book a b p t) = r_has_prev t"
  by (simp_all add: run_book_def Let_def)

lemma uint_time: "0 \<le> x \<Longrightarrow> x < 2 ^ 32 \<Longrightarrow> uint (of_int x :: u32) = x"
  by (simp add: uint_word_of_int_eq take_bit_int_eq_self)

lemma run_finish_fields [simp]:
  "\<not> r_open (run_finish t)"
  "r_has_finished (run_finish t) \<longleftrightarrow> r_start_s t < r_end_s t \<or> r_has_finished t"
  "r_start_s t < r_end_s t \<Longrightarrow> r_finished (run_finish t) = run_record_of (t\<lparr> r_open := False \<rparr>)"
  by (simp_all add: run_finish_def Let_def not_le)

lemma run_record_span [simp]:
  "rr_start_s (run_record_of t) = of_int (r_start_s t)" "rr_end_s (run_record_of t) = of_int (r_end_s t)"
  by (simp_all add: run_record_of_def)

lemma run_advance_open:
  fixes inp :: input
  assumes "run_ok t0 t" "t0 \<le> now" "now < 2 ^ 32" "\<not> r_has_finished t"
  defines "m \<equiv> run_advance now inp t"
  shows "r_open m \<Longrightarrow> r_open t \<and> r_start_s m = r_start_s t \<and> r_end_s m = now"
    and "r_has_finished m \<Longrightarrow> r_open t \<and> \<not> r_open m \<and> uint (rr_start_s (r_finished m)) = r_start_s t \<and>
      r_start_s t < uint (rr_end_s (r_finished m)) \<and> uint (rr_end_s (r_finished m)) \<le> now"
proof -
  have span: "uint (of_int (r_start_s t) :: u32) = r_start_s t" "uint (of_int (r_end_s t) :: u32) = r_end_s t"
    "r_end_s t \<le> now" "uint (of_int now :: u32) = now" if "r_open t"
    using assms(1-3) that by (auto simp: run_ok_def uint_time)
  show "r_open m \<Longrightarrow> r_open t \<and> r_start_s m = r_start_s t \<and> r_end_s m = now"
    by (auto simp: m_def run_advance_def Let_def split: if_splits)
  show "r_has_finished m \<Longrightarrow> r_open t \<and> \<not> r_open m \<and> uint (rr_start_s (r_finished m)) = r_start_s t \<and>
      r_start_s t < uint (rr_end_s (r_finished m)) \<and> uint (rr_end_s (r_finished m)) \<le> now"
    using assms(4) span by (auto simp: m_def run_advance_def Let_def split: if_splits)
qed

lemma run_add_fields:
  assumes "run_add now dt inp t = (fin, t')"
  defines "m \<equiv> run_advance now inp (t\<lparr> r_has_finished := False \<rparr>)"
  shows "fin = r_has_finished m" "r_finished t' = r_finished m"
    and "r_open m \<Longrightarrow> r_open t' \<and> r_start_s t' = r_start_s m \<and> r_end_s t' = r_end_s m"
    and "\<not> r_open m \<Longrightarrow> r_open t' \<Longrightarrow> r_start_s t' = now \<and> r_end_s t' = now"
  using assms(1) unfolding m_def run_add_def Let_def by (auto simp: run_start_def split: if_splits)

lemma run_add_spans:
  assumes "run_ok t0 t" "t0 \<le> now" "now < 2 ^ 32" "run_add now dt inp t = (fin, t')"
  shows "run_ok now t'" "run_from t0 t \<le> run_from now t'"
    and "fin \<Longrightarrow> run_from t0 t \<le> uint (rr_start_s (r_finished t')) \<and>
      uint (rr_start_s (r_finished t')) < uint (rr_end_s (r_finished t')) \<and>
      uint (rr_end_s (r_finished t')) \<le> run_from now t'"
proof -
  let ?t = "t\<lparr> r_has_finished := False \<rparr>"
  let ?m = "run_advance now inp ?t"
  have ok: "run_ok t0 ?t" "\<not> r_has_finished ?t" using assms(1) by (simp_all add: run_ok_def)
  note adv = run_advance_open [OF ok(1) assms(2,3) ok(2), of inp]
  note f = run_add_fields [OF assms(4)]
  show "run_ok now t'"
    using adv(1) f(3,4) assms(1-3) by (cases "r_open ?m") (auto simp: run_ok_def)
  show "run_from t0 t \<le> run_from now t'"
    using adv(1) f(3,4) assms(1,2) by (cases "r_open ?m"; cases "r_open t'") (auto simp: run_ok_def run_from_def)
  show "fin \<Longrightarrow> run_from t0 t \<le> uint (rr_start_s (r_finished t')) \<and>
      uint (rr_start_s (r_finished t')) < uint (rr_end_s (r_finished t')) \<and>
      uint (rr_end_s (r_finished t')) \<le> run_from now t'"
    using adv(2) f by (auto simp: run_from_def)
qed

lemma finished_runs_spans:
  assumes "run_ok t0 t" "times_ok t0 rs"
  shows "sorted_wrt (\<lambda>x y. snd x \<le> fst y) (finished_runs t rs) \<and>
    (\<forall>(s, e)\<in>set (finished_runs t rs). run_from t0 t \<le> s \<and> s < e)"
  using assms
proof (induction rs arbitrary: t t0)
  case (Cons r rs)
  obtain now dt inp where r: "r = (now, dt, inp)" by (metis prod_cases3)
  obtain fin t' where a: "run_add now dt inp t = (fin, t')" by fastforce
  note sp = run_add_spans [OF Cons.prems(1) _ _ a]
  have now: "t0 \<le> now" "now < 2 ^ 32" "times_ok now rs" using Cons.prems(2) by (simp_all add: r)
  note IH = Cons.IH [OF sp(1) [OF now(1,2)] now(3)]
  show ?case using IH sp(2,3) [OF now(1,2)] by (fastforce simp: r a)
qed simp

text \<open>
  C33: The runs a tracker reports are a sequence of separate intervals.  For readings that move
  forward in time, starting from a fresh tracker, every finished run ends after it starts and no
  later than the next one begins: no time and no energy is counted in two runs.
\<close>

theorem runs_disjoint:
  assumes "0 \<le> t0" "t0 < 2 ^ 32" "times_ok t0 rs"
  shows "sorted_wrt (\<lambda>x y. snd x \<le> fst y) (finished_runs run_init rs) \<and>
    list_all (\<lambda>(s, e). t0 \<le> s \<and> s < e) (finished_runs run_init rs)"
proof -
  have "run_ok t0 run_init" "run_from t0 run_init = t0" using assms by (simp_all add: run_ok_def run_from_def run_init_def)
  then show ?thesis using finished_runs_spans [of t0 run_init rs] assms(3) by (auto simp: list_all_iff)
qed

definition idle_input :: input where "idle_input = input_init\<lparr> connected := True \<rparr>"

definition one_run :: "(int \<times> u32 \<times> input) list" where
  "one_run = [(100, 20240101, heating_at 1000), (160, 20240101, idle_input)]"

theorem runs_disjoint_witness:
  "times_ok 0 one_run \<and> finished_runs run_init one_run = [(100, 160)] \<and>
   list_all (\<lambda>(s, e). 0 \<le> s \<and> s < e) (finished_runs run_init one_run)"
proof -
  have t: "times_ok 0 one_run" by (simp add: one_run_def)
  have "finished_runs run_init one_run = [(100, 160)]" by code_simp
  then show ?thesis using runs_disjoint [of 0 one_run] t by simp
qed


section \<open>Attaching a summary to a run\<close>

definition overlap :: "run_record \<Rightarrow> u32 list \<Rightarrow> u32 list \<Rightarrow> u32 \<Rightarrow> nat \<Rightarrow> int" where
  "overlap r ss es pad i =
     min (uint (rr_end_s r)) (uint (es ! i) + uint pad) - max (uint (rr_start_s r)) (uint (ss ! i) - uint pad)"

definition best_so_far :: "(nat \<Rightarrow> int) \<Rightarrow> nat \<Rightarrow> int \<Rightarrow> int \<Rightarrow> bool" where
  "best_so_far f n best ov \<longleftrightarrow>
     best = -1 \<and> ov = 0 \<and> (\<forall>j<n. f j \<le> 0) \<or>
     0 \<le> best \<and> nat best < n \<and> ov = f (nat best) \<and> 0 < ov \<and> (\<forall>j<n. f j \<le> ov) \<and> (\<forall>j<nat best. f j < ov)"

lemma best_so_far_step:
  assumes "best_so_far f n best ov"
  shows "f n > ov \<Longrightarrow> best_so_far f (Suc n) (int n) (f n)" "\<not> f n > ov \<Longrightarrow> best_so_far f (Suc n) best ov"
  using assms by (fastforce simp: best_so_far_def less_Suc_eq)+

lemma best_run_from_best:
  assumes "best_so_far (overlap r ss es pad) i best ov"
  shows "\<exists>ov'. best_so_far (overlap r ss es pad) (i + k) (best_run_from r ss es pad i best ov k) ov'"
  using assms
proof (induction k arbitrary: i best ov)
  case (Suc k)
  have o: "(if uint (rr_end_s r) < uint (es ! i) + uint pad then uint (rr_end_s r) else uint (es ! i) + uint pad) -
      (if uint (rr_start_s r) > uint (ss ! i) - uint pad then uint (rr_start_s r) else uint (ss ! i) - uint pad)
      = overlap r ss es pad i"
    by (simp add: overlap_def min_def max_def)
  show ?case
    using Suc.IH [OF best_so_far_step(1) [OF Suc.prems]] Suc.IH [OF best_so_far_step(2) [OF Suc.prems]]
    by (simp only: best_run_from.simps Let_def o) (auto split: if_splits)
qed auto

text \<open>
  A run summary goes to the telemetry run it overlaps most.  \<open>best_run\<close> answers \<open>-1\<close> exactly
  when the summary overlaps none of the runs (each widened by the sample spacing), and otherwise
  the index of a run with the largest overlap, the earliest such run on a tie.
\<close>

theorem best_run_spec:
  "best_run r ss es pad = -1 \<and> list_all (\<lambda>j. overlap r ss es pad j \<le> 0) [0..<length ss] \<or>
   (let i = best_run r ss es pad in
     0 \<le> i \<and> nat i < length ss \<and> 0 < overlap r ss es pad (nat i) \<and>
     list_all (\<lambda>j. overlap r ss es pad j \<le> overlap r ss es pad (nat i)) [0..<length ss] \<and>
     list_all (\<lambda>j. overlap r ss es pad j < overlap r ss es pad (nat i)) [0..<nat i])"
proof -
  have "best_so_far (overlap r ss es pad) 0 (-1) 0" by (simp add: best_so_far_def)
  from best_run_from_best [OF this, of "length ss"] show ?thesis
    by (auto simp: best_run_def best_so_far_def list_all_iff Let_def)
qed

section \<open>The estimated COP of a run\<close>

lemma div_below:
  fixes x c k :: int
  assumes "x < k * c" "0 < c"
  shows "x div c < k"
proof (rule ccontr)
  assume "\<not> x div c < k"
  then have "k * c \<le> x div c * c" using assms(2) by (simp add: mult_right_mono)
  also have "\<dots> \<le> x" using assms(2) by (simp add: minus_mod_eq_div_mult [symmetric])
  finally show False using assms(1) by simp
qed

lemma cop_x10_rounds:
  assumes "kRunCopMinCoveredWh \<le> rt_covered_elec_wh t"
  shows "cop_x10 t = (10 * uint (rt_thermal_wh t) + uint (rt_covered_elec_wh t) div 2) div uint (rt_covered_elec_wh t)"
proof -
  let ?h = "uint (rt_thermal_wh t)" and ?c = "uint (rt_covered_elec_wh t)"
  have b: "0 \<le> ?h" "?h < 2 ^ 32" "100 \<le> ?c" "?c < 2 ^ 32"
    using assms uint_lt2p [of "rt_thermal_wh t"] uint_lt2p [of "rt_covered_elec_wh t"]
    by (simp_all add: kRunCopMinCoveredWh_def word_le_def)
  define d where "d = ?c div 2"
  have d: "0 \<le> d" "d \<le> ?c" unfolding d_def using b(3) by simp_all
  have m: "10 * ?h + d < 2147483648 * ?c" "0 \<le> 10 * ?h + d" "10 * ?h + d < 2 ^ 64"
    using b d by simp_all
  have q: "0 \<le> (10 * ?h + d) div ?c" "(10 * ?h + d) div ?c < 2147483648"
    using div_below [OF m(1)] b(3) m(2) by (simp_all add: pos_imp_zdiv_nonneg_iff)
  have c: "uint (ucast (rt_covered_elec_wh t) :: u64) = ?c" "uint (ucast (rt_covered_elec_wh t div 2) :: u64) = d"
    "uint (ucast (rt_thermal_wh t) :: u64) = ?h"
    using b d by (simp_all add: unsigned_ucast_eq take_bit_int_eq_self uint_div d_def)
  have "uint (ucast (rt_thermal_wh t) * 10 :: u64) = 10 * ?h"
    using b c(3) by (simp add: uint_word_ariths(3) mult.commute)
  then have "uint (ucast (rt_thermal_wh t) * 10 + ucast (rt_covered_elec_wh t div 2) :: u64) = 10 * ?h + d"
    using m c(2) by (simp add: uint_word_ariths(1))
  then have "cop_x10 t = s32 ((10 * ?h + d) div ?c)" using assms leD [OF assms] by (simp add: cop_x10_def uint_div c(1))
  also have "\<dots> = (10 * ?h + d) div ?c"
    unfolding s32_def by (rule signed_take_bit_int_eq_self) (use q in simp_all)
  finally show ?thesis by (simp add: d_def)
qed

end
