(* ===== verification/Energy_Average.thy ===== *)
theory Energy_Average
  imports Prelude
begin

text \<open>
  The averagers of \<open>main/energy_ledger.h\<close> that feed the 30 s telemetry samples: \<open>PowerAverager\<close>
  (time-weighted power) and \<open>PerfAverager\<close> (heat output and COP over the same time).  All
  arithmetic is at the C widths; the millisecond clock wraps at 32 bits.
\<close>

section \<open>The code\<close>

definition kMaxStepMs :: u32 where "kMaxStepMs = 120000"

record power_avg =
  pw_has_last :: bool
  pw_last_valid :: bool
  pw_last_ms :: u32
  pw_last_w :: u32
  pw_sum :: u64
  pw_ms :: u64

definition power_avg_init :: power_avg where
  "power_avg_init = \<lparr> pw_has_last = False, pw_last_valid = False, pw_last_ms = 0, pw_last_w = 0, pw_sum = 0, pw_ms = 0 \<rparr>"

definition power_add :: "u32 \<Rightarrow> bool \<Rightarrow> u32 \<Rightarrow> power_avg \<Rightarrow> power_avg" where
  "power_add now_ms valid watts s =
     (let s = (if pw_has_last s \<and> pw_last_valid s then
                 let dt = now_ms - pw_last_ms s
                 in if dt > 0 \<and> dt \<le> kMaxStepMs
                    then s\<lparr> pw_sum := pw_sum s + ucast (pw_last_w s) * ucast dt, pw_ms := pw_ms s + ucast dt \<rparr> else s
               else s)
      in s\<lparr> pw_has_last := True, pw_last_ms := now_ms, pw_last_valid := valid, pw_last_w := watts \<rparr>)"

definition power_take :: "u32 \<Rightarrow> power_avg \<Rightarrow> u16 option \<times> power_avg" where
  "power_take now_ms s =
     (let s = power_add now_ms (pw_last_valid s) (pw_last_w s) s;
          r = (if pw_ms s > 0 then
                 let avg = pw_sum s div pw_ms s
                 in Some (ucast (if avg > 0xFFFE then 0xFFFE else avg))
               else if pw_has_last s \<and> pw_last_valid s
               then Some (ucast (if pw_last_w s > 0xFFFE then 0xFFFE else pw_last_w s))
               else None)
      in (r, s\<lparr> pw_sum := 0, pw_ms := 0 \<rparr>))"

record perf_avg =
  pf_has_last :: bool
  pf_last_valid :: bool
  pf_last_ms :: u32
  pf_last_heat_w :: u32
  pf_last_power_w :: u32
  pf_heat_sum :: u64
  pf_power_sum :: u64
  pf_ms :: u64

definition perf_avg_init :: perf_avg where
  "perf_avg_init = \<lparr> pf_has_last = False, pf_last_valid = False, pf_last_ms = 0, pf_last_heat_w = 0,
     pf_last_power_w = 0, pf_heat_sum = 0, pf_power_sum = 0, pf_ms = 0 \<rparr>"

definition perf_add :: "u32 \<Rightarrow> bool \<Rightarrow> u32 \<Rightarrow> u32 \<Rightarrow> perf_avg \<Rightarrow> perf_avg" where
  "perf_add now_ms valid heat_w power_w s =
     (let s = (if pf_has_last s \<and> pf_last_valid s then
                 let dt = now_ms - pf_last_ms s
                 in if dt > 0 \<and> dt \<le> kMaxStepMs
                    then s\<lparr> pf_heat_sum := pf_heat_sum s + ucast (pf_last_heat_w s) * ucast dt,
                            pf_power_sum := pf_power_sum s + ucast (pf_last_power_w s) * ucast dt,
                            pf_ms := pf_ms s + ucast dt \<rparr> else s
               else s)
      in s\<lparr> pf_has_last := True, pf_last_ms := now_ms, pf_last_valid := valid \<and> power_w > 0,
            pf_last_heat_w := heat_w, pf_last_power_w := power_w \<rparr>)"

text \<open>\<open>None\<close> inside marks a division by zero, which C does not define.\<close>

definition checked_div :: "u64 \<Rightarrow> u64 \<Rightarrow> u64 option" where
  "checked_div x y = (if y = 0 then None else Some (x div y))"

definition perf_take :: "u32 \<Rightarrow> perf_avg \<Rightarrow> (u16 \<times> u16) option option \<times> perf_avg" where
  "perf_take now_ms s =
     (let s = perf_add now_ms (pf_last_valid s) (pf_last_heat_w s) (pf_last_power_w s) s;
          (heat, power, ok) =
            (if pf_ms s > 0 then
               let heat = pf_heat_sum s div pf_ms s; power = pf_power_sum s div pf_ms s
               in (heat, power, power > 0)
             else if pf_has_last s \<and> pf_last_valid s
             then (ucast (pf_last_heat_w s), ucast (pf_last_power_w s), True)
             else (0, 0, False));
          r = (if ok then
                 map_option (\<lambda>cop. Some (ucast (if heat > 0xFFFE then 0xFFFE else heat),
                                         ucast (if cop > 0xFFFE then 0xFFFE else cop)))
                   (checked_div (heat * 100 + power div 2) power)
               else Some None)
      in (r, s\<lparr> pf_heat_sum := 0, pf_power_sum := 0, pf_ms := 0 \<rparr>))"

section \<open>The average lies between the readings\<close>

text \<open>\<open>between lo hi n s\<close>: after \<open>n\<close> readings all valid watts lie in \<open>[lo, hi]\<close> and so does the sum's mean.\<close>

definition between :: "nat \<Rightarrow> nat \<Rightarrow> nat \<Rightarrow> power_avg \<Rightarrow> bool" where
  "between lo hi n s \<longleftrightarrow> unat (pw_ms s) \<le> 120000 * n \<and>
     lo * unat (pw_ms s) \<le> unat (pw_sum s) \<and> unat (pw_sum s) \<le> hi * unat (pw_ms s) \<and>
     (pw_last_valid s \<longrightarrow> lo \<le> unat (pw_last_w s) \<and> unat (pw_last_w s) \<le> hi)"

lemma unat_ucast_u32: "unat (ucast (x :: u32) :: u64) = unat x"
proof -
  have "unat x < 2 ^ LENGTH(32)" by (rule unsigned_less)
  then show ?thesis by (simp add: unsigned_ucast_eq take_bit_nat_eq_self_iff)
qed

lemma between_add:
  assumes s: "between lo hi n s" and v: "valid \<Longrightarrow> lo \<le> unat w \<and> unat w \<le> hi"
    and n: "120000 * Suc n < 2 ^ 32" "hi < 2 ^ 32"
  shows "between lo hi (Suc n) (power_add now valid w s)"
proof (cases "pw_has_last s \<and> pw_last_valid s \<and> 0 < now - pw_last_ms s \<and> now - pw_last_ms s \<le> kMaxStepMs")
  case True
  define dt where "dt = now - pw_last_ms s"
  let ?w = "unat (pw_last_w s)" and ?d = "unat dt"
  have d: "?d \<le> 120000" using True by (simp add: dt_def kMaxStepMs_def word_le_nat_alt)
  have w: "lo \<le> ?w" "?w \<le> hi" using s True by (auto simp: between_def)
  have old: "unat (pw_ms s) \<le> 120000 * n" "lo * unat (pw_ms s) \<le> unat (pw_sum s)" "unat (pw_sum s) \<le> hi * unat (pw_ms s)"
    using s by (auto simp: between_def)
  have prod: "?w * ?d \<le> hi * ?d" "lo * ?d \<le> ?w * ?d" using w by (simp_all add: mult_le_mono1)
  have cap: "hi * (unat (pw_ms s) + ?d) < 2 ^ 64"
  proof -
    have "unat (pw_ms s) + ?d < 2 ^ 32" using old(1) d n(1) by simp
    then have "hi * (unat (pw_ms s) + ?d) \<le> (2 ^ 32 - 1) * (2 ^ 32 - 1)" using n(2) by (intro mult_le_mono) simp_all
    then show ?thesis by simp
  qed
  have cap': "hi * unat (pw_ms s) + hi * ?d < 2 ^ 64" using cap by (simp only: distrib_left)
  have "(2 :: nat) ^ LENGTH(64) = 2 ^ 64" by simp
  then have "?w * ?d < 2 ^ LENGTH(64)" "unat (pw_sum s) + ?w * ?d < 2 ^ LENGTH(64)"
    using cap' prod(1) old(3) by linarith+
  then have m: "unat (ucast (pw_last_w s) * ucast dt :: u64) = ?w * ?d"
    and sums: "unat (pw_sum s + ucast (pw_last_w s) * ucast dt) = unat (pw_sum s) + ?w * ?d"
    using unat_mult_lem [of "ucast (pw_last_w s) :: u64" "ucast dt"]
      unat_add_lem [of "pw_sum s" "ucast (pw_last_w s) * ucast dt"]
    by (simp_all only: unat_ucast_u32 simp_thms)
  have ms: "unat (pw_ms s + ucast dt) = unat (pw_ms s) + ?d"
    using old(1) d n(1) unat_add_lem [of "pw_ms s" "ucast dt"] by (simp add: unat_ucast_u32)
  have t: "pw_sum (power_add now valid w s) = pw_sum s + ucast (pw_last_w s) * ucast dt"
    "pw_ms (power_add now valid w s) = pw_ms s + ucast dt"
    using True by (simp_all add: power_add_def Let_def dt_def)
  have "lo * (unat (pw_ms s) + ?d) \<le> unat (pw_sum s) + ?w * ?d"
    "unat (pw_sum s) + ?w * ?d \<le> hi * (unat (pw_ms s) + ?d)"
    unfolding distrib_left using old prod by linarith+
  moreover have "pw_last_valid (power_add now valid w s) = valid" "pw_last_w (power_add now valid w s) = w"
    by (simp_all add: power_add_def Let_def)
  ultimately show ?thesis
    using old d v unfolding between_def t sums ms by auto
next
  case False
  then have "pw_sum (power_add now valid w s) = pw_sum s" "pw_ms (power_add now valid w s) = pw_ms s"
    by (auto simp: power_add_def Let_def)
  then show ?thesis using s v by (auto simp: between_def power_add_def Let_def)
qed


fun power_run :: "(u32 \<times> bool \<times> u32) list \<Rightarrow> power_avg \<Rightarrow> power_avg" where
  "power_run [] s = s"
| "power_run ((now, valid, w) # rs) s = power_run rs (power_add now valid w s)"

definition in_range :: "nat \<Rightarrow> nat \<Rightarrow> (u32 \<times> bool \<times> u32) list \<Rightarrow> bool" where
  "in_range lo hi rs \<longleftrightarrow> list_all (\<lambda>(_, valid, w). valid \<longrightarrow> lo \<le> unat w \<and> unat w \<le> hi) rs"

lemma between_run:
  assumes "between lo hi n s" "in_range lo hi rs" "120000 * (n + length rs) < 2 ^ 32" "hi < 2 ^ 32"
  shows "between lo hi (n + length rs) (power_run rs s)"
  using assms
proof (induction rs arbitrary: n s)
  case (Cons r rs)
  obtain now valid w where r: "r = (now, valid, w)" by (metis prod_cases3)
  have "between lo hi (Suc n) (power_add now valid w s)"
    using Cons.prems by (intro between_add) (auto simp: r in_range_def)
  then show ?case using Cons.IH [of "Suc n"] Cons.prems by (simp add: r in_range_def)
qed simp

lemma div_between:
  fixes s t :: nat
  assumes "lo * t \<le> s" "s \<le> hi * t" "0 < t"
  shows "lo \<le> s div t \<and> s div t \<le> hi"
  using div_le_mono [OF assms(1), of t] div_le_mono [OF assms(2), of t] assms(3) by simp

lemma unat_cap16: "unat x \<le> 0xFFFE \<Longrightarrow> unat (ucast (x :: u64) :: u16) = unat x"
  by (simp add: unsigned_ucast_eq take_bit_nat_eq_self_iff)

lemma unat_cap16': "unat x \<le> 0xFFFE \<Longrightarrow> unat (ucast (x :: u32) :: u16) = unat x"
  by (simp add: unsigned_ucast_eq take_bit_nat_eq_self_iff)

text \<open>
  C36: A telemetry power sample is a true average.  Over at most 35,000 readings since the last
  sample, whatever their spacing, gaps and clock wrap-around, if every valid reading lies between
  \<open>lo\<close> and \<open>hi\<close> watts (with \<open>hi\<close> at most 65534), then the sample, when there is one, lies between
  them too; it never overflows, never divides by zero and never takes the reserved value 65535.
  The sums are cleared for the next sample.
\<close>

theorem power_average_between:
  assumes "in_range lo hi rs" "length rs \<le> 35000" "hi \<le> 65534"
    "power_take now (power_run rs power_avg_init) = (r, s')"
  shows "(case r of None \<Rightarrow> \<not> pw_last_valid (power_run rs power_avg_init) | Some w \<Rightarrow> lo \<le> unat w \<and> unat w \<le> hi) \<and>
    pw_sum s' = 0 \<and> pw_ms s' = 0"
proof -
  let ?s = "power_run rs power_avg_init"
  let ?t = "power_add now (pw_last_valid ?s) (pw_last_w ?s) ?s"
  have "between lo hi 0 power_avg_init" by (simp add: between_def power_avg_init_def)
  then have "between lo hi (length rs) ?s" using between_run [of lo hi 0 power_avg_init rs] assms(1-3) by simp
  then have t: "between lo hi (Suc (length rs)) ?t"
    using assms(2,3) by (intro between_add) (auto simp: between_def)
  have last: "pw_has_last ?t" "pw_last_valid ?t = pw_last_valid ?s" by (simp_all add: power_add_def Let_def)
  have r: "r = (if pw_ms ?t > 0 then Some (ucast (if pw_sum ?t div pw_ms ?t > 0xFFFE then 0xFFFE else pw_sum ?t div pw_ms ?t))
      else if pw_last_valid ?t then Some (ucast (if pw_last_w ?t > 0xFFFE then 0xFFFE else pw_last_w ?t)) else None)"
    and s': "s' = ?t\<lparr> pw_sum := 0, pw_ms := 0 \<rparr>"
    using assms(4) last(1) by (auto simp: power_take_def Let_def)
  have avg: "lo \<le> unat (pw_sum ?t div pw_ms ?t) \<and> unat (pw_sum ?t div pw_ms ?t) \<le> hi" if "0 < pw_ms ?t"
    using t that unfolding unat_div between_def by (intro div_between) (auto simp: word_less_nat_alt)
  have w: "lo \<le> unat (pw_last_w ?t) \<and> unat (pw_last_w ?t) \<le> hi" if "pw_last_valid ?t"
    using t that by (simp add: between_def)
  consider "0 < pw_ms ?t" | "\<not> 0 < pw_ms ?t" "pw_last_valid ?t" | "\<not> 0 < pw_ms ?t" "\<not> pw_last_valid ?t" by blast
  then have "case r of None \<Rightarrow> \<not> pw_last_valid ?s | Some w \<Rightarrow> lo \<le> unat w \<and> unat w \<le> hi"
  proof cases
    case 1
    then have "\<not> pw_sum ?t div pw_ms ?t > 0xFFFE" using avg assms(3) by (auto simp: word_less_nat_alt)
    then show ?thesis using 1 avg assms(3) unat_cap16 [of "pw_sum ?t div pw_ms ?t"] unfolding r by auto
  next
    case 2
    then have "\<not> pw_last_w ?t > 0xFFFE" using w assms(3) by (auto simp: word_less_nat_alt)
    then show ?thesis using 2 w assms(3) unat_cap16' [of "pw_last_w ?t"] unfolding r by auto
  next
    case 3
    then show ?thesis using last unfolding r by simp
  qed
  then show ?thesis by (simp add: s')
qed

theorem power_average_between_witness:
  "fst (power_take 61000 (power_run [(1000, True, 800), (31000, True, 1200)] power_avg_init)) = Some 1000 \<and>
   800 \<le> unat (1000 :: u16) \<and> unat (1000 :: u16) \<le> 1200"
proof -
  let ?rs = "[(1000, True, 800), (31000, True, 1200)] :: (u32 \<times> bool \<times> u32) list"
  have i: "in_range 800 1200 ?rs" by (simp add: in_range_def)
  have e: "fst (power_take 61000 (power_run ?rs power_avg_init)) = Some 1000" by code_simp
  then show ?thesis
    using power_average_between [OF i _ _ prod.collapse [symmetric], of 61000] by simp
qed

section \<open>The performance average never divides by zero\<close>

definition perf_ok :: "perf_avg \<Rightarrow> bool" where
  "perf_ok s \<longleftrightarrow> (pf_last_valid s \<longrightarrow> pf_last_power_w s \<noteq> 0)"

lemma perf_ok_add: "perf_ok (perf_add now valid h p s)"
  by (simp add: perf_ok_def perf_add_def Let_def word_neq_0_conv)

lemma perf_take_defined: "fst (perf_take now s) \<noteq> None"
proof -
  let ?t = "perf_add now (pf_last_valid s) (pf_last_heat_w s) (pf_last_power_w s) s"
  have "ucast (pf_last_power_w ?t) \<noteq> (0 :: u64)" if "pf_last_valid ?t"
    using perf_ok_add [of now "pf_last_valid s" "pf_last_heat_w s" "pf_last_power_w s" s] that
    by (metis perf_ok_def unat_eq_0 unat_ucast_u32)
  then show ?thesis by (auto simp: perf_take_def Let_def checked_div_def word_neq_0_conv split: if_splits)
qed

end
