(* ===== verification/Spec2Isabelle.thy ===== *)
theory Spec2Isabelle
  imports Modbus_Frame Bacnet_Write Pb_Buffer Pb_Roundtrip Pb_Merge_Oneof Png_Encoder Setup_Pairing Auth_Manager Log_Buffer Wifi_Drops Wifi_Roam
    Wifi_Supervisor Energy_Report Energy_Run Energy_Average
begin

text \<open>
  Verification development for the Arctic heat-pump controller firmware (an ESP32-P4 with a display, a
  WiFi co-processor and a UART to the heat pump).

  \<^bold>\<open>The program.\<close>  A controller task polls the heat pump and feeds its readings to the energy
  accounting (\<open>main/energy_ledger.h\<close>, \<open>main/run_ledger.h\<close>).  Sensor tasks read water and air temperatures
  over Modbus TCP (\<open>main/mbtcp_frame.cpp\<close>) and BACnet/IP (\<open>main/bacnet_frame.cpp\<close>).  The HTTP API
  serves state, takes settings, checks sessions, keys and tokens (\<open>main/auth_manager.cpp\<close>), claims a
  password with a pairing code shown on the display (\<open>main/setup_pairing.cpp\<close>) and streams screenshots as PNG (\<open>main/png_uncompressed.c\<close>).  The WiFi
  supervisor (\<open>main/wifi_supervisor.cpp\<close>) reconnects, recovers a wedged network and restarts the web
  server or the controller, roams between access points (\<open>main/wifi_roam.cpp\<close>, \<open>main/wifi_roam_policy.h\<close>)
  and reports outages (\<open>main/wifi_drops.cpp\<close>, \<open>main/wifi_drop_tracker.h\<close>).  Everything the WiFi
  co-processor is told goes through protobuf-c messages (\<open>protobuf-c.c\<close> of the esp_hosted component).

  \<^bold>\<open>Theories and what they model.\<close>

  \<^item> \<open>Prelude\<close>: machine integers, bounds-checked reads (\<open>rd\<close>), byte-addressed memory (\<open>mem\<close>,
    \<open>write_bytes\<close>), shifts and masks as \<open>div\<close> and \<open>mod\<close>.
  \<^item> \<open>Modbus_Frame\<close>: \<open>build_read\<close>, \<open>frame_length\<close>, \<open>parse_read\<close>.  Building gives exactly the valid
    requests; parsing accepts exactly the protocol's responses and stays in its buffers.
  \<^item> \<open>Bacnet_Read\<close>, \<open>Bacnet_Write\<close>: every parser and builder of the BACnet codec.  The locale
    \<open>bounded_scanner\<close> is the contract of a function that moves a position over received bytes, with one
    interpretation per scanner; \<open>emitter\<close> is the contract of a function that appends bytes to a bounded
    buffer, closed under sequencing, with one interpretation per writer.  Shown: no datagram leads out
    of bounds, an accepted answer answers the request that was sent, values and requests read back.
  \<^item> \<open>Pb_Wire\<close>, \<open>Pb_Parse\<close>, \<open>Pb_Message\<close>, \<open>Pb_Pack\<close>, \<open>Pb_Buffer\<close>: the wire primitives of protobuf-c at
    their widths, the scanners of received bytes, descriptors and messages (with union members sharing
    a cell), packed sizes, packing into memory and packing through a buffer's virtual \<open>append\<close>.  The
    locales \<open>pb_buffer\<close> and \<open>pb_allocator\<close> are the interfaces of the C structures of function pointers.
    Shown: packing writes exactly the reference encoding in exactly the computed size; both ways to
    pack agree; varints, tags and lengths read back; the doubling loop of the simple buffer ends, and
    where it does not.
  \<^item> \<open>Pb_Lookup\<close>, \<open>Pb_Scan\<close>, \<open>Pb_Merge\<close>, \<open>Pb_Unpack\<close>: the binary searches of the descriptors, and
    \<open>protobuf_c_message_unpack\<close> with everything it calls: the scan that cuts received bytes into members
    kept in slabs, the initial message, the arrays allocated from the counts of the scan, the parsers
    of the members by label and type, and the merge of embedded messages.  Results are \<open>Fault\<close> (an
    access outside an object), \<open>Fail\<close> (an error that the code reports) or \<open>Ok\<close>.  The allocator is a
    function of the place of a request in the call tree, so it stands for any sequence of answers.
  \<^item> \<open>Pb_Scan_Ok\<close>, \<open>Pb_Merge_Ok\<close>, \<open>Pb_Unpack_Ok\<close>: no received bytes and no answers of the allocator
    lead to a \<open>Fault\<close>.  \<open>desc_ok\<close> states what the compiler for .proto files guarantees of a descriptor;
    \<open>scanned\<close> is the invariant of the scan, \<open>parsing\<close> the one of the second pass (what is left to parse
    fits what was allocated), \<open>fine\<close> the layout of a message.
  \<^item> \<open>Pb_Roundtrip\<close>, \<open>Pb_Merge_Oneof\<close>: unpacking reads back what packing wrote (\<open>item\<close>s are the common
    view of both, \<open>stage\<close> the message between two fields), and a case in which merging wrongly fails.
  \<^item> \<open>Png_Checksum\<close>, \<open>Png_Encoder\<close>: CRC-32 and Adler-32 against their mathematical definitions; the
    streaming encoder with its staging buffer and all early returns against a reference file, and the
    stored blocks inflating back to the rows.
  \<^item> \<open>Setup_Pairing\<close>: the pairing state and its operations; a step relation gives the reachable states,
    the invariant and the bound on wrong codes per window.
  \<^item> \<open>Auth_Manager\<close>: the web password, browser sessions, the API key and the Home Assistant token, over
    any history of calls (\<open>auth_event\<close>).  The SHA-256 digest, the clock, the random source and NVS are
    parameters (\<open>auth_env\<close>, \<open>nvs_answers\<close>); \<open>sha_env\<close> and \<open>nvs_lengths\<close> name what their documentation
    promises.  Shown: authentication stays on and fails closed, a session comes from a login, sessions
    survive a restart, and a control write runs under the token that authorised it.
  \<^item> \<open>Log_Buffer\<close>: the hook that takes log lines apart and the ring of the last 256 entries
    (\<open>main/log_buffer.cpp\<close>).  Shown: the ring refines an unbounded list cut to its end, every query answers
    from that list, the hook stays in its buffer, and a standard line is stored as it was logged.
  \<^item> \<open>Wifi_Drops\<close>, \<open>Wifi_Roam\<close>: the two policies and the modules around them, with what the WiFi
    manager answers as inputs; histories are lists of calls, and the properties hold for all of them.  The policy of the drops is
    shown of the events that the polls of \<open>main/wifi_drops.cpp\<close> write to the event log (\<open>drops_log\<close>).
  \<^item> \<open>Wifi_Supervisor\<close>: the supervising task, one definition per branch of its loop; \<open>sup_run\<close> runs a boot
    over the answers that its passes get, \<open>api_reboot_chain\<close> follows reboots through RTC memory.  Shown: a
    restart has an outage of the full length behind it (\<open>outages_ok\<close> is the invariant), a wedge ends in
    a restart (every late silent pass raises the number of bounces), the reboots of the safety net are
    capped, and two cases where the comments promise more than the code does.
  \<^item> \<open>Energy_Date\<close>, \<open>Energy_Ledger\<close>, \<open>Energy_Report\<close>, \<open>Energy_Run\<close>, \<open>Energy_Average\<close>: calendar
    arithmetic, booking of readings into days and runs, checkpoints, the daily report, telemetry
    averages.  Shown: the calendar is the Gregorian one, energy is conserved over any forward history,
    reports are consistent, finished runs are disjoint, averages lie between their readings (the one while running as long as its
    32-bit sum fits).

  \<^bold>\<open>How state and errors are modelled.\<close>  A C struct or the static variables of a module are a record, and
  each function takes and returns it.  An access outside a buffer is \<open>None\<close> (of an outer \<open>option\<close> where
  the function also has its own failure value), so that safety is \<open>\<noteq> None\<close>; result codes are
  datatypes with the constructors of the source.  Integers are words of their width wherever they can
  wrap, or integers with the wrap written out (\<open>s16\<close> and \<open>s32\<close> of \<open>Prelude\<close>: the running sum of the outdoor
  temperature, the ends of ranges in descriptors, millisecond differences); clocks, calendar days and
  the sums that the code keeps in \<open>int64_t\<close>, far from its limits, are \<open>int\<close>, as the head of each theory
  says.  Sizes of packed messages are \<open>nat\<close>: the theorems on packing into a buffer bound them by 2 GiB.
  Floats of the wire formats are their bit patterns.

  \<^bold>\<open>Loops and fuel.\<close>  Loops are structural recursions wherever their bound is in the data.  The two loops
  over a BACnet acknowledgement get as many rounds as bytes are left, which suffices because every
  round moves the position (\<open>rpm_props_safe\<close>, \<open>rpm_objects_safe\<close>).  The recursion of the unpacker on
  embedded messages has one level per received byte, which suffices because an embedded message is
  shorter than the one around it (\<open>unpack_depth_fine\<close>); running out of levels is a \<open>Fault\<close>, so the
  safety of unpacking includes that it returns.  Two loops may run forever and are
  \<open>partial_function (option)\<close>, where not returning is \<open>None\<close>: the doubling loop \<open>grow\<close> of the protobuf
  buffer, shown to return for a buffer with a positive capacity and room in 32 bits and not to return for
  capacity zero; and the rejection loop \<open>draw\<close> of the pairing code, over an infinite supply of random
  words, shown to return as soon as one of them is below the limit.

  \<^bold>\<open>Not modelled.\<close>  Drivers, tasks, locks and sockets (the controller, WiFi manager, HTTP server, OTA and
  cloud clients), files and NVS behind the stores, LVGL screens, fonts, translations and generated
  descriptors: they are input and output of the parts above or libraries of the platform.  Of
  protobuf-c, the release of messages and of memory on error paths (the model does not track who owns
  a heap object), \<open>protobuf_c_message_check\<close> (it tests the pointers of a C struct) and the services
  (function pointers that nothing sets).  Generated structs are modelled by index, not by address:
  \<open>desc_ok\<close> says that fields do not overlap except in a oneof.  Cryptography (digests, certificates) is in libraries
  outside the repository.  A mutex is the atomicity of an operation of the model, except the one of the
  integration token, which is held across calls and is part of the state of \<open>Auth_Manager\<close>; a login is one
  such operation although its digest is computed outside the lock, because a single server task runs
  all logins.  \<open>malloc\<close> (\<open>system_alloc\<close>) is taken where memory is available; failing allocators are
  functions of their own in \<open>buffer_simple_append_failures\<close> and \<open>unpack_safe\<close>.
\<close>

end
